(* ===== verification/GoPrelude.thy ===== *)
theory GoPrelude imports Main "HOL-Library.Monad_Syntax" begin

text \<open>
  Shared vocabulary of the development: the parts of the Go standard library the modelled
  code calls on strings (\<^verbatim>\<open>strings.Split\<close>, \<^verbatim>\<open>strings.ToLower\<close>, \<^verbatim>\<open>strings.HasSuffix\<close>,
  \<^verbatim>\<open>strings.Contains\<close>, \<^verbatim>\<open>strconv.ParseUint\<close>, ...), and the generic lemmas the components share.

  A Go string is a sequence of bytes and an Isabelle \<open>char\<close> is a byte, so a Go string is a
  \<open>string\<close>. Case folding is modelled on ASCII letters: the strings the modelled code
  folds are domain names, country codes and keywords, which are ASCII; other bytes stay as they
  are.

  A run-time panic of Go (a nil dereference, an index out of range) is the value \<open>None\<close> of an
  \<open>option\<close>; an \<^verbatim>\<open>error\<close> return value is \<open>Inl\<close> of a sum.
\<close>

named_theorems go_string \<open>facts on the model of Go's strings package\<close>

section \<open>Strings\<close>

abbreviation byte_of :: "char \<Rightarrow> nat" where
  "byte_of c \<equiv> of_char c"

definition lower_char :: "char \<Rightarrow> char" where
  "lower_char c = (let n = byte_of c in if 65 \<le> n \<and> n \<le> 90 then char_of (n + 32) else c)"

definition upper_char :: "char \<Rightarrow> char" where
  "upper_char c = (let n = byte_of c in if 97 \<le> n \<and> n \<le> 122 then char_of (n - 32) else c)"

definition ToLower :: "string \<Rightarrow> string" where
  "ToLower s = map lower_char s"

definition ToUpper :: "string \<Rightarrow> string" where
  "ToUpper s = map upper_char s"

definition EqualFold :: "string \<Rightarrow> string \<Rightarrow> bool" where
  "EqualFold s t \<longleftrightarrow> ToLower s = ToLower t"

fun HasPrefix :: "string \<Rightarrow> string \<Rightarrow> bool" where
  "HasPrefix s [] = True"
| "HasPrefix [] (p # ps) = False"
| "HasPrefix (c # s) (p # ps) = (c = p \<and> HasPrefix s ps)"

definition HasSuffix :: "string \<Rightarrow> string \<Rightarrow> bool" where
  "HasSuffix s suf = HasPrefix (rev s) (rev suf)"

fun Contains :: "string \<Rightarrow> string \<Rightarrow> bool" where
  "Contains [] k = (k = [])"
| "Contains (c # s) k = (HasPrefix (c # s) k \<or> Contains s k)"

text \<open>\<^verbatim>\<open>strings.Split\<close> on a one-byte separator: never the empty list.\<close>

fun Split :: "char \<Rightarrow> string \<Rightarrow> string list" where
  "Split c [] = [[]]"
| "Split c (x # xs) =
     (if x = c then [] # Split c xs
      else case Split c xs of [] \<Rightarrow> [[x]] | y # ys \<Rightarrow> (x # y) # ys)"

text \<open>\<^verbatim>\<open>strings.SplitN(s, sep, 2)\<close>: cut at the first separator, if there is one.\<close>

fun Split2 :: "char \<Rightarrow> string \<Rightarrow> string list" where
  "Split2 c [] = [[]]"
| "Split2 c (x # xs) =
     (if x = c then [[], xs]
      else case Split2 c xs of [] \<Rightarrow> [[x]] | y # ys \<Rightarrow> (x # y) # ys)"

text \<open>\<^verbatim>\<open>strings.Join\<close>.\<close>

fun Join :: "string \<Rightarrow> string list \<Rightarrow> string" where
  "Join sep [] = []"
| "Join sep [x] = x"
| "Join sep (x # y # ys) = x @ sep @ Join sep (y # ys)"

text \<open>\<^verbatim>\<open>strings.Trim(s, cutset)\<close>.\<close>

definition Trim :: "string \<Rightarrow> string \<Rightarrow> string" where
  "Trim cs s = rev (dropWhile (\<lambda>c. c \<in> set cs) (rev (dropWhile (\<lambda>c. c \<in> set cs) s)))"

text \<open>The ASCII characters that \<^verbatim>\<open>strings.TrimSpace\<close> cuts.\<close>

definition TrimSpace :: "string \<Rightarrow> string" where
  "TrimSpace = Trim [CHR 0x09, CHR 0x0A, CHR 0x0B, CHR 0x0C, CHR 0x0D, CHR 0x20]"

text \<open>\<^verbatim>\<open>strconv.ParseUint(s, 10, bits)\<close>: digits only (no sign, no underscore in base 10), at
  least one, and the value fits into \<open>bits\<close> bits; \<open>None\<close> is the error return.\<close>

definition is_digit :: "char \<Rightarrow> bool" where
  "is_digit c \<longleftrightarrow> 48 \<le> byte_of c \<and> byte_of c \<le> 57"

definition digits_val :: "string \<Rightarrow> nat" where
  "digits_val s = foldl (\<lambda>n c. 10 * n + (byte_of c - 48)) 0 s"

definition ParseUint :: "nat \<Rightarrow> string \<Rightarrow> nat option" where
  "ParseUint bits s =
     (if s \<noteq> [] \<and> list_all is_digit s \<and> digits_val s < 2 ^ bits then Some (digits_val s)
      else None)"

text \<open>\<^verbatim>\<open>strconv.Atoi\<close> with the error dropped, as in \<^verbatim>\<open>port, _ := strconv.Atoi(s)\<close>: an optional
  sign, then digits. A syntax error gives 0; out of the 64-bit range it gives the nearest end.\<close>

definition clamp64 :: "int \<Rightarrow> int" where
  "clamp64 n = max (- (2 ^ 63)) (min (2 ^ 63 - 1) n)"

definition Atoi_val :: "string \<Rightarrow> int" where
  "Atoi_val s =
     (let neg = (case s of c # _ \<Rightarrow> c = CHR ''-'' | [] \<Rightarrow> False);
          t = (case s of c # r \<Rightarrow> if c = CHR ''-'' \<or> c = CHR ''+'' then r else s | [] \<Rightarrow> [])
      in if t \<noteq> [] \<and> list_all is_digit t
         then clamp64 (if neg then - int (digits_val t) else int (digits_val t)) else 0)"

section \<open>Lemmas on strings\<close>

lemma HasPrefix_iff [go_string]: "HasPrefix s p \<longleftrightarrow> (\<exists>t. s = p @ t)"
  by (induction s p rule: HasPrefix.induct) auto

lemma HasSuffix_iff [go_string]: "HasSuffix s p \<longleftrightarrow> (\<exists>t. s = t @ p)"
proof -
  have "(\<exists>t. rev s = rev p @ t) \<longleftrightarrow> (\<exists>t. s = t @ p)"
    by (metis rev_append rev_rev_ident)
  then show ?thesis by (simp add: HasSuffix_def HasPrefix_iff)
qed

lemma Contains_iff [go_string]: "Contains s k \<longleftrightarrow> (\<exists>u v. s = u @ k @ v)"
proof (induction s)
  case (Cons c s)
  have "(\<exists>u v. c # s = u @ k @ v) \<longleftrightarrow> (\<exists>v. c # s = k @ v) \<or> (\<exists>u v. s = u @ k @ v)"
    by (metis append_Cons append_Nil neq_Nil_conv list.inject)
  with Cons show ?case by (simp add: HasPrefix_iff)
qed auto

lemma Split_not_Nil [simp]: "Split c s \<noteq> []"
  by (induction s) (auto split: list.splits)

lemma Join_Cons_not_Nil: "ys \<noteq> [] \<Longrightarrow> Join sep (x # ys) = x @ sep @ Join sep ys"
  by (cases ys) auto

lemma Join_Cons_first: "Join sep ((x # y) # ys) = x # Join sep (y # ys)"
  by (cases ys) auto

text \<open>Splitting and joining are inverse: nothing of the string is lost.\<close>

lemma Join_Split [go_string]: "Join [c] (Split c s) = s"
proof (induction s)
  case (Cons x xs)
  obtain y ys where eq: "Split c xs = y # ys"
    using Split_not_Nil [of c xs] by (cases "Split c xs") auto
  with Cons show ?case
    by (auto simp: Join_Cons_not_Nil Join_Cons_first)
qed simp

lemma Split_no_sep: "p \<in> set (Split c s) \<Longrightarrow> c \<notin> set p"
  by (induction s arbitrary: p) (auto split: if_splits list.splits)

lemma Split_self: "c \<notin> set p \<Longrightarrow> Split c p = [p]"
  by (induction p) auto

lemma Split_append: "c \<notin> set p \<Longrightarrow> Split c (p @ c # s) = p # Split c s"
  by (induction p) auto

lemma Split_Join:
  "ps \<noteq> [] \<Longrightarrow> \<forall>p \<in> set ps. c \<notin> set p \<Longrightarrow> Split c (Join [c] ps) = ps"
  by (induction "[c]" ps rule: Join.induct) (auto simp: Split_self Split_append)

lemma of_char_lower: "c \<noteq> d \<Longrightarrow> byte_of d \<notin> {97..122} \<Longrightarrow> lower_char c \<noteq> d"
  by (auto simp: lower_char_def Let_def of_char_of split: if_splits)

lemma lower_char_idem [simp]: "lower_char (lower_char c) = lower_char c"
  by (auto simp: lower_char_def Let_def of_char_of take_bit_eq_mod)

lemma ToLower_idem [simp]: "ToLower (ToLower s) = ToLower s"
  by (simp add: ToLower_def)

lemma ToLower_simps [simp]:
  "ToLower [] = []" "ToLower (c # s) = lower_char c # ToLower s"
  "ToLower (s @ t) = ToLower s @ ToLower t" "ToLower s = [] \<longleftrightarrow> s = []"
  by (auto simp: ToLower_def)

section \<open>Lists\<close>

lemma split_at_unique:
  "xs @ m # ys = us @ m # vs \<Longrightarrow> m \<notin> set xs \<Longrightarrow> m \<notin> set us \<Longrightarrow> xs = us \<and> ys = vs"
proof (induction xs arbitrary: us)
  case Nil
  then show ?case by (cases us) auto
next
  case (Cons x xs)
  then show ?case by (cases us) auto
qed

lemma in_set_tlD: "x \<in> set (tl xs) \<Longrightarrow> x \<in> set xs"
  by (cases xs) auto

lemma list_cases_rev: "(xs = [] \<Longrightarrow> P) \<Longrightarrow> (\<And>ys y. xs = ys @ [y] \<Longrightarrow> P) \<Longrightarrow> P"
  by (rule rev_cases [of xs]) auto

lemma remove1_append_mid: "x \<notin> set ys \<Longrightarrow> remove1 x (ys @ x # zs) = ys @ zs"
  by (induction ys) auto

lemma distinct_split:
  "x \<in> set xs \<Longrightarrow> distinct xs \<Longrightarrow> \<exists>ys zs. xs = ys @ x # zs \<and> x \<notin> set ys \<and> x \<notin> set zs"
  by (metis distinct.simps(2) distinct_append not_distinct_conv_prefix split_list)

section \<open>Go maps and slices\<close>

text \<open>A Go map that is iterated over, copied or cleaned is kept as its list of pairs with distinct
  keys.\<close>

text \<open>Assignment to a key of a Go map.\<close>

fun map_put :: "'k \<Rightarrow> 'v \<Rightarrow> ('k \<times> 'v) list \<Rightarrow> ('k \<times> 'v) list" where
  "map_put k v [] = [(k, v)]"
| "map_put k v ((k', v') # m) = (if k' = k then (k, v) # m else (k', v') # map_put k v m)"

definition map_del :: "'k \<Rightarrow> ('k \<times> 'v) list \<Rightarrow> ('k \<times> 'v) list" where
  "map_del k m = filter (\<lambda>p. fst p \<noteq> k) m"

text \<open>Indexing a slice panics out of range.\<close>

definition idx :: "'a list \<Rightarrow> nat \<Rightarrow> 'a option" where
  "idx xs i = (if i < length xs then Some (xs ! i) else None)"

lemma map_of_put [simp]: "map_of (map_put k v m) = (map_of m)(k \<mapsto> v)"
  by (induction k v m rule: map_put.induct) auto

lemma keys_put: "fst ` set (map_put k v m) = insert k (fst ` set m)"
  by (induction k v m rule: map_put.induct) auto

lemma distinct_put: "distinct (map fst m) \<Longrightarrow> distinct (map fst (map_put k v m))"
  by (induction k v m rule: map_put.induct) (auto simp: keys_put)

lemma map_of_del [simp]: "map_of (map_del k m) = (map_of m)(k := None)"
  by (induction m) (auto simp: map_del_def)

lemma idx_simps [simp]:
  "idx [] i = None" "idx (x # xs) 0 = Some x" "idx (x # xs) (Suc i) = idx xs i"
  "idx xs i = None \<longleftrightarrow> length xs \<le> i"
  by (auto simp: idx_def)

lemma idx_Some_iff: "idx xs i = Some x \<longleftrightarrow> i < length xs \<and> xs ! i = x"
  by (auto simp: idx_def)

end
