(* ===== verification/LinkedList.thy ===== *)
theory LinkedList imports GoPrelude begin

text \<open>
  \<^verbatim>\<open>common/generics/list/list.go\<close>: the doubly linked list under the LRU cache. The code links
  \<^verbatim>\<open>Element\<close> structs by pointers into a ring through the sentinel \<^verbatim>\<open>&l.root\<close>; the model keeps the
  pointers. A heap holds one map per field of \<^verbatim>\<open>Element\<close> (\<open>nxt\<close>, \<open>prv\<close>, \<open>own\<close> for the field
  \<^verbatim>\<open>list\<close>, \<open>val\<close> for \<^verbatim>\<open>Value\<close>) and the field \<^verbatim>\<open>len\<close> of every \<^verbatim>\<open>List\<close>. An operation is the
  sequence of the code's assignments; a nil dereference is \<open>None\<close>.

  \<open>ring h l xs\<close> says that the heap holds, as list \<open>l\<close>, exactly the elements \<open>xs\<close> in this order.
  The refinement lemmas show that every operation of the file is the operation on \<open>xs\<close> its
  documentation states, that it never dereferences nil, and that it leaves every other list of
  the heap alone.
\<close>

section \<open>The heap\<close>

text \<open>The address of a \<^verbatim>\<open>List\<close> struct; an element's address is the sentinel of a list or a
  heap-allocated \<^verbatim>\<open>Element\<close>.\<close>

type_synonym lid = nat

datatype addr = Root lid | El nat

record 'a lheap =
  nxt :: "addr \<Rightarrow> addr option"
  prv :: "addr \<Rightarrow> addr option"
  own :: "addr \<Rightarrow> lid option"
  val :: "addr \<Rightarrow> 'a option"
  len :: "lid \<Rightarrow> int"
  nelem :: nat
  nlist :: nat

definition empty_lheap :: "'a lheap" where
  "empty_lheap = \<lparr>nxt = (\<lambda>_. None), prv = (\<lambda>_. None), own = (\<lambda>_. None), val = (\<lambda>_. None),
     len = (\<lambda>_. 0), nelem = 0, nlist = 0\<rparr>"

definition set_nxt :: "addr \<Rightarrow> addr option \<Rightarrow> 'a lheap \<Rightarrow> 'a lheap" where
  "set_nxt a v h = h\<lparr>nxt := (nxt h)(a := v)\<rparr>"

definition set_prv :: "addr \<Rightarrow> addr option \<Rightarrow> 'a lheap \<Rightarrow> 'a lheap" where
  "set_prv a v h = h\<lparr>prv := (prv h)(a := v)\<rparr>"

definition set_own :: "addr \<Rightarrow> lid option \<Rightarrow> 'a lheap \<Rightarrow> 'a lheap" where
  "set_own a v h = h\<lparr>own := (own h)(a := v)\<rparr>"

definition add_len :: "lid \<Rightarrow> int \<Rightarrow> 'a lheap \<Rightarrow> 'a lheap" where
  "add_len l d h = h\<lparr>len := (len h)(l := len h l + d)\<rparr>"

text \<open>\<^verbatim>\<open>&Element[T]{Value: v}\<close>.\<close>

definition alloc :: "'a \<Rightarrow> 'a lheap \<Rightarrow> 'a lheap \<times> addr" where
  "alloc v h = (let e = El (nelem h) in
     (h\<lparr>nxt := (nxt h)(e := None), prv := (prv h)(e := None), own := (own h)(e := None),
        val := (val h)(e := Some v), nelem := Suc (nelem h)\<rparr>, e))"

lemmas heap_ops = set_nxt_def set_prv_def set_own_def add_len_def

section \<open>The operations of list.go\<close>

definition Next :: "'a lheap \<Rightarrow> addr \<Rightarrow> addr option" where
  "Next h e = (case own h e of None \<Rightarrow> None
     | Some l \<Rightarrow> if nxt h e = Some (Root l) then None else nxt h e)"

definition Prev :: "'a lheap \<Rightarrow> addr \<Rightarrow> addr option" where
  "Prev h e = (case own h e of None \<Rightarrow> None
     | Some l \<Rightarrow> if prv h e = Some (Root l) then None else prv h e)"

definition Init :: "lid \<Rightarrow> 'a lheap \<Rightarrow> 'a lheap" where
  "Init l h = (set_prv (Root l) (Some (Root l)) (set_nxt (Root l) (Some (Root l)) h))
     \<lparr>len := (len h)(l := 0)\<rparr>"

text \<open>\<^verbatim>\<open>New\<close>: \<^verbatim>\<open>new(List[T])\<close> is a zeroed struct at a fresh address.\<close>

definition New :: "'a lheap \<Rightarrow> 'a lheap \<times> lid" where
  "New h = (let l = nlist h in (Init l (h\<lparr>nlist := Suc l\<rparr>), l))"

definition Len :: "'a lheap \<Rightarrow> lid \<Rightarrow> int" where
  "Len h l = len h l"

definition Front :: "'a lheap \<Rightarrow> lid \<Rightarrow> addr option" where
  "Front h l = (if len h l = 0 then None else nxt h (Root l))"

definition Back :: "'a lheap \<Rightarrow> lid \<Rightarrow> addr option" where
  "Back h l = (if len h l = 0 then None else prv h (Root l))"

definition lazyInit :: "lid \<Rightarrow> 'a lheap \<Rightarrow> 'a lheap" where
  "lazyInit l h = (if nxt h (Root l) = None then Init l h else h)"

definition insert_el :: "lid \<Rightarrow> addr \<Rightarrow> addr \<Rightarrow> 'a lheap \<Rightarrow> ('a lheap \<times> addr) option" where
  "insert_el l e at h = do {
     let h = set_prv e (Some at) h;
     let h = set_nxt e (nxt h at) h;
     p \<leftarrow> prv h e;
     let h = set_nxt p (Some e) h;
     n \<leftarrow> nxt h e;
     let h = set_prv n (Some e) h;
     let h = set_own e (Some l) h;
     Some (add_len l 1 h, e)
   }"

definition insertValue :: "lid \<Rightarrow> 'a \<Rightarrow> addr \<Rightarrow> 'a lheap \<Rightarrow> ('a lheap \<times> addr) option" where
  "insertValue l v at h = (case alloc v h of (h, e) \<Rightarrow> insert_el l e at h)"

definition remove_el :: "lid \<Rightarrow> addr \<Rightarrow> 'a lheap \<Rightarrow> 'a lheap option" where
  "remove_el l e h = do {
     p \<leftarrow> prv h e;
     let h = set_nxt p (nxt h e) h;
     n \<leftarrow> nxt h e;
     let h = set_prv n (prv h e) h;
     let h = set_nxt e None h;
     let h = set_prv e None h;
     let h = set_own e None h;
     Some (add_len l (-1) h)
   }"

definition move_el :: "addr \<Rightarrow> addr \<Rightarrow> 'a lheap \<Rightarrow> 'a lheap option" where
  "move_el e at h = (if e = at then Some h else do {
     p \<leftarrow> prv h e;
     let h = set_nxt p (nxt h e) h;
     n \<leftarrow> nxt h e;
     let h = set_prv n (prv h e) h;
     let h = set_prv e (Some at) h;
     let h = set_nxt e (nxt h at) h;
     p \<leftarrow> prv h e;
     let h = set_nxt p (Some e) h;
     n \<leftarrow> nxt h e;
     Some (set_prv n (Some e) h)
   })"

definition Remove :: "lid \<Rightarrow> addr \<Rightarrow> 'a lheap \<Rightarrow> ('a lheap \<times> 'a option) option" where
  "Remove l e h =
     (if own h e = Some l then map_option (\<lambda>h'. (h', val h' e)) (remove_el l e h)
      else Some (h, val h e))"

definition PushFront :: "lid \<Rightarrow> 'a \<Rightarrow> 'a lheap \<Rightarrow> ('a lheap \<times> addr) option" where
  "PushFront l v h = insertValue l v (Root l) (lazyInit l h)"

definition PushBack :: "lid \<Rightarrow> 'a \<Rightarrow> 'a lheap \<Rightarrow> ('a lheap \<times> addr) option" where
  "PushBack l v h = do {
     let h = lazyInit l h;
     b \<leftarrow> prv h (Root l);
     insertValue l v b h
   }"

text \<open>\<^verbatim>\<open>InsertBefore\<close> and \<^verbatim>\<open>InsertAfter\<close> return a nil element, here \<open>None\<close> in the second place,
  when the mark is not in the list.\<close>

definition InsertBefore :: "lid \<Rightarrow> 'a \<Rightarrow> addr \<Rightarrow> 'a lheap \<Rightarrow> ('a lheap \<times> addr option) option" where
  "InsertBefore l v mark h =
     (if own h mark \<noteq> Some l then Some (h, None)
      else do { p \<leftarrow> prv h mark; (h', e) \<leftarrow> insertValue l v p h; Some (h', Some e) })"

definition InsertAfter :: "lid \<Rightarrow> 'a \<Rightarrow> addr \<Rightarrow> 'a lheap \<Rightarrow> ('a lheap \<times> addr option) option" where
  "InsertAfter l v mark h =
     (if own h mark \<noteq> Some l then Some (h, None)
      else do { (h', e) \<leftarrow> insertValue l v mark h; Some (h', Some e) })"

definition MoveToFront :: "lid \<Rightarrow> addr \<Rightarrow> 'a lheap \<Rightarrow> 'a lheap option" where
  "MoveToFront l e h =
     (if own h e \<noteq> Some l \<or> nxt h (Root l) = Some e then Some h else move_el e (Root l) h)"

definition MoveToBack :: "lid \<Rightarrow> addr \<Rightarrow> 'a lheap \<Rightarrow> 'a lheap option" where
  "MoveToBack l e h =
     (if own h e \<noteq> Some l \<or> prv h (Root l) = Some e then Some h
      else do { b \<leftarrow> prv h (Root l); move_el e b h })"

definition MoveBefore :: "lid \<Rightarrow> addr \<Rightarrow> addr \<Rightarrow> 'a lheap \<Rightarrow> 'a lheap option" where
  "MoveBefore l e mark h =
     (if own h e \<noteq> Some l \<or> e = mark \<or> own h mark \<noteq> Some l then Some h
      else do { p \<leftarrow> prv h mark; move_el e p h })"

definition MoveAfter :: "lid \<Rightarrow> addr \<Rightarrow> addr \<Rightarrow> 'a lheap \<Rightarrow> 'a lheap option" where
  "MoveAfter l e mark h =
     (if own h e \<noteq> Some l \<or> e = mark \<or> own h mark \<noteq> Some l then Some h
      else move_el e mark h)"

text \<open>The loops of \<^verbatim>\<open>PushBackList\<close> and \<^verbatim>\<open>PushFrontList\<close> count the length of the other list, read
  once before the loop, down to 0.\<close>

fun pushBackLoop :: "lid \<Rightarrow> nat \<Rightarrow> addr option \<Rightarrow> 'a lheap \<Rightarrow> 'a lheap option" where
  "pushBackLoop l 0 e h = Some h"
| "pushBackLoop l (Suc i) e h = do {
     e \<leftarrow> e;
     v \<leftarrow> val h e;
     b \<leftarrow> prv h (Root l);
     (h, _) \<leftarrow> insertValue l v b h;
     pushBackLoop l i (Next h e) h
   }"

definition PushBackList :: "lid \<Rightarrow> lid \<Rightarrow> 'a lheap \<Rightarrow> 'a lheap option" where
  "PushBackList l other h =
     (let h = lazyInit l h in pushBackLoop l (nat (Len h other)) (Front h other) h)"

fun pushFrontLoop :: "lid \<Rightarrow> nat \<Rightarrow> addr option \<Rightarrow> 'a lheap \<Rightarrow> 'a lheap option" where
  "pushFrontLoop l 0 e h = Some h"
| "pushFrontLoop l (Suc i) e h = do {
     e \<leftarrow> e;
     v \<leftarrow> val h e;
     (h, _) \<leftarrow> insertValue l v (Root l) h;
     pushFrontLoop l i (Prev h e) h
   }"

definition PushFrontList :: "lid \<Rightarrow> lid \<Rightarrow> 'a lheap \<Rightarrow> 'a lheap option" where
  "PushFrontList l other h =
     (let h = lazyInit l h in pushFrontLoop l (nat (Len h other)) (Back h other) h)"

section \<open>The ring a heap holds\<close>

fun adj :: "'b list \<Rightarrow> ('b \<times> 'b) set" where
  "adj [] = {}"
| "adj [x] = {}"
| "adj (x # y # zs) = insert (x, y) (adj (y # zs))"

lemma adj_append:
  "p \<noteq> [] \<Longrightarrow> q \<noteq> [] \<Longrightarrow> adj (p @ q) = adj p \<union> {(last p, hd q)} \<union> adj q"
proof (induction p rule: adj.induct)
  case (2 x)
  then show ?case by (cases q) auto
qed auto

lemma adj_fst: "(a, b) \<in> adj p \<Longrightarrow> a \<in> set (butlast p)"
  by (induction p rule: adj.induct) auto

lemma adj_snd: "(a, b) \<in> adj p \<Longrightarrow> b \<in> set (tl p)"
  by (induction p rule: adj.induct) (auto dest: list.set_sel)

lemma adj_snd': "(a, b) \<in> adj p \<Longrightarrow> a \<in> set p \<and> b \<in> set p"
  by (induction p rule: adj.induct) auto

text \<open>\<open>links n p path\<close>: along the path, the next and previous pointers agree.\<close>

definition links :: "(addr \<Rightarrow> addr option) \<Rightarrow> (addr \<Rightarrow> addr option) \<Rightarrow> addr list \<Rightarrow> bool" where
  "links n p path \<longleftrightarrow> (\<forall>(a, b) \<in> adj path. n a = Some b \<and> p b = Some a)"

lemma links_append:
  "p \<noteq> [] \<Longrightarrow> q \<noteq> [] \<Longrightarrow> links n v (p @ q) \<longleftrightarrow>
     links n v p \<and> links n v q \<and> n (last p) = Some (hd q) \<and> v (hd q) = Some (last p)"
  by (auto simp: links_def adj_append)

lemma links_single [simp]: "links n v [x]"
  by (simp add: links_def)

lemma links_upd:
  "links n v p \<Longrightarrow> a \<notin> set (butlast p) \<Longrightarrow> b \<notin> set (tl p) \<Longrightarrow>
     links (n(a := x)) v p \<and> links n (v(b := y)) p"
  unfolding links_def using adj_fst adj_snd by fastforce

lemma links_upd2:
  "links n v p \<Longrightarrow> a \<notin> set (butlast p) \<Longrightarrow> b \<notin> set (tl p) \<Longrightarrow>
     links (n(a := x)) (v(b := y)) p"
  using links_upd by blast

lemma links_cong:
  "(\<And>a. a \<in> set p \<Longrightarrow> n a = n' a \<and> v a = v' a) \<Longrightarrow> links n v p = links n' v' p"
  unfolding links_def using adj_snd' by fastforce

lemma links_insert:
  assumes "links n v (p @ q)" "p \<noteq> []" "q \<noteq> []"
    and "distinct (butlast (p @ q))" "distinct (tl (p @ q))" "e \<notin> set (p @ q)"
  shows "links (n(e := Some (hd q), last p := Some e)) (v(e := Some (last p), hd q := Some e))
           (p @ e # q)"
proof -
  from assms(2) obtain us a where p: "p = us @ [a]" by (metis rev_exhaust)
  from assms(3) obtain b vs where q: "q = b # vs" by (metis neq_Nil_conv)
  from assms have d: "a \<notin> set us" "a \<notin> set (butlast q)" "b \<notin> set (tl p)" "b \<notin> set vs"
    by (cases us; auto simp: p q butlast_append split: if_splits)+
  from assms have l: "links n v p" "links n v q" by (simp_all add: links_append)
  have 1: "links (n(e := Some b, a := Some e)) (v(e := Some a, b := Some e)) p"
    using l(1) d assms(6) by (intro links_upd2) (auto simp: p dest: in_set_butlastD in_set_tlD)
  have 2: "links (n(e := Some b, a := Some e)) (v(e := Some a, b := Some e)) q"
    using l(2) d assms(6) by (intro links_upd2) (auto simp: q dest: in_set_butlastD)
  have "a \<noteq> e" "b \<noteq> e" using assms(6) by (auto simp: p q)
  with 1 2 show ?thesis
    using links_append [of p "e # q"] links_append [of "[e]" q] by (simp add: p q)
qed

lemma links_remove:
  assumes "links n v (p @ e # q)" "p \<noteq> []" "q \<noteq> []"
    and "distinct (butlast (p @ e # q))" "distinct (tl (p @ e # q))"
  shows "links (n(last p := Some (hd q))) (v(hd q := Some (last p))) (p @ q)"
proof -
  from assms(2) obtain us a where p: "p = us @ [a]" by (metis rev_exhaust)
  from assms(3) obtain b vs where q: "q = b # vs" by (metis neq_Nil_conv)
  from assms have d: "a \<notin> set us" "a \<notin> set (butlast q)" "b \<notin> set (tl p)" "b \<notin> set vs"
    by (cases us; auto simp: p q butlast_append split: if_splits)+
  from assms have l: "links n v p" "links n v q"
    using links_append [of p "e # q"] links_append [of "[e]" q] by simp_all
  have 1: "links (n(a := Some b)) (v(b := Some a)) p"
    using l(1) d by (intro links_upd2) (auto simp: p)
  have 2: "links (n(a := Some b)) (v(b := Some a)) q"
    using l(2) d by (intro links_upd2) (auto simp: q)
  from 1 2 show ?thesis using links_append [of p q] by (simp add: p q)
qed

definition ring_path :: "lid \<Rightarrow> addr list \<Rightarrow> addr list" where
  "ring_path l xs = Root l # xs @ [Root l]"

definition ring :: "'a lheap \<Rightarrow> lid \<Rightarrow> addr list \<Rightarrow> bool" where
  "ring h l xs \<longleftrightarrow>
     links (nxt h) (prv h) (ring_path l xs) \<and> distinct xs \<and>
     (\<forall>x \<in> set xs. (\<exists>n < nelem h. x = El n) \<and> own h x = Some l \<and> val h x \<noteq> None) \<and>
     len h l = int (length xs) \<and> l < nlist h"

text \<open>What an operation on list \<open>l\<close> leaves alone: the other lists, and the values stored.\<close>

definition frame :: "lid \<Rightarrow> 'a lheap \<Rightarrow> 'a lheap \<Rightarrow> bool" where
  "frame l h h' \<longleftrightarrow> (\<forall>m ys. m \<noteq> l \<longrightarrow> ring h m ys \<longrightarrow> ring h' m ys) \<and>
     (\<forall>n < nelem h. val h' (El n) = val h (El n)) \<and> nelem h \<le> nelem h' \<and> nlist h' = nlist h"

lemma links_functional:
  assumes "links n v (a # xs @ [z])" "links n v (a # ys @ [z])" "z \<notin> set xs" "z \<notin> set ys"
  shows "xs = ys"
  using assms
proof (induction xs arbitrary: a ys)
  case Nil
  then show ?case by (cases ys) (auto simp: links_def)
next
  case (Cons x xs)
  then obtain y ys' where "ys = y # ys'" by (cases ys) (auto simp: links_def)
  with Cons.prems Cons.IH [of x ys'] show ?case by (auto simp: links_def)
qed

lemma ring_unique: "ring h l xs \<Longrightarrow> ring h l ys \<Longrightarrow> xs = ys"
  by (rule links_functional [of "nxt h" "prv h" "Root l" xs "Root l"])
     (auto simp: ring_def ring_path_def)

lemma frame_refl [simp]: "frame l h h"
  by (simp add: frame_def)

lemma frame_trans: "frame l h h' \<Longrightarrow> frame l h' h'' \<Longrightarrow> frame l h h''"
  by (simp add: frame_def)

lemma ring_El: "ring h l xs \<Longrightarrow> x \<in> set xs \<Longrightarrow> \<exists>n < nelem h. x = El n"
  by (auto simp: ring_def)

lemma ring_no_Root: "ring h l xs \<Longrightarrow> Root m \<notin> set xs"
  by (auto dest: ring_El)

lemma ring_distinct_path:
  assumes "ring h l xs"
  shows "distinct (butlast (ring_path l xs))" "distinct (tl (ring_path l xs))"
  using assms ring_no_Root [OF assms] by (auto simp: ring_path_def ring_def)

lemma ring_not_nil:
  assumes "ring h l (ys @ zs)"
  shows "nxt h (last (Root l # ys)) = Some (hd (zs @ [Root l]))"
    "prv h (hd (zs @ [Root l])) = Some (last (Root l # ys))"
proof -
  have "links (nxt h) (prv h) ((Root l # ys) @ (zs @ [Root l]))"
    using assms by (simp add: ring_def ring_path_def)
  then show "nxt h (last (Root l # ys)) = Some (hd (zs @ [Root l]))"
    "prv h (hd (zs @ [Root l])) = Some (last (Root l # ys))"
    by (simp_all add: links_append del: append_Cons)
qed

lemma ring_own_neq: "ring h l xs \<Longrightarrow> ring h m ys \<Longrightarrow> l \<noteq> m \<Longrightarrow> set (ring_path l xs) \<inter> set (ring_path m ys) = {}"
  by (fastforce simp: ring_def ring_path_def)

section \<open>The primitive operations refine list operations\<close>

lemma ringI_frame:
  assumes "ring h m ys" "set (ring_path m ys) \<inter> A = {}"
    and "\<And>a. a \<notin> A \<Longrightarrow> nxt h' a = nxt h a \<and> prv h' a = prv h a \<and> own h' a = own h a"
    and "\<And>n. n < nelem h \<Longrightarrow> val h' (El n) = val h (El n)"
    and "nelem h \<le> nelem h'" "nlist h \<le> nlist h'" "len h' m = len h m"
  shows "ring h' m ys"
proof -
  have "a \<in> set (ring_path m ys) \<Longrightarrow> nxt h' a = nxt h a \<and> prv h' a = prv h a \<and> own h' a = own h a" for a
    using assms(2,3) by blast
  with assms(1,4-7) show ?thesis
    unfolding ring_def using links_cong [of "ring_path m ys" "nxt h'" "nxt h" "prv h'" "prv h"]
    by (fastforce simp: ring_path_def)
qed

lemma insert_el_ring:
  assumes R: "ring h l (ys @ zs)" and n: "n < nelem h" and e: "own h (El n) = None"
    and v: "val h (El n) \<noteq> None" and at: "at = last (Root l # ys)"
  shows "\<exists>h'. insert_el l (El n) at h = Some (h', El n) \<and> ring h' l (ys @ El n # zs) \<and>
     frame l h h' \<and> val h' = val h \<and> nelem h' = nelem h"
proof -
  let ?p = "Root l # ys" let ?q = "zs @ [Root l]" let ?e = "El n" let ?b = "hd ?q"
  have path: "ring_path l (ys @ zs) = ?p @ ?q" by (simp add: ring_path_def)
  have fresh: "?e \<notin> set (?p @ ?q)" using R e by (auto simp: ring_def)
  have b: "nxt h at = Some ?b" "prv h ?b = Some at" using ring_not_nil [OF R] at by auto
  have at_in: "at \<in> set ?p" and b_in: "?b \<in> set ?q"
    using at last_in_set [of ?p] hd_in_set [of ?q] by blast+
  then have ne: "at \<noteq> ?e" "?b \<noteq> ?e" using fresh by auto
  define h' where "h' = h\<lparr>nxt := (nxt h)(?e := Some ?b, at := Some ?e),
     prv := (prv h)(?e := Some at, ?b := Some ?e), own := (own h)(?e := Some l),
     len := (len h)(l := len h l + 1)\<rparr>"
  have run: "insert_el l ?e at h = Some (h', ?e)"
    using b ne by (simp add: insert_el_def heap_ops h'_def Let_def fun_upd_twist)
  have "links (nxt h') (prv h') (?p @ ?e # ?q)"
    using links_insert [of "nxt h" "prv h" ?p ?q ?e] R fresh ring_distinct_path [OF R] at
    by (simp add: h'_def ring_def path)
  then have ring': "ring h' l (ys @ ?e # zs)"
    using R n v fresh by (auto simp: ring_def ring_path_def h'_def)
  have "ring h' m ws" if "m \<noteq> l" "ring h m ws" for m ws
  proof (rule ringI_frame [OF that(2), of "insert ?e (set (ring_path l (ys @ zs)))"])
    show "set (ring_path m ws) \<inter> insert ?e (set (ring_path l (ys @ zs))) = {}"
      using ring_own_neq [OF that(2) R that(1)] that(2) e by (auto simp: ring_def ring_path_def)
  qed (use at_in b_in path that(1) in \<open>auto simp: h'_def\<close>)
  then have "frame l h h'" by (simp add: frame_def h'_def)
  with run ring' show ?thesis by (auto simp: h'_def)
qed

lemma alloc_simps:
  "alloc v h = (h', e) \<Longrightarrow> e = El (nelem h) \<and> nelem h' = Suc (nelem h) \<and> own h' e = None \<and>
     val h' e = Some v \<and> nlist h' = nlist h \<and> len h' = len h"
  by (auto simp: alloc_def Let_def)

lemma alloc_ring: "ring h m ys \<Longrightarrow> alloc v h = (h', e) \<Longrightarrow> ring h' m ys"
  by (rule ringI_frame [of h m ys "{El (nelem h)}"])
     (auto simp: alloc_def Let_def ring_def ring_path_def)

lemma alloc_frame: "alloc v h = (h', e) \<Longrightarrow> frame l h h'"
  using alloc_ring by (fastforce simp: frame_def alloc_def Let_def)

lemma insertValue_ring:
  assumes R: "ring h l (ys @ zs)" and at: "at = last (Root l # ys)"
  shows "\<exists>h'. insertValue l v at h = Some (h', El (nelem h)) \<and>
     ring h' l (ys @ El (nelem h) # zs) \<and> frame l h h' \<and> val h' (El (nelem h)) = Some v \<and>
     nelem h' = Suc (nelem h)"
proof -
  obtain h1 where a: "alloc v h = (h1, El (nelem h))" by (simp add: alloc_def Let_def)
  note a' = alloc_simps [OF a]
  obtain h' where "insert_el l (El (nelem h)) at h1 = Some (h', El (nelem h))"
    "ring h' l (ys @ El (nelem h) # zs)" "frame l h1 h'" "val h' = val h1" "nelem h' = nelem h1"
    using insert_el_ring [OF alloc_ring [OF R a], of "nelem h"] a' at by auto
  moreover have "frame l h h'" using frame_trans [OF alloc_frame [OF a]] calculation(3) by blast
  ultimately show ?thesis using a a' by (auto simp: insertValue_def)
qed

lemma remove_el_ring:
  assumes R: "ring h l (ys @ e # zs)"
  shows "\<exists>h'. remove_el l e h = Some h' \<and> ring h' l (ys @ zs) \<and> frame l h h' \<and> val h' = val h \<and>
     nelem h' = nelem h \<and> own h' e = None"
proof -
  let ?p = "Root l # ys" let ?q = "zs @ [Root l]" let ?a = "last ?p" let ?b = "hd ?q"
  have path: "ring_path l (ys @ e # zs) = ?p @ e # ?q" by (simp add: ring_path_def)
  have d: "e \<notin> set ?p" "e \<notin> set ?q"
    using R ring_no_Root [OF R] by (auto simp: ring_def)
  have a: "prv h e = Some ?a" and b: "nxt h e = Some ?b"
    using ring_not_nil [of h l ys "e # zs"] ring_not_nil [of h l "ys @ [e]" zs] R by auto
  have a_in: "?a \<in> set ?p" and b_in: "?b \<in> set ?q"
    using last_in_set [of ?p] hd_in_set [of ?q] by blast+
  then have ne: "?a \<noteq> e" "?b \<noteq> e" using d by auto
  define h' where "h' = h\<lparr>nxt := (nxt h)(?a := Some ?b, e := None),
     prv := (prv h)(?b := Some ?a, e := None), own := (own h)(e := None),
     len := (len h)(l := len h l + (-1))\<rparr>"
  have run: "remove_el l e h = Some h'"
    using a b ne by (simp add: remove_el_def heap_ops h'_def Let_def del: last.simps)
  have "links ((nxt h)(?a := Some ?b)) ((prv h)(?b := Some ?a)) (?p @ ?q)"
    using links_remove [of "nxt h" "prv h" ?p e ?q] R ring_distinct_path [OF R]
    by (simp add: ring_def path)
  then have "links (nxt h') (prv h') (?p @ ?q)"
    by (rule links_cong [THEN iffD1, rotated]) (use d in \<open>auto simp: h'_def\<close>)
  then have ring': "ring h' l (ys @ zs)"
    using R by (auto simp: ring_def ring_path_def h'_def)
  have "ring h' m ws" if "m \<noteq> l" "ring h m ws" for m ws
    by (rule ringI_frame [OF that(2), of "set (ring_path l (ys @ e # zs))"])
       (use ring_own_neq [OF that(2) R that(1)] a_in b_in path that(1) in \<open>auto simp: h'_def\<close>)
  then have "frame l h h'" by (simp add: frame_def h'_def)
  with run ring' show ?thesis by (auto simp: h'_def)
qed

lemma move_el_ring:
  assumes R: "ring h l (ys @ e # zs)" and split: "ys @ zs = us @ vs" and at: "at = last (Root l # us)"
  shows "\<exists>h'. move_el e at h = Some h' \<and> ring h' l (us @ e # vs) \<and> frame l h h' \<and>
     val h' = val h \<and> nelem h' = nelem h"
proof -
  let ?p = "Root l # ys" let ?q = "zs @ [Root l]" let ?a = "last ?p" let ?b = "hd ?q"
  let ?u = "Root l # us" let ?v = "vs @ [Root l]" let ?c = "hd ?v"
  have path: "ring_path l (ys @ e # zs) = ?p @ e # ?q" by (simp add: ring_path_def)
  have path': "?p @ ?q = ?u @ ?v" using split by simp
  have d: "e \<notin> set (?p @ ?q)" using R ring_no_Root [OF R] by (auto simp: ring_def)
  have a: "prv h e = Some ?a" and b: "nxt h e = Some ?b"
    using ring_not_nil [of h l ys "e # zs"] ring_not_nil [of h l "ys @ [e]" zs] R by auto
  have ab_in: "?a \<in> set (?p @ ?q)" "?b \<in> set (?p @ ?q)"
    using last_in_set [of ?p] hd_in_set [of ?q] by (auto simp del: last.simps)
  have c_in: "at \<in> set (?u @ ?v)" "?c \<in> set (?u @ ?v)"
    using at last_in_set [of ?u] hd_in_set [of ?v] by (auto simp del: last.simps)
  have ne: "?a \<noteq> e" "?b \<noteq> e" "at \<noteq> e" "?c \<noteq> e" using ab_in c_in d path' by metis+
  define n1 where "n1 = (nxt h)(?a := Some ?b)"
  define p1 where "p1 = (prv h)(?b := Some ?a)"
  have "links n1 p1 (?p @ ?q)"
    using links_remove [of "nxt h" "prv h" ?p e ?q] R ring_distinct_path [OF R]
    by (simp add: n1_def p1_def ring_def path del: last.simps)
  then have l1: "links n1 p1 (?u @ ?v)" unfolding path' .
  then have c: "n1 at = Some ?c" using links_append [of ?u ?v n1 p1] at by simp
  define h' where "h' = h\<lparr>nxt := n1(e := Some ?c, at := Some e),
     prv := p1(e := Some at, ?c := Some e)\<rparr>"
  have run: "move_el e at h = Some h'"
    using a b c ne by (simp add: move_el_def heap_ops h'_def n1_def p1_def Let_def del: last.simps)
  have dd: "distinct (butlast (?u @ ?v))" "distinct (tl (?u @ ?v))"
    using R ring_no_Root [OF R] unfolding path' [symmetric]
    by (auto simp: butlast_append ring_def)
  have "links (nxt h') (prv h') (?u @ e # ?v)"
    using links_insert [OF l1 _ _ dd, of e] d unfolding path' at h'_def
    by (simp del: last.simps append_Cons)
  moreover have "set (us @ e # vs) = set (ys @ e # zs)" "length us + length vs = length ys + length zs"
    "distinct (us @ e # vs)"
    using arg_cong [OF split, of set] arg_cong [OF split, of length] arg_cong [OF split, of distinct] R
    by (auto simp: ring_def)
  ultimately have ring': "ring h' l (us @ e # vs)"
    using R by (auto simp: ring_def ring_path_def h'_def)
  define A where "A = insert e (set (?p @ ?q))"
  have A: "e \<in> A" "?a \<in> A" "?b \<in> A" "at \<in> A" "?c \<in> A"
    using ab_in c_in unfolding A_def path' by blast+
  have "ring h' m ws" if "m \<noteq> l" "ring h m ws" for m ws
  proof (rule ringI_frame [OF that(2), of A])
    show "set (ring_path m ws) \<inter> A = {}"
      using ring_own_neq [OF that(2) R that(1)] path by (auto simp: A_def)
  next
    fix a assume "a \<notin> A"
    with A have "a \<noteq> e" "a \<noteq> ?a" "a \<noteq> ?b" "a \<noteq> at" "a \<noteq> ?c" by metis+
    then show "nxt h' a = nxt h a \<and> prv h' a = prv h a \<and> own h' a = own h a"
      by (simp add: h'_def n1_def p1_def del: last.simps)
  qed (simp_all add: h'_def)
  then have "frame l h h'" by (simp add: frame_def h'_def)
  with run ring' show ?thesis by (auto simp: h'_def)
qed

section \<open>The exported operations refine list operations\<close>

lemma Init_ring: "l < nlist h \<Longrightarrow> ring (Init l h) l []"
  by (simp add: Init_def ring_def ring_path_def links_def set_nxt_def set_prv_def)

lemma New_ring: "New h = (h', l) \<Longrightarrow> ring h' l []"
  by (auto simp: New_def Let_def intro: Init_ring)

lemma New_frame:
  assumes "New h = (h', l)" "ring h m ys"
  shows "ring h' m ys"
  by (rule ringI_frame [OF assms(2), of "{Root (nlist h)}"])
     (use assms in \<open>auto simp: New_def Init_def Let_def ring_def ring_path_def set_nxt_def set_prv_def\<close>)

lemma lazyInit_ring: "ring h l xs \<Longrightarrow> lazyInit l h = h"
  using ring_not_nil(1) [of h l "[]" xs] by (simp add: lazyInit_def)

lemma Len_ring: "ring h l xs \<Longrightarrow> Len h l = int (length xs)"
  by (simp add: Len_def ring_def)

lemma Front_ring: "ring h l xs \<Longrightarrow> Front h l = (case xs of [] \<Rightarrow> None | x # _ \<Rightarrow> Some x)"
  using ring_not_nil(1) [of h l "[]" xs] by (auto simp: Front_def ring_def split: list.split)

lemma Back_ring: "ring h l xs \<Longrightarrow> Back h l = (if xs = [] then None else Some (last xs))"
  using ring_not_nil(2) [of h l xs "[]"] by (auto simp: Back_def ring_def)

lemma Next_ring:
  "ring h l (ys @ x # zs) \<Longrightarrow> Next h x = (case zs of [] \<Rightarrow> None | z # _ \<Rightarrow> Some z)"
  using ring_not_nil(1) [of h l "ys @ [x]" zs] ring_no_Root [of h l "ys @ x # zs" l]
  by (auto simp: Next_def ring_def split: list.split)

lemma Prev_ring:
  "ring h l (ys @ x # zs) \<Longrightarrow> Prev h x = (if ys = [] then None else Some (last ys))"
  using ring_not_nil(2) [of h l ys "x # zs"] ring_no_Root [of h l "ys @ x # zs" l]
  by (cases ys rule: rev_cases) (auto simp: Prev_def ring_def)

lemma PushFront_ring:
  assumes "ring h l xs"
  shows "\<exists>h'. PushFront l v h = Some (h', El (nelem h)) \<and> ring h' l (El (nelem h) # xs) \<and>
     frame l h h' \<and> val h' (El (nelem h)) = Some v \<and> nelem h' = Suc (nelem h)"
  using insertValue_ring [of h l "[]" xs "Root l" v] assms lazyInit_ring [OF assms]
  by (simp add: PushFront_def)

lemma PushBack_ring:
  assumes "ring h l xs"
  shows "\<exists>h'. PushBack l v h = Some (h', El (nelem h)) \<and> ring h' l (xs @ [El (nelem h)]) \<and>
     frame l h h' \<and> val h' (El (nelem h)) = Some v \<and> nelem h' = Suc (nelem h)"
  using insertValue_ring [of h l xs "[]" "last (Root l # xs)" v] assms lazyInit_ring [OF assms]
    ring_not_nil(2) [of h l xs "[]"]
  by (simp add: PushBack_def Let_def del: last.simps)

lemma Remove_ring:
  assumes "ring h l xs" "e \<in> set xs"
  shows "\<exists>h'. Remove l e h = Some (h', val h e) \<and> ring h' l (remove1 e xs) \<and> frame l h h' \<and>
     val h' = val h \<and> nelem h' = nelem h \<and> own h' e = None"
proof -
  obtain ys zs where "xs = ys @ e # zs" "e \<notin> set ys" using split_list_first [OF assms(2)] by blast
  with assms remove_el_ring [of h l ys e zs] show ?thesis
    by (auto simp: Remove_def remove1_append ring_def)
qed

lemma MoveToFront_ring:
  assumes R: "ring h l xs" and e: "e \<in> set xs"
  shows "\<exists>h'. MoveToFront l e h = Some h' \<and> ring h' l (e # remove1 e xs) \<and> frame l h h' \<and>
     val h' = val h \<and> nelem h' = nelem h"
proof -
  obtain ys zs where xs: "xs = ys @ e # zs" "e \<notin> set ys" using split_list_first [OF e] by blast
  have own: "own h e = Some l" using R e by (simp add: ring_def)
  have f: "nxt h (Root l) = Some (hd xs)"
    using ring_not_nil(1) [of h l "[]" xs] R xs by (cases ys) auto
  show ?thesis
  proof (cases "hd xs = e")
    case True
    then have "e # remove1 e xs = xs" using xs by (cases ys) auto
    with True f own R show ?thesis by (auto simp: MoveToFront_def)
  next
    case False
    with f own R xs move_el_ring [of h l ys e zs "[]" "ys @ zs" "Root l"] show ?thesis
      by (auto simp: MoveToFront_def remove1_append)
  qed
qed

lemma MoveToBack_ring:
  assumes R: "ring h l xs" and e: "e \<in> set xs"
  shows "\<exists>h'. MoveToBack l e h = Some h' \<and> ring h' l (remove1 e xs @ [e]) \<and> frame l h h' \<and>
     val h' = val h \<and> nelem h' = nelem h"
proof -
  obtain ys zs where xs: "xs = ys @ e # zs" "e \<notin> set ys" using split_list_first [OF e] by blast
  have own: "own h e = Some l" using R e by (simp add: ring_def)
  have f: "prv h (Root l) = Some (last xs)" using ring_not_nil(2) [of h l xs "[]"] R xs by simp
  show ?thesis
  proof (cases "last xs = e")
    case True
    then have "zs = []" using R xs by (cases zs rule: rev_cases) (auto simp: ring_def)
    then have "remove1 e xs @ [e] = xs" using xs by (simp add: remove1_append)
    with True f own R show ?thesis by (auto simp: MoveToBack_def)
  next
    case False
    then have "zs \<noteq> []" using xs by auto
    with False f own R xs move_el_ring [of h l ys e zs "ys @ zs" "[]" "last xs"] show ?thesis
      by (auto simp: MoveToBack_def remove1_append)
  qed
qed

text \<open>Inserting next to a mark, on plain lists.\<close>

fun insert_before :: "'b \<Rightarrow> 'b \<Rightarrow> 'b list \<Rightarrow> 'b list" where
  "insert_before x m [] = []"
| "insert_before x m (y # ys) = (if y = m then x # y # ys else y # insert_before x m ys)"

fun insert_after :: "'b \<Rightarrow> 'b \<Rightarrow> 'b list \<Rightarrow> 'b list" where
  "insert_after x m [] = []"
| "insert_after x m (y # ys) = (if y = m then y # x # ys else y # insert_after x m ys)"

lemma insert_mark_split:
  "m \<notin> set us \<Longrightarrow> insert_before x m (us @ m # vs) = us @ x # m # vs"
  "m \<notin> set us \<Longrightarrow> insert_after x m (us @ m # vs) = us @ m # x # vs"
  by (induction us) auto

lemma InsertBefore_ring:
  assumes R: "ring h l xs" and m: "m \<in> set xs"
  shows "\<exists>h'. InsertBefore l v m h = Some (h', Some (El (nelem h))) \<and>
     ring h' l (insert_before (El (nelem h)) m xs) \<and> frame l h h' \<and> val h' (El (nelem h)) = Some v"
proof -
  obtain ys zs where xs: "xs = ys @ m # zs" "m \<notin> set ys" using split_list_first [OF m] by blast
  have "prv h m = Some (last (Root l # ys))" using ring_not_nil(2) [of h l ys "m # zs"] R xs by simp
  with insertValue_ring [of h l ys "m # zs" _ v] R m xs show ?thesis
    by (auto simp: InsertBefore_def insert_mark_split ring_def simp del: last.simps)
qed

lemma InsertAfter_ring:
  assumes R: "ring h l xs" and m: "m \<in> set xs"
  shows "\<exists>h'. InsertAfter l v m h = Some (h', Some (El (nelem h))) \<and>
     ring h' l (insert_after (El (nelem h)) m xs) \<and> frame l h h' \<and> val h' (El (nelem h)) = Some v"
proof -
  obtain ys zs where xs: "xs = ys @ m # zs" "m \<notin> set ys" using split_list_first [OF m] by blast
  with insertValue_ring [of h l "ys @ [m]" zs m v] R m show ?thesis
    by (auto simp: InsertAfter_def insert_mark_split ring_def)
qed

lemma MoveBefore_ring:
  assumes R: "ring h l xs" and e: "e \<in> set xs" and m: "m \<in> set xs" and ne: "e \<noteq> m"
  shows "\<exists>h'. MoveBefore l e m h = Some h' \<and> ring h' l (insert_before e m (remove1 e xs)) \<and>
     frame l h h' \<and> val h' = val h"
proof -
  obtain ys zs where xs: "xs = ys @ e # zs" "e \<notin> set ys" using split_list_first [OF e] by blast
  have own: "own h e = Some l" "own h m = Some l" using R e m by (simp_all add: ring_def)
  obtain as bs where ms: "xs = as @ m # bs" "m \<notin> set as" using split_list_first [OF m] by blast
  have p: "prv h m = Some (last (Root l # as))"
    using ring_not_nil(2) [of h l as "m # bs"] R ms by simp
  have rm: "remove1 e xs = ys @ zs" using xs by (simp add: remove1_append)
  show ?thesis
  proof (cases "last (Root l # as) = e")
    case True
    then obtain us where as: "as = us @ [e]"
      using ring_no_Root [OF R, of l] e by (cases as rule: rev_cases) auto
    have "e \<notin> set us" using R ms as by (auto simp: ring_def)
    then have "insert_before e m (remove1 e xs) = xs"
      using ms as by (simp add: remove1_append insert_mark_split)
    with True p own ne R show ?thesis by (auto simp: MoveBefore_def move_el_def simp del: last.simps)
  next
    case False
    obtain us vs where sp: "ys @ zs = us @ m # vs" "m \<notin> set us"
      using split_list_first [of m "ys @ zs"] m ne xs by auto
    have us: "remove1 e as = us"
    proof -
      have "remove1 e xs = remove1 e as @ m # (if e \<in> set as then bs else remove1 e bs)"
        using ms(1) ne by (auto simp: remove1_append remove1_idem)
      with rm sp(1) have "us @ m # vs = remove1 e as @ m # (if e \<in> set as then bs else remove1 e bs)"
        by metis
      moreover have "m \<notin> set (remove1 e as)" using ms(2) by (meson notin_set_remove1)
      ultimately show ?thesis using split_at_unique sp(2) by metis
    qed
    have "last (Root l # as) = last (Root l # us)"
    proof (cases as rule: rev_cases)
      case (snoc bs' a)
      then have "us = remove1 e bs' @ [a]"
        using False us by (auto simp: remove1_append remove1_idem)
      then show ?thesis using snoc by simp
    qed (use us in auto)
    with p own ne have run: "MoveBefore l e m h = move_el e (last (Root l # us)) h"
      by (simp add: MoveBefore_def del: last.simps)
    show ?thesis
      using move_el_ring [of h l ys e zs us "m # vs", OF _ sp(1) refl] R xs
      unfolding run rm sp(1) insert_mark_split(1) [OF sp(2)] by blast
  qed
qed

lemma MoveAfter_ring:
  assumes R: "ring h l xs" and e: "e \<in> set xs" and m: "m \<in> set xs" and ne: "e \<noteq> m"
  shows "\<exists>h'. MoveAfter l e m h = Some h' \<and> ring h' l (insert_after e m (remove1 e xs)) \<and>
     frame l h h' \<and> val h' = val h"
proof -
  obtain ys zs where xs: "xs = ys @ e # zs" "e \<notin> set ys" using split_list_first [OF e] by blast
  have own: "own h e = Some l" "own h m = Some l" using R e m by (simp_all add: ring_def)
  obtain us vs where sp: "ys @ zs = us @ m # vs" "m \<notin> set us"
    using split_list_first [of m "ys @ zs"] m ne xs by auto
  with move_el_ring [of h l ys e zs "us @ [m]" vs m] own ne R xs show ?thesis
    by (auto simp: MoveAfter_def insert_mark_split remove1_append)
qed

section \<open>Guards: an element of another list changes nothing\<close>

lemma foreign_element:
  assumes "own h e \<noteq> Some l"
  shows "Remove l e h = Some (h, val h e)" "MoveToFront l e h = Some h" "MoveToBack l e h = Some h"
    "MoveBefore l e m h = Some h" "MoveBefore l m e h = Some h" "MoveAfter l e m h = Some h"
    "MoveAfter l m e h = Some h" "InsertBefore l v e h = Some (h, None)"
    "InsertAfter l v e h = Some (h, None)"
  using assms by (simp_all add: Remove_def MoveToFront_def MoveToBack_def MoveBefore_def
      MoveAfter_def InsertBefore_def InsertAfter_def)

section \<open>Copying a list into another, or into itself\<close>

lemma frame_val: "frame l h h' \<Longrightarrow> ring h m xs \<Longrightarrow> x \<in> set xs \<Longrightarrow> val h' x = val h x"
  by (auto simp: frame_def dest: ring_El)

text \<open>\<open>rs\<close> is what the loop has still to read of list \<open>m\<close>, which may be \<open>l\<close> itself.\<close>

lemma pushBackLoop_ring:
  "ring h l xs \<Longrightarrow> ring h m (us @ rs @ add) \<Longrightarrow> (rs \<noteq> [] \<Longrightarrow> e = Some (hd rs)) \<Longrightarrow>
   \<exists>h' ns. pushBackLoop l (length rs) e h = Some h' \<and> ring h' l (xs @ ns) \<and>
     map (val h') ns = map (val h) rs \<and> frame l h h'"
proof (induction rs arbitrary: h xs us add e)
  case Nil
  then show ?case by (auto intro!: exI [of _ h] exI [of _ "[]"])
next
  case (Cons r rs)
  let ?n = "El (nelem h)"
  have e: "e = Some r" using Cons.prems(3) by simp
  obtain v where v: "val h r = Some v" using Cons.prems(2) by (auto simp: ring_def)
  obtain h1 where h1: "insertValue l v (last (Root l # xs)) h = Some (h1, ?n)"
    "ring h1 l (xs @ [?n])" "frame l h h1" "val h1 ?n = Some v"
    using insertValue_ring [of h l xs "[]" _ v] Cons.prems(1) by auto
  have b: "prv h (Root l) = Some (last (Root l # xs))"
    using ring_not_nil(2) [of h l xs "[]"] Cons.prems(1) by simp
  obtain add' where m1: "ring h1 m ((us @ [r]) @ rs @ add')"
  proof (cases "m = l")
    case True
    then have "xs = us @ (r # rs) @ add"
      using ring_unique [OF Cons.prems(1), of "us @ (r # rs) @ add"] Cons.prems(2) by simp
    with h1(2) True that [of "add @ [?n]"] show ?thesis by simp
  next
    case False
    with Cons.prems(2) h1(3) that [of add] show ?thesis by (simp add: frame_def)
  qed
  have nx: "rs \<noteq> [] \<Longrightarrow> Next h1 r = Some (hd rs)"
    using Next_ring [of h1 m us r "rs @ add'"] m1 by (cases rs) auto
  obtain h' ns where IH: "pushBackLoop l (length rs) (Next h1 r) h1 = Some h'"
    "ring h' l ((xs @ [?n]) @ ns)" "map (val h') ns = map (val h1) rs" "frame l h1 h'"
    using Cons.IH [OF h1(2) m1 nx] by blast
  have "map (val h1) rs = map (val h) rs"
    using frame_val [OF h1(3) Cons.prems(2)] by simp
  moreover have "val h' ?n = Some v"
    using frame_val [OF IH(4) h1(2), of ?n] h1(4) by simp
  moreover have "pushBackLoop l (length (r # rs)) e h = Some h'"
    using e v b h1(1) IH(1) by (simp del: last.simps)
  ultimately have "pushBackLoop l (length (r # rs)) e h = Some h' \<and> ring h' l (xs @ ?n # ns) \<and>
     map (val h') (?n # ns) = map (val h) (r # rs) \<and> frame l h h'"
    using v IH(2,3) frame_trans [OF h1(3) IH(4)] by simp
  then show ?case by - (rule exI [of _ h'], rule exI [of _ "?n # ns"])
qed

lemma pushFrontLoop_ring:
  "ring h l xs \<Longrightarrow> ring h m (add @ rs @ us) \<Longrightarrow> (rs \<noteq> [] \<Longrightarrow> e = Some (last rs)) \<Longrightarrow>
   \<exists>h' ns. pushFrontLoop l (length rs) e h = Some h' \<and> ring h' l (ns @ xs) \<and>
     map (val h') ns = map (val h) rs \<and> frame l h h'"
proof (induction rs arbitrary: h xs us add e rule: rev_induct)
  case Nil
  then show ?case by (auto intro!: exI [of _ h] exI [of _ "[]"])
next
  case (snoc r rs)
  let ?n = "El (nelem h)"
  have e: "e = Some r" using snoc.prems(3) by simp
  obtain v where v: "val h r = Some v" using snoc.prems(2) by (auto simp: ring_def)
  obtain h1 where h1: "insertValue l v (Root l) h = Some (h1, ?n)"
    "ring h1 l (?n # xs)" "frame l h h1" "val h1 ?n = Some v"
    using insertValue_ring [of h l "[]" xs _ v] snoc.prems(1) by auto
  obtain add' where m1: "ring h1 m (add' @ rs @ (r # us))"
  proof (cases "m = l")
    case True
    then have "xs = add @ (rs @ [r]) @ us"
      using ring_unique [OF snoc.prems(1), of "add @ (rs @ [r]) @ us"] snoc.prems(2) by simp
    with h1(2) True that [of "?n # add"] show ?thesis by simp
  next
    case False
    with snoc.prems(2) h1(3) that [of add] show ?thesis by (simp add: frame_def)
  qed
  have nx: "rs \<noteq> [] \<Longrightarrow> Prev h1 r = Some (last rs)"
    using Prev_ring [of h1 m "add' @ rs" r us] m1 by simp
  obtain h' ns where IH: "pushFrontLoop l (length rs) (Prev h1 r) h1 = Some h'"
    "ring h' l (ns @ ?n # xs)" "map (val h') ns = map (val h1) rs" "frame l h1 h'"
    using snoc.IH [OF h1(2) m1 nx] by blast
  have "map (val h1) rs = map (val h) rs"
    using frame_val [OF h1(3) snoc.prems(2)] by simp
  moreover have "val h' ?n = Some v"
    using frame_val [OF IH(4) h1(2), of ?n] h1(4) by simp
  moreover have "pushFrontLoop l (length (rs @ [r])) e h = Some h'"
    using e v h1(1) IH(1) by simp
  ultimately have "pushFrontLoop l (length (rs @ [r])) e h = Some h' \<and> ring h' l ((ns @ [?n]) @ xs) \<and>
     map (val h') (ns @ [?n]) = map (val h) (rs @ [r]) \<and> frame l h h'"
    using v IH(2,3) frame_trans [OF h1(3) IH(4)] by simp
  then show ?case by - (rule exI [of _ h'], rule exI [of _ "ns @ [?n]"])
qed

section \<open>The sequence interface\<close>

text \<open>
  What a client of the package relies on: a heap of sequences of elements, with the operations
  that append, unlink and move to the back. The LRU cache uses only these.
\<close>

locale sequence_heap =
  fixes push_back :: "lid \<Rightarrow> 'a \<Rightarrow> 'h \<Rightarrow> ('h \<times> 'e) option"
    and unlink :: "lid \<Rightarrow> 'e \<Rightarrow> 'h \<Rightarrow> ('h \<times> 'a option) option"
    and touch :: "lid \<Rightarrow> 'e \<Rightarrow> 'h \<Rightarrow> 'h option"
    and front :: "'h \<Rightarrow> lid \<Rightarrow> 'e option"
    and size_of :: "'h \<Rightarrow> lid \<Rightarrow> int"
    and contents :: "'h \<Rightarrow> lid \<Rightarrow> 'e list \<Rightarrow> bool"
    and stored :: "'h \<Rightarrow> 'e \<Rightarrow> 'a option"
  assumes push: "contents h l xs \<Longrightarrow>
      \<exists>h' e. push_back l v h = Some (h', e) \<and> contents h' l (xs @ [e]) \<and> e \<notin> set xs \<and>
        stored h' e = Some v \<and> (\<forall>x \<in> set xs. stored h' x = stored h x)"
    and unlink: "contents h l xs \<Longrightarrow> x \<in> set xs \<Longrightarrow>
      \<exists>h'. unlink l x h = Some (h', stored h x) \<and> contents h' l (remove1 x xs) \<and> stored h' = stored h"
    and touch: "contents h l xs \<Longrightarrow> x \<in> set xs \<Longrightarrow>
      \<exists>h'. touch l x h = Some h' \<and> contents h' l (remove1 x xs @ [x]) \<and> stored h' = stored h"
    and front: "contents h l xs \<Longrightarrow> front h l = (case xs of [] \<Rightarrow> None | x # _ \<Rightarrow> Some x)"
    and size_of: "contents h l xs \<Longrightarrow> size_of h l = int (length xs)"
begin

lemma front_Cons: "contents h l (x # xs) \<Longrightarrow> front h l = Some x"
  by (simp add: front)

lemma push_then_drop_front:
  assumes "contents h l xs"
  shows "\<exists>h1 e h2 x. push_back l v h = Some (h1, e) \<and> front h1 l = Some x \<and>
     unlink l x h1 = Some (h2, stored h1 x) \<and> contents h2 l (tl (xs @ [e])) \<and>
     size_of h2 l = int (length xs) \<and> stored h2 e = Some v"
proof -
  obtain h1 e where 1: "push_back l v h = Some (h1, e)" "contents h1 l (xs @ [e])" "stored h1 e = Some v"
    using push [OF assms] by blast
  obtain x ys where xs: "xs @ [e] = x # ys" by (cases "xs @ [e]") auto
  obtain h2 where 2: "unlink l x h1 = Some (h2, stored h1 x)" "contents h2 l ys" "stored h2 = stored h1"
    using unlink [OF 1(2), of x] xs by auto
  have "length ys = length xs" using arg_cong [OF xs, of length] by simp
  with 1 2 xs size_of [OF 2(2)] front [OF 1(2)] show ?thesis by auto
qed

lemma drain_front:
  assumes "contents h l xs"
  shows "\<exists>h'. contents h' l [] \<and> stored h' = stored h"
  using assms
proof (induction xs arbitrary: h)
  case (Cons x xs)
  obtain h1 where "contents h1 l xs" "stored h1 = stored h"
    using unlink [OF Cons.prems, of x] by auto
  with Cons.IH show ?case by metis
qed blast

end

interpretation seq: sequence_heap PushBack Remove MoveToBack Front Len ring val
proof (unfold_locales, goal_cases)
  case (1 h l xs v)
  obtain h' where h': "PushBack l v h = Some (h', El (nelem h))" "ring h' l (xs @ [El (nelem h)])"
    "frame l h h'" "val h' (El (nelem h)) = Some v"
    using PushBack_ring [OF 1, of v] by blast
  moreover have "El (nelem h) \<notin> set xs" using h'(2) by (simp add: ring_def)
  moreover have "\<forall>x \<in> set xs. val h' x = val h x" using frame_val [OF h'(3) 1] by blast
  ultimately show ?case by blast
next
  case (2 h l xs x) then show ?case using Remove_ring by metis
next
  case (3 h l xs x) then show ?case using MoveToBack_ring by metis
next
  case (4 h l xs) then show ?case by (rule Front_ring)
next
  case (5 h l xs) then show ?case by (rule Len_ring)
qed

section \<open>Properties\<close>

text \<open>C15: \<^verbatim>\<open>MoveBefore\<close> relinks the pointers so that the list reads as before with the element
  taken out and put back just before the mark, for every position of the two in the ring
  (neighbours, ends), without a nil dereference and leaving every other list untouched.\<close>

theorem move_before_correct:
  assumes "ring h l xs" "e \<in> set xs" "m \<in> set xs" "e \<noteq> m"
  shows "\<exists>h'. MoveBefore l e m h = Some h' \<and> ring h' l (insert_before e m (remove1 e xs)) \<and>
     frame l h h'"
  using MoveBefore_ring [OF assms] by blast

text \<open>\<^verbatim>\<open>PushBackList\<close> appends a copy of the other list's values, also when the other list is
  the list itself: the loop bound is read before the loop, so it ends, and the list then holds
  its contents twice.\<close>

theorem push_back_list_correct:
  assumes l: "ring h l xs" and m: "ring h m ys"
  shows "\<exists>h' ns. PushBackList l m h = Some h' \<and> ring h' l (xs @ ns) \<and>
     map (val h') ns = map (val h) ys \<and> frame l h h'"
proof -
  have "ys \<noteq> [] \<Longrightarrow> Front h m = Some (hd ys)" by (cases ys) (simp_all add: Front_ring [OF m])
  moreover have "PushBackList l m h = pushBackLoop l (length ys) (Front h m) h"
    by (simp add: PushBackList_def lazyInit_ring [OF l] Len_ring [OF m])
  ultimately show ?thesis using pushBackLoop_ring [OF l, of m "[]" ys "[]"] m by simp
qed

lemma push_front_list_correct:
  assumes l: "ring h l xs" and m: "ring h m ys"
  shows "\<exists>h' ns. PushFrontList l m h = Some h' \<and> ring h' l (ns @ xs) \<and>
     map (val h') ns = map (val h) ys \<and> frame l h h'"
proof -
  have "ys \<noteq> [] \<Longrightarrow> Back h m = Some (last ys)" by (simp add: Back_ring [OF m])
  moreover have "PushFrontList l m h = pushFrontLoop l (length ys) (Back h m) h"
    by (simp add: PushFrontList_def lazyInit_ring [OF l] Len_ring [OF m])
  ultimately show ?thesis using pushFrontLoop_ring [OF l, of m "[]" ys "[]"] m by simp
qed

text \<open>A concrete heap: one list holding three elements, for the witnesses.\<close>

definition demo_heap :: "nat lheap" where
  "demo_heap = (case New empty_lheap of (h, l) \<Rightarrow>
     fst (the (PushBack l 30 (fst (the (PushBack l 20 (fst (the (PushBack l 10 h)))))))))"

lemma demo_heap_ring: "ring demo_heap 0 [El 0, El 1, El 2]"
proof -
  obtain h0 where h0: "New (empty_lheap :: nat lheap) = (h0, 0)" "ring h0 0 []" "nelem h0 = 0"
    using New_ring [of "empty_lheap :: nat lheap"]
    by (simp add: New_def Init_def empty_lheap_def set_nxt_def set_prv_def)
  obtain h1 where h1: "PushBack 0 10 h0 = Some (h1, El 0)" "ring h1 0 [El 0]" "nelem h1 = 1"
    using PushBack_ring [OF h0(2), of 10] h0(3) by auto
  obtain h2 where h2: "PushBack 0 20 h1 = Some (h2, El 1)" "ring h2 0 [El 0, El 1]" "nelem h2 = 2"
    using PushBack_ring [OF h1(2), of 20] h1(3) by auto
  obtain h3 where h3: "PushBack 0 30 h2 = Some (h3, El 2)" "ring h3 0 [El 0, El 1, El 2]"
    using PushBack_ring [OF h2(2), of 30] h2(3) by auto
  have "demo_heap = h3" using h0 h1 h2 h3 by (simp add: demo_heap_def)
  with h3 show ?thesis by simp
qed

theorem move_before_witness:
  "\<exists>h'. MoveBefore 0 (El 2) (El 0) demo_heap = Some h' \<and> ring h' 0 [El 2, El 0, El 1]"
  using move_before_correct [OF demo_heap_ring, of "El 2" "El 0"] by auto

theorem push_back_list_witness:
  "\<exists>h' ns. PushBackList 0 0 demo_heap = Some h' \<and> ring h' 0 ([El 0, El 1, El 2] @ ns) \<and>
     map (val h') ns = map (val demo_heap) [El 0, El 1, El 2]"
  using push_back_list_correct [OF demo_heap_ring demo_heap_ring] by blast

end
