(* ===== verification/LruCache.thy ===== *)
theory LruCache imports LinkedList begin

text \<open>
  \<^verbatim>\<open>common/cache/lrucache.go\<close>: the LRU cache under the fake-IP pool, the load balancer and the
  HTTP listeners. The map \<open>cache\<close> takes a key to the list element that carries a pointer to its
  entry; entries live in a heap of their own because \<^verbatim>\<open>CloneTo\<close> shares them between caches.

  \<open>lru_rel c h L\<close> relates a cache struct and its heap to the list \<open>L\<close> of entries, least recently
  used first. The lemmas show that every operation simulates an operation on \<open>L\<close> (\<open>spec_set\<close>,
  \<open>spec_get\<close>, \<open>spec_delete\<close>), that none panics and that the eviction loop ends. The clock is
  read once per operation, in seconds, and is an argument.
\<close>

section \<open>State\<close>

record ('k, 'v) entry =
  e_key :: 'k
  e_value :: 'v
  e_expires :: int

text \<open>The heap: list elements (whose value is the address of an entry), entries, and the calls
  made to the evict callback, in order.\<close>

record ('k, 'v) lru_heap =
  els :: "nat lheap"
  ents :: "nat \<Rightarrow> ('k, 'v) entry option"
  nent :: nat
  evicted :: "('k \<times> 'v) list"

record 'k LruCache =
  maxAge :: int
  maxSize :: int
  cache :: "'k \<rightharpoonup> addr"
  lru :: lid
  updateAgeOnGet :: bool
  staleReturn :: bool
  onEvict :: bool

type_synonym ('k, 'v) lru_state = "'k LruCache \<times> ('k, 'v) lru_heap"

definition empty_lru_heap :: "('k, 'v) lru_heap" where
  "empty_lru_heap = \<lparr>els = empty_lheap, ents = (\<lambda>_. None), nent = 0, evicted = []\<rparr>"

section \<open>Options and constructor\<close>

type_synonym 'k lru_option = "'k LruCache \<Rightarrow> 'k LruCache"

definition WithEvict :: "'k lru_option" where
  "WithEvict l = l\<lparr>onEvict := True\<rparr>"

definition WithUpdateAgeOnGet :: "'k lru_option" where
  "WithUpdateAgeOnGet l = l\<lparr>updateAgeOnGet := True\<rparr>"

definition WithAge :: "int \<Rightarrow> 'k lru_option" where
  "WithAge age l = l\<lparr>maxAge := age\<rparr>"

definition WithSize :: "int \<Rightarrow> 'k lru_option" where
  "WithSize n l = l\<lparr>maxSize := n\<rparr>"

definition WithStale :: "bool \<Rightarrow> 'k lru_option" where
  "WithStale stale l = l\<lparr>staleReturn := stale\<rparr>"

definition NewLru :: "'k lru_option list \<Rightarrow> ('k, 'v) lru_heap \<Rightarrow> ('k, 'v) lru_state" where
  "NewLru options h = (case New (els h) of (es, l) \<Rightarrow>
     (fold (\<lambda>opt c. opt c) options
        \<lparr>maxAge = 0, maxSize = 0, cache = (\<lambda>_. None), lru = l, updateAgeOnGet = False,
         staleReturn = False, onEvict = False\<rparr>,
      h\<lparr>els := es\<rparr>))"

section \<open>Operations\<close>

text \<open>\<^verbatim>\<open>le.Value\<close>, followed to the entry it points to.\<close>

definition entry_at :: "('k, 'v) lru_heap \<Rightarrow> addr \<Rightarrow> ('k, 'v) entry option" where
  "entry_at h a = val (els h) a \<bind> ents h"

definition deleteElement :: "addr \<Rightarrow> ('k, 'v) lru_state \<Rightarrow> ('k, 'v) lru_state option" where
  "deleteElement le = (\<lambda>(c, h). do {
     (es, p) \<leftarrow> Remove (lru c) le (els h);
     e \<leftarrow> p \<bind> ents h;
     Some (c\<lparr>cache := (cache c)(e_key e := None)\<rparr>,
           h\<lparr>els := es, evicted := evicted h @ (if onEvict c then [(e_key e, e_value e)] else [])\<rparr>)
   })"

text \<open>The loop of \<^verbatim>\<open>maybeDeleteOldest\<close>; \<open>None\<close> is a panic or a loop that does not end.\<close>

partial_function (option) deleteOldestLoop ::
    "int \<Rightarrow> ('k, 'v) lru_state \<Rightarrow> ('k, 'v) lru_state option" where
  "deleteOldestLoop now s =
     (case Front (els (snd s)) (lru (fst s)) of
        None \<Rightarrow> Some s
      | Some le \<Rightarrow> do {
          e \<leftarrow> entry_at (snd s) le;
          if e_expires e \<le> now then deleteElement le s \<bind> deleteOldestLoop now else Some s
        })"

definition maybeDeleteOldest :: "int \<Rightarrow> ('k, 'v) lru_state \<Rightarrow> ('k, 'v) lru_state option" where
  "maybeDeleteOldest now s =
     (if \<not> staleReturn (fst s) \<and> 0 < maxAge (fst s) then deleteOldestLoop now s else Some s)"

text \<open>\<^verbatim>\<open>get\<close> returns the pointer to the entry, or nil.\<close>

definition lru_get :: "int \<Rightarrow> 'k \<Rightarrow> ('k, 'v) lru_state \<Rightarrow> (('k, 'v) lru_state \<times> nat option) option" where
  "lru_get now key = (\<lambda>(c, h).
     case cache c key of
       None \<Rightarrow> Some ((c, h), None)
     | Some le \<Rightarrow> do {
         p \<leftarrow> val (els h) le;
         e \<leftarrow> ents h p;
         if \<not> staleReturn c \<and> 0 < maxAge c \<and> e_expires e \<le> now then do {
           s \<leftarrow> deleteElement le (c, h);
           s \<leftarrow> maybeDeleteOldest now s;
           Some (s, None)
         } else do {
           es \<leftarrow> MoveToBack (lru c) le (els h);
           let e' = (if 0 < maxAge c \<and> updateAgeOnGet c then e\<lparr>e_expires := now + maxAge c\<rparr> else e);
           Some ((c, h\<lparr>els := es, ents := (ents h)(p := Some e')\<rparr>), Some p)
         }
       })"

text \<open>\<^verbatim>\<open>Get\<close> and \<^verbatim>\<open>GetWithExpire\<close>: \<open>None\<close> in the second place is the zero value with \<^verbatim>\<open>false\<close>.\<close>

definition lru_Get :: "int \<Rightarrow> 'k \<Rightarrow> ('k, 'v) lru_state \<Rightarrow> (('k, 'v) lru_state \<times> 'v option) option" where
  "lru_Get now key s = do {
     (s, el) \<leftarrow> lru_get now key s;
     case el of None \<Rightarrow> Some (s, None)
     | Some p \<Rightarrow> do { e \<leftarrow> ents (snd s) p; Some (s, Some (e_value e)) }
   }"

definition GetWithExpire ::
    "int \<Rightarrow> 'k \<Rightarrow> ('k, 'v) lru_state \<Rightarrow> (('k, 'v) lru_state \<times> ('v \<times> int) option) option" where
  "GetWithExpire now key s = do {
     (s, el) \<leftarrow> lru_get now key s;
     case el of None \<Rightarrow> Some (s, None)
     | Some p \<Rightarrow> do { e \<leftarrow> ents (snd s) p; Some (s, Some (e_value e, e_expires e)) }
   }"

definition lru_Exist :: "'k \<Rightarrow> ('k, 'v) lru_state \<Rightarrow> bool" where
  "lru_Exist key s \<longleftrightarrow> cache (fst s) key \<noteq> None"

definition SetWithExpire ::
    "int \<Rightarrow> 'k \<Rightarrow> 'v \<Rightarrow> int \<Rightarrow> ('k, 'v) lru_state \<Rightarrow> ('k, 'v) lru_state option" where
  "SetWithExpire now key v expires = (\<lambda>(c, h). do {
     s \<leftarrow> (case cache c key of
        Some le \<Rightarrow> do {
          es \<leftarrow> MoveToBack (lru c) le (els h);
          p \<leftarrow> val es le;
          e \<leftarrow> ents h p;
          Some (c, h\<lparr>els := es, ents := (ents h)(p := Some (e\<lparr>e_value := v, e_expires := expires\<rparr>))\<rparr>)
        }
      | None \<Rightarrow> do {
          let p = nent h;
          (es, le) \<leftarrow> PushBack (lru c) p (els h);
          let h = h\<lparr>els := es,
                    ents := (ents h)(p := Some \<lparr>e_key = key, e_value = v, e_expires = expires\<rparr>),
                    nent := Suc p\<rparr>;
          let c = c\<lparr>cache := (cache c)(key \<mapsto> le)\<rparr>;
          if 0 < maxSize c \<and> maxSize c < Len (els h) (lru c)
          then do { f \<leftarrow> Front (els h) (lru c); deleteElement f (c, h) }
          else Some (c, h)
        });
     maybeDeleteOldest now s
   })"

definition lru_Set :: "int \<Rightarrow> 'k \<Rightarrow> 'v \<Rightarrow> ('k, 'v) lru_state \<Rightarrow> ('k, 'v) lru_state option" where
  "lru_Set now key v s =
     SetWithExpire now key v (if 0 < maxAge (fst s) then now + maxAge (fst s) else 0) s"

definition lru_Delete :: "'k \<Rightarrow> ('k, 'v) lru_state \<Rightarrow> ('k, 'v) lru_state option" where
  "lru_Delete key s = (case cache (fst s) key of None \<Rightarrow> Some s | Some le \<Rightarrow> deleteElement le s)"

text \<open>\<^verbatim>\<open>Clear\<close> replaces the map and nothing else.\<close>

definition lru_Clear :: "('k, 'v) lru_state \<Rightarrow> ('k, 'v) lru_state" where
  "lru_Clear = (\<lambda>(c, h). (c\<lparr>cache := (\<lambda>_. None)\<rparr>, h))"

text \<open>The loop of \<^verbatim>\<open>CloneTo\<close> walks the source list while it fills the target's new one.\<close>

partial_function (option) cloneLoop ::
    "addr option \<Rightarrow> 'k LruCache \<Rightarrow> ('k, 'v) lru_heap \<Rightarrow> ('k LruCache \<times> ('k, 'v) lru_heap) option" where
  "cloneLoop le n h = (case le of None \<Rightarrow> Some (n, h)
     | Some a \<Rightarrow> do {
         p \<leftarrow> val (els h) a;
         e \<leftarrow> ents h p;
         (es, b) \<leftarrow> PushBack (lru n) p (els h);
         cloneLoop (Next es a) (n\<lparr>cache := (cache n)(e_key e \<mapsto> b)\<rparr>) (h\<lparr>els := es\<rparr>)
       })"

definition CloneTo ::
    "'k LruCache \<Rightarrow> 'k LruCache \<Rightarrow> ('k, 'v) lru_heap \<Rightarrow> ('k LruCache \<times> ('k, 'v) lru_heap) option" where
  "CloneTo c n h = (case New (els h) of (es, l) \<Rightarrow>
     cloneLoop (Front es (lru c)) (n\<lparr>lru := l, cache := (\<lambda>_. None)\<rparr>) (h\<lparr>els := es\<rparr>))"

section \<open>Specification: a cache is a list of entries, least recently used first\<close>

type_synonym ('k, 'v) lru_list = "('k, 'v) entry list"

definition other :: "'k \<Rightarrow> ('k, 'v) entry \<Rightarrow> bool" where
  "other k e \<longleftrightarrow> e_key e \<noteq> k"

definition find_key :: "'k \<Rightarrow> ('k, 'v) lru_list \<Rightarrow> ('k, 'v) entry option" where
  "find_key k L = List.find (\<lambda>e. e_key e = k) L"

definition expiring :: "'k LruCache \<Rightarrow> bool" where
  "expiring c \<longleftrightarrow> \<not> staleReturn c \<and> 0 < maxAge c"

definition purge :: "'k LruCache \<Rightarrow> int \<Rightarrow> ('k, 'v) lru_list \<Rightarrow> ('k, 'v) lru_list" where
  "purge c now L = (if expiring c then dropWhile (\<lambda>e. e_expires e \<le> now) L else L)"

definition bounded :: "'k LruCache \<Rightarrow> ('k, 'v) lru_list \<Rightarrow> ('k, 'v) lru_list" where
  "bounded c L = (if 0 < maxSize c \<and> maxSize c < int (length L) then tl L else L)"

definition spec_set :: "'k LruCache \<Rightarrow> int \<Rightarrow> 'k \<Rightarrow> 'v \<Rightarrow> int \<Rightarrow> ('k, 'v) lru_list \<Rightarrow> ('k, 'v) lru_list" where
  "spec_set c now k v x L =
     (let e = \<lparr>e_key = k, e_value = v, e_expires = x\<rparr> in
      purge c now (if find_key k L = None then bounded c (L @ [e]) else filter (other k) L @ [e]))"

definition spec_get ::
    "'k LruCache \<Rightarrow> int \<Rightarrow> 'k \<Rightarrow> ('k, 'v) lru_list \<Rightarrow> ('k, 'v) lru_list \<times> ('k, 'v) entry option" where
  "spec_get c now k L = (case find_key k L of
       None \<Rightarrow> (L, None)
     | Some e \<Rightarrow>
         if expiring c \<and> e_expires e \<le> now then (purge c now (filter (other k) L), None)
         else (let e' = (if 0 < maxAge c \<and> updateAgeOnGet c then e\<lparr>e_expires := now + maxAge c\<rparr> else e)
               in (filter (other k) L @ [e'], Some e')))"

definition spec_delete :: "'k \<Rightarrow> ('k, 'v) lru_list \<Rightarrow> ('k, 'v) lru_list" where
  "spec_delete k L = filter (other k) L"

section \<open>The simulation relation\<close>

definition key_at :: "('k, 'v) lru_heap \<Rightarrow> addr \<Rightarrow> 'k option" where
  "key_at h a = map_option e_key (entry_at h a)"

definition lru_ok :: "'k LruCache \<Rightarrow> ('k, 'v) lru_heap \<Rightarrow> addr list \<Rightarrow> bool" where
  "lru_ok c h xs \<longleftrightarrow> ring (els h) (lru c) xs \<and>
     (\<forall>x \<in> set xs. \<exists>p e. val (els h) x = Some p \<and> p < nent h \<and> ents h p = Some e) \<and>
     inj_on (val (els h)) (set xs) \<and>
     (\<forall>k a. cache c k = Some a \<longleftrightarrow> a \<in> set xs \<and> key_at h a = Some k)"

definition view :: "('k, 'v) lru_heap \<Rightarrow> addr list \<Rightarrow> ('k, 'v) lru_list" where
  "view h xs = map (\<lambda>x. the (entry_at h x)) xs"

definition lru_rel :: "'k LruCache \<Rightarrow> ('k, 'v) lru_heap \<Rightarrow> ('k, 'v) lru_list \<Rightarrow> bool" where
  "lru_rel c h L \<longleftrightarrow> (\<exists>xs. lru_ok c h xs \<and> view h xs = L)"

text \<open>Operations change no field of the struct but the map.\<close>

definition same_cfg :: "'k LruCache \<Rightarrow> 'k LruCache \<Rightarrow> bool" where
  "same_cfg c c' \<longleftrightarrow> c' = c\<lparr>cache := cache c'\<rparr>"

lemma same_cfg_simps [simp]:
  "same_cfg c c" "same_cfg c (c\<lparr>cache := m\<rparr>)" "same_cfg (c\<lparr>cache := m\<rparr>) c' = same_cfg c c'"
  by (simp_all add: same_cfg_def)

lemma same_cfg_iff: "same_cfg c c' \<longleftrightarrow> (\<exists>m. c' = c\<lparr>cache := m\<rparr>)"
  by (auto simp: same_cfg_def)

lemma same_cfg_trans: "same_cfg c c' \<Longrightarrow> same_cfg c' c'' \<Longrightarrow> same_cfg c c''"
  by (auto simp: same_cfg_iff)

lemma same_cfg_eqs:
  assumes "same_cfg c c'"
  shows "purge c' = purge c" "bounded c' = bounded c" "expiring c' = expiring c" "lru c' = lru c"
    "maxAge c' = maxAge c" "maxSize c' = maxSize c" "staleReturn c' = staleReturn c"
    "updateAgeOnGet c' = updateAgeOnGet c" "onEvict c' = onEvict c"
  using assms by (auto simp: same_cfg_iff purge_def bounded_def expiring_def fun_eq_iff)

lemma lru_ok_entry:
  "lru_ok c h xs \<Longrightarrow> x \<in> set xs \<Longrightarrow> \<exists>p e. val (els h) x = Some p \<and> ents h p = Some e \<and> entry_at h x = Some e \<and> p < nent h"
  by (fastforce simp: lru_ok_def entry_at_def)

lemma lru_ok_cache:
  "lru_ok c h xs \<Longrightarrow> cache c k = Some a \<longleftrightarrow> a \<in> set xs \<and> key_at h a = Some k"
  by (simp add: lru_ok_def)

lemma lru_ok_inj_key:
  assumes "lru_ok c h xs"
  shows "inj_on (key_at h) (set xs)"
proof (rule inj_onI)
  fix x y assume "x \<in> set xs" "y \<in> set xs" "key_at h x = key_at h y"
  then show "x = y"
    using lru_ok_cache [OF assms] lru_ok_entry [OF assms, of x]
    by (metis key_at_def option.inject option.map(2))
qed

lemma lru_rel_distinct:
  assumes "lru_rel c h L"
  shows "distinct (map e_key L)"
proof -
  obtain xs where ok: "lru_ok c h xs" and L: "L = view h xs" using assms by (auto simp: lru_rel_def)
  have "map e_key L = map (\<lambda>x. the (key_at h x)) xs"
    using lru_ok_entry [OF ok] by (fastforce simp: L view_def key_at_def)
  moreover have "inj_on (\<lambda>x. the (key_at h x)) (set xs)"
    using lru_ok_inj_key [OF ok] lru_ok_entry [OF ok] unfolding inj_on_def key_at_def
    by (metis option.map_sel option.distinct(1) option.expand option.map_disc_iff)
  moreover have "distinct xs" using ok by (simp add: lru_ok_def ring_def)
  ultimately show ?thesis by (simp add: distinct_map)
qed

lemma find_key_Some:
  "find_key k L = Some e \<Longrightarrow> e \<in> set L \<and> e_key e = k"
  by (auto simp: find_key_def find_Some_iff)

lemma find_key_None: "find_key k L = None \<longleftrightarrow> (\<forall>e \<in> set L. e_key e \<noteq> k)"
  by (auto simp: find_key_def find_None_iff)

lemma find_key_distinct:
  "distinct (map e_key L) \<Longrightarrow> e \<in> set L \<Longrightarrow> find_key (e_key e) L = Some e"
  by (induction L) (auto simp: find_key_def)

lemma lru_find_None: "lru_ok c h xs \<Longrightarrow> find_key k (view h xs) = None \<longleftrightarrow> cache c k = None"
proof -
  assume ok: "lru_ok c h xs"
  have "e_key (the (entry_at h x)) = k \<longleftrightarrow> key_at h x = Some k" if "x \<in> set xs" for x
    using lru_ok_entry [OF ok that] by (auto simp: key_at_def)
  then have "find_key k (view h xs) = None \<longleftrightarrow> (\<forall>x \<in> set xs. key_at h x \<noteq> Some k)"
    by (simp add: find_key_None view_def)
  also have "\<dots> \<longleftrightarrow> cache c k = None"
    using lru_ok_cache [OF ok, of k] by (cases "cache c k") auto
  finally show ?thesis .
qed

lemma lru_find_Some:
  assumes ok: "lru_ok c h xs" and a: "cache c k = Some a" and e: "entry_at h a = Some e"
  shows "find_key k (view h xs) = Some e"
proof -
  have "a \<in> set xs" "e_key e = k" using lru_ok_cache [OF ok, of k a] a e by (auto simp: key_at_def)
  moreover then have "e \<in> set (view h xs)" using e by (force simp: view_def)
  moreover have "distinct (map e_key (view h xs))"
    using lru_rel_distinct [of c h "view h xs"] ok by (auto simp: lru_rel_def)
  ultimately show ?thesis using find_key_distinct by blast
qed

lemma view_remove:
  assumes ok: "lru_ok c h xs" and a: "cache c k = Some a"
  shows "view h (remove1 a xs) = filter (other k) (view h xs)"
proof -
  have d: "distinct xs" using ok by (simp add: lru_ok_def ring_def)
  have "\<And>x. x \<in> set xs \<Longrightarrow> other k (the (entry_at h x)) \<longleftrightarrow> x \<noteq> a"
    using lru_ok_cache [OF ok] lru_ok_entry [OF ok] a
    by (metis key_at_def option.inject option.map_sel option.sel option.map(2) other_def)
  then have "filter (other k \<circ> (\<lambda>x. the (entry_at h x))) xs = filter (\<lambda>x. x \<noteq> a) xs"
    by (auto intro: filter_cong)
  then show ?thesis using d by (simp add: view_def filter_map distinct_remove1_removeAll removeAll_filter_not_eq)
      (metis (mono_tags, lifting) filter_cong)
qed

section \<open>Simulation\<close>

lemma deleteElement_sim:
  assumes ok: "lru_ok c h xs" and a: "a \<in> set xs"
  shows "\<exists>c' h'. deleteElement a (c, h) = Some (c', h') \<and> lru_ok c' h' (remove1 a xs) \<and>
     entry_at h' = entry_at h \<and> same_cfg c c' \<and> ents h' = ents h \<and> nent h' = nent h \<and>
     evicted h' = evicted h @ (if onEvict c then [(e_key (the (entry_at h a)), e_value (the (entry_at h a)))] else [])"
proof -
  obtain p e where pe: "val (els h) a = Some p" "ents h p = Some e" "entry_at h a = Some e"
    using lru_ok_entry [OF ok a] by blast
  have R: "ring (els h) (lru c) xs" using ok by (simp add: lru_ok_def)
  obtain es where es: "Remove (lru c) a (els h) = Some (es, Some p)" "ring es (lru c) (remove1 a xs)"
    "val es = val (els h)"
    using seq.unlink [OF R a] pe by metis
  have d: "set (remove1 a xs) = set xs - {a}" using R by (simp add: ring_def set_remove1_eq)
  have key: "key_at h a = Some (e_key e)" using pe by (simp add: key_at_def)
  let ?c = "c\<lparr>cache := (cache c)(e_key e := None)\<rparr>"
  let ?h = "h\<lparr>els := es, evicted := evicted h @ (if onEvict c then [(e_key e, e_value e)] else [])\<rparr>"
  have run: "deleteElement a (c, h) = Some (?c, ?h)"
    using es pe by (simp add: deleteElement_def)
  have ent: "entry_at ?h = entry_at h" using es by (simp add: entry_at_def fun_eq_iff)
  have keys: "key_at ?h = key_at h" unfolding key_at_def ent ..
  have "cache ?c k = Some b \<longleftrightarrow> b \<in> set (remove1 a xs) \<and> key_at ?h b = Some k" for k b
    unfolding keys d using lru_ok_cache [OF ok, of k b] inj_onD [OF lru_ok_inj_key [OF ok], of b a] a key
    by auto
  moreover have "inj_on (val es) (set (remove1 a xs))"
    using ok es(3) d by (auto simp: lru_ok_def intro: inj_on_subset)
  ultimately have "lru_ok ?c ?h (remove1 a xs)"
    using ok es d unfolding lru_ok_def by auto
  with run ent pe show ?thesis by auto
qed

lemma deleteOldestLoop_sim:
  assumes "lru_ok c h xs"
  shows "\<exists>c' h'. deleteOldestLoop now (c, h) = Some (c', h') \<and>
     lru_ok c' h' (dropWhile (\<lambda>x. e_expires (the (entry_at h x)) \<le> now) xs) \<and>
     entry_at h' = entry_at h \<and> same_cfg c c'"
  using assms
proof (induction xs arbitrary: c h)
  case Nil
  then show ?case
    by (subst deleteOldestLoop.simps) (auto simp: lru_ok_def Front_ring)
next
  case (Cons x xs)
  obtain e where e: "entry_at h x = Some e" using lru_ok_entry [OF Cons.prems, of x] by auto
  have f: "Front (els h) (lru c) = Some x" using Cons.prems by (auto simp: lru_ok_def Front_ring)
  obtain c1 h1 where d: "deleteElement x (c, h) = Some (c1, h1)" "lru_ok c1 h1 xs"
    "entry_at h1 = entry_at h" "same_cfg c c1"
    using deleteElement_sim [OF Cons.prems, of x] by auto
  show ?case
  proof (cases "e_expires e \<le> now")
    case True
    obtain c' h' where "deleteOldestLoop now (c1, h1) = Some (c', h')"
      "lru_ok c' h' (dropWhile (\<lambda>x. e_expires (the (entry_at h x)) \<le> now) xs)"
      "entry_at h' = entry_at h" "same_cfg c1 c'"
      using Cons.IH [OF d(2)] d(3) by auto
    with True e f d show ?thesis
      by (subst deleteOldestLoop.simps) (auto intro: same_cfg_trans)
  next
    case False
    with e f Cons.prems show ?thesis by (subst deleteOldestLoop.simps) auto
  qed
qed

lemma maybeDeleteOldest_sim:
  assumes "lru_rel c h L"
  shows "\<exists>c' h'. maybeDeleteOldest now (c, h) = Some (c', h') \<and> lru_rel c' h' (purge c now L) \<and> same_cfg c c'"
proof -
  obtain xs where ok: "lru_ok c h xs" and L: "L = view h xs" using assms by (auto simp: lru_rel_def)
  show ?thesis
  proof (cases "expiring c")
    case True
    obtain c' h' where *: "deleteOldestLoop now (c, h) = Some (c', h')"
      "lru_ok c' h' (dropWhile (\<lambda>x. e_expires (the (entry_at h x)) \<le> now) xs)"
      "entry_at h' = entry_at h" "same_cfg c c'"
      using deleteOldestLoop_sim [OF ok] by blast
    have "view h' (dropWhile (\<lambda>x. e_expires (the (entry_at h x)) \<le> now) xs) = purge c now L"
      using True *(3) by (simp add: view_def L purge_def dropWhile_map comp_def)
    with * True show ?thesis by (auto simp: maybeDeleteOldest_def expiring_def lru_rel_def)
  qed (use assms in \<open>auto simp: maybeDeleteOldest_def expiring_def purge_def\<close>)
qed

text \<open>Moving a present key to the back, with a new content for its entry.\<close>

lemma touch_sim:
  assumes ok: "lru_ok c h xs" and a: "cache c k = Some a" and p: "val (els h) a = Some p"
    and e': "e_key e' = k"
  shows "\<exists>es. MoveToBack (lru c) a (els h) = Some es \<and> val es = val (els h) \<and>
     lru_rel c (h\<lparr>els := es, ents := (ents h)(p := Some e')\<rparr>) (filter (other k) (view h xs) @ [e'])"
proof -
  have R: "ring (els h) (lru c) xs" using ok by (simp add: lru_ok_def)
  have a_in: "a \<in> set xs" and ka: "key_at h a = Some k" using lru_ok_cache [OF ok] a by auto
  obtain es where es: "MoveToBack (lru c) a (els h) = Some es" "ring es (lru c) (remove1 a xs @ [a])"
    "val es = val (els h)" using seq.touch [OF R a_in] by blast
  let ?h = "h\<lparr>els := es, ents := (ents h)(p := Some e')\<rparr>" let ?ys = "remove1 a xs @ [a]"
  have S: "set ?ys = set xs" and S': "set (remove1 a xs) = set xs - {a}"
    using R a_in by (auto simp: ring_def set_remove1_eq)
  have at_a: "entry_at ?h a = Some e'" using p es by (simp add: entry_at_def)
  have at_x: "entry_at ?h x = entry_at h x" if "x \<in> set xs" "x \<noteq> a" for x
  proof -
    have "val (els h) x \<noteq> Some p"
      using ok that a_in p unfolding lru_ok_def by (metis inj_onD)
    then show ?thesis using es(3) by (cases "val (els h) x") (auto simp: entry_at_def)
  qed
  have keys: "key_at ?h x = key_at h x" if "x \<in> set xs" for x
    using at_a at_x [OF that] ka e' by (cases "x = a") (auto simp: key_at_def)
  have "\<exists>q e. val es x = Some q \<and> q < nent h \<and> ((ents h)(p := Some e')) q = Some e"
    if "x \<in> set xs" for x
    using lru_ok_entry [OF ok that] es(3) by (cases "val es x = Some p") auto
  then have "lru_ok c ?h ?ys"
    unfolding lru_ok_def S
    using ok es(2,3) keys unfolding lru_ok_def by (auto cong: conj_cong)
  moreover have "view ?h ?ys = filter (other k) (view h xs) @ [e']"
  proof -
    have "view ?h (remove1 a xs) = view h (remove1 a xs)"
      unfolding view_def using at_x S' by (intro map_cong) auto
    moreover have "view ?h ?ys = view ?h (remove1 a xs) @ [the (entry_at ?h a)]"
      by (simp add: view_def)
    ultimately show ?thesis using view_remove [OF ok a] at_a by (simp only: option.sel)
  qed
  ultimately show ?thesis using es by (auto simp: lru_rel_def)
qed

text \<open>Adding a new key at the back.\<close>

lemma insert_sim:
  assumes ok: "lru_ok c h xs" and k: "cache c k = None" and e: "e_key e = k"
  shows "\<exists>es b. PushBack (lru c) (nent h) (els h) = Some (es, b) \<and>
     lru_ok (c\<lparr>cache := (cache c)(k \<mapsto> b)\<rparr>)
       (h\<lparr>els := es, ents := (ents h)(nent h := Some e), nent := Suc (nent h)\<rparr>) (xs @ [b]) \<and>
     view (h\<lparr>els := es, ents := (ents h)(nent h := Some e), nent := Suc (nent h)\<rparr>) (xs @ [b]) = view h xs @ [e]"
proof -
  let ?p = "nent h"
  have R: "ring (els h) (lru c) xs" using ok by (simp add: lru_ok_def)
  obtain es b where es: "PushBack (lru c) ?p (els h) = Some (es, b)" "ring es (lru c) (xs @ [b])"
    "b \<notin> set xs" "val es b = Some ?p" "\<forall>x \<in> set xs. val es x = val (els h) x"
    using seq.push [OF R, of ?p] by blast
  let ?h = "h\<lparr>els := es, ents := (ents h)(?p := Some e), nent := Suc ?p\<rparr>"
  have at_b: "entry_at ?h b = Some e" using es by (simp add: entry_at_def)
  have lt: "\<exists>p. val (els h) x = Some p \<and> p < ?p \<and> ents h p \<noteq> None" if "x \<in> set xs" for x
    using lru_ok_entry [OF ok that] by auto
  have at_x: "entry_at ?h x = entry_at h x" if "x \<in> set xs" for x
    using lt [OF that] es(5) that by (auto simp: entry_at_def)
  have keys: "key_at ?h b = Some k" "x \<in> set xs \<Longrightarrow> key_at ?h x = key_at h x" for x
    using at_b at_x e by (simp_all add: key_at_def)
  have inj: "inj_on (val es) (set (xs @ [b]))"
    using ok es(3-5) lt unfolding lru_ok_def by (fastforce simp: inj_on_def)
  have "((cache c)(k \<mapsto> b)) j = Some a \<longleftrightarrow> a \<in> set (xs @ [b]) \<and> key_at ?h a = Some j" for j a
  proof (cases "a = b")
    case True
    then show ?thesis using keys(1) es(3) lru_ok_cache [OF ok, of j b] by auto
  next
    case False
    then show ?thesis using keys(2) lru_ok_cache [OF ok, of j a] k by auto
  qed
  moreover have "\<exists>p e'. val es x = Some p \<and> p < Suc ?p \<and> ((ents h)(?p := Some e)) p = Some e'"
    if "x \<in> set (xs @ [b])" for x
    using that lt es(4,5) by (cases "x = b") fastforce+
  ultimately have "lru_ok (c\<lparr>cache := (cache c)(k \<mapsto> b)\<rparr>) ?h (xs @ [b])"
    using es(2) inj unfolding lru_ok_def by simp
  moreover have "view ?h (xs @ [b]) = view h xs @ [e]"
    using at_b at_x by (simp add: view_def)
  ultimately show ?thesis using es(1) by blast
qed

lemma SetWithExpire_sim:
  assumes rel: "lru_rel c h L"
  shows "\<exists>c' h'. SetWithExpire now k v x (c, h) = Some (c', h') \<and>
     lru_rel c' h' (spec_set c now k v x L) \<and> same_cfg c c'"
proof -
  obtain xs where ok: "lru_ok c h xs" and L: "L = view h xs" using rel by (auto simp: lru_rel_def)
  let ?e = "\<lparr>e_key = k, e_value = v, e_expires = x\<rparr>"
  show ?thesis
  proof (cases "cache c k")
    case (Some a)
    then have a_in: "a \<in> set xs" and ka: "key_at h a = Some k" using lru_ok_cache [OF ok] by auto
    obtain p e where pe: "val (els h) a = Some p" "ents h p = Some e" "entry_at h a = Some e"
      using lru_ok_entry [OF ok a_in] by blast
    then have e_eq: "e\<lparr>e_value := v, e_expires := x\<rparr> = ?e" using ka by (cases e) (simp add: key_at_def)
    obtain es where es: "MoveToBack (lru c) a (els h) = Some es" "val es = val (els h)"
      "lru_rel c (h\<lparr>els := es, ents := (ents h)(p := Some ?e)\<rparr>) (filter (other k) L @ [?e])"
      using touch_sim [OF ok Some pe(1), of ?e] L by auto
    have "find_key k L = Some e" using lru_find_Some [OF ok Some pe(3)] L by simp
    moreover obtain c' h' where "maybeDeleteOldest now (c, h\<lparr>els := es, ents := (ents h)(p := Some ?e)\<rparr>) = Some (c', h')"
      "lru_rel c' h' (purge c now (filter (other k) L @ [?e]))" "same_cfg c c'"
      using maybeDeleteOldest_sim [OF es(3)] by blast
    ultimately show ?thesis
      using Some es(1,2) pe e_eq by (simp add: SetWithExpire_def spec_set_def)
  next
    case None
    have fk: "find_key k L = None" using lru_find_None [OF ok] None L by simp
    obtain es b where es: "PushBack (lru c) (nent h) (els h) = Some (es, b)"
      "lru_ok (c\<lparr>cache := (cache c)(k \<mapsto> b)\<rparr>)
         (h\<lparr>els := es, ents := (ents h)(nent h := Some ?e), nent := Suc (nent h)\<rparr>) (xs @ [b])"
      "view (h\<lparr>els := es, ents := (ents h)(nent h := Some ?e), nent := Suc (nent h)\<rparr>) (xs @ [b]) = L @ [?e]"
      using insert_sim [OF ok None, of ?e] L by auto
    let ?c = "c\<lparr>cache := (cache c)(k \<mapsto> b)\<rparr>"
    let ?h = "h\<lparr>els := es, ents := (ents h)(nent h := Some ?e), nent := Suc (nent h)\<rparr>"
    have R: "ring es (lru c) (xs @ [b])" using es(2) by (simp add: lru_ok_def)
    have len: "Len es (lru c) = int (length (L @ [?e]))"
      using seq.size_of [OF R] L by (simp add: view_def)
    have "\<exists>c1 h1. (if 0 < maxSize c \<and> maxSize c < Len es (lru c)
             then do { f \<leftarrow> Front es (lru c); deleteElement f (?c, ?h) } else Some (?c, ?h)) = Some (c1, h1) \<and>
           lru_rel c1 h1 (bounded c (L @ [?e])) \<and> same_cfg c c1"
    proof (cases "0 < maxSize c \<and> maxSize c < Len es (lru c)")
      case True
      obtain f ys where ys: "xs @ [b] = f # ys" by (cases "xs @ [b]") auto
      have "Front es (lru c) = Some f" using seq.front [OF R] ys by simp
      moreover obtain c1 h1 where "deleteElement f (?c, ?h) = Some (c1, h1)" "lru_ok c1 h1 ys"
        "entry_at h1 = entry_at ?h" "same_cfg ?c c1"
        using deleteElement_sim [OF es(2), of f] ys by auto
      moreover have "view ?h ys = tl (view ?h (xs @ [b]))" unfolding ys view_def by simp
      moreover have "view ?h (xs @ [b]) = L @ [?e]" by (rule es(3))
      moreover have "same_cfg c c1" using \<open>same_cfg ?c c1\<close> by simp
      ultimately show ?thesis
        using True len by (auto simp: lru_rel_def view_def bounded_def)
    qed (use es len in \<open>auto simp: lru_rel_def bounded_def\<close>)
    then obtain c1 h1 where 1: "(if 0 < maxSize c \<and> maxSize c < Len es (lru c)
             then do { f \<leftarrow> Front es (lru c); deleteElement f (?c, ?h) } else Some (?c, ?h)) = Some (c1, h1)"
      "lru_rel c1 h1 (bounded c (L @ [?e]))" "same_cfg c c1" by blast
    obtain c' h' where "maybeDeleteOldest now (c1, h1) = Some (c', h')"
      "lru_rel c' h' (purge c now (bounded c (L @ [?e])))" "same_cfg c c'"
      using maybeDeleteOldest_sim [OF 1(2)] 1(3) same_cfg_eqs(1) [OF 1(3)] same_cfg_trans by metis
    moreover have "SetWithExpire now k v x (c, h) = maybeDeleteOldest now (c1, h1)"
      using None es(1) 1(1)
      by (cases "0 < maxSize c \<and> maxSize c < Len es (lru c)") (auto simp: SetWithExpire_def)
    ultimately show ?thesis using fk by (auto simp: spec_set_def Let_def)
  qed
qed

lemma lru_Set_sim:
  assumes "lru_rel c h L"
  shows "\<exists>c' h'. lru_Set now k v (c, h) = Some (c', h') \<and> same_cfg c c' \<and>
     lru_rel c' h' (spec_set c now k v (if 0 < maxAge c then now + maxAge c else 0) L)"
  unfolding lru_Set_def fst_conv using SetWithExpire_sim [OF assms] by blast

lemma lru_get_sim:
  assumes rel: "lru_rel c h L"
  shows "\<exists>c' h' el. lru_get now k (c, h) = Some ((c', h'), el) \<and> same_cfg c c' \<and>
     lru_rel c' h' (fst (spec_get c now k L)) \<and>
     (case el of None \<Rightarrow> snd (spec_get c now k L) = None | Some p \<Rightarrow> ents h' p = snd (spec_get c now k L) \<and> ents h' p \<noteq> None)"
proof -
  obtain xs where ok: "lru_ok c h xs" and L: "L = view h xs" using rel by (auto simp: lru_rel_def)
  show ?thesis
  proof (cases "cache c k")
    case None
    then have "find_key k L = None" using lru_find_None [OF ok] L by simp
    with None rel show ?thesis by (simp add: lru_get_def spec_get_def)
  next
    case (Some a)
    then have a_in: "a \<in> set xs" and ka: "key_at h a = Some k" using lru_ok_cache [OF ok] by auto
    obtain p e where pe: "val (els h) a = Some p" "ents h p = Some e" "entry_at h a = Some e"
      using lru_ok_entry [OF ok a_in] by blast
    have fk: "find_key k L = Some e" using lru_find_Some [OF ok Some pe(3)] L by simp
    show ?thesis
    proof (cases "expiring c \<and> e_expires e \<le> now")
      case True
      obtain c1 h1 where 1: "deleteElement a (c, h) = Some (c1, h1)" "lru_ok c1 h1 (remove1 a xs)"
        "entry_at h1 = entry_at h" "same_cfg c c1"
        using deleteElement_sim [OF ok a_in] by blast
      then have "lru_rel c1 h1 (filter (other k) L)"
        using view_remove [OF ok Some] by (auto simp: lru_rel_def view_def L)
      then obtain c' h' where "maybeDeleteOldest now (c1, h1) = Some (c', h')"
        "lru_rel c' h' (purge c now (filter (other k) L))" "same_cfg c c'"
        using maybeDeleteOldest_sim same_cfg_eqs(1) [OF 1(4)] same_cfg_trans [OF 1(4)] by metis
      with True Some pe 1 fk show ?thesis by (simp add: lru_get_def spec_get_def expiring_def)
    next
      case False
      let ?e = "if 0 < maxAge c \<and> updateAgeOnGet c then e\<lparr>e_expires := now + maxAge c\<rparr> else e"
      have "e_key ?e = k" using ka pe by (simp add: key_at_def)
      then obtain es where "MoveToBack (lru c) a (els h) = Some es"
        "lru_rel c (h\<lparr>els := es, ents := (ents h)(p := Some ?e)\<rparr>) (filter (other k) L @ [?e])"
        using touch_sim [OF ok Some pe(1), of ?e] L by auto
      with False Some pe fk show ?thesis by (auto simp: lru_get_def spec_get_def expiring_def Let_def)
    qed
  qed
qed

lemma lru_Get_sim:
  assumes "lru_rel c h L"
  shows "\<exists>c' h'. lru_Get now k (c, h) = Some ((c', h'), map_option e_value (snd (spec_get c now k L))) \<and>
     same_cfg c c' \<and> lru_rel c' h' (fst (spec_get c now k L))"
proof -
  obtain c' h' el where "lru_get now k (c, h) = Some ((c', h'), el)" "same_cfg c c'"
    "lru_rel c' h' (fst (spec_get c now k L))"
    "case el of None \<Rightarrow> snd (spec_get c now k L) = None
       | Some p \<Rightarrow> ents h' p = snd (spec_get c now k L) \<and> ents h' p \<noteq> None"
    using lru_get_sim [OF assms, of now k] by blast
  then show ?thesis by (cases el; cases "snd (spec_get c now k L)") (auto simp: lru_Get_def)
qed

lemma GetWithExpire_sim:
  assumes "lru_rel c h L"
  shows "\<exists>c' h'. GetWithExpire now k (c, h) =
       Some ((c', h'), map_option (\<lambda>e. (e_value e, e_expires e)) (snd (spec_get c now k L))) \<and>
     same_cfg c c' \<and> lru_rel c' h' (fst (spec_get c now k L))"
proof -
  obtain c' h' el where "lru_get now k (c, h) = Some ((c', h'), el)" "same_cfg c c'"
    "lru_rel c' h' (fst (spec_get c now k L))"
    "case el of None \<Rightarrow> snd (spec_get c now k L) = None
       | Some p \<Rightarrow> ents h' p = snd (spec_get c now k L) \<and> ents h' p \<noteq> None"
    using lru_get_sim [OF assms, of now k] by blast
  then show ?thesis by (cases el; cases "snd (spec_get c now k L)") (auto simp: GetWithExpire_def)
qed

lemma lru_Exist_sim: "lru_rel c h L \<Longrightarrow> lru_Exist k (c, h) \<longleftrightarrow> find_key k L \<noteq> None"
  by (auto simp: lru_rel_def lru_Exist_def lru_find_None simp del: not_None_eq)

lemma lru_Delete_sim:
  assumes rel: "lru_rel c h L"
  shows "\<exists>c' h'. lru_Delete k (c, h) = Some (c', h') \<and> lru_rel c' h' (spec_delete k L) \<and> same_cfg c c'"
proof -
  obtain xs where ok: "lru_ok c h xs" and L: "L = view h xs" using rel by (auto simp: lru_rel_def)
  show ?thesis
  proof (cases "cache c k")
    case None
    then have "filter (other k) L = L"
      using lru_find_None [OF ok, of k] L by (auto simp: find_key_None other_def filter_id_conv)
    with None rel show ?thesis by (simp add: lru_Delete_def spec_delete_def)
  next
    case (Some a)
    then have a_in: "a \<in> set xs" using lru_ok_cache [OF ok] by auto
    obtain c1 h1 where "deleteElement a (c, h) = Some (c1, h1)" "lru_ok c1 h1 (remove1 a xs)"
      "entry_at h1 = entry_at h" "same_cfg c c1"
      using deleteElement_sim [OF ok a_in] by blast
    with Some view_remove [OF ok Some] L show ?thesis
      by (auto simp: lru_Delete_def lru_rel_def spec_delete_def view_def)
  qed
qed

lemma NewLru_sim:
  assumes "\<forall>opt \<in> set options. \<forall>c. lru (opt c) = lru c \<and> cache (opt c) = cache c"
  shows "\<exists>c h'. NewLru options (h :: ('k, 'v) lru_heap) = (c, h') \<and> lru_rel c h' []"
proof -
  have "lru (fold (\<lambda>opt c. opt c) options c0) = lru c0 \<and> cache (fold (\<lambda>opt c. opt c) options c0) = cache c0" for c0
    using assms by (induction options arbitrary: c0) auto
  moreover obtain es l where n: "New (els h) = (es, l)" by fastforce
  moreover have "ring es l []" using New_ring [OF n] .
  ultimately show ?thesis
    by (auto simp: NewLru_def lru_rel_def lru_ok_def view_def)
qed

lemma std_options:
  "lru (WithSize n c) = lru c \<and> cache (WithSize n c) = cache c"
  "lru (WithAge n c) = lru c \<and> cache (WithAge n c) = cache c"
  "lru (WithStale b c) = lru c \<and> cache (WithStale b c) = cache c"
  "lru (WithUpdateAgeOnGet c) = lru c \<and> cache (WithUpdateAgeOnGet c) = cache c"
  "lru (WithEvict c) = lru c \<and> cache (WithEvict c) = cache c"
  by (simp_all add: WithSize_def WithAge_def WithStale_def WithUpdateAgeOnGet_def WithEvict_def)

section \<open>Cloning\<close>

text \<open>\<open>ys\<close> is what the target holds so far, \<open>rs\<close> what is left of the source.\<close>

lemma cloneLoop_sim:
  assumes "ring (els h) l (us @ rs)" "l \<noteq> lru n" "lru_ok n h ys"
    and "\<forall>r \<in> set rs. \<exists>p e. val (els h) r = Some p \<and> p < nent h \<and> ents h p = Some e"
    and "inj_on (val (els h)) (set rs)" "val (els h) ` set rs \<inter> val (els h) ` set ys = {}"
    and "inj_on (key_at h) (set rs)" "key_at h ` set rs \<inter> key_at h ` set ys = {}"
  shows "\<exists>n' h' zs. cloneLoop (case rs of [] \<Rightarrow> None | r # _ \<Rightarrow> Some r) n h = Some (n', h') \<and>
     lru_ok n' h' (ys @ zs) \<and> view h' (ys @ zs) = view h (ys @ rs) \<and> same_cfg n n' \<and>
     frame (lru n) (els h) (els h') \<and> ents h' = ents h \<and> nent h' = nent h"
  using assms
proof (induction rs arbitrary: us ys n h)
  case Nil
  then show ?case
    by (subst cloneLoop.simps) (auto intro!: exI [of _ n] exI [of _ h] exI [of _ "[]"])
next
  case (Cons r rs)
  obtain p e where pe: "val (els h) r = Some p" "p < nent h" "ents h p = Some e"
    using Cons.prems(4) by auto
  have R: "ring (els h) (lru n) ys" using Cons.prems(3) by (simp add: lru_ok_def)
  obtain es where es: "PushBack (lru n) p (els h) = Some (es, El (nelem (els h)))"
    "ring es (lru n) (ys @ [El (nelem (els h))])" "frame (lru n) (els h) es"
    "val es (El (nelem (els h))) = Some p" using PushBack_ring [OF R, of p] by blast
  let ?b = "El (nelem (els h))" let ?h = "h\<lparr>els := es\<rparr>"
  let ?n = "n\<lparr>cache := (cache n)(e_key e \<mapsto> ?b)\<rparr>"
  have src: "ring es l (us @ r # rs)" using es(3) Cons.prems(1,2) by (simp add: frame_def)
  have vy: "val es x = val (els h) x" if "x \<in> set ys" for x using frame_val [OF es(3) R that] .
  have vr: "val es x = val (els h) x" if "x \<in> set (r # rs)" for x
    using frame_val [OF es(3) Cons.prems(1)] that by auto
  have ky: "key_at ?h x = key_at h x" if "x \<in> set ys" for x
    using vy [OF that] by (simp add: key_at_def entry_at_def)
  have kr: "key_at ?h x = key_at h x" if "x \<in> set (r # rs)" for x
    using vr [OF that] by (simp add: key_at_def entry_at_def)
  have kb: "key_at ?h ?b = Some (e_key e)" "key_at h r = Some (e_key e)"
    using es(4) pe by (simp_all add: key_at_def entry_at_def)
  have b: "?b \<notin> set ys" using es(2) by (simp add: ring_def)
  have new_key: "\<forall>x \<in> set ys. key_at h x \<noteq> Some (e_key e)"
    using Cons.prems(8) kb(2) by force
  have "\<exists>q f. val es x = Some q \<and> q < nent h \<and> ents h q = Some f" if "x \<in> set (ys @ [?b])" for x
    using that lru_ok_entry [OF Cons.prems(3), of x] vy pe es(4) by (cases "x = ?b") auto
  moreover have "inj_on (val es) (set (ys @ [?b]))"
  proof -
    have "inj_on (val es) (set ys)" using Cons.prems(3) vy by (simp add: lru_ok_def inj_on_def)
    moreover have "val es ?b \<notin> val es ` (set ys - {?b})"
      using Cons.prems(6) vy pe(1) es(4) by auto
    ultimately show ?thesis by simp
  qed
  moreover have "cache ?n k = Some a \<longleftrightarrow> a \<in> set (ys @ [?b]) \<and> key_at ?h a = Some k" for k a
    using lru_ok_cache [OF Cons.prems(3), of k a] ky [of a] kb(1) b new_key by auto
  ultimately have ok: "lru_ok ?n ?h (ys @ [?b])" using es(2) unfolding lru_ok_def by simp
  have "\<exists>n' h' zs. cloneLoop (case rs of [] \<Rightarrow> None | r # _ \<Rightarrow> Some r) ?n ?h = Some (n', h') \<and>
     lru_ok n' h' ((ys @ [?b]) @ zs) \<and> view h' ((ys @ [?b]) @ zs) = view ?h ((ys @ [?b]) @ rs) \<and> same_cfg ?n n' \<and>
     frame (lru ?n) (els ?h) (els h') \<and> ents h' = ents ?h \<and> nent h' = nent ?h"
  proof (rule Cons.IH [where us = "us @ [r]" and n = ?n and h = ?h and ys = "ys @ [?b]"])
    have r: "r \<notin> set rs" using Cons.prems(1) by (simp add: ring_def)
    have "val es ` set rs = val (els h) ` set rs" "val es ` set ys = val (els h) ` set ys"
      using vr vy by (auto intro!: image_cong)
    moreover have "Some p \<notin> val (els h) ` set rs"
      using Cons.prems(5) r pe(1) by (auto simp: inj_on_def)
    ultimately show "val (els ?h) ` set rs \<inter> val (els ?h) ` set (ys @ [?b]) = {}"
      using Cons.prems(6) es(4) by simp
    have "inj_on (key_at h) (set rs)" using Cons.prems(7) by simp
    then show "inj_on (key_at ?h) (set rs)" using kr by (simp add: inj_on_def)
    have "key_at ?h ` set rs = key_at h ` set rs" "key_at ?h ` set ys = key_at h ` set ys"
      using kr ky by (auto intro!: image_cong)
    moreover have "key_at ?h ?b \<notin> key_at h ` set rs"
      using Cons.prems(7) r kb by (auto simp: inj_on_def)
    ultimately show "key_at ?h ` set rs \<inter> key_at ?h ` set (ys @ [?b]) = {}"
      using Cons.prems(8) by simp
    show "inj_on (val (els ?h)) (set rs)" using Cons.prems(5) vr by (simp add: inj_on_def)
    show "\<forall>r \<in> set rs. \<exists>p e. val (els ?h) r = Some p \<and> p < nent ?h \<and> ents ?h p = Some e"
      using Cons.prems(4) vr by simp
  qed (use src ok Cons.prems(2) in simp_all)
  then obtain n' h' zs where IH: "cloneLoop (case rs of [] \<Rightarrow> None | r # _ \<Rightarrow> Some r) ?n ?h = Some (n', h')"
    "lru_ok n' h' (ys @ ?b # zs)" "view h' (ys @ ?b # zs) = view ?h (ys @ ?b # rs)" "same_cfg n n'"
    "frame (lru n) es (els h')" "ents h' = ents h" "nent h' = nent h" by auto
  have "Next es r = (case rs of [] \<Rightarrow> None | r # _ \<Rightarrow> Some r)" by (rule Next_ring [OF src])
  then have run: "cloneLoop (Some r) n h = Some (n', h')"
    using pe es(1) IH(1) by (subst cloneLoop.simps) simp
  have "view ?h (ys @ ?b # rs) = view h (ys @ r # rs)"
    using vy vr es(4) pe by (auto simp: view_def entry_at_def)
  with run IH frame_trans [OF es(3) IH(5)] show ?case
    by (auto intro!: exI [of _ n'] exI [of _ h'] exI [of _ "?b # zs"])
qed

lemma CloneTo_sim:
  assumes rel: "lru_rel c h L"
  shows "\<exists>n' h'. CloneTo c n h = Some (n', h') \<and> lru_rel n' h' L \<and> lru_rel c h' L"
proof -
  obtain xs where ok: "lru_ok c h xs" and L: "L = view h xs" using rel by (auto simp: lru_rel_def)
  have R: "ring (els h) (lru c) xs" using ok by (simp add: lru_ok_def)
  obtain es l where n: "New (els h) = (es, l)" by fastforce
  have src: "ring es (lru c) xs" by (rule New_frame [OF n R])
  have v: "val es = val (els h)" and l: "l = nlist (els h)"
    using n by (auto simp: New_def Let_def Init_def set_nxt_def set_prv_def)
  have ne: "lru c \<noteq> l" using R l by (auto simp: ring_def)
  let ?h = "h\<lparr>els := es\<rparr>" let ?n = "n\<lparr>lru := l, cache := (\<lambda>_. None)\<rparr>"
  have ent: "entry_at ?h = entry_at h" by (simp add: entry_at_def v fun_eq_iff)
  have okh: "lru_ok c ?h xs" using ok src ent by (simp add: lru_ok_def v key_at_def)
  have "\<exists>n' h' zs. cloneLoop (case xs of [] \<Rightarrow> None | r # _ \<Rightarrow> Some r) ?n ?h = Some (n', h') \<and>
     lru_ok n' h' ([] @ zs) \<and> view h' ([] @ zs) = view ?h ([] @ xs) \<and> same_cfg ?n n' \<and>
     frame (lru ?n) (els ?h) (els h') \<and> ents h' = ents ?h \<and> nent h' = nent ?h"
  proof (rule cloneLoop_sim [of ?h "lru c" "[]" xs])
    show "lru_ok ?n ?h []" using New_ring [OF n] by (simp add: lru_ok_def)
    show "inj_on (key_at ?h) (set xs)" by (rule lru_ok_inj_key [OF okh])
  qed (use src ne ok v in \<open>auto simp: lru_ok_def\<close>)
  then obtain n' h' zs where *: "cloneLoop (case xs of [] \<Rightarrow> None | r # _ \<Rightarrow> Some r) ?n ?h = Some (n', h')"
    "lru_ok n' h' zs" "view h' zs = view ?h xs" "frame l es (els h')" "ents h' = ents h" "nent h' = nent h"
    by auto
  have "CloneTo c n h = Some (n', h')"
    using *(1) n Front_ring [OF src] by (simp add: CloneTo_def)
  moreover have "view ?h xs = L" using ent by (simp add: view_def L)
  moreover have "lru_rel c h' L"
  proof -
    have R': "ring (els h') (lru c) xs" using *(4) src ne by (simp add: frame_def)
    have vx: "val (els h') x = val (els h) x" if "x \<in> set xs" for x
      using frame_val [OF *(4) src that] v by simp
    have ex: "entry_at h' x = entry_at h x" if "x \<in> set xs" for x
      using vx [OF that] *(5) by (simp add: entry_at_def)
    have "lru_ok c h' xs"
      using ok R' vx ex *(5,6) unfolding lru_ok_def inj_on_def key_at_def by (auto cong: conj_cong)
    moreover have "view h' xs = L" using ex by (simp add: view_def L)
    ultimately show ?thesis by (auto simp: lru_rel_def)
  qed
  ultimately show ?thesis using * by (auto simp: lru_rel_def)
qed

section \<open>Runs of operations\<close>

datatype ('k, 'v) lru_op = OpSet 'k 'v | OpGet 'k | OpDelete 'k

fun lru_step :: "int \<Rightarrow> ('k, 'v) lru_op \<Rightarrow> ('k, 'v) lru_state \<Rightarrow> ('k, 'v) lru_state option" where
  "lru_step now (OpSet k v) s = lru_Set now k v s"
| "lru_step now (OpGet k) s = map_option fst (lru_Get now k s)"
| "lru_step now (OpDelete k) s = lru_Delete k s"

fun lru_run :: "(int \<times> ('k, 'v) lru_op) list \<Rightarrow> ('k, 'v) lru_state \<Rightarrow> ('k, 'v) lru_state option" where
  "lru_run [] s = Some s"
| "lru_run ((now, op) # ops) s = lru_step now op s \<bind> lru_run ops"

lemma length_purge: "length (purge c now L) \<le> length L"
  by (simp add: purge_def length_dropWhile_le)

lemma length_filter_other_find:
  "find_key k L \<noteq> None \<Longrightarrow> length (filter (other k) L) < length L"
  by (auto simp: find_key_def find_Some_iff other_def intro: length_filter_less nth_mem)

lemma length_spec_set:
  assumes "0 < maxSize c" "int (length L) \<le> maxSize c"
  shows "int (length (spec_set c now k v x L)) \<le> maxSize c"
proof -
  let ?e = "\<lparr>e_key = k, e_value = v, e_expires = x\<rparr>"
  have "int (length (if find_key k L = None then bounded c (L @ [?e]) else filter (other k) L @ [?e])) \<le> maxSize c"
    using assms length_filter_other_find [of k L] by (auto simp: bounded_def)
  then show ?thesis
    unfolding spec_set_def Let_def
    by (meson length_purge of_nat_mono order_trans)
qed

lemma length_spec_get: "length (fst (spec_get c now k L)) \<le> length L"
proof (cases "find_key k L")
  case (Some e)
  then have "length (filter (other k) L) < length L" using length_filter_other_find [of k L] by simp
  with Some length_purge [of c now "filter (other k) L"] show ?thesis
    by (auto simp: spec_get_def Let_def)
qed (simp add: spec_get_def)

lemma lru_step_sim:
  assumes "lru_rel c h L" "0 < maxSize c" "int (length L) \<le> maxSize c"
  shows "\<exists>c' h' L'. lru_step now op (c, h) = Some (c', h') \<and> lru_rel c' h' L' \<and> same_cfg c c' \<and>
     int (length L') \<le> maxSize c"
proof (cases op)
  case (OpSet k v)
  then show ?thesis using lru_Set_sim [OF assms(1), of now k v] length_spec_set [OF assms(2,3)]
    by fastforce
next
  case (OpGet k)
  obtain c' h' where "lru_Get now k (c, h) = Some ((c', h'), map_option e_value (snd (spec_get c now k L)))"
    "same_cfg c c'" "lru_rel c' h' (fst (spec_get c now k L))"
    using lru_Get_sim [OF assms(1)] by blast
  moreover have "int (length (fst (spec_get c now k L))) \<le> maxSize c"
    using length_spec_get [of c now k L] assms(3) by linarith
  ultimately show ?thesis using OpGet by auto
next
  case (OpDelete k)
  obtain c' h' where "lru_Delete k (c, h) = Some (c', h')" "lru_rel c' h' (spec_delete k L)" "same_cfg c c'"
    using lru_Delete_sim [OF assms(1)] by blast
  moreover have "int (length (spec_delete k L)) \<le> maxSize c"
    using length_filter_le [of "other k" L] assms(3) unfolding spec_delete_def by linarith
  ultimately show ?thesis using OpDelete by auto
qed

lemma lru_run_sim:
  "lru_rel c h L \<Longrightarrow> 0 < maxSize c \<Longrightarrow> int (length L) \<le> maxSize c \<Longrightarrow>
   \<exists>c' h' L'. lru_run ops (c, h) = Some (c', h') \<and> lru_rel c' h' L' \<and> int (length L') \<le> maxSize c"
proof (induction ops arbitrary: c h L)
  case (Cons o' ops)
  obtain now op where o': "o' = (now, op)" by fastforce
  obtain c1 h1 L1 where 1: "lru_step now op (c, h) = Some (c1, h1)" "lru_rel c1 h1 L1" "same_cfg c c1"
    "int (length L1) \<le> maxSize c" using lru_step_sim [OF Cons.prems] by blast
  with Cons.IH [OF 1(2)] Cons.prems(2) same_cfg_eqs(6) [OF 1(3)] show ?case by (simp add: o')
qed auto

section \<open>Properties\<close>

text \<open>C5: \<^verbatim>\<open>SetWithExpire\<close> refines its specification on the list of entries: an existing key is
  updated and becomes the most recent; a new key is appended and, when the cache has a size limit
  and is over it, exactly the least recently used entry is dropped; then the expired entries at
  the front are dropped. The pointer code never panics and its eviction loop ends.\<close>

theorem lru_set_refines:
  assumes "lru_rel c h L"
  shows "\<exists>c' h'. SetWithExpire now k v x (c, h) = Some (c', h') \<and>
     lru_rel c' h' (spec_set c now k v x L)"
  using SetWithExpire_sim [OF assms] by blast

text \<open>A value set is the value the next \<^verbatim>\<open>Get\<close> of the same second returns, whatever the
  cache held and however small it is.\<close>

theorem lru_set_then_get:
  assumes rel: "lru_rel c h L"
  shows "\<exists>s s'. lru_Set now k v (c, h) = Some s \<and> lru_Get now k s = Some (s', Some v)"
proof -
  let ?x = "if 0 < maxAge c then now + maxAge c else 0"
  let ?e = "\<lparr>e_key = k, e_value = v, e_expires = ?x\<rparr>"
  obtain c1 h1 where 1: "lru_Set now k v (c, h) = Some (c1, h1)" "same_cfg c c1"
    "lru_rel c1 h1 (spec_set c now k v ?x L)" using lru_Set_sim [OF rel] by blast
  have live: "expiring c \<Longrightarrow> now < ?x" by (simp add: expiring_def)
  have keep: "?e \<in> set (purge c now (M @ [?e]))" for M
    using live by (auto simp: purge_def dropWhile_append)
  have "?e \<in> set (spec_set c now k v ?x L)"
  proof (cases "find_key k L = None \<and> 0 < maxSize c \<and> maxSize c < int (length (L @ [?e]))")
    case True
    then have "L \<noteq> []" by auto
    then have "tl (L @ [?e]) = tl L @ [?e]" by simp
    with True keep [of "tl L"] show ?thesis by (simp add: spec_set_def bounded_def Let_def)
  next
    case False
    with keep [of L] keep [of "filter (other k) L"] show ?thesis
      by (auto simp: spec_set_def bounded_def Let_def)
  qed
  then have "find_key k (spec_set c now k v ?x L) = Some ?e"
    using find_key_distinct [OF lru_rel_distinct [OF 1(3)]] by fastforce
  then have "map_option e_value (snd (spec_get c1 now k (spec_set c now k v ?x L))) = Some v"
    using live same_cfg_eqs [OF 1(2)] by (auto simp: spec_get_def Let_def)
  with lru_Get_sim [OF 1(3), of now k] 1(1) show ?thesis by auto
qed

text \<open>Over any run of sets, gets and deletes from a new cache with a size limit, no operation
  panics and the cache never holds more entries than the limit.\<close>

theorem lru_run_bounded:
  assumes "0 < n" "NewLru [WithSize n] (h :: ('k, 'v) lru_heap) = (c, h0)"
  shows "\<exists>c' h' L. lru_run ops (c, h0) = Some (c', h') \<and> lru_rel c' h' L \<and> int (length L) \<le> n"
proof -
  have "lru_rel c h0 []" using NewLru_sim [of "[WithSize n]" h] assms(2) std_options(1) by auto
  moreover have "maxSize c = n" using assms(2) by (auto simp: NewLru_def WithSize_def split: prod.splits)
  ultimately show ?thesis using lru_run_sim [of c h0 "[]" ops] assms(1) by simp
qed

lemma lru_set_after_clear:
  assumes rel: "lru_rel c h L" and full: "0 < maxSize c" "int (length L) = maxSize c"
    and exp: "\<not> expiring c"
  shows "\<exists>s. lru_Set now k v (lru_Clear (c, h)) = Some s \<and> (lru_Exist k s \<longleftrightarrow> e_key (hd L) \<noteq> k)"
proof -
  obtain xs where ok: "lru_ok c h xs" and L: "L = view h xs" using rel by (auto simp: lru_rel_def)
  have R: "ring (els h) (lru c) xs" using ok by (simp add: lru_ok_def)
  obtain a ys where xs: "xs = a # ys" using full L by (cases xs) (auto simp: view_def)
  obtain p e where pe: "val (els h) a = Some p" "p < nent h" "ents h p = Some e"
    using lru_ok_entry [OF ok, of a] xs by auto
  have ke: "e_key (hd L) = e_key e" using pe by (simp add: L xs view_def entry_at_def)
  obtain es b where es: "PushBack (lru c) (nent h) (els h) = Some (es, b)" "ring es (lru c) (xs @ [b])"
    "b \<notin> set xs" "\<forall>x \<in> set xs. val es x = val (els h) x"
    using seq.push [OF R, of "nent h"] by blast
  have len: "Len es (lru c) = maxSize c + 1"
    using seq.size_of [OF es(2)] full L by (simp add: view_def)
  have front: "Front es (lru c) = Some a" using seq.front [OF es(2)] xs by simp
  obtain es2 where es2: "Remove (lru c) a es = Some (es2, Some p)"
    using seq.unlink [OF es(2), of a] es(4) pe xs by auto
  from full exp pe ke es len front es2 show ?thesis
    by (auto simp: lru_Set_def SetWithExpire_def lru_Clear_def deleteElement_def maybeDeleteOldest_def
        expiring_def lru_Exist_def Let_def)
qed

text \<open>\<^verbatim>\<open>Clear\<close> empties the map but keeps the list, so on a cache that was full a key set right
  after \<^verbatim>\<open>Clear\<close> can be lost at once: setting again the key that was least recently used evicts
  its own old element, and deleting that element removes the new mapping.\<close>

theorem lru_clear_loses_next_set:
  assumes "lru_rel c h L" "0 < maxSize c" "int (length L) = maxSize c"
    "\<not> expiring c" "e_key (hd L) = k"
  shows "\<exists>s. lru_Set now k v (lru_Clear (c, h)) = Some s \<and> \<not> lru_Exist k s"
  using lru_set_after_clear [OF assms(1-4)] assms(5) by blast

section \<open>Witnesses\<close>

definition demo_lru :: "(nat, nat) lru_state" where
  "demo_lru = NewLru [WithSize 1] empty_lru_heap"

lemma demo_lru_rel: "lru_rel (fst demo_lru) (snd demo_lru) []"
proof -
  obtain c h where "NewLru [WithSize 1] (empty_lru_heap :: (nat, nat) lru_heap) = (c, h)" "lru_rel c h []"
    using NewLru_sim [of "[WithSize 1]" "empty_lru_heap :: (nat, nat) lru_heap"] std_options(1) by auto
  then show ?thesis by (simp add: demo_lru_def)
qed

lemma demo_lru_cfg: "maxSize (fst demo_lru) = 1" "maxAge (fst demo_lru) = 0"
  by (simp_all add: demo_lru_def NewLru_def WithSize_def split: prod.splits)

theorem lru_set_refines_witness:
  "\<exists>c' h'. SetWithExpire 0 7 70 0 demo_lru = Some (c', h') \<and>
     lru_rel c' h' [\<lparr>e_key = 7, e_value = 70, e_expires = 0\<rparr>]"
  using lru_set_refines [OF demo_lru_rel, of 0 7 70 0] demo_lru_cfg
  by (simp add: spec_set_def find_key_def bounded_def purge_def expiring_def)

theorem lru_set_then_get_witness:
  "\<exists>s s'. lru_Set 0 7 70 demo_lru = Some s \<and> lru_Get 0 7 s = Some (s', Some 70)"
  using lru_set_then_get [OF demo_lru_rel, of 0 7 70] by simp

theorem lru_run_bounded_witness:
  "\<exists>c' h' L. lru_run [(0, OpSet 7 70), (0, OpSet 8 80), (1, OpGet 8)] demo_lru = Some (c', h') \<and>
     lru_rel c' h' L \<and> int (length L) \<le> 1"
  using lru_run_bounded [of 1 empty_lru_heap "fst demo_lru" "snd demo_lru"
      "[(0, OpSet 7 70), (0, OpSet 8 80), (1, OpGet 8)]"]
  by (simp add: demo_lru_def del: lru_run.simps)

theorem lru_clear_loses_next_set_witness:
  "\<exists>c h s. lru_Set 0 7 70 demo_lru = Some (c, h) \<and>
     lru_Set 1 7 71 (lru_Clear (c, h)) = Some s \<and> \<not> lru_Exist 7 s"
proof -
  obtain c h where 1: "lru_Set 0 7 70 demo_lru = Some (c, h)" "same_cfg (fst demo_lru) c"
    "lru_rel c h [\<lparr>e_key = 7, e_value = 70, e_expires = 0\<rparr>]"
    using lru_Set_sim [OF demo_lru_rel, of 0 7 70] demo_lru_cfg
    by (auto simp: spec_set_def find_key_def bounded_def purge_def expiring_def)
  then show ?thesis
    using lru_clear_loses_next_set [OF 1(3), of 7 1 71] same_cfg_eqs [OF 1(2)] demo_lru_cfg
    by (auto simp: expiring_def)
qed

end
