(* ===== verification/GoNet.thy ===== *)
theory GoNet imports GoPrelude "HOL-Library.Word" begin

text \<open>
  IP addresses and prefixes: the parts of Go's \<^verbatim>\<open>net\<close> and \<^verbatim>\<open>net/netip\<close> the modelled code calls,
  and the two functions of \<^verbatim>\<open>common/nnip/netip.go\<close>.

  A \<^verbatim>\<open>netip.Addr\<close> is the invalid zero value, a 32-bit or a 128-bit address; zones are not modelled
  (no modelled function makes one). A \<^verbatim>\<open>net.IP\<close> is its list of bytes.
\<close>

unbundle bit_operations_syntax

section \<open>netip.Addr\<close>

datatype Addr = AddrZero | V4 "32 word" | V6 "128 word"

definition addr_IsValid :: "Addr \<Rightarrow> bool" where
  "addr_IsValid a = (a \<noteq> AddrZero)"

fun Is4 :: "Addr \<Rightarrow> bool" where
  "Is4 (V4 _) = True"
| "Is4 _ = False"

fun Is6 :: "Addr \<Rightarrow> bool" where
  "Is6 (V6 _) = True"
| "Is6 _ = False"

text \<open>An IPv4-mapped IPv6 address: the upper 96 bits are \<^verbatim>\<open>::ffff\<close>.\<close>

fun Is4In6 :: "Addr \<Rightarrow> bool" where
  "Is4In6 (V6 w) = (drop_bit 32 w = 0xFFFF)"
| "Is4In6 _ = False"

fun Unmap :: "Addr \<Rightarrow> Addr" where
  "Unmap (V6 w) = (if drop_bit 32 w = 0xFFFF then V4 (ucast w) else V6 w)"
| "Unmap a = a"

fun BitLen :: "Addr \<Rightarrow> nat" where
  "BitLen AddrZero = 0"
| "BitLen (V4 _) = 32"
| "BitLen (V6 _) = 128"

text \<open>Shorter addresses come first.\<close>

fun addr_Less :: "Addr \<Rightarrow> Addr \<Rightarrow> bool" where
  "addr_Less AddrZero b = (b \<noteq> AddrZero)"
| "addr_Less (V4 a) AddrZero = False"
| "addr_Less (V4 a) (V4 b) = (a < b)"
| "addr_Less (V4 a) (V6 b) = True"
| "addr_Less (V6 a) (V6 b) = (a < b)"
| "addr_Less (V6 a) _ = False"

text \<open>The address after the last one and before the first one is the invalid address.\<close>

fun addr_Next :: "Addr \<Rightarrow> Addr" where
  "addr_Next AddrZero = AddrZero"
| "addr_Next (V4 a) = (if a + 1 = 0 then AddrZero else V4 (a + 1))"
| "addr_Next (V6 a) = (if a + 1 = 0 then AddrZero else V6 (a + 1))"

fun addr_Prev :: "Addr \<Rightarrow> Addr" where
  "addr_Prev AddrZero = AddrZero"
| "addr_Prev (V4 a) = (if a = 0 then AddrZero else V4 (a - 1))"
| "addr_Prev (V6 a) = (if a = 0 then AddrZero else V6 (a - 1))"

text \<open>\<open>n\<close> bytes of a word, the most significant first.\<close>

definition bytes_of :: "nat \<Rightarrow> 'a :: len word \<Rightarrow> 8 word list" where
  "bytes_of n w = map (\<lambda>i. ucast (drop_bit (8 * (n - 1 - i)) w)) [0..<n]"

definition word_of_bytes :: "8 word list \<Rightarrow> 'a :: len word" where
  "word_of_bytes bs = foldl (\<lambda>w b. push_bit 8 w OR ucast b) 0 bs"

type_synonym net_IP = "8 word list"

fun AsSlice :: "Addr \<Rightarrow> net_IP" where
  "AsSlice AddrZero = []"
| "AsSlice (V4 w) = bytes_of 4 w"
| "AsSlice (V6 w) = bytes_of 16 w"

definition AddrFromSlice :: "net_IP \<Rightarrow> Addr option" where
  "AddrFromSlice bs =
     (if length bs = 4 then Some (V4 (word_of_bytes bs))
      else if length bs = 16 then Some (V6 (word_of_bytes bs)) else None)"

text \<open>The 16-byte form: IPv4 as an IPv4-mapped address.\<close>

fun As16 :: "Addr \<Rightarrow> 128 word" where
  "As16 AddrZero = 0"
| "As16 (V4 w) = push_bit 32 0xFFFF OR ucast w"
| "As16 (V6 w) = w"

section \<open>netip.Prefix\<close>

record Prefix =
  pfx_Addr :: Addr
  pfx_Bits :: int

definition PrefixZero :: Prefix where
  "PrefixZero = \<lparr>pfx_Addr = AddrZero, pfx_Bits = 0\<rparr>"

definition pfx_IsValid :: "Prefix \<Rightarrow> bool" where
  "pfx_IsValid p \<longleftrightarrow> pfx_Addr p \<noteq> AddrZero \<and> 0 \<le> pfx_Bits p \<and> pfx_Bits p \<le> int (BitLen (pfx_Addr p))"

definition Masked :: "Prefix \<Rightarrow> Prefix" where
  "Masked p =
     (if \<not> pfx_IsValid p then PrefixZero
      else case pfx_Addr p of
        V4 w \<Rightarrow> \<lparr>pfx_Addr = V4 (w AND NOT (mask (32 - nat (pfx_Bits p)))), pfx_Bits = pfx_Bits p\<rparr>
      | V6 w \<Rightarrow> \<lparr>pfx_Addr = V6 (w AND NOT (mask (128 - nat (pfx_Bits p)))), pfx_Bits = pfx_Bits p\<rparr>
      | AddrZero \<Rightarrow> PrefixZero)"

definition pfx_Contains :: "Prefix \<Rightarrow> Addr \<Rightarrow> bool" where
  "pfx_Contains p a =
     (pfx_IsValid p \<and>
      (case (pfx_Addr p, a) of
         (V4 w, V4 v) \<Rightarrow> drop_bit (32 - nat (pfx_Bits p)) (w XOR v) = 0
       | (V6 w, V6 v) \<Rightarrow> drop_bit (128 - nat (pfx_Bits p)) (w XOR v) = 0
       | _ \<Rightarrow> False))"

section \<open>net.IP\<close>

definition v4InV6Prefix :: net_IP where
  "v4InV6Prefix = [0,0,0,0,0,0,0,0,0,0,0xFF,0xFF]"

text \<open>\<open>None\<close> is the nil slice.\<close>

definition To4 :: "net_IP \<Rightarrow> net_IP option" where
  "To4 ip =
     (if length ip = 4 then Some ip
      else if length ip = 16 \<and> take 12 ip = v4InV6Prefix then Some (drop 12 ip) else None)"

definition To16 :: "net_IP \<Rightarrow> net_IP option" where
  "To16 ip =
     (if length ip = 4 then Some (v4InV6Prefix @ ip)
      else if length ip = 16 then Some ip else None)"

section \<open>common/nnip/netip.go\<close>

definition IpToAddr :: "net_IP \<Rightarrow> Addr" where
  "IpToAddr ip0 =
     (let ip = (if length ip0 \<noteq> 4
                then (case To4 ip0 of None \<Rightarrow> ip0 | Some i \<Rightarrow> i) else ip0)
      in case AddrFromSlice ip of Some a \<Rightarrow> a | None \<Rightarrow> AddrZero)"

definition UnMasked :: "Prefix \<Rightarrow> Addr" where
  "UnMasked p =
     (if \<not> pfx_IsValid p then AddrZero
      else
        (let buf = As16 (pfx_Addr p);
             hi = (ucast (drop_bit 64 buf) :: 64 word);
             lo = (ucast buf :: 64 word);
             bits = (if pfx_Bits p \<le> 32 then pfx_Bits p + 96 else pfx_Bits p);
             hi = hi OR drop_bit (nat bits) (NOT 0);
             lo = lo OR NOT (push_bit (nat (128 - bits)) (NOT 0));
             addr = V6 (push_bit 64 (ucast hi) OR ucast lo)
         in if Is4 (pfx_Addr p) then Unmap addr else addr))"

section \<open>Lemmas\<close>

lemma UnMasked_V4:
  assumes "pfx_IsValid p" "pfx_Addr p = V4 w"
  shows "UnMasked p = V4 (w OR mask (32 - nat (pfx_Bits p)))"
proof -
  obtain b where b: "pfx_Bits p = int b" "b \<le> 32"
    using assms by (auto simp: pfx_IsValid_def) (metis nonneg_int_cases of_nat_le_iff of_nat_numeral)
  have hi: "drop_bit (b + 96) (NOT (0 :: 64 word)) = 0"
    by (rule bit_eqI) (auto simp: bit_simps)
  have n: "nat (int b + 96) = b + 96" "nat (128 - (int b + 96)) = 32 - b" using b by auto
  have c: "(if int b \<le> 32 then int b + 96 else int b) = int b + 96" using b by simp
  define lo :: "64 word" where
    "lo = ucast (push_bit 32 0xFFFF OR ucast w :: 128 word) OR NOT (push_bit (32 - b) (NOT 0))"
  define hi' :: "64 word" where
    "hi' = ucast (drop_bit 64 (push_bit 32 0xFFFF OR ucast w :: 128 word))"
  have U: "UnMasked p = Unmap (V6 (push_bit 64 (ucast hi') OR ucast lo))"
    by (simp only: UnMasked_def Let_def assms(1) assms(2) b(1) c n hi lo_def hi'_def As16.simps
        Is4.simps or.right_neutral not_True_eq_False if_False if_True)
  have ones: "(0xFFFF :: 128 word) = mask 16" by (simp add: mask_eq_exp_minus_1)
  have h0: "hi' = 0"
    unfolding hi'_def ones by (rule bit_eqI) (auto simp: bit_simps dest: bit_imp_le_length)
  have d: "drop_bit 32 (ucast lo :: 128 word) = 0xFFFF"
    unfolding lo_def ones using b
    by (intro bit_eqI) (auto simp: bit_simps dest: bit_imp_le_length)
  have l: "(ucast (ucast lo :: 128 word) :: 32 word) = w OR mask (32 - b)"
    unfolding lo_def ones using b
    by (intro bit_eqI) (auto simp: bit_simps dest: bit_imp_le_length)
  show ?thesis unfolding U h0 using d l b by simp
qed

lemma join_halves: "push_bit 64 (ucast (ucast (drop_bit 64 w) :: 64 word)) OR ucast (ucast w :: 64 word) = w"
  for w :: "128 word"
  by (rule bit_eqI) (auto simp: bit_simps)

text \<open>For IPv6 the computation is right for prefixes longer than 32 bits; up to 32 bits the
  length is taken for that of an IPv4 prefix, and only the last \<open>32 - bits\<close> bits are set.\<close>

lemma UnMasked_V6:
  assumes "pfx_IsValid p" "pfx_Addr p = V6 w"
  shows "UnMasked p = V6 (w OR mask ((if pfx_Bits p \<le> 32 then 32 else 128) - nat (pfx_Bits p)))"
proof -
  obtain b0 where b0: "pfx_Bits p = int b0" "b0 \<le> 128"
    using assms by (auto simp: pfx_IsValid_def) (metis nonneg_int_cases of_nat_le_iff of_nat_numeral)
  define b where "b = (if b0 \<le> 32 then b0 + 96 else b0)"
  have b: "b \<le> 128" "b > 32" using b0 by (auto simp: b_def)
  have n: "nat (int b) = b" "nat (128 - int b) = 128 - b" using b by auto
  have c: "(if int b0 \<le> 32 then int b0 + 96 else int b0) = int b" by (simp add: b_def)
  define hi :: "64 word" where "hi = ucast (drop_bit 64 w) OR drop_bit b (NOT 0)"
  define lo :: "64 word" where "lo = ucast w OR NOT (push_bit (128 - b) (NOT 0))"
  have U: "UnMasked p = V6 (push_bit 64 (ucast hi) OR ucast lo)"
    by (simp only: UnMasked_def Let_def assms b0(1) c n hi_def lo_def As16.simps
        Is4.simps not_True_eq_False if_False if_True)
  have "push_bit 64 (ucast hi) OR ucast lo = w OR mask (128 - b)"
    unfolding hi_def lo_def using b
    by (intro bit_eqI) (auto simp: bit_simps)
  moreover have "128 - b = (if pfx_Bits p \<le> 32 then 32 else 128) - nat (pfx_Bits p)"
    using b0 by (simp add: b_def)
  ultimately show ?thesis using U by simp
qed

lemma length_bytes_of [simp]: "length (bytes_of n w) = n"
  by (simp add: bytes_of_def)

lemma push_drop_byte: "push_bit 8 (drop_bit 8 x) OR ucast (ucast x :: 8 word) = (x :: 'a :: len word)"
  by (rule bit_eqI) (auto simp: bit_simps)

lemma word_of_bytes_prefix:
  fixes w :: "'a :: len word"
  assumes "8 * n = LENGTH('a)" "k \<le> n"
  shows "word_of_bytes (map (\<lambda>i. ucast (drop_bit (8 * (n - 1 - i)) w)) [0..<k]) = drop_bit (8 * (n - k)) w"
  using assms(2)
proof (induction k)
  case 0
  have "drop_bit (8 * n) w = 0" unfolding assms(1) by (rule bit_eqI) (auto simp: bit_simps dest: bit_imp_le_length)
  then show ?case by (simp add: word_of_bytes_def)
next
  case (Suc k)
  let ?x = "drop_bit (8 * (n - Suc k)) w"
  have "8 * (n - k) = 8 + 8 * (n - Suc k)" using Suc.prems by simp
  then have "drop_bit (8 * (n - k)) w = drop_bit 8 ?x" by simp
  with Suc push_drop_byte [of ?x] show ?case by (simp add: word_of_bytes_def)
qed

lemma word_of_bytes_of:
  "word_of_bytes (bytes_of 4 a) = (a :: 32 word)" "word_of_bytes (bytes_of 16 b) = (b :: 128 word)"
  using word_of_bytes_prefix [of 4 4 a] word_of_bytes_prefix [of 16 16 b] by (simp_all add: bytes_of_def)

end
