(* ===== verification/IpCidrTrie.thy ===== *)
theory IpCidrTrie imports GoNet begin

text \<open>
  The CIDR trie of \<^verbatim>\<open>component/trie/ipcidr_trie.go\<close> and \<^verbatim>\<open>ipcidr_node.go\<close>, which the
  \<^verbatim>\<open>ipcidr\<close> rule providers look addresses up in: one tree of bytes for IPv4, one of 16-bit groups
  for IPv6. A network whose length is not a whole number of groups is added as the list of the
  networks of whole groups it consists of.

  \<open>None\<close> of an option is an index out of range.
\<close>

section \<open>Nodes (ipcidr_node.go)\<close>

datatype IpCidrNode = IpCidrNode
  (Mark: bool)
  (child: "(32 word \<times> IpCidrNode) list")
  (maxValue: "32 word")

datatype cidr_error = ErrorOverMaxValue | ParseError

definition NewIpCidrNode :: "bool \<Rightarrow> 32 word \<Rightarrow> IpCidrNode" where
  "NewIpCidrNode mk mx = IpCidrNode mk [] mx"

definition cidr_addChild :: "32 word \<Rightarrow> IpCidrNode \<Rightarrow> cidr_error + IpCidrNode" where
  "cidr_addChild v n =
     (if v > maxValue n then Inl ErrorOverMaxValue
      else Inr (IpCidrNode (Mark n) (map_put v (NewIpCidrNode False (maxValue n)) (child n))
             (maxValue n)))"

definition cidr_getChild :: "32 word \<Rightarrow> IpCidrNode \<Rightarrow> IpCidrNode option" where
  "cidr_getChild v n = (if v \<le> maxValue n then map_of (child n) v else None)"

definition cidr_hasChild :: "32 word \<Rightarrow> IpCidrNode \<Rightarrow> bool" where
  "cidr_hasChild v n = (cidr_getChild v n \<noteq> None)"

text \<open>The node after its child under \<open>v\<close> was changed in place.\<close>

definition cidr_putChild :: "32 word \<Rightarrow> IpCidrNode \<Rightarrow> IpCidrNode \<Rightarrow> IpCidrNode" where
  "cidr_putChild v c n = IpCidrNode (Mark n) (map_put v c (child n)) (maxValue n)"

section \<open>The trie (ipcidr_trie.go)\<close>

record IpCidrTrie =
  ipv4Trie :: IpCidrNode
  ipv6Trie :: IpCidrNode

definition ipv4GroupMaxValue :: "32 word" where "ipv4GroupMaxValue = 0xFF"
definition ipv6GroupMaxValue :: "32 word" where "ipv6GroupMaxValue = 0xFFFF"

definition NewIpCidrTrie :: IpCidrTrie where
  "NewIpCidrTrie = \<lparr>ipv4Trie = NewIpCidrNode False ipv4GroupMaxValue,
                    ipv6Trie = NewIpCidrNode False ipv6GroupMaxValue\<rparr>"

definition getIpv6GroupValue :: "8 word \<Rightarrow> 8 word \<Rightarrow> 32 word" where
  "getIpv6GroupValue high low = push_bit 8 (ucast high) OR ucast low"

definition checkAndConverterIp :: "net_IP \<Rightarrow> net_IP option \<times> bool" where
  "checkAndConverterIp ip =
     (case To4 ip of
        None \<Rightarrow> (case To16 ip of None \<Rightarrow> (None, False) | Some r \<Rightarrow> (Some r, False))
      | Some r \<Rightarrow> (Some r, True))"

lemma length_map_del: "length (map_del k m) \<le> length m"
  by (simp add: map_del_def)

text \<open>The map shrinks while the loop runs, and its length is read again each time.\<close>

function cleanLoop :: "nat \<Rightarrow> (32 word \<times> IpCidrNode) list \<Rightarrow> (32 word \<times> IpCidrNode) list" where
  "cleanLoop i m = (if i < length m then cleanLoop (Suc i) (map_del (of_nat i) m) else m)"
  by pat_completeness auto

termination
  by (relation "measure (\<lambda>(i, m). length m - i)")
    (auto intro!: diff_less_mono2 simp: length_map_del less_Suc_eq_le diff_le_mono
      intro: le_less_trans [OF diff_le_mono [OF length_map_del]])

definition cleanChild :: "IpCidrNode \<Rightarrow> IpCidrNode" where
  "cleanChild n = IpCidrNode (Mark n) (cleanLoop 0 (child n)) (maxValue n)"

definition setMark :: "IpCidrNode \<Rightarrow> IpCidrNode" where
  "setMark n = IpCidrNode True (child n) (maxValue n)"

text \<open>The loop of \<open>addIpv4Cidr\<close> from index \<open>i\<close> with the node reached; the result is that node
  after the loop and what follows it.\<close>

function add4Loop :: "net_IP \<Rightarrow> nat \<Rightarrow> nat \<Rightarrow> IpCidrNode \<Rightarrow> IpCidrNode option" where
  "add4Loop ip groupSize i node =
     (if i < groupSize then
        if Mark node then Some node
        else do {
          b \<leftarrow> idx ip i;
          let g = ucast b;
          let pre = (if \<not> cidr_hasChild g node
                     then (case cidr_addChild g node of Inl _ \<Rightarrow> node | Inr n \<Rightarrow> n) else node);
          case cidr_getChild g pre of
            Some c \<Rightarrow> do {
              c' \<leftarrow> add4Loop ip groupSize (Suc i) c;
              Some (cidr_putChild g c' pre) }
          | None \<Rightarrow> do {
              p \<leftarrow> idx ip (i - 1);
              case cidr_addChild (ucast p) pre of
                Inl _ \<Rightarrow> Some pre
              | Inr pre2 \<Rightarrow> do {
                  c \<leftarrow> cidr_getChild (ucast p) pre2;
                  c' \<leftarrow> add4Loop ip groupSize (Suc i) c;
                  Some (cidr_putChild (ucast p) c' pre2) } } }
      else Some (cleanChild (setMark node)))"
  by pat_completeness auto

termination
  by (relation "measure (\<lambda>(ip, gs, i, n). gs - i)") auto

definition addIpv4Cidr :: "IpCidrTrie \<Rightarrow> net_IP \<Rightarrow> nat \<Rightarrow> IpCidrTrie option" where
  "addIpv4Cidr t ip groupSize = do {
     b \<leftarrow> idx ip 0;
     let pre = ipv4Trie t;
     case cidr_getChild (ucast b) pre of
       Some c \<Rightarrow> do {
         c' \<leftarrow> add4Loop ip groupSize 1 c;
         Some (t\<lparr>ipv4Trie := cidr_putChild (ucast b) c' pre\<rparr>) }
     | None \<Rightarrow>
         (case cidr_addChild (ucast b) pre of
            Inl _ \<Rightarrow> Some t
          | Inr pre1 \<Rightarrow> do {
              c \<leftarrow> cidr_getChild (ucast b) pre1;
              c' \<leftarrow> add4Loop ip groupSize 1 c;
              Some (t\<lparr>ipv4Trie := cidr_putChild (ucast b) c' pre1\<rparr>) }) }"

definition group6 :: "net_IP \<Rightarrow> nat \<Rightarrow> 32 word option" where
  "group6 ip i = do { h \<leftarrow> idx ip i; l \<leftarrow> idx ip (Suc i); Some (getIpv6GroupValue h l) }"

function add6Loop :: "net_IP \<Rightarrow> nat \<Rightarrow> nat \<Rightarrow> IpCidrNode \<Rightarrow> IpCidrNode option" where
  "add6Loop ip groupSize i node =
     (if i < groupSize then
        if Mark node then Some node
        else do {
          g \<leftarrow> group6 ip i;
          let pre = (if \<not> cidr_hasChild g node
                     then (case cidr_addChild g node of Inl _ \<Rightarrow> node | Inr n \<Rightarrow> n) else node);
          case cidr_getChild g pre of
            Some c \<Rightarrow> do {
              c' \<leftarrow> add6Loop ip groupSize (i + 2) c;
              Some (cidr_putChild g c' pre) }
          | None \<Rightarrow> do {
              p \<leftarrow> group6 ip (i - 2);
              case cidr_addChild p pre of
                Inl _ \<Rightarrow> Some pre
              | Inr pre2 \<Rightarrow> do {
                  c \<leftarrow> cidr_getChild p pre2;
                  c' \<leftarrow> add6Loop ip groupSize (i + 2) c;
                  Some (cidr_putChild p c' pre2) } } }
      else Some (cleanChild (setMark node)))"
  by pat_completeness auto

termination
  by (relation "measure (\<lambda>(ip, gs, i, n). gs - i)") auto

definition addIpv6Cidr :: "IpCidrTrie \<Rightarrow> net_IP \<Rightarrow> nat \<Rightarrow> IpCidrTrie option" where
  "addIpv6Cidr t ip groupSize = do {
     g \<leftarrow> group6 ip 0;
     let pre = ipv6Trie t;
     case cidr_getChild g pre of
       Some c \<Rightarrow> do {
         c' \<leftarrow> add6Loop ip groupSize 2 c;
         Some (t\<lparr>ipv6Trie := cidr_putChild g c' pre\<rparr>) }
     | None \<Rightarrow>
         (case cidr_addChild g pre of
            Inl _ \<Rightarrow> Some t
          | Inr pre1 \<Rightarrow> do {
              c \<leftarrow> cidr_getChild g pre1;
              c' \<leftarrow> add6Loop ip groupSize 2 c;
              Some (t\<lparr>ipv6Trie := cidr_putChild g c' pre1\<rparr>) }) }"

definition addIpCidr :: "IpCidrTrie \<Rightarrow> bool \<Rightarrow> net_IP \<Rightarrow> nat \<Rightarrow> IpCidrTrie option" where
  "addIpCidr t isIpv4 ip groupSize =
     (if isIpv4 then addIpv4Cidr t ip groupSize else addIpv6Cidr t ip groupSize)"

text \<open>\<open>subIpCidr[k] += byte(i)\<close> wraps around.\<close>

definition subIpCidr :: "net_IP \<Rightarrow> nat \<Rightarrow> bool \<Rightarrow> (net_IP list \<times> nat) option" where
  "subIpCidr ip maskSize isIpv4 =
     (let groupSize = (if \<not> isIpv4 then 16 else 8 :: nat)
      in if maskSize mod groupSize = 0 then Some ([ip], maskSize)
         else
           (let lastByteMaskSize = maskSize mod 8;
                k = maskSize div 8;
                num = drop_bit lastByteMaskSize 0xFF :: nat;
                newMaskSize = (if \<not> isIpv4 then (k div 2 + 1) * 16 else (k + 1) * 8)
            in if k < length ip
               then Some (map (\<lambda>i. ip[k := ip ! k + of_nat i]) [0..<Suc num], newMaskSize)
               else None))"

text \<open>\<^verbatim>\<open>net.IPMask.Size\<close>: the number of leading ones of a canonical mask, else 0.\<close>

definition mask_bits :: "net_IP \<Rightarrow> bool list" where
  "mask_bits m = concat (map (\<lambda>b. map (\<lambda>j. bit b (7 - j)) [0..<8]) m)"

definition mask_Size :: "net_IP \<Rightarrow> nat" where
  "mask_Size m =
     (let bs = mask_bits m; n = length (takeWhile (\<lambda>b. b) bs)
      in if list_ex (\<lambda>b. b) (drop n bs) then 0 else n)"

record IPNet =
  net_IP :: net_IP
  net_Mask :: net_IP

definition ipCidrToSubIpCidr :: "IPNet \<Rightarrow> (net_IP list \<times> nat \<times> bool) option" where
  "ipCidrToSubIpCidr ipNet =
     (let maskSize = mask_Size (net_Mask ipNet);
          (ip, isIpv4) = checkAndConverterIp (net_IP ipNet)
      in do { (l, n) \<leftarrow> subIpCidr (case ip of None \<Rightarrow> [] | Some i \<Rightarrow> i) maskSize isIpv4;
              Some (l, n, isIpv4) })"

fun addAll :: "IpCidrTrie \<Rightarrow> bool \<Rightarrow> net_IP list \<Rightarrow> nat \<Rightarrow> IpCidrTrie option" where
  "addAll t isIpv4 [] g = Some t"
| "addAll t isIpv4 (sub # subs) g =
     do { t1 \<leftarrow> addIpCidr t isIpv4 sub g; addAll t1 isIpv4 subs g }"

definition AddIpCidr :: "IPNet \<Rightarrow> IpCidrTrie \<Rightarrow> IpCidrTrie option" where
  "AddIpCidr ipCidr t = do {
     (subs, subCidr, isIpv4) \<leftarrow> ipCidrToSubIpCidr ipCidr;
     addAll t isIpv4 subs (subCidr div 8) }"

text \<open>The text is parsed by \<^verbatim>\<open>net.ParseCIDR\<close>, a parameter.\<close>

definition AddIpCidrForString ::
    "(string \<Rightarrow> IPNet option) \<Rightarrow> string \<Rightarrow> IpCidrTrie \<Rightarrow> (cidr_error + IpCidrTrie) option" where
  "AddIpCidrForString ParseCIDR s t =
     (case ParseCIDR s of
        None \<Rightarrow> Some (Inl ParseError)
      | Some n \<Rightarrow> map_option Inr (AddIpCidr n t))"

text \<open>The loop of \<open>search\<close> over the remaining values.\<close>

fun cidr_searchLoop :: "IpCidrNode \<Rightarrow> 32 word list \<Rightarrow> IpCidrNode option" where
  "cidr_searchLoop node [] = None"
| "cidr_searchLoop node (v # vs) =
     (if \<not> cidr_hasChild v node then None
      else case cidr_getChild v node of
        None \<Rightarrow> None
      | Some c \<Rightarrow> if Mark c then Some c else cidr_searchLoop c vs)"

definition cidr_search :: "IpCidrNode \<Rightarrow> 32 word list \<Rightarrow> IpCidrNode option" where
  "cidr_search r vs =
     (case cidr_getChild (hd vs) r of
        None \<Rightarrow> None
      | Some c \<Rightarrow> if Mark c then Some c else cidr_searchLoop c (tl vs))"

fun pairGroups :: "net_IP \<Rightarrow> 32 word list" where
  "pairGroups (h # l # r) = getIpv6GroupValue h l # pairGroups r"
| "pairGroups _ = []"

definition IsContain :: "net_IP \<Rightarrow> IpCidrTrie \<Rightarrow> bool" where
  "IsContain ip t =
     (case checkAndConverterIp ip of
        (None, _) \<Rightarrow> False
      | (Some ip', isIpv4) \<Rightarrow>
          (if isIpv4 then cidr_search (ipv4Trie t) (map ucast ip') \<noteq> None
           else cidr_search (ipv6Trie t) (pairGroups ip') \<noteq> None))"

text \<open>\<^verbatim>\<open>net.ParseIP\<close> is a parameter; a nil result is the empty slice.\<close>

definition IsContainForString :: "(string \<Rightarrow> net_IP) \<Rightarrow> string \<Rightarrow> IpCidrTrie \<Rightarrow> bool" where
  "IsContainForString ParseIP s t = IsContain (ParseIP s) t"

declare add4Loop.simps [simp del] add6Loop.simps [simp del] cleanLoop.simps [simp del]

section \<open>What a node covers\<close>

fun covers :: "IpCidrNode \<Rightarrow> 32 word list \<Rightarrow> bool" where
  "covers n [] = Mark n"
| "covers n (v # vs) =
     (Mark n \<or> (case cidr_getChild v n of None \<Rightarrow> False | Some c \<Rightarrow> covers c vs))"

fun cwalk :: "IpCidrNode \<Rightarrow> 32 word list \<Rightarrow> IpCidrNode option" where
  "cwalk n [] = Some n"
| "cwalk n (v # vs) = (case cidr_getChild v n of None \<Rightarrow> None | Some c \<Rightarrow> cwalk c vs)"

text \<open>Every node of the tree has the maximal value \<open>M\<close>.\<close>

definition all_max :: "32 word \<Rightarrow> IpCidrNode \<Rightarrow> bool" where
  "all_max M n \<longleftrightarrow> (\<forall>vs m. cwalk n vs = Some m \<longrightarrow> maxValue m = M)"

lemma all_max_iff:
  "all_max M n \<longleftrightarrow> maxValue n = M \<and> (\<forall>v c. cidr_getChild v n = Some c \<longrightarrow> all_max M c)"
proof
  assume a: "all_max M n"
  have "maxValue n = M" using a unfolding all_max_def by (metis cwalk.simps(1))
  moreover have "all_max M c" if c: "cidr_getChild v n = Some c" for v c
    unfolding all_max_def
  proof (intro allI impI)
    fix vs m assume "cwalk c vs = Some m"
    with c have "cwalk n (v # vs) = Some m" by simp
    with a show "maxValue m = M" unfolding all_max_def by blast
  qed
  ultimately show "maxValue n = M \<and> (\<forall>v c. cidr_getChild v n = Some c \<longrightarrow> all_max M c)" by blast
next
  assume a: "maxValue n = M \<and> (\<forall>v c. cidr_getChild v n = Some c \<longrightarrow> all_max M c)"
  show "all_max M n" unfolding all_max_def
  proof (intro allI impI)
    fix vs m assume "cwalk n vs = Some m"
    with a show "maxValue m = M" by (cases vs) (auto simp: all_max_def split: option.splits)
  qed
qed

lemma cidr_search_covers:
  "vs \<noteq> [] \<Longrightarrow> cidr_search r vs \<noteq> None \<longleftrightarrow>
     (case cidr_getChild (hd vs) r of None \<Rightarrow> False | Some c \<Rightarrow> covers c (tl vs))"
proof -
  have mk: "covers c ws" if "Mark c" for c ws using that by (cases ws) auto
  have loop: "\<not> Mark n \<Longrightarrow> cidr_searchLoop n ws \<noteq> None \<longleftrightarrow> covers n ws" for n ws
    by (induction n ws rule: cidr_searchLoop.induct) (auto simp: cidr_hasChild_def mk split: option.splits)
  show ?thesis
    by (cases "cidr_getChild (hd vs) r") (auto simp: cidr_search_def mk simp flip: loop)
qed

lemma cidr_node_fields [simp]:
  "Mark (cidr_putChild v c n) = Mark n" "maxValue (cidr_putChild v c n) = maxValue n"
  "Mark (NewIpCidrNode b x) = b" "maxValue (NewIpCidrNode b x) = x"
  "cidr_getChild v (NewIpCidrNode b x) = None"
  "Mark (setMark n)" "maxValue (setMark n) = maxValue n"
  "Mark (cleanChild n) = Mark n" "maxValue (cleanChild n) = maxValue n"
  by (auto simp: cidr_putChild_def NewIpCidrNode_def cidr_getChild_def setMark_def cleanChild_def)

lemma cidr_getChild_put:
  "v \<le> maxValue n \<Longrightarrow> cidr_getChild w (cidr_putChild v c n) = (if w = v then Some c else cidr_getChild w n)"
  by (simp add: cidr_getChild_def cidr_putChild_def)

lemma map_put_put: "map_put k v (map_put k w m) = map_put k v m"
  by (induction k w m rule: map_put.induct) auto

text \<open>Adding a path of groups, in one recursion for both kinds of address.\<close>

fun add_path :: "32 word list \<Rightarrow> IpCidrNode \<Rightarrow> IpCidrNode" where
  "add_path [] n = cleanChild (setMark n)"
| "add_path (g # gs) n =
     (if Mark n then n
      else cidr_putChild g (add_path gs (case cidr_getChild g n of
             Some c \<Rightarrow> c | None \<Rightarrow> NewIpCidrNode False (maxValue n))) n)"

lemma add_path_max [simp]: "maxValue (add_path gs n) = maxValue n"
  by (cases gs) auto

lemma map_of_cleanLoop: "map_of (cleanLoop i m) v = Some c \<Longrightarrow> map_of m v = Some c"
  by (induction i m rule: cleanLoop.induct)
    (subst (asm) (2) cleanLoop.simps, auto split: if_splits)

lemma all_max_clean: "all_max M n \<Longrightarrow> all_max M (cleanChild (setMark n))"
  unfolding all_max_iff [of M n]
  by (subst all_max_iff)
    (auto simp: cidr_getChild_def cleanChild_def setMark_def split: if_splits dest!: map_of_cleanLoop)

lemma all_max_new [simp]: "all_max M (NewIpCidrNode b M)"
  by (subst all_max_iff) simp

lemma all_max_child: "all_max M n \<Longrightarrow> cidr_getChild v n = Some c \<Longrightarrow> all_max M c"
  and all_max_value: "all_max M n \<Longrightarrow> maxValue n = M"
  by (auto dest: all_max_iff [THEN iffD1])

lemma all_max_put: "all_max M n \<Longrightarrow> v \<le> M \<Longrightarrow> all_max M c \<Longrightarrow> all_max M (cidr_putChild v c n)"
  by (subst all_max_iff)
    (auto simp: cidr_getChild_put all_max_value intro: all_max_child split: if_splits)

lemma all_max_add: "all_max M n \<Longrightarrow> \<forall>g \<in> set gs. g \<le> M \<Longrightarrow> all_max M (add_path gs n)"
proof (induction gs arbitrary: n)
  case (Cons g gs)
  then show ?case
    by (auto intro!: all_max_put simp: all_max_value split: option.splits intro: all_max_child)
qed (simp add: all_max_clean)

lemma covers_add:
  assumes "all_max M n" "\<forall>g \<in> set gs. g \<le> M"
  shows "covers (add_path gs n) vs \<longleftrightarrow> covers n vs \<or> take (length gs) vs = gs"
  using assms
proof (induction gs arbitrary: n vs)
  case Nil
  then show ?case by (cases vs) auto
next
  case (Cons g gs)
  show ?case
  proof (cases vs)
    case Nil
    then show ?thesis by simp
  next
    case vs: (Cons v vs')
    let ?c = "case cidr_getChild g n of Some c \<Rightarrow> c | None \<Rightarrow> NewIpCidrNode False (maxValue n)"
    have "all_max M ?c" using Cons.prems by (auto simp: all_max_value intro: all_max_child split: option.splits)
    from Cons.IH [OF this, of vs'] Cons.prems
    have c: "covers (add_path gs ?c) vs' \<longleftrightarrow> covers ?c vs' \<or> take (length gs) vs' = gs" by simp
    have new: "covers (NewIpCidrNode False (maxValue n)) vs' = False" by (cases vs') auto
    show ?thesis
    proof (cases "Mark n")
      case False
      have "g \<le> maxValue n" using Cons.prems by (simp add: all_max_value)
      with False c new show ?thesis
        by (cases "v = g") (auto simp: vs cidr_getChild_put split: option.splits)
    qed (simp add: vs)
  qed
qed

text \<open>The two loops add the path of the groups up to the length given.\<close>

lemma add_step:
  assumes "all_max M n" "g \<le> M"
  defines "pre \<equiv> (if \<not> cidr_hasChild g n
                 then (case cidr_addChild g n of Inl _ \<Rightarrow> n | Inr n1 \<Rightarrow> n1) else n)"
  shows "cidr_getChild g pre = Some (case cidr_getChild g n of
      Some c \<Rightarrow> c | None \<Rightarrow> NewIpCidrNode False (maxValue n))"
    "cidr_putChild g c' pre = cidr_putChild g c' n"
  using assms all_max_value [OF assms(1)]
  by (auto simp: cidr_hasChild_def cidr_addChild_def cidr_getChild_def cidr_putChild_def map_put_put
      split: option.splits)

lemma ucast_byte_le: "(ucast (b :: 8 word) :: 32 word) \<le> 0xFF"
  using unsigned_less [of b, where 'a = nat] by (simp add: word_le_nat_alt unsigned_ucast_eq take_bit_nat_eq_self)

lemma add4Loop_path:
  assumes "all_max 0xFF n" "gs \<le> length ip"
  shows "add4Loop ip gs i n = Some (add_path (map ucast (drop i (take gs ip))) n)"
  using assms
proof (induction ip gs i n rule: add4Loop.induct)
  case (1 ip gs i n)
  show ?case
  proof (cases "i < gs \<and> \<not> Mark n")
    case False
    show ?thesis
    proof (cases "i < gs")
      case True
      with 1(4) have "drop i (take gs ip) = ip ! i # drop (Suc i) (take gs ip)"
        by (subst Cons_nth_drop_Suc [symmetric]) auto
      with True False show ?thesis by (subst add4Loop.simps) simp
    qed (subst add4Loop.simps, simp)
  next
    case True
    let ?g = "ucast (ip ! i) :: 32 word"
    let ?c = "case cidr_getChild ?g n of Some c \<Rightarrow> c | None \<Rightarrow> NewIpCidrNode False (maxValue n)"
    have i: "idx ip i = Some (ip ! i)" "i < gs" "\<not> Mark n" "i < length ip" using True 1(3,4) by (auto simp: idx_def)
    have d: "drop i (take gs ip) = ip ! i # drop (Suc i) (take gs ip)"
      using True 1(4) by (subst Cons_nth_drop_Suc [symmetric]) auto
    have c: "all_max 0xFF ?c" using 1(3) by (auto simp: all_max_value intro: all_max_child split: option.splits)
    note st = add_step [OF 1(3) ucast_byte_le [of "ip ! i"]]
    have IH: "add4Loop ip gs (Suc i) ?c = Some (add_path (map ucast (drop (Suc i) (take gs ip))) ?c)"
      by (rule "1.IH"(2) [OF i(2,3,1) refl refl st(1) c 1(4)])
    show ?thesis
      by (subst add4Loop.simps)
        (simp only: i if_True if_False not_False_eq_True Option.bind.simps Let_def st option.case IH d
          add_path.simps list.map)
  qed
qed

lemma group6_le: "getIpv6GroupValue h l \<le> 0xFFFF"
proof -
  have "getIpv6GroupValue h l = take_bit 16 (getIpv6GroupValue h l)"
    by (rule bit_eqI) (auto simp: getIpv6GroupValue_def bit_simps dest: bit_imp_le_length)
  then have "unat (getIpv6GroupValue h l) = take_bit 16 (unat (getIpv6GroupValue h l))"
    by (metis unsigned_take_bit_eq)
  then have "unat (getIpv6GroupValue h l) < 2 ^ 16" by (metis take_bit_nat_less_exp)
  then show ?thesis by (simp add: word_le_nat_alt)
qed

lemma all_max_0xFFFF_groups: "\<forall>g \<in> set (pairGroups ip). g \<le> 0xFFFF"
  by (induction ip rule: pairGroups.induct) (auto simp: group6_le)

lemma pairGroups_drop:
  assumes "i + 2 \<le> length ip"
  shows "pairGroups (drop i ip) = getIpv6GroupValue (ip ! i) (ip ! Suc i) # pairGroups (drop (i + 2) ip)"
proof -
  have "drop i ip = ip ! i # ip ! Suc i # drop (i + 2) ip"
    using assms by (simp add: Cons_nth_drop_Suc numeral_2_eq_2)
  then show ?thesis by simp
qed

lemma add6Loop_path:
  assumes "all_max 0xFFFF n" "gs \<le> length ip" "even gs" "even i"
  shows "add6Loop ip gs i n = Some (add_path (pairGroups (drop i (take gs ip))) n)"
  using assms
proof (induction ip gs i n rule: add6Loop.induct)
  case (1 ip gs i n)
  show ?case
  proof (cases "i < gs")
    case False
    then show ?thesis by (subst add6Loop.simps) simp
  next
    case True
    with 1(5,6) have i2: "i + 2 \<le> gs" by presburger
    let ?g = "getIpv6GroupValue (ip ! i) (ip ! Suc i)"
    let ?c = "case cidr_getChild ?g n of Some c \<Rightarrow> c | None \<Rightarrow> NewIpCidrNode False (maxValue n)"
    have d: "pairGroups (drop i (take gs ip)) = ?g # pairGroups (drop (i + 2) (take gs ip))"
      using i2 1(4) by (subst pairGroups_drop) auto
    show ?thesis
    proof (cases "Mark n")
      case True
      with d \<open>i < gs\<close> show ?thesis by (subst add6Loop.simps) simp
    next
      case False
      have i: "group6 ip i = Some ?g" using i2 1(4) by (simp add: group6_def idx_def)
      have c: "all_max 0xFFFF ?c" using 1(3) by (auto simp: all_max_value intro: all_max_child split: option.splits)
      note st = add_step [OF 1(3) group6_le [of "ip ! i" "ip ! Suc i"]]
      have IH: "add6Loop ip gs (i + 2) ?c = Some (add_path (pairGroups (drop (i + 2) (take gs ip))) ?c)"
        by (rule "1.IH"(2) [OF \<open>i < gs\<close> False i refl st(1) c 1(4,5)]) (use 1(6) in simp)
      show ?thesis
        by (subst add6Loop.simps)
          (simp only: i \<open>i < gs\<close> False if_True if_False not_False_eq_True Option.bind.simps Let_def st
            option.case IH d add_path.simps list.map)
    qed
  qed
qed

text \<open>One network of whole groups; a length below one group counts as one group.\<close>

definition trie_ok :: "IpCidrTrie \<Rightarrow> bool" where
  "trie_ok t \<longleftrightarrow> all_max 0xFF (ipv4Trie t) \<and> \<not> Mark (ipv4Trie t) \<and>
     all_max 0xFFFF (ipv6Trie t) \<and> \<not> Mark (ipv6Trie t)"

lemma root_step:
  assumes "all_max M r" "g \<le> M" "\<not> Mark r"
  shows "(case cidr_getChild g r of
       Some c \<Rightarrow> do { c' \<leftarrow> f c; Some (h (cidr_putChild g c' r)) }
     | None \<Rightarrow>
         (case cidr_addChild g r of
            Inl _ \<Rightarrow> z
          | Inr r1 \<Rightarrow> do { c \<leftarrow> cidr_getChild g r1; c' \<leftarrow> f c; Some (h (cidr_putChild g c' r1)) }))
    = do { c' \<leftarrow> f (case cidr_getChild g r of Some c \<Rightarrow> c | None \<Rightarrow> NewIpCidrNode False M);
           Some (h (cidr_putChild g c' r)) }"
  using assms all_max_value [OF assms(1)]
  by (auto simp: cidr_addChild_def cidr_getChild_def cidr_putChild_def map_put_put split: option.splits)

lemma addIpv4Cidr_path:
  assumes "trie_ok t" "length ip = 4" "gs \<le> 4"
  shows "addIpv4Cidr t ip gs = Some (t\<lparr>ipv4Trie := add_path (map ucast (take (max 1 gs) ip)) (ipv4Trie t)\<rparr>)"
proof -
  let ?g = "ucast (ip ! 0) :: 32 word"
  let ?c = "case cidr_getChild ?g (ipv4Trie t) of Some c \<Rightarrow> c | None \<Rightarrow> NewIpCidrNode False 0xFF"
  have a: "all_max 0xFF (ipv4Trie t)" "\<not> Mark (ipv4Trie t)" using assms(1) by (auto simp: trie_ok_def)
  have i: "idx ip 0 = Some (ip ! 0)" using assms(2) by (simp add: idx_def)
  have c: "all_max 0xFF ?c" using a by (auto intro: all_max_child split: option.splits)
  have tk: "take (max 1 gs) ip = ip ! 0 # drop 1 (take gs ip)"
    using assms(2) by (cases ip; cases gs) (auto simp: max_def)
  have l: "add4Loop ip gs 1 ?c = Some (add_path (map ucast (drop 1 (take gs ip))) ?c)"
    by (rule add4Loop_path [OF c]) (use assms in simp)
  show ?thesis
    unfolding addIpv4Cidr_def i Option.bind.simps Let_def
      root_step [OF a(1) ucast_byte_le a(2), where f = "add4Loop ip gs 1" and h = "\<lambda>x. t\<lparr>ipv4Trie := x\<rparr>"] l tk
      list.map pairGroups.simps add_path.simps all_max_value [OF a(1)]
    using a(2) by simp
qed

lemma addIpv6Cidr_path:
  assumes "trie_ok t" "length ip = 16" "gs \<le> 16" "even gs"
  shows "addIpv6Cidr t ip gs = Some (t\<lparr>ipv6Trie := add_path (pairGroups (take (max 2 gs) ip)) (ipv6Trie t)\<rparr>)"
proof -
  let ?g = "getIpv6GroupValue (ip ! 0) (ip ! 1)"
  let ?c = "case cidr_getChild ?g (ipv6Trie t) of Some c \<Rightarrow> c | None \<Rightarrow> NewIpCidrNode False 0xFFFF"
  have a: "all_max 0xFFFF (ipv6Trie t)" "\<not> Mark (ipv6Trie t)" using assms(1) by (auto simp: trie_ok_def)
  have i: "group6 ip 0 = Some ?g" using assms(2) by (simp add: group6_def idx_def)
  have c: "all_max 0xFFFF ?c" using a by (auto intro: all_max_child split: option.splits)
  have tk: "pairGroups (take (max 2 gs) ip) = ?g # pairGroups (drop 2 (take gs ip))"
    using assms(2,4) pairGroups_drop [of 0 "take (max 2 gs) ip"]
    by (cases "gs = 0") (auto simp: max_def not_le numeral_2_eq_2)
  have l: "add6Loop ip gs 2 ?c = Some (add_path (pairGroups (drop 2 (take gs ip))) ?c)"
    by (rule add6Loop_path [OF c]) (use assms in simp_all)
  show ?thesis
    unfolding addIpv6Cidr_def i Option.bind.simps Let_def
      root_step [OF a(1) group6_le a(2), where f = "add6Loop ip gs 2" and h = "\<lambda>x. t\<lparr>ipv6Trie := x\<rparr>"] l tk
      list.map pairGroups.simps add_path.simps all_max_value [OF a(1)]
    using a(2) by simp
qed

section \<open>What a network adds\<close>

lemma root_covers: "\<not> Mark r \<Longrightarrow> vs \<noteq> [] \<Longrightarrow> cidr_search r vs \<noteq> None \<longleftrightarrow> covers r vs"
  by (subst cidr_search_covers) (cases vs; auto split: option.splits)+

lemma To4_length: "To4 q = Some p \<Longrightarrow> length p = 4"
  by (auto simp: To4_def split: if_splits)

lemma IsContain4:
  assumes "trie_ok t" "To4 q = Some p"
  shows "IsContain q t \<longleftrightarrow> covers (ipv4Trie t) (map ucast p)"
proof -
  have "p \<noteq> []" using To4_length [OF assms(2)] by auto
  with root_covers [of "ipv4Trie t" "map ucast p"] assms show ?thesis
    by (simp add: IsContain_def checkAndConverterIp_def trie_ok_def)
qed

lemma pairGroups_Nil: "pairGroups q = [] \<longleftrightarrow> length q < 2"
  by (cases q rule: pairGroups.cases) auto

lemma IsContain6:
  assumes "trie_ok t" "To4 q = None" "length q = 16"
  shows "IsContain q t \<longleftrightarrow> covers (ipv6Trie t) (pairGroups q)"
  using root_covers [of "ipv6Trie t" "pairGroups q"] assms pairGroups_Nil [of q]
  by (auto simp: IsContain_def checkAndConverterIp_def trie_ok_def To16_def)

lemma IsContain_bad: "To4 q = None \<Longrightarrow> length q \<noteq> 16 \<Longrightarrow> \<not> IsContain q t"
  by (auto simp: IsContain_def checkAndConverterIp_def To16_def To4_def split: if_splits)

lemma addAll4:
  assumes "trie_ok t" "\<forall>s \<in> set subs. length s = 4" "g \<le> 4"
  shows "\<exists>t'. addAll t True subs g = Some t' \<and> trie_ok t' \<and> ipv6Trie t' = ipv6Trie t \<and>
    (\<forall>vs. covers (ipv4Trie t') vs \<longleftrightarrow> covers (ipv4Trie t) vs \<or>
       (\<exists>s \<in> set subs. take (max 1 g) vs = map ucast (take (max 1 g) s)))"
  using assms(1,2)
proof (induction subs arbitrary: t)
  case (Cons s subs)
  let ?p = "map ucast (take (max 1 g) s) :: 32 word list"
  let ?t = "t\<lparr>ipv4Trie := add_path ?p (ipv4Trie t)\<rparr>"
  from Cons.prems have s: "length s = 4" and a: "all_max 0xFF (ipv4Trie t)" "\<not> Mark (ipv4Trie t)"
    by (auto simp: trie_ok_def)
  have le: "\<forall>v \<in> set ?p. v \<le> 0xFF" by (auto simp: ucast_byte_le)
  have pn: "?p \<noteq> []" using s by auto
  then obtain x xs where "?p = x # xs" by (cases ?p) auto
  with a have "\<not> Mark (add_path ?p (ipv4Trie t))" by simp
  with Cons.prems all_max_add [OF a(1) le] have ok: "trie_ok ?t" by (simp add: trie_ok_def)
  from Cons.IH [OF ok] Cons.prems(2) obtain t' where t': "addAll ?t True subs g = Some t'" "trie_ok t'"
    "ipv6Trie t' = ipv6Trie ?t"
    "\<forall>vs. covers (ipv4Trie t') vs \<longleftrightarrow> covers (ipv4Trie ?t) vs \<or>
       (\<exists>s \<in> set subs. take (max 1 g) vs = map ucast (take (max 1 g) s))" by auto
  have l: "length ?p = max 1 g" using s assms(3) by simp
  have "covers (ipv4Trie ?t) vs \<longleftrightarrow> covers (ipv4Trie t) vs \<or> take (max 1 g) vs = ?p" for vs
    using covers_add [OF a(1) le, of vs] unfolding l by simp
  with t' addIpv4Cidr_path [OF Cons.prems(1) s assms(3)] show ?case
    by (intro exI [of _ t']) (auto simp: addIpCidr_def)
qed simp

lemma length_pairGroups: "length (pairGroups q) = length q div 2"
  by (induction q rule: pairGroups.induct) auto

lemma addAll6:
  assumes "trie_ok t" "\<forall>s \<in> set subs. length s = 16" "g \<le> 16" "even g"
  shows "\<exists>t'. addAll t False subs g = Some t' \<and> trie_ok t' \<and> ipv4Trie t' = ipv4Trie t \<and>
    (\<forall>vs. covers (ipv6Trie t') vs \<longleftrightarrow> covers (ipv6Trie t) vs \<or>
       (\<exists>s \<in> set subs. take (max 2 g div 2) vs = pairGroups (take (max 2 g) s)))"
  using assms(1,2)
proof (induction subs arbitrary: t)
  case (Cons s subs)
  let ?p = "pairGroups (take (max 2 g) s)"
  let ?t = "t\<lparr>ipv6Trie := add_path ?p (ipv6Trie t)\<rparr>"
  from Cons.prems have s: "length s = 16" and a: "all_max 0xFFFF (ipv6Trie t)" "\<not> Mark (ipv6Trie t)"
    by (auto simp: trie_ok_def)
  note le = all_max_0xFFFF_groups [of "take (max 2 g) s"]
  have "min 16 (max 2 g) = max 2 g" using assms(3) by auto
  then have l: "length ?p = max 2 g div 2" using s by (simp add: length_pairGroups)
  then have "?p \<noteq> []" by auto
  then obtain x xs where "?p = x # xs" by (cases ?p) auto
  with a have "\<not> Mark (add_path ?p (ipv6Trie t))" by simp
  with Cons.prems all_max_add [OF a(1) le] have ok: "trie_ok ?t" by (simp add: trie_ok_def)
  from Cons.IH [OF ok] Cons.prems(2) obtain t' where t': "addAll ?t False subs g = Some t'" "trie_ok t'"
    "ipv4Trie t' = ipv4Trie ?t"
    "\<forall>vs. covers (ipv6Trie t') vs \<longleftrightarrow> covers (ipv6Trie ?t) vs \<or>
       (\<exists>s \<in> set subs. take (max 2 g div 2) vs = pairGroups (take (max 2 g) s))" by auto
  have "covers (ipv6Trie ?t) vs \<longleftrightarrow> covers (ipv6Trie t) vs \<or> take (max 2 g div 2) vs = ?p" for vs
    using covers_add [OF a(1) le, of vs] unfolding l by simp
  with t' addIpv6Cidr_path [OF Cons.prems(1) s assms(3,4)] show ?case
    by (intro exI [of _ t']) (auto simp: addIpCidr_def)
qed simp

text \<open>The membership test of a network (\<^verbatim>\<open>net.IPNet.Contains\<close>): the first \<open>n\<close> bits agree.\<close>

definition in_net :: "nat \<Rightarrow> net_IP \<Rightarrow> net_IP \<Rightarrow> bool" where
  "in_net n ip q \<longleftrightarrow>
     (let k = n div 8; r = n mod 8
      in take k q = take k ip \<and> (r \<noteq> 0 \<longrightarrow> drop_bit (8 - r) (q ! k) = drop_bit (8 - r) (ip ! k)))"

lemma byte_range:
  fixes b q :: "8 word"
  assumes "m \<le> 8" "take_bit m b = 0"
  shows "(\<exists>i \<in> set [0..<2 ^ m]. q = b + of_nat i) \<longleftrightarrow> drop_bit m q = drop_bit m b"
proof
  assume "\<exists>i \<in> set [0..<2 ^ m]. q = b + of_nat i"
  then obtain i where i: "i < 2 ^ m" "q = b + of_nat i" by auto
  have x: "take_bit m (of_nat i :: 8 word) = of_nat i"
    using i(1) by (simp add: take_bit_of_nat take_bit_nat_eq_self)
  have "\<not> bit b n \<or> \<not> bit (of_nat i :: 8 word) n" for n
  proof (cases "n < m")
    case True
    with assms(2) show ?thesis by (metis bit_0_eq bit_take_bit_iff bot_apply bot_bool_def)
  next
    case False
    then have "\<not> bit (take_bit m (of_nat i :: 8 word)) n" by (simp add: bit_take_bit_iff)
    with x show ?thesis by simp
  qed
  then have "q = b OR of_nat i" using i(2) by (simp add: disjunctive_add)
  moreover have "drop_bit m (of_nat i :: 8 word) = 0"
    by (subst x [symmetric]) (simp add: drop_bit_take_bit)
  ultimately show "drop_bit m q = drop_bit m b" by simp
next
  assume e: "drop_bit m q = drop_bit m b"
  have "b = push_bit m (drop_bit m b) + take_bit m b" by (simp add: bits_ident)
  with assms(2) have "b = push_bit m (drop_bit m q)" by (simp add: e)
  then have "q = b + take_bit m q" by (metis bits_ident)
  moreover have "unat (take_bit m q) < 2 ^ m"
    by (simp add: unsigned_take_bit_eq)
  ultimately show "\<exists>i \<in> set [0..<2 ^ m]. q = b + of_nat i"
    by (intro bexI [of _ "unat (take_bit m q)"]) auto
qed

lemma subnet_count: "r < 8 \<Longrightarrow> Suc (drop_bit r 0xFF) = (2 :: nat) ^ (8 - r)"
proof -
  assume "r < 8"
  then have "r \<in> {0, 1, 2, 3, 4, 5, 6, 7}" by auto
  then show ?thesis by (auto simp: drop_bit_nat_eq drop_bit_eq_div)
qed

lemma take_Suc_update:
  assumes "k < length ip" "length q = length ip"
  shows "take (Suc k) q = take (Suc k) (ip[k := x]) \<longleftrightarrow> take k q = take k ip \<and> q ! k = x"
  using assms by (simp add: take_Suc_conv_app_nth)

lemma map_ucast_eq: "map ucast xs = (map ucast ys :: 32 word list) \<longleftrightarrow> xs = (ys :: 8 word list)"
proof -
  have "inj (ucast :: 8 word \<Rightarrow> 32 word)"
    by (rule inj_on_inverseI [of _ ucast]) (rule bit_eqI, auto simp: bit_simps)
  then show ?thesis by (simp add: inj_map_eq_map)
qed

definition masked :: "nat \<Rightarrow> net_IP \<Rightarrow> bool" where
  "masked n ip \<longleftrightarrow> (n mod 8 \<noteq> 0 \<longrightarrow> take_bit (8 - n mod 8) (ip ! (n div 8)) = 0)"

lemma subIpCidr4:
  assumes "length ip = 4" "n \<le> 32" "masked n ip"
  shows "\<exists>subs w. subIpCidr ip n True = Some (subs, w) \<and> (\<forall>s \<in> set subs. length s = 4) \<and>
    w div 8 \<le> 4 \<and> (\<forall>p. length p = 4 \<longrightarrow>
      (\<exists>s \<in> set subs. take (max 1 (w div 8)) p = take (max 1 (w div 8)) s) \<longleftrightarrow>
      in_net (if n = 0 then 8 else n) ip p)"
proof (cases "n mod 8 = 0")
  case True
  then have "max 1 (n div 8) = (if n = 0 then 8 else n) div 8" by auto
  with True assms show ?thesis by (auto simp: subIpCidr_def in_net_def Let_def)
next
  case False
  let ?k = "n div 8" and ?r = "n mod 8"
  have k: "?k < 4" using assms(2) False by presburger
  let ?S = "\<lambda>i. ip[?k := ip ! ?k + of_nat i]"
  have "subIpCidr ip n True = Some (map ?S [0..<2 ^ (8 - ?r)], (?k + 1) * 8)"
    using False k assms(1) subnet_count [of ?r] by (simp add: subIpCidr_def Let_def del: upt_Suc)
  moreover have "(\<exists>i \<in> set [0..<2 ^ (8 - ?r)]. take (Suc ?k) p = take (Suc ?k) (?S i)) \<longleftrightarrow> in_net n ip p"
    if p: "length p = 4" for p
  proof -
    have "(\<exists>i \<in> set [0..<2 ^ (8 - ?r)]. take (Suc ?k) p = take (Suc ?k) (?S i)) \<longleftrightarrow>
      take ?k p = take ?k ip \<and> (\<exists>i \<in> set [0..<2 ^ (8 - ?r)]. p ! ?k = ip ! ?k + of_nat i)"
      using take_Suc_update [of ?k ip p] k assms(1) p by simp
    also have "(\<exists>i \<in> set [0..<2 ^ (8 - ?r)]. p ! ?k = ip ! ?k + of_nat i) \<longleftrightarrow>
        drop_bit (8 - ?r) (p ! ?k) = drop_bit (8 - ?r) (ip ! ?k)"
      by (rule byte_range) (use assms(3) False in \<open>auto simp: masked_def\<close>)
    finally show ?thesis using False by (simp add: in_net_def Let_def)
  qed
  moreover have "n \<noteq> 0" using False by auto
  ultimately show ?thesis using k assms(1) by auto
qed

lemma add4_contains:
  assumes "trie_ok t" "length ip = 4" "mask_Size m = n" "n \<le> 32" "masked n ip"
  shows "\<exists>t'. AddIpCidr \<lparr>net_IP = ip, net_Mask = m\<rparr> t = Some t' \<and> trie_ok t' \<and>
    (\<forall>q. IsContain q t' \<longleftrightarrow> IsContain q t \<or>
       (\<exists>p. To4 q = Some p \<and> in_net (if n = 0 then 8 else n) ip p))"
proof -
  obtain subs w where s: "subIpCidr ip n True = Some (subs, w)" "\<forall>s \<in> set subs. length s = 4"
    "w div 8 \<le> 4"
    "\<And>p. length p = 4 \<Longrightarrow> (\<exists>s \<in> set subs. take (max 1 (w div 8)) p = take (max 1 (w div 8)) s) \<longleftrightarrow>
      in_net (if n = 0 then 8 else n) ip p"
    using subIpCidr4 [OF assms(2,4,5)] by blast
  obtain t' where t': "addAll t True subs (w div 8) = Some t'" "trie_ok t'" "ipv6Trie t' = ipv6Trie t"
    "\<And>vs. covers (ipv4Trie t') vs \<longleftrightarrow> covers (ipv4Trie t) vs \<or>
       (\<exists>s \<in> set subs. take (max 1 (w div 8)) vs = map ucast (take (max 1 (w div 8)) s))"
    using addAll4 [OF assms(1) s(2,3)] by blast
  have add: "AddIpCidr \<lparr>net_IP = ip, net_Mask = m\<rparr> t = Some t'"
    using assms(2,3) s(1) t'(1)
    by (simp add: AddIpCidr_def ipCidrToSubIpCidr_def checkAndConverterIp_def To4_def)
  have "IsContain q t' \<longleftrightarrow> IsContain q t \<or>
       (\<exists>p. To4 q = Some p \<and> in_net (if n = 0 then 8 else n) ip p)" for q
  proof (cases "To4 q")
    case None
    then show ?thesis
      using IsContain6 [OF t'(2) None] IsContain6 [OF assms(1) None] IsContain_bad [OF None] t'(3)
      by (cases "length q = 16") auto
  next
    case (Some p)
    have "IsContain q t' \<longleftrightarrow> IsContain q t \<or>
        (\<exists>s \<in> set subs. take (max 1 (w div 8)) p = take (max 1 (w div 8)) s)"
      unfolding IsContain4 [OF t'(2) Some] IsContain4 [OF assms(1) Some] t'(4) take_map map_ucast_eq ..
    with s(4) [OF To4_length [OF Some]] Some show ?thesis by auto
  qed
  with add t'(2) show ?thesis by blast
qed

text \<open>C11: adding an IPv4 network makes the trie contain exactly the addresses it contained before and
  those of the network, for every prefix length from 1 to 32 and whatever was added before; no
  index is out of range. A prefix of length 0 is taken for one of length 8.\<close>

theorem ipv4_add_contains:
  assumes "trie_ok t" "length ip = 4" "mask_Size m = n" "n \<le> 32" "masked n ip"
  shows "\<exists>t'. AddIpCidr \<lparr>net_IP = ip, net_Mask = m\<rparr> t = Some t' \<and> trie_ok t' \<and>
    (\<forall>q. IsContain q t' \<longleftrightarrow> IsContain q t \<or>
       (\<exists>p. To4 q = Some p \<and> in_net (if n = 0 then 8 else n) ip p))"
  by (rule add4_contains [OF assms])

lemma trie_ok_New: "trie_ok NewIpCidrTrie"
  by (simp add: trie_ok_def NewIpCidrTrie_def ipv4GroupMaxValue_def ipv6GroupMaxValue_def)

lemma ipv4_add_contains_witness:
  "\<exists>t'. AddIpCidr \<lparr>net_IP = [10, 64, 0, 0], net_Mask = [255, 192, 0, 0]\<rparr> NewIpCidrTrie = Some t' \<and>
    IsContain [10, 127, 3, 4] t' \<and> \<not> IsContain [10, 128, 0, 0] t'"
proof -
  have "mask_Size [255, 192, 0, 0] = 10" by code_simp
  moreover have "masked 10 [10, 64, 0, 0]" by code_simp
  ultimately obtain t' where t': "AddIpCidr \<lparr>net_IP = [10, 64, 0, 0], net_Mask = [255, 192, 0, 0]\<rparr> NewIpCidrTrie = Some t'"
    "\<And>q. IsContain q t' \<longleftrightarrow> IsContain q NewIpCidrTrie \<or> (\<exists>p. To4 q = Some p \<and> in_net 10 [10, 64, 0, 0] p)"
    using ipv4_add_contains [OF trie_ok_New, of "[10, 64, 0, 0]" "[255, 192, 0, 0]" 10] by auto
  have "IsContain [10, 127, 3, 4] NewIpCidrTrie = False" "IsContain [10, 128, 0, 0] NewIpCidrTrie = False"
    "in_net 10 [10, 64, 0, 0] [10, 127, 3, 4]" "\<not> in_net 10 [10, 64, 0, 0] [10, 128, 0, 0]"
    by code_simp+
  with t' show ?thesis by (simp add: To4_def)
qed

text \<open>IPv6: a length that ends in the first byte of a group is enumerated over that byte only; the
  second byte of the group stays what it is in the network address.\<close>

lemma take_pairGroups: "take n (pairGroups q) = pairGroups (take (2 * n) q)"
proof (induction n arbitrary: q)
  case (Suc n)
  show ?case
    by (cases q rule: pairGroups.cases) (simp_all add: Suc.IH)
qed simp

lemma getIpv6GroupValue_inj: "getIpv6GroupValue a b = getIpv6GroupValue c d \<longleftrightarrow> a = c \<and> b = d"
proof
  assume e: "getIpv6GroupValue a b = getIpv6GroupValue c d"
  have l: "y = ucast (getIpv6GroupValue x y)" for x y
    by (rule bit_eqI) (auto simp: getIpv6GroupValue_def bit_simps dest: bit_imp_le_length)
  have h: "x = ucast (drop_bit 8 (getIpv6GroupValue x y))" for x y
    by (rule bit_eqI) (auto simp: getIpv6GroupValue_def bit_simps dest: bit_imp_le_length)
  from l [of b a] l [of d c] h [of a b] h [of c d] e show "a = c \<and> b = d" by metis
qed simp

lemma pairGroups_inj:
  "even (length p) \<Longrightarrow> length p = length q \<Longrightarrow> pairGroups p = pairGroups q \<longleftrightarrow> p = q"
proof (induction p arbitrary: q rule: pairGroups.induct)
  case (1 h l r)
  then show ?case by (cases q rule: pairGroups.cases) (auto simp: getIpv6GroupValue_inj)
qed auto

definition in_net6 :: "nat \<Rightarrow> net_IP \<Rightarrow> net_IP \<Rightarrow> bool" where
  "in_net6 n ip p \<longleftrightarrow>
     (if n = 0 then take 2 p = take 2 ip
      else in_net n ip p \<and> (n mod 16 \<in> {1..7} \<longrightarrow> p ! (n div 8 + 1) = ip ! (n div 8 + 1)))"

definition masked6 :: "nat \<Rightarrow> net_IP \<Rightarrow> bool" where
  "masked6 n ip \<longleftrightarrow> (n mod 16 \<noteq> 0 \<longrightarrow> take_bit (8 - n mod 8) (ip ! (n div 8)) = 0)"

lemma subIpCidr6:
  assumes "length ip = 16" "n \<le> 128" "masked6 n ip"
  shows "\<exists>subs w. subIpCidr ip n False = Some (subs, w) \<and> (\<forall>s \<in> set subs. length s = 16) \<and>
    w div 8 \<le> 16 \<and> even (w div 8) \<and> (\<forall>p. length p = 16 \<longrightarrow>
      (\<exists>s \<in> set subs. take (max 2 (w div 8)) p = take (max 2 (w div 8)) s) \<longleftrightarrow> in_net6 n ip p)"
proof (cases "n mod 16 = 0")
  case True
  then obtain a where "n = 16 * a" by (metis dvd_def mod_0_imp_dvd)
  then have "n mod 8 = 0" "even (n div 8)" "n = 0 \<or> n div 8 \<ge> 2" by auto
  with True assms show ?thesis by (auto simp: subIpCidr_def in_net6_def in_net_def Let_def max_def)
next
  case False
  let ?k = "n div 8" and ?r = "n mod 8"
  let ?g = "2 * (?k div 2) + 2"
  have m16: "n mod 16 = 8 * (?k mod 2) + ?r" using mod_mult2_eq [of n 8 2] by simp
  have "n \<noteq> 128" using False by auto
  then have k: "?k < 16" "?g \<le> 16" using assms(2) by auto
  let ?S = "\<lambda>i. ip[?k := ip ! ?k + of_nat i]"
  have "subIpCidr ip n False = Some (map ?S [0..<2 ^ (8 - ?r)], (?k div 2 + 1) * 16)"
    using False k assms(1) subnet_count [of ?r] by (simp add: subIpCidr_def Let_def del: upt_Suc)
  moreover have "(\<exists>i \<in> set [0..<2 ^ (8 - ?r)]. take ?g p = take ?g (?S i)) \<longleftrightarrow> in_net6 n ip p"
    if p: "length p = 16" for p
  proof -
    have tk: "take ?g p = take ?g (?S i) \<longleftrightarrow> take ?k p = take ?k ip \<and> p ! ?k = ip ! ?k + of_nat i \<and>
        (even ?k \<longrightarrow> p ! (?k + 1) = ip ! (?k + 1))" for i
    proof (cases "even ?k")
      case True
      then obtain c where c: "?k = 2 * c" by (rule evenE)
      then have g: "?g = Suc (Suc ?k)" and k1: "Suc ?k < 16" using k by simp_all
      show ?thesis unfolding g using True k1 assms(1) p
        by (simp add: take_Suc_conv_app_nth)
    next
      case odd: False
      then obtain c where c: "?k = 2 * c + 1" by (rule oddE)
      then have g: "?g = Suc ?k" by simp
      show ?thesis unfolding g using odd k assms(1) p by (simp add: take_Suc_conv_app_nth)
    qed
    have r: "(\<exists>i \<in> set [0..<2 ^ (8 - ?r)]. p ! ?k = ip ! ?k + of_nat i) \<longleftrightarrow>
        drop_bit (8 - ?r) (p ! ?k) = drop_bit (8 - ?r) (ip ! ?k)"
      by (rule byte_range) (use assms(3) False in \<open>auto simp: masked6_def\<close>)
    have r0: "drop_bit (8 - ?r) (p ! ?k) = drop_bit (8 - ?r) (ip ! ?k)" if "?r = 0"
      using that by simp
    have ev: "even ?k \<longleftrightarrow> n mod 16 \<in> {1..7}" 
      using False m16 mod_less_divisor [of 8 n] by (cases "even ?k") (auto simp: even_iff_mod_2_eq_zero odd_iff_mod_2_eq_one)
    have "(\<exists>i \<in> set [0..<2 ^ (8 - ?r)]. take ?g p = take ?g (?S i)) \<longleftrightarrow>
      take ?k p = take ?k ip \<and> drop_bit (8 - ?r) (p ! ?k) = drop_bit (8 - ?r) (ip ! ?k) \<and>
      (even ?k \<longrightarrow> p ! (?k + 1) = ip ! (?k + 1))"
      unfolding tk r [symmetric] by blast
    moreover have "n \<noteq> 0" using False by auto
    ultimately show ?thesis using r0 by (auto simp: in_net6_def in_net_def Let_def ev)
  qed
  moreover have "max 2 ((?k div 2 + 1) * 16 div 8) = ?g" "(?k div 2 + 1) * 16 div 8 = ?g" by auto
  ultimately show ?thesis using k assms(1) by auto
qed

text \<open>What adding an IPv6 network adds, exactly: the network when its length modulo 16 is 0 or
  at least 8; for the other lengths only those of its addresses whose byte after the last one of the
  prefix is that of the network address, so the trie misses most of the network.\<close>

theorem ipv6_add_contains:
  assumes "trie_ok t" "length ip = 16" "To4 ip = None" "mask_Size m = n" "n \<le> 128" "masked6 n ip"
  shows "\<exists>t'. AddIpCidr \<lparr>net_IP = ip, net_Mask = m\<rparr> t = Some t' \<and> trie_ok t' \<and>
    (\<forall>q. IsContain q t' \<longleftrightarrow> IsContain q t \<or> (length q = 16 \<and> To4 q = None \<and> in_net6 n ip q))"
proof -
  obtain subs w where s: "subIpCidr ip n False = Some (subs, w)" "\<forall>s \<in> set subs. length s = 16"
    "w div 8 \<le> 16" "even (w div 8)"
    "\<And>p. length p = 16 \<Longrightarrow> (\<exists>s \<in> set subs. take (max 2 (w div 8)) p = take (max 2 (w div 8)) s) \<longleftrightarrow>
      in_net6 n ip p"
    using subIpCidr6 [OF assms(2,5,6)] by blast
  let ?g = "max 2 (w div 8)"
  have ev: "even ?g" "2 * (?g div 2) = ?g" using s(4) by (auto simp: max_def)
  obtain t' where t': "addAll t False subs (w div 8) = Some t'" "trie_ok t'" "ipv4Trie t' = ipv4Trie t"
    "\<And>vs. covers (ipv6Trie t') vs \<longleftrightarrow> covers (ipv6Trie t) vs \<or>
       (\<exists>s \<in> set subs. take (?g div 2) vs = pairGroups (take ?g s))"
    using addAll6 [OF assms(1) s(2,3,4)] by blast
  have add: "AddIpCidr \<lparr>net_IP = ip, net_Mask = m\<rparr> t = Some t'"
    using assms(2-4) s(1) t'(1)
    by (simp add: AddIpCidr_def ipCidrToSubIpCidr_def checkAndConverterIp_def To16_def)
  have "IsContain q t' \<longleftrightarrow> IsContain q t \<or> (length q = 16 \<and> To4 q = None \<and> in_net6 n ip q)" for q
  proof (cases "To4 q = None \<and> length q = 16")
    case False
    then show ?thesis
      using IsContain4 [OF t'(2), of q] IsContain4 [OF assms(1), of q] IsContain_bad [of q] t'(3)
      by (cases "To4 q") auto
  next
    case True
    have eq: "pairGroups (take ?g q) = pairGroups (take ?g s) \<longleftrightarrow> take ?g q = take ?g s"
      if "s \<in> set subs" for s
      using that True s(2,3) ev by (intro pairGroups_inj) (auto simp: min_def)
    have "IsContain q t' \<longleftrightarrow> IsContain q t \<or> (\<exists>s \<in> set subs. take ?g q = take ?g s)"
      using True eq IsContain6 [OF t'(2), of q] IsContain6 [OF assms(1), of q]
      unfolding t'(4) take_pairGroups ev(2) by auto
    with s(5) [of q] True show ?thesis by auto
  qed
  with add t'(2) show ?thesis by blast
qed

text \<open>2001:db8::/33 is added, and 2001:db8:1::1 is not found.\<close>

lemma ipv6_add_contains_witness:
  "\<exists>t'. AddIpCidr \<lparr>net_IP = [0x20, 1, 0xd, 0xb8, 0, 0, 0, 0, 0, 0, 0, 0, 0, 0, 0, 0],
      net_Mask = [255, 255, 255, 255, 128, 0, 0, 0, 0, 0, 0, 0, 0, 0, 0, 0]\<rparr> NewIpCidrTrie = Some t' \<and>
    IsContain [0x20, 1, 0xd, 0xb8, 1, 0, 0, 0, 0, 0, 0, 0, 0, 0, 0, 1] t' \<and>
    \<not> IsContain [0x20, 1, 0xd, 0xb8, 0, 1, 0, 0, 0, 0, 0, 0, 0, 0, 0, 1] t'"
proof -
  let ?ip = "[0x20, 1, 0xd, 0xb8, 0, 0, 0, 0, 0, 0, 0, 0, 0, 0, 0, 0] :: net_IP"
  let ?m = "[255, 255, 255, 255, 128, 0, 0, 0, 0, 0, 0, 0, 0, 0, 0, 0] :: net_IP"
  let ?q = "[0x20, 1, 0xd, 0xb8, 1, 0, 0, 0, 0, 0, 0, 0, 0, 0, 0, 1] :: net_IP"
  let ?r = "[0x20, 1, 0xd, 0xb8, 0, 1, 0, 0, 0, 0, 0, 0, 0, 0, 0, 1] :: net_IP"
  have h: "length ?ip = 16" "To4 ?ip = None" "mask_Size ?m = 33" "(33 :: nat) \<le> 128" "masked6 33 ?ip"
    by code_simp+
  have q: "IsContain ?q NewIpCidrTrie = False" "IsContain ?r NewIpCidrTrie = False"
    "length ?q = 16 \<and> To4 ?q = None \<and> in_net6 33 ?ip ?q" "\<not> in_net6 33 ?ip ?r"
    by code_simp+
  from ipv6_add_contains [OF trie_ok_New h] obtain t' where
    t': "AddIpCidr \<lparr>net_IP = ?ip, net_Mask = ?m\<rparr> NewIpCidrTrie = Some t'"
    "\<And>q. IsContain q t' \<longleftrightarrow> IsContain q NewIpCidrTrie \<or> (length q = 16 \<and> To4 q = None \<and> in_net6 33 ?ip q)"
    by blast
  from t'(2) [of ?q] t'(2) [of ?r] q have "IsContain ?q t'" "\<not> IsContain ?r t'" by blast+
  with t'(1) show ?thesis by blast
qed

section \<open>Adding a list of networks\<close>

text \<open>What a network stands for in the trie, and the networks this is proved of: those \<^verbatim>\<open>net.ParseCIDR\<close> gives for
  IPv4 and for IPv6 but the IPv4-mapped ones.\<close>

definition net_has :: "IPNet \<Rightarrow> net_IP \<Rightarrow> bool" where
  "net_has c q \<longleftrightarrow>
     (let n = mask_Size (net_Mask c)
      in if length (net_IP c) = 4
         then (case To4 q of None \<Rightarrow> False | Some p \<Rightarrow> in_net (if n = 0 then 8 else n) (net_IP c) p)
         else length q = 16 \<and> To4 q = None \<and> in_net6 n (net_IP c) q)"

definition net_ok :: "IPNet \<Rightarrow> bool" where
  "net_ok c \<longleftrightarrow>
     (let n = mask_Size (net_Mask c)
      in length (net_IP c) = 4 \<and> n \<le> 32 \<and> masked n (net_IP c) \<or>
         length (net_IP c) = 16 \<and> To4 (net_IP c) = None \<and> n \<le> 128 \<and> masked6 n (net_IP c))"

fun addNets :: "IPNet list \<Rightarrow> IpCidrTrie \<Rightarrow> IpCidrTrie option" where
  "addNets [] t = Some t"
| "addNets (c # cs) t = AddIpCidr c t \<bind> addNets cs"

lemma addNets_append: "addNets (cs @ ds) t = addNets cs t \<bind> addNets ds"
  by (induction cs arbitrary: t) (simp_all add: bind_assoc cong: Option.bind_cong)

lemma net_add:
  assumes "trie_ok t" "net_ok c"
  shows "\<exists>t'. AddIpCidr c t = Some t' \<and> trie_ok t' \<and> (\<forall>q. IsContain q t' \<longleftrightarrow> IsContain q t \<or> net_has c q)"
proof -
  obtain ip m where c: "c = \<lparr>net_IP = ip, net_Mask = m\<rparr>" by (cases c)
  show ?thesis
  proof (cases "length ip = 4")
    case True
    then have "mask_Size m \<le> 32" "masked (mask_Size m) ip" using assms(2) by (auto simp: net_ok_def c Let_def)
    from add4_contains [OF assms(1) True refl this] show ?thesis
      using True by (auto simp: c net_has_def Let_def split: option.splits)
  next
    case False
    then have "length ip = 16" "To4 ip = None" "mask_Size m \<le> 128" "masked6 (mask_Size m) ip"
      using assms(2) by (auto simp: net_ok_def c Let_def)
    from ipv6_add_contains [OF assms(1) this(1,2) refl this(3,4)] show ?thesis
      using False by (simp add: c net_has_def Let_def)
  qed
qed

lemma addNets_contains:
  assumes "trie_ok t" "\<forall>c \<in> set cs. net_ok c"
  shows "\<exists>t'. addNets cs t = Some t' \<and> trie_ok t' \<and>
    (\<forall>q. IsContain q t' \<longleftrightarrow> IsContain q t \<or> (\<exists>c \<in> set cs. net_has c q))"
  using assms
proof (induction cs arbitrary: t)
  case (Cons c cs)
  obtain t1 where t1: "AddIpCidr c t = Some t1" "trie_ok t1" "\<And>q. IsContain q t1 \<longleftrightarrow> IsContain q t \<or> net_has c q"
    using net_add [OF Cons.prems(1), of c] Cons.prems(2) by (meson list.set_intros(1))
  from Cons.IH [OF t1(2)] Cons.prems(2) t1 show ?case by auto
qed simp

lemma new_contains: "\<not> IsContain q NewIpCidrTrie"
  by (auto simp: IsContain_def NewIpCidrTrie_def cidr_search_def cidr_getChild_def NewIpCidrNode_def split: option.splits prod.splits)

text \<open>An IPv4-mapped network written in IPv6 form keeps its IPv6 mask length, and the IPv4 loop
  indexes past the four bytes.\<close>

lemma mapped_network_panics:
  "AddIpCidr \<lparr>net_IP = v4InV6Prefix @ [1, 2, 3, 0],
     net_Mask = replicate 15 255 @ [0]\<rparr> NewIpCidrTrie = None"
  by code_simp

end
