(* ===== verification/CacheFile.thy ===== *)
theory CacheFile imports GoNet begin

text \<open>
  \<^verbatim>\<open>component/profile/cachefile/cache.go\<close>: the cache file, two buckets of a bbolt database, one
  for the selected proxies and one for the fake-IP pairs.

  The database engine (\<^verbatim>\<open>go.etcd.io/bbolt\<close>) is not part of the repository: its state is a type
  variable and its operations are the fields of a record the definitions take as an argument.
  \<open>bolt_laws\<close> states what its documentation promises of them; \<open>bolt_maps\<close> is an instance.
\<close>

type_synonym bytes = "8 word list"

definition to_bytes :: "string \<Rightarrow> bytes" where
  "to_bytes s = map (\<lambda>c. of_nat (byte_of c)) s"

definition of_bytes :: "bytes \<Rightarrow> string" where
  "of_bytes bs = map (\<lambda>b. char_of (unat b)) bs"

section \<open>The database as a parameter\<close>

record 'd bolt =
  b_Batch :: "('d \<Rightarrow> 'd option) \<Rightarrow> 'd \<Rightarrow> 'd option"   \<comment> \<open>\<open>None\<close>: the error return, nothing committed\<close>
  b_Begin :: "'d \<Rightarrow> 'd option"                        \<comment> \<open>a read transaction\<close>
  b_CreateBucketIfNotExists :: "bytes \<Rightarrow> 'd \<Rightarrow> 'd option"
  b_Bucket :: "bytes \<Rightarrow> 'd \<Rightarrow> bool"
  b_DeleteBucket :: "bytes \<Rightarrow> 'd \<Rightarrow> 'd option"
  b_Put :: "bytes \<Rightarrow> bytes \<Rightarrow> bytes \<Rightarrow> 'd \<Rightarrow> 'd option"
  b_Get :: "bytes \<Rightarrow> bytes \<Rightarrow> 'd \<Rightarrow> bytes option"
  b_Delete :: "bytes \<Rightarrow> bytes \<Rightarrow> 'd \<Rightarrow> 'd option"
  b_Cursor :: "bytes \<Rightarrow> 'd \<Rightarrow> (bytes \<times> bytes) list"     \<comment> \<open>the pairs in key order\<close>

section \<open>CacheFile\<close>

record 'd CacheFile = DB :: "'d option"

definition bucketSelected :: bytes where "bucketSelected = to_bytes ''selected''"
definition bucketFakeip :: bytes where "bucketFakeip = to_bytes ''fakeip''"

definition SetSelected :: "'d bolt \<Rightarrow> bool \<Rightarrow> string \<Rightarrow> string \<Rightarrow> 'd CacheFile \<Rightarrow> 'd CacheFile" where
  "SetSelected B storeSelected grp selected c =
     (if \<not> storeSelected then c
      else case DB c of
        None \<Rightarrow> c
      | Some d \<Rightarrow>
          (case b_Batch B (\<lambda>t. do {
              t \<leftarrow> b_CreateBucketIfNotExists B bucketSelected t;
              b_Put B bucketSelected (to_bytes grp) (to_bytes selected) t }) d of
             None \<Rightarrow> c
           | Some d' \<Rightarrow> c\<lparr>DB := Some d'\<rparr>))"

text \<open>A nil map is \<open>None\<close>.\<close>

definition SelectedMap :: "'d bolt \<Rightarrow> bool \<Rightarrow> 'd CacheFile \<Rightarrow> (string \<rightharpoonup> string) option" where
  "SelectedMap B storeSelected c =
     (if \<not> storeSelected then None
      else case DB c of
        None \<Rightarrow> None
      | Some d \<Rightarrow> Some
          (case b_Begin B d of
             None \<Rightarrow> Map.empty
           | Some t \<Rightarrow>
               (if \<not> b_Bucket B bucketSelected t then Map.empty
                else fold (\<lambda>(k, v) m. m(of_bytes k \<mapsto> of_bytes v)) (b_Cursor B bucketSelected t)
                       Map.empty)))"

text \<open>The result says whether the error is nil.\<close>

definition PutFakeip :: "'d bolt \<Rightarrow> bytes \<Rightarrow> bytes \<Rightarrow> 'd CacheFile \<Rightarrow> 'd CacheFile \<times> bool" where
  "PutFakeip B key v c =
     (case DB c of
        None \<Rightarrow> (c, True)
      | Some d \<Rightarrow>
          (case b_Batch B (\<lambda>t. do {
              t \<leftarrow> b_CreateBucketIfNotExists B bucketFakeip t;
              b_Put B bucketFakeip key v t }) d of
             None \<Rightarrow> (c, False)
           | Some d' \<Rightarrow> (c\<lparr>DB := Some d'\<rparr>, True)))"

text \<open>The host is deleted even when deleting the address failed; the error then undoes both.\<close>

definition DelFakeipPair :: "'d bolt \<Rightarrow> bytes \<Rightarrow> bytes \<Rightarrow> 'd CacheFile \<Rightarrow> 'd CacheFile \<times> bool" where
  "DelFakeipPair B ip host c =
     (case DB c of
        None \<Rightarrow> (c, True)
      | Some d \<Rightarrow>
          (case b_Batch B (\<lambda>t. do {
              t \<leftarrow> b_CreateBucketIfNotExists B bucketFakeip t;
              let r = b_Delete B bucketFakeip ip t;
              let t1 = (case r of None \<Rightarrow> t | Some t1 \<Rightarrow> t1);
              t2 \<leftarrow> (if length host > 0 then b_Delete B bucketFakeip host t1 else Some t1);
              if r = None then None else Some t2 }) d of
             None \<Rightarrow> (c, False)
           | Some d' \<Rightarrow> (c\<lparr>DB := Some d'\<rparr>, True)))"

definition GetFakeip :: "'d bolt \<Rightarrow> bytes \<Rightarrow> 'd CacheFile \<Rightarrow> bytes option" where
  "GetFakeip B key c =
     (case DB c of
        None \<Rightarrow> None
      | Some d \<Rightarrow>
          (case b_Begin B d of
             None \<Rightarrow> None
           | Some t \<Rightarrow> if \<not> b_Bucket B bucketFakeip t then None else b_Get B bucketFakeip key t))"

text \<open>A nil database is dereferenced here.\<close>

definition cf_FlushFakeIP :: "'d bolt \<Rightarrow> 'd CacheFile \<Rightarrow> ('d CacheFile \<times> bool) option" where
  "cf_FlushFakeIP B c =
     (case DB c of
        None \<Rightarrow> None
      | Some d \<Rightarrow> Some
          (case b_Batch B (\<lambda>t. if \<not> b_Bucket B bucketFakeip t then Some t
                              else b_DeleteBucket B bucketFakeip t) d of
             None \<Rightarrow> (c, False)
           | Some d' \<Rightarrow> (c\<lparr>DB := Some d'\<rparr>, True)))"

section \<open>What the database promises\<close>

text \<open>The documented behaviour. A transaction runs its function and commits what it returns, or fails and changes
  nothing. A bucket with a name is a map; a key is stored when it is neither empty nor longer than 32768 bytes and its
  value not longer than \<^verbatim>\<open>MaxValueSize\<close>; deleting a key that is not there is no error.\<close>

definition key_ok :: "bytes \<Rightarrow> bool" where
  "key_ok k \<longleftrightarrow> k \<noteq> [] \<and> length k \<le> 32768"

definition value_ok :: "bytes \<Rightarrow> bool" where
  "value_ok v \<longleftrightarrow> length v \<le> 2147483646"

definition contents :: "'d bolt \<Rightarrow> bytes \<Rightarrow> 'd \<Rightarrow> bytes \<rightharpoonup> bytes" where
  "contents B b d = (\<lambda>k. if b_Bucket B b d then b_Get B b k d else None)"

definition bolt_laws :: "'d bolt \<Rightarrow> bool" where
  "bolt_laws B \<longleftrightarrow>
     (\<forall>f d. b_Batch B f d \<in> {f d, None}) \<and> (\<forall>d. b_Begin B d \<in> {Some d, None}) \<and>
     (\<forall>b d. b \<noteq> [] \<longrightarrow> (\<exists>d'. b_CreateBucketIfNotExists B b d = Some d' \<and> b_Bucket B b d' \<and>
        contents B b d' = contents B b d)) \<and>
     (\<forall>b d. b_Bucket B b d \<longrightarrow> (\<exists>d'. b_DeleteBucket B b d = Some d' \<and> \<not> b_Bucket B b d')) \<and>
     (\<forall>b d k v. b_Bucket B b d \<and> key_ok k \<and> value_ok v \<longrightarrow> (\<exists>d'. b_Put B b k v d = Some d' \<and> b_Bucket B b d' \<and>
        contents B b d' = (contents B b d)(k \<mapsto> v))) \<and>
     (\<forall>b d k. b_Bucket B b d \<longrightarrow> (\<exists>d'. b_Delete B b k d = Some d' \<and> b_Bucket B b d' \<and>
        contents B b d' = (contents B b d)(k := None)))"

text \<open>That no transaction fails: the file is open and the disk takes what is written.\<close>

definition bolt_healthy :: "'d bolt \<Rightarrow> bool" where
  "bolt_healthy B \<longleftrightarrow> (\<forall>f d. b_Batch B f d = f d) \<and> (\<forall>d. b_Begin B d = Some d)"

definition bolt_ok :: "'d bolt \<Rightarrow> bool" where
  "bolt_ok B \<longleftrightarrow> bolt_laws B \<and> bolt_healthy B"

lemma bolt_run [simp]: "bolt_ok B \<Longrightarrow> b_Batch B f d = f d" "bolt_ok B \<Longrightarrow> b_Begin B d = Some d"
  by (simp_all add: bolt_ok_def bolt_healthy_def)

lemma bolt_create:
  assumes "bolt_ok B"
  shows "\<exists>d'. b_CreateBucketIfNotExists B bucketFakeip d = Some d' \<and> b_Bucket B bucketFakeip d' \<and>
    contents B bucketFakeip d' = contents B bucketFakeip d"
proof -
  have "bucketFakeip \<noteq> []" by (simp add: bucketFakeip_def to_bytes_def)
  then show ?thesis using assms unfolding bolt_ok_def bolt_laws_def by blast
qed

lemma value_ok_small [intro]: "length v \<le> 32768 \<Longrightarrow> value_ok v"
  by (simp add: value_ok_def)

text \<open>The state of the bucket as the functions of the cache file read it.\<close>

definition fakeips :: "'d bolt \<Rightarrow> 'd CacheFile \<Rightarrow> bytes \<rightharpoonup> bytes" where
  "fakeips B c = (case DB c of None \<Rightarrow> Map.empty | Some d \<Rightarrow> contents B bucketFakeip d)"

lemma GetFakeip_eq: "bolt_ok B \<Longrightarrow> GetFakeip B k c = fakeips B c k"
  by (auto simp: GetFakeip_def fakeips_def contents_def split: option.splits)

lemma PutFakeip_eq:
  assumes "bolt_ok B" "DB c \<noteq> None" "key_ok k" "value_ok v"
  shows "\<exists>c'. PutFakeip B k v c = (c', True) \<and> DB c' \<noteq> None \<and> fakeips B c' = (fakeips B c)(k \<mapsto> v)"
proof -
  obtain d where d: "DB c = Some d" using assms(2) by auto
  obtain t where t: "b_CreateBucketIfNotExists B bucketFakeip d = Some t" "b_Bucket B bucketFakeip t"
    "contents B bucketFakeip t = contents B bucketFakeip d"
    using bolt_create [OF assms(1)] by blast
  obtain u where u: "b_Put B bucketFakeip k v t = Some u"
    "contents B bucketFakeip u = (contents B bucketFakeip t)(k \<mapsto> v)"
    using assms(1,3,4) t(2) unfolding bolt_ok_def bolt_laws_def by blast
  with d t u assms(1) show ?thesis
    by (intro exI [of _ "c\<lparr>DB := Some u\<rparr>"]) (simp add: PutFakeip_def fakeips_def)
qed

lemma DelFakeipPair_eq:
  assumes "bolt_ok B" "DB c \<noteq> None"
  shows "\<exists>c'. DelFakeipPair B ip host c = (c', True) \<and> DB c' \<noteq> None \<and>
    fakeips B c' = (if host = [] then (fakeips B c)(ip := None)
                    else (fakeips B c)(ip := None, host := None))"
proof -
  obtain d where d: "DB c = Some d" using assms(2) by auto
  obtain t where t: "b_CreateBucketIfNotExists B bucketFakeip d = Some t" "b_Bucket B bucketFakeip t"
    "contents B bucketFakeip t = contents B bucketFakeip d"
    using bolt_create [OF assms(1)] by blast
  have del: "\<exists>u. b_Delete B bucketFakeip k t = Some u \<and> b_Bucket B bucketFakeip u \<and>
      contents B bucketFakeip u = (contents B bucketFakeip t)(k := None)"
    if "b_Bucket B bucketFakeip t" for k t
    using assms(1) that unfolding bolt_ok_def bolt_laws_def by blast
  obtain u where u: "b_Delete B bucketFakeip ip t = Some u" "b_Bucket B bucketFakeip u"
    "contents B bucketFakeip u = (contents B bucketFakeip t)(ip := None)"
    using del [OF t(2)] by blast
  obtain w where w: "b_Delete B bucketFakeip host u = Some w"
    "contents B bucketFakeip w = (contents B bucketFakeip u)(host := None)"
    using del [OF u(2)] by blast
  have b: "b_Batch B f d = f d" for f by (rule bolt_run(1) [OF assms(1)])
  show ?thesis
  proof (cases "host = []")
    case True
    with d t u b show ?thesis
      by (intro exI [of _ "c\<lparr>DB := Some u\<rparr>"]) (simp add: DelFakeipPair_def fakeips_def)
  next
    case False
    with d t u w b show ?thesis
      by (intro exI [of _ "c\<lparr>DB := Some w\<rparr>"]) (simp add: DelFakeipPair_def fakeips_def)
  qed
qed

lemma cf_FlushFakeIP_eq:
  assumes "bolt_ok B" "DB c \<noteq> None"
  shows "\<exists>c'. cf_FlushFakeIP B c = Some (c', True) \<and> DB c' \<noteq> None \<and> fakeips B c' = Map.empty"
proof -
  obtain d where d: "DB c = Some d" using assms(2) by auto
  have b: "b_Batch B f d = f d" for f by (rule bolt_run(1) [OF assms(1)])
  show ?thesis
  proof (cases "b_Bucket B bucketFakeip d")
    case True
    then obtain u where "b_DeleteBucket B bucketFakeip d = Some u" "\<not> b_Bucket B bucketFakeip u"
      using assms(1) unfolding bolt_ok_def bolt_laws_def by blast
    with d b True show ?thesis
      by (intro exI [of _ "c\<lparr>DB := Some u\<rparr>"])
        (auto simp: cf_FlushFakeIP_def fakeips_def contents_def)
  next
    case False
    with d b show ?thesis by (intro exI [of _ c]) (auto simp: cf_FlushFakeIP_def fakeips_def contents_def)
  qed
qed

lemma of_bytes_to_bytes [simp]: "of_bytes (to_bytes s) = s"
proof -
  have "char_of (unat (of_nat (byte_of c) :: 8 word)) = c" for c
    using nat_of_char_less_256 [of c] by (simp add: unat_of_nat)
  then show ?thesis by (simp add: of_bytes_def to_bytes_def o_def map_idI)
qed

lemma to_bytes_inj: "to_bytes s = to_bytes t \<longleftrightarrow> s = t"
  by (metis of_bytes_to_bytes)

lemma to_bytes_simps [simp]: "to_bytes [] = []" "length (to_bytes s) = length s" "to_bytes s = [] \<longleftrightarrow> s = []"
  by (auto simp: to_bytes_def)

text \<open>An instance: a database is a map from bucket names to maps.\<close>

definition bolt_maps :: "(bytes \<rightharpoonup> bytes \<rightharpoonup> bytes) bolt" where
  "bolt_maps = \<lparr>
     b_Batch = (\<lambda>f d. f d), b_Begin = Some,
     b_CreateBucketIfNotExists = (\<lambda>b d. Some (case d b of None \<Rightarrow> d(b \<mapsto> Map.empty) | Some _ \<Rightarrow> d)),
     b_Bucket = (\<lambda>b d. d b \<noteq> None),
     b_DeleteBucket = (\<lambda>b d. case d b of None \<Rightarrow> None | Some _ \<Rightarrow> Some (d(b := None))),
     b_Put = (\<lambda>b k v d. case d b of None \<Rightarrow> None
        | Some m \<Rightarrow> if key_ok k \<and> value_ok v then Some (d(b \<mapsto> m(k \<mapsto> v))) else None),
     b_Get = (\<lambda>b k d. case d b of None \<Rightarrow> None | Some m \<Rightarrow> m k),
     b_Delete = (\<lambda>b k d. case d b of None \<Rightarrow> None | Some m \<Rightarrow> Some (d(b \<mapsto> m(k := None)))),
     b_Cursor = (\<lambda>b d. [])\<rparr>"

lemma bolt_maps_laws: "bolt_laws bolt_maps"
  unfolding bolt_laws_def by (intro conjI allI impI) (auto simp: bolt_maps_def contents_def split: option.splits)

lemma bolt_maps_healthy: "bolt_healthy bolt_maps"
  by (simp add: bolt_healthy_def bolt_maps_def)

lemma bolt_maps_ok: "bolt_ok bolt_maps"
  by (simp add: bolt_ok_def bolt_maps_laws bolt_maps_healthy)

end
