(* ===== verification/DomainTrie.thy ===== *)
theory DomainTrie imports GoPrelude begin

text \<open>
  The domain trie of \<^verbatim>\<open>component/trie/domain.go\<close> and \<^verbatim>\<open>component/trie/node.go\<close>: the rule
  providers, the hosts table, the DNS policies and the fake-ip filter look a host name up in it.

  A trie is a tree of nodes of which every pointer has one owner, so a node is a datatype and an
  assignment through a child pointer is \<open>putChild\<close>. A Go map is its list of (key, value) pairs with
  distinct keys, in an order nothing depends on; a nil map is \<open>None\<close>. The zero value of the data
  field is \<open>None\<close>.

  \<open>entries\<close> abstracts a trie to the map from label lists (last label first) to data;
  the operations are proved to refine updates and a priority search on that map.
\<close>

section \<open>Nodes (node.go)\<close>

datatype 'a Node = Node
  (childMap: "(string \<times> 'a Node) list option")
  (childNode: "'a Node option")
  (childStr: string)
  (inited: bool)
  (data: "'a option")

definition wildcard :: string where "wildcard = ''*''"
definition dotWildcard :: string where "dotWildcard = ''''"
definition complexWildcard :: string where "complexWildcard = ''+''"
definition domainStep :: string where "domainStep = ''.''"

definition newNode :: "'a Node" where
  "newNode = Node None None [] False None"

definition getChild :: "'a Node \<Rightarrow> string \<Rightarrow> 'a Node option" where
  "getChild n s =
     (case childMap n of
        None \<Rightarrow> (if childNode n \<noteq> None \<and> childStr n = s then childNode n else None)
      | Some m \<Rightarrow> map_of m s)"

definition hasChild :: "'a Node \<Rightarrow> string \<Rightarrow> bool" where
  "hasChild n s = (getChild n s \<noteq> None)"

definition addChild :: "string \<Rightarrow> 'a Node \<Rightarrow> 'a Node \<Rightarrow> 'a Node" where
  "addChild s child n =
     (case childMap n of
        None \<Rightarrow>
          (case childNode n of
             None \<Rightarrow> Node None (Some child) s (inited n) (data n)
           | Some c \<Rightarrow> Node (Some (map_put s child [(childStr n, c)])) None [] (inited n) (data n))
      | Some m \<Rightarrow> Node (Some (map_put s child m)) (childNode n) (childStr n) (inited n) (data n))"

text \<open>The child, and the node with that child present.\<close>

definition getOrNewChild :: "'a Node \<Rightarrow> string \<Rightarrow> 'a Node \<times> 'a Node" where
  "getOrNewChild n s =
     (case getChild n s of
        Some c \<Rightarrow> (c, n)
      | None \<Rightarrow> (newNode, addChild s newNode n))"

text \<open>The node after its child under \<open>s\<close> (there is one) was changed in place to \<open>c\<close>.\<close>

definition putChild :: "string \<Rightarrow> 'a Node \<Rightarrow> 'a Node \<Rightarrow> 'a Node" where
  "putChild s c n =
     (case childMap n of
        None \<Rightarrow> Node None (Some c) (childStr n) (inited n) (data n)
      | Some m \<Rightarrow> Node (Some (map_put s c m)) (childNode n) (childStr n) (inited n) (data n))"

definition setData :: "'a \<Rightarrow> 'a Node \<Rightarrow> 'a Node" where
  "setData d n = Node (childMap n) (childNode n) (childStr n) True (Some d)"

text \<open>\<open>isEmpty\<close> may be called on a nil pointer.\<close>

definition isEmpty :: "'a Node option \<Rightarrow> bool" where
  "isEmpty p = (case p of None \<Rightarrow> True | Some n \<Rightarrow> \<not> inited n)"

definition getChildren :: "'a Node \<Rightarrow> (string \<times> 'a Node) list" where
  "getChildren n =
     (case childMap n of
        None \<Rightarrow> (case childNode n of None \<Rightarrow> [] | Some c \<Rightarrow> [(childStr n, c)])
      | Some m \<Rightarrow> m)"

definition strClone :: "string \<Rightarrow> string" where
  "strClone k =
     (if k = wildcard then wildcard else if k = dotWildcard then dotWildcard
      else if k = complexWildcard then complexWildcard
      else if k = domainStep then domainStep else k)"

lemma size_map_value: "(k, c) \<in> set m \<Longrightarrow>
  size c < Suc (size_list (size_prod (\<lambda>_. 0) size) m)"
  by (induction m) auto

function optimize :: "'a Node \<Rightarrow> 'a Node" where
  "optimize (Node cm cn s i d) =
     (let s1 = (if length s > 0 then strClone s else s);
          cn1 = map_option optimize cn
      in case cm of
           None \<Rightarrow> Node None cn1 s1 i d
         | Some [] \<Rightarrow> Node None cn1 s1 i d
         | Some [(k, c)] \<Rightarrow> optimize (Node None (Some c) k i d)
         | Some (x # y # m) \<Rightarrow>
             Node (Some (map (\<lambda>(k, c). (strClone k, optimize c)) (x # y # m))) cn1 s1 i d)"
  by pat_completeness auto

termination
  apply (relation "measure size")
     apply (auto simp del: list.map)
  subgoal for cn d b ba m k c using size_map_value [of k c m] by simp
  done

section \<open>The trie (domain.go)\<close>

record 'a DomainTrie = root :: "'a Node"

datatype trie_error = ErrInvalidDomain

definition New :: "'a DomainTrie" where
  "New = \<lparr>root = newNode\<rparr>"

definition ValidAndSplitDomain :: "string \<Rightarrow> string list option" where
  "ValidAndSplitDomain domain =
     (if domain \<noteq> [] \<and> last domain = CHR ''.'' then None
      else
        (let parts = Split (CHR ''.'') (ToLower domain)
         in if length parts = 1
            then (if hd parts = [] then None else Some parts)
            else if list_ex (\<lambda>p. p = []) (tl parts) then None
            else Some parts))"

text \<open>The loop of \<open>insert\<close> walks the labels from the last one.\<close>

fun insertLoop :: "string list \<Rightarrow> 'a \<Rightarrow> 'a Node \<Rightarrow> 'a Node" where
  "insertLoop [] d n = setData d n"
| "insertLoop (p # ps) d n =
     (let (c, n1) = getOrNewChild n p in putChild p (insertLoop ps d c) n1)"

definition insert_parts :: "string list \<Rightarrow> 'a \<Rightarrow> 'a DomainTrie \<Rightarrow> 'a DomainTrie" where
  "insert_parts parts d t = t\<lparr>root := insertLoop (rev parts) d (root t)\<rparr>"

definition Insert :: "string \<Rightarrow> 'a \<Rightarrow> 'a DomainTrie \<Rightarrow> trie_error + 'a DomainTrie" where
  "Insert domain d t =
     (case ValidAndSplitDomain domain of
        None \<Rightarrow> Inl ErrInvalidDomain
      | Some parts \<Rightarrow>
          Inr (if hd parts = complexWildcard
               then insert_parts (dotWildcard # tl parts) d (insert_parts (tl parts) d t)
               else insert_parts parts d t))"

function search :: "'a Node \<Rightarrow> string list \<Rightarrow> 'a Node option" where
  "search node parts =
     (if parts = [] then Some node
      else
        let n1 = (case getChild node (last parts) of
                    Some c \<Rightarrow> search c (butlast parts) | None \<Rightarrow> None)
        in if \<not> isEmpty n1 then n1
           else
             let n2 = (case getChild node wildcard of
                         Some c \<Rightarrow> search c (butlast parts) | None \<Rightarrow> None)
             in if \<not> isEmpty n2 then n2
                else getChild node dotWildcard)"
  by pat_completeness auto

termination
  by (relation "measure (\<lambda>(n, parts). length parts)") auto

definition Search :: "string \<Rightarrow> 'a DomainTrie \<Rightarrow> 'a Node option" where
  "Search domain t =
     (case ValidAndSplitDomain domain of
        None \<Rightarrow> None
      | Some parts \<Rightarrow>
          if hd parts = [] then None
          else
            let n = search (root t) parts
            in if isEmpty n then None else n)"

definition Optimize :: "'a DomainTrie \<Rightarrow> 'a DomainTrie" where
  "Optimize t = t\<lparr>root := optimize (root t)\<rparr>"

definition joinDomain :: "string list \<Rightarrow> string" where
  "joinDomain items = Join domainStep items"

text \<open>The calls of the callback, in order. The labels handed to \<open>recursion\<close> are never empty,
  so the joined name of two labels or more has a first byte.\<close>

lemma getChildren_size: "(k, c) \<in> set (getChildren n) \<Longrightarrow> size c < size n"
proof (cases n)
  case (Node cm cn s i d)
  assume "(k, c) \<in> set (getChildren n)"
  then show ?thesis
    using size_map_value [of k c]
    by (auto simp: Node getChildren_def split: option.splits) fastforce
qed

function recursion :: "string list \<Rightarrow> 'a Node \<Rightarrow> (string \<times> 'a option) list" where
  "recursion items node =
     concat (map (\<lambda>(key, c).
       (let newItems = key # items;
            domain = joinDomain newItems;
            shown = (case domain of ch # _ \<Rightarrow>
                       if ch = CHR ''.'' then complexWildcard @ domain else domain
                     | [] \<Rightarrow> domain)
        in (if inited c then [(shown, data c)] else []) @ recursion newItems c))
       (getChildren node))"
  by pat_completeness auto

termination
  by (relation "measure (\<lambda>(items, n). size n)") (auto dest: getChildren_size)

definition Foreach :: "'a DomainTrie \<Rightarrow> (string \<times> 'a option) list" where
  "Foreach t =
     concat (map (\<lambda>(key, c). recursion [key] c @
       (if inited c then [(joinDomain [key], data c)] else [])) (getChildren (root t)))"

declare search.simps [simp del] recursion.simps [simp del]

text \<open>The same recursion without a function under the \<open>map\<close>, for evaluation.\<close>

fun recursion_children :: "string list \<Rightarrow> (string \<times> 'a Node) list \<Rightarrow> (string \<times> 'a option) list" where
  "recursion_children items [] = []"
| "recursion_children items ((key, c) # m) =
     (let newItems = key # items;
          domain = joinDomain newItems;
          shown = (case domain of ch # _ \<Rightarrow>
                     if ch = CHR ''.'' then complexWildcard @ domain else domain
                   | [] \<Rightarrow> domain)
      in (if inited c then [(shown, data c)] else []) @ recursion newItems c @ recursion_children items m)"

lemma recursion_code [code]: "recursion items node = recursion_children items (getChildren node)"
proof -
  have "recursion_children items m = concat (map (\<lambda>(key, c).
       (let newItems = key # items;
            domain = joinDomain newItems;
            shown = (case domain of ch # _ \<Rightarrow>
                       if ch = CHR ''.'' then complexWildcard @ domain else domain
                     | [] \<Rightarrow> domain)
        in (if inited c then [(shown, data c)] else []) @ recursion newItems c)) m)" for m
    by (induction m rule: recursion_children.induct) (simp_all add: Let_def)
  then show ?thesis unfolding recursion.simps [of items node] by (rule sym)
qed

section \<open>Reading a trie as a map of label lists\<close>

fun walk :: "'a Node \<Rightarrow> string list \<Rightarrow> 'a Node option" where
  "walk n [] = Some n"
| "walk n (p # ps) = (case getChild n p of None \<Rightarrow> None | Some c \<Rightarrow> walk c ps)"

definition entries :: "'a Node \<Rightarrow> string list \<Rightarrow> 'a option" where
  "entries n ps = (case walk n ps of None \<Rightarrow> None | Some m \<Rightarrow> if inited m then data m else None)"

definition local_ok :: "'a Node \<Rightarrow> bool" where
  "local_ok n \<longleftrightarrow> (inited n \<longleftrightarrow> data n \<noteq> None) \<and> (childMap n \<noteq> None \<longrightarrow> childNode n = None)
     \<and> (case childMap n of None \<Rightarrow> True | Some m \<Rightarrow> distinct (map fst m))"

definition wf_node :: "'a Node \<Rightarrow> bool" where
  "wf_node n \<longleftrightarrow> (\<forall>ps m. walk n ps = Some m \<longrightarrow> local_ok m)"

lemma wf_node_iff: "wf_node n \<longleftrightarrow> local_ok n \<and> (\<forall>s c. getChild n s = Some c \<longrightarrow> wf_node c)"
proof
  assume w: "wf_node n"
  then show "local_ok n \<and> (\<forall>s c. getChild n s = Some c \<longrightarrow> wf_node c)"
    unfolding wf_node_def
    by (metis (no_types, lifting) option.simps(5) walk.simps)
next
  assume a: "local_ok n \<and> (\<forall>s c. getChild n s = Some c \<longrightarrow> wf_node c)"
  show "wf_node n" unfolding wf_node_def
  proof (intro allI impI)
    fix ps m assume "walk n ps = Some m"
    with a show "local_ok m" by (cases ps) (auto simp: wf_node_def split: option.splits)
  qed
qed

lemma node_fields [simp]:
  "inited (addChild s c n) = inited n" "data (addChild s c n) = data n"
  "inited (putChild s c n) = inited n" "data (putChild s c n) = data n"
  "inited (setData d n) = True" "data (setData d n) = Some d"
  "inited newNode = False" "data newNode = None" "getChild newNode s = None"
  "getChild (setData d n) s = getChild n s"
  by (auto simp: addChild_def putChild_def setData_def newNode_def getChild_def
      split: option.splits)

lemma getChild_addChild:
  "getChild n s = None \<Longrightarrow> getChild (addChild s c n) t = (if t = s then Some c else getChild n t)"
  by (auto simp: addChild_def getChild_def split: option.splits if_splits)

lemma getChild_putChild:
  "getChild n s \<noteq> None \<Longrightarrow>
   getChild (putChild s c n) t = (if t = s then Some c else getChild n t)"
  by (auto simp: putChild_def getChild_def split: option.splits if_splits)

lemma local_ok_ops:
  "local_ok n \<Longrightarrow> getChild n s = None \<Longrightarrow> local_ok (addChild s c n)"
  "local_ok n \<Longrightarrow> getChild n s \<noteq> None \<Longrightarrow> local_ok (putChild s c n)"
  "local_ok n \<Longrightarrow> local_ok (setData d n)" "local_ok newNode"
  by (auto simp: local_ok_def addChild_def putChild_def setData_def newNode_def getChild_def
      distinct_put split: option.splits if_splits)

abbreviation child_or_new :: "'a Node \<Rightarrow> string \<Rightarrow> 'a Node" where
  "child_or_new n p \<equiv> (case getChild n p of None \<Rightarrow> newNode | Some c \<Rightarrow> c)"

lemma insertLoop_Cons:
  "getChild (insertLoop (p # ps) d n) t =
     (if t = p then Some (insertLoop ps d (child_or_new n p)) else getChild n t)"
  "inited (insertLoop (p # ps) d n) = inited n" "data (insertLoop (p # ps) d n) = data n"
  "local_ok n \<Longrightarrow> local_ok (insertLoop (p # ps) d n)"
  by (auto simp: getOrNewChild_def getChild_addChild getChild_putChild local_ok_ops
      split: option.splits)

lemma walk_new [simp]: "walk newNode qs = (if qs = [] then Some newNode else None)"
  by (cases qs) auto

lemma entries_new [simp]: "entries newNode = (\<lambda>_. None)"
  by (auto simp: entries_def)

lemma entries_Cons:
  "entries n (p # ps) = (case getChild n p of None \<Rightarrow> None | Some c \<Rightarrow> entries c ps)"
  by (simp add: entries_def split: option.splits)

lemma entries_Nil: "entries n [] = (if inited n then data n else None)"
  by (simp add: entries_def)

lemma entries_insertLoop: "entries (insertLoop ps d n) = (entries n)(ps \<mapsto> d)"
proof (induction ps arbitrary: n)
  case Nil
  show ?case
  proof
    fix qs show "entries (insertLoop [] d n) qs = ((entries n)([] \<mapsto> d)) qs"
      by (cases qs) (auto simp: entries_Cons entries_Nil)
  qed
next
  case (Cons p ps)
  note IH = Cons.IH
  show ?case
  proof
    fix qs show "entries (insertLoop (p # ps) d n) qs = ((entries n)(p # ps \<mapsto> d)) qs"
    proof (cases qs)
      case Nil
      then show ?thesis by (simp add: entries_Nil insertLoop_Cons del: insertLoop.simps)
    next
      case qs: (Cons q qs')
      show ?thesis
        by (cases "q = p")
          (auto simp: qs entries_Cons insertLoop_Cons IH simp del: insertLoop.simps
            split: option.splits)
    qed
  qed
qed

lemma wf_newNode [simp]: "wf_node newNode"
  by (auto simp: wf_node_def local_ok_ops split: if_splits)

lemma wf_insertLoop: "wf_node n \<Longrightarrow> wf_node (insertLoop ps d n)"
proof (induction ps arbitrary: n)
  case Nil
  then show ?case by (subst wf_node_iff) (auto simp: local_ok_ops dest: wf_node_iff [THEN iffD1])
next
  case (Cons p ps)
  from Cons.prems have n: "local_ok n" "\<And>s c. getChild n s = Some c \<Longrightarrow> wf_node c"
    by (auto dest: wf_node_iff [THEN iffD1])
  then have "wf_node (child_or_new n p)" by (auto split: option.splits)
  from Cons.IH [OF this] n show ?case
    by (subst wf_node_iff) (auto simp only: insertLoop_Cons option.inject split: if_splits)
qed

section \<open>The search on that map\<close>

text \<open>The specification of the search: an exact label first, then \<^verbatim>\<open>*\<close>, then the
  entry for any number of further labels (the empty label).\<close>

fun best :: "(string list \<Rightarrow> 'a option) \<Rightarrow> string list \<Rightarrow> 'a option" where
  "best E [] = E []"
| "best E (p # ps) =
     (case best (\<lambda>q. E (p # q)) ps of Some d \<Rightarrow> Some d
      | None \<Rightarrow> (case best (\<lambda>q. E (wildcard # q)) ps of Some d \<Rightarrow> Some d
                 | None \<Rightarrow> E [dotWildcard]))"

definition value_of :: "'a Node option \<Rightarrow> 'a option" where
  "value_of r = (case r of None \<Rightarrow> None | Some m \<Rightarrow> if inited m then data m else None)"

lemma entries_child: "getChild n p = Some c \<Longrightarrow> (\<lambda>q. entries n (p # q)) = entries c"
  "getChild n p = None \<Longrightarrow> (\<lambda>q. entries n (p # q)) = (\<lambda>_. None)"
  by (auto simp: entries_Cons)

lemma best_empty [simp]: "best (\<lambda>_. None) ps = None"
  by (induction ps) auto

lemma search_rev:
  "search n [] = Some n"
  "search n (rev (p # ps)) =
     (let n1 = (case getChild n p of Some c \<Rightarrow> search c (rev ps) | None \<Rightarrow> None)
      in if \<not> isEmpty n1 then n1
         else
           let n2 = (case getChild n wildcard of Some c \<Rightarrow> search c (rev ps) | None \<Rightarrow> None)
           in if \<not> isEmpty n2 then n2 else getChild n dotWildcard)" (is "_ = ?r")
proof -
  show "search n [] = Some n" by (subst search.simps) simp
  have b: "butlast (rev (p # ps)) = rev ps" "last (rev (p # ps)) = p" "(rev (p # ps) = []) = False"
    by simp_all
  show "search n (rev (p # ps)) = ?r"
    unfolding search.simps [of n "rev (p # ps)"] b if_False ..
qed

lemma isEmpty_value: "(\<And>m. r = Some m \<Longrightarrow> local_ok m) \<Longrightarrow> isEmpty r \<longleftrightarrow> value_of r = None"
  by (cases r) (auto simp: isEmpty_def value_of_def local_ok_def)

lemma wf_local: "wf_node n \<Longrightarrow> local_ok n"
  by (auto dest: wf_node_iff [THEN iffD1])

lemma wf_child: "wf_node n \<Longrightarrow> getChild n s = Some c \<Longrightarrow> wf_node c"
  by (auto dest: wf_node_iff [THEN iffD1])

lemma search_wf: "wf_node n \<Longrightarrow> search n (rev ps) = Some m \<Longrightarrow> wf_node m"
proof (induction ps arbitrary: n)
  case (Cons p ps)
  have "wf_node m" if "(case getChild n q of Some c \<Rightarrow> search c (rev ps) | None \<Rightarrow> None) = Some m" for q
    using that Cons.IH wf_child [OF Cons.prems(1)] by (auto split: option.splits)
  with Cons.prems show ?case
    unfolding search_rev(2) Let_def by (metis wf_child)
qed (simp add: search_rev)

lemma search_best: "wf_node n \<Longrightarrow> value_of (search n (rev ps)) = best (entries n) ps"
proof (induction ps arbitrary: n)
  case Nil
  then show ?case by (simp add: search_rev value_of_def entries_Nil)
next
  case (Cons p ps)
  define sub where "sub q = (case getChild n q of Some c \<Rightarrow> search c (rev ps) | None \<Rightarrow> None)" for q
  have val: "value_of (sub q) = best (\<lambda>r. entries n (q # r)) ps" for q
    using Cons.IH wf_child [OF Cons.prems]
    by (cases "getChild n q") (auto simp: sub_def value_of_def entries_child)
  have emp: "isEmpty (sub q) \<longleftrightarrow> value_of (sub q) = None" for q
    by (rule isEmpty_value)
      (auto simp: sub_def intro: wf_local search_wf wf_child [OF Cons.prems] split: option.splits)
  have dot: "value_of (getChild n dotWildcard) = entries n [dotWildcard]"
    by (simp add: value_of_def entries_Cons entries_Nil split: option.splits)
  show ?case
    unfolding search_rev(2) Let_def sub_def [symmetric] best.simps val [symmetric] dot [symmetric]
    by (auto simp: emp split: option.splits)
qed

text \<open>When a stored pattern matches a name, both as label lists from the last label on.\<close>

fun pat_matches :: "string list \<Rightarrow> string list \<Rightarrow> bool" where
  "pat_matches [] ds = (ds = [])"
| "pat_matches (p # ps) [] = False"
| "pat_matches (p # ps) (d # ds) =
     (((p = d \<or> p = wildcard) \<and> pat_matches ps ds) \<or> (p = dotWildcard \<and> ps = []))"

fun rank :: "string \<Rightarrow> string \<Rightarrow> nat" where
  "rank p d = (if p = d then 0 else if p = wildcard then 1 else 2)"

text \<open>\<open>prefers p q ds\<close>: for the name \<open>ds\<close> pattern \<open>p\<close> is at least as good as \<open>q\<close>, decided by the
  first label, from the last one of the name, at which they are of different rank.\<close>

fun prefers :: "string list \<Rightarrow> string list \<Rightarrow> string list \<Rightarrow> bool" where
  "prefers (p # ps) (q # qs) (d # ds) =
     (rank p d < rank q d \<or> (rank p d = rank q d \<and> prefers ps qs ds))"
| "prefers _ _ _ = True"

lemma best_sound:
  "best E ds = Some x \<Longrightarrow> \<exists>pat. E pat = Some x \<and> pat_matches pat ds"
proof (induction ds arbitrary: E)
  case Nil
  then show ?case by (intro exI [of _ "[]"]) simp
next
  case (Cons d ds)
  from Cons.prems consider
      "best (\<lambda>q. E (d # q)) ds = Some x" | "best (\<lambda>q. E (wildcard # q)) ds = Some x"
    | "E [dotWildcard] = Some x"
    by (auto split: option.splits)
  then show ?case
  proof cases
    case 1
    from Cons.IH [OF this] obtain pat where "E (d # pat) = Some x" "pat_matches pat ds" by auto
    then show ?thesis by (intro exI [of _ "d # pat"]) simp
  next
    case 2
    from Cons.IH [OF this] obtain pat where "E (wildcard # pat) = Some x" "pat_matches pat ds"
      by auto
    then show ?thesis by (intro exI [of _ "wildcard # pat"]) simp
  next
    case 3
    then show ?thesis by (intro exI [of _ "[dotWildcard]"]) simp
  qed
qed

lemma best_complete:
  assumes "E pat = Some x" "pat_matches pat ds"
  shows "best E ds \<noteq> None"
  using assms
proof (induction pat ds arbitrary: E rule: pat_matches.induct)
  case (3 p ps d ds)
  from "3.prems"(2) consider "p = d" "pat_matches ps ds" | "p = wildcard" "pat_matches ps ds"
    | "p = dotWildcard" "ps = []" by auto
  then show ?case
  proof cases
    case 1
    with "3.IH" [of "\<lambda>q. E (d # q)"] "3.prems" show ?thesis by (auto split: option.splits)
  next
    case 2
    with "3.IH" [of "\<lambda>q. E (wildcard # q)"] "3.prems" show ?thesis
      by (auto split: option.splits)
  next
    case 3
    with "3.prems" show ?thesis by (auto split: option.splits)
  qed
qed auto

lemma best_priority:
  assumes "best E ds = Some x" "[] \<notin> set ds"
  shows "\<exists>pat. E pat = Some x \<and> pat_matches pat ds \<and>
    (\<forall>q y. E q = Some y \<and> pat_matches q ds \<longrightarrow> prefers pat q ds)"
  using assms
proof (induction ds arbitrary: E)
  case Nil
  then show ?case by (intro exI [of _ "[]"]) simp
next
  case (Cons d ds)
  let ?E = "\<lambda>l q. E (l # q)"
  have lift: "\<exists>pat. E pat = Some x \<and> pat_matches pat (d # ds) \<and>
      (\<forall>q y. E q = Some y \<and> pat_matches q (d # ds) \<longrightarrow> prefers pat q (d # ds))"
    if b: "best (?E l) ds = Some x" and l: "l = d \<or> l = wildcard"
      and low: "\<And>p ps y. E (p # ps) = Some y \<Longrightarrow> pat_matches (p # ps) (d # ds) \<Longrightarrow>
        p = l \<and> pat_matches ps ds \<or> rank l d < rank p d" for l
  proof -
    from Cons.IH [OF b] Cons.prems(2) obtain pat where pat: "E (l # pat) = Some x"
      "pat_matches pat ds"
      "\<forall>q y. E (l # q) = Some y \<and> pat_matches q ds \<longrightarrow> prefers pat q ds" by auto
    have "prefers (l # pat) q (d # ds)" if "E q = Some y" "pat_matches q (d # ds)" for q y
    proof (cases q)
      case Nil
      then show ?thesis by simp
    next
      case (Cons p ps)
      with that low [of p ps y] have "p = l \<and> pat_matches ps ds \<or> rank l d < rank p d" by blast
      with that(1) Cons pat(3) show ?thesis by (auto simp del: rank.simps)
    qed
    with pat l show ?thesis by (intro exI [of _ "l # pat"]) auto
  qed
  have none: "\<not> pat_matches ps ds" if "best (?E l) ds = None" "E (l # ps) = Some y" for l ps y
    using best_complete [of "?E l" ps y ds] that by auto
  from Cons.prems(2) have d: "d \<noteq> []" by auto
  show ?case
  proof (cases "best (?E d) ds")
    case (Some z)
    with Cons.prems(1) have "best (?E d) ds = Some x" by simp
    then show ?thesis by (rule lift) (use d in \<open>auto simp: dotWildcard_def\<close>)
  next
    case None
    show ?thesis
    proof (cases "best (?E wildcard) ds")
      case (Some z)
      with Cons.prems(1) \<open>best (?E d) ds = None\<close> have b: "best (?E wildcard) ds = Some x" by simp
      show ?thesis
        by (rule lift [OF b])
          (use none [OF None] d in \<open>auto simp: dotWildcard_def wildcard_def split: if_splits\<close>)
    next
      case w: None
      with Cons.prems(1) None have x: "E [dotWildcard] = Some x" by simp
      have "prefers [dotWildcard] q (d # ds)"
        if "E q = Some y" "pat_matches q (d # ds)" for q y
        using that none [OF None] none [OF w] d
        by (cases q) (auto simp: dotWildcard_def wildcard_def)
      with x show ?thesis by (intro exI [of _ "[dotWildcard]"]) simp
    qed
  qed
qed

section \<open>What the operations promise\<close>

lemma ValidAndSplit_props:
  assumes "ValidAndSplitDomain s = Some parts"
  shows "parts = Split (CHR ''.'') (ToLower s)" "parts \<noteq> []" "[] \<notin> set (tl parts)"
proof -
  have one: "tl xs = []" if "length xs = 1" for xs :: "string list"
    using that by (cases xs) auto
  show "parts = Split (CHR ''.'') (ToLower s)" "parts \<noteq> []" "[] \<notin> set (tl parts)"
    using assms one [of parts]
    by (auto simp: ValidAndSplitDomain_def Let_def list_ex_iff split: if_splits)
qed

lemma wf_New: "wf_node (root New)" and entries_New: "entries (root New) = (\<lambda>_. None)"
  by (simp_all add: New_def)

definition patterns_of :: "string list \<Rightarrow> string list list" where
  "patterns_of parts =
     (if hd parts = complexWildcard then [rev (tl parts), rev (dotWildcard # tl parts)]
      else [rev parts])"

lemma Insert_wf: "wf_node (root t) \<Longrightarrow> Insert s d t = Inr t' \<Longrightarrow> wf_node (root t')"
  by (auto simp: Insert_def insert_parts_def wf_insertLoop split: option.splits if_splits)

lemma Insert_entries:
  assumes "ValidAndSplitDomain s = Some parts"
  shows "\<exists>t'. Insert s d t = Inr t' \<and>
    entries (root t') = (\<lambda>p. if p \<in> set (patterns_of parts) then Some d else entries (root t) p)"
  using assms
  by (auto simp: Insert_def insert_parts_def entries_insertLoop patterns_of_def fun_eq_iff)

lemma Search_best:
  assumes "wf_node (root t)" "ValidAndSplitDomain s = Some parts" "hd parts \<noteq> []"
  shows "value_of (Search s t) = best (entries (root t)) (rev parts)"
    "Search s t = None \<longleftrightarrow> best (entries (root t)) (rev parts) = None"
proof -
  have e: "isEmpty (search (root t) parts) \<longleftrightarrow> value_of (search (root t) parts) = None"
    by (rule isEmpty_value) (metis assms(1) rev_rev_ident search_wf wf_local)
  have b: "value_of (search (root t) parts) = best (entries (root t)) (rev parts)"
    using search_best [OF assms(1), of "rev parts"] by simp
  show "value_of (Search s t) = best (entries (root t)) (rev parts)"
    using assms b e by (auto simp: Search_def Let_def value_of_def split: option.splits)
  show "Search s t = None \<longleftrightarrow> best (entries (root t)) (rev parts) = None"
    using assms b e by (auto simp: Search_def Let_def isEmpty_def split: option.splits)
qed

text \<open>A trie built by inserting a list of names, the invalid ones being refused.\<close>

fun insert_all :: "(string \<times> 'a) list \<Rightarrow> 'a DomainTrie \<Rightarrow> 'a DomainTrie" where
  "insert_all [] t = t"
| "insert_all ((s, d) # xs) t =
     insert_all xs (case Insert s d t of Inl _ \<Rightarrow> t | Inr t' \<Rightarrow> t')"

text \<open>What the comment of \<open>Insert\<close> says of the forms of a pattern: \<^verbatim>\<open>+.\<close> stands for the name itself
  and everything below it, a leading dot for everything below, \<^verbatim>\<open>*\<close> for one label.\<close>

definition labels_match :: "string list \<Rightarrow> string list \<Rightarrow> bool" where
  "labels_match ps ds = list_all2 (\<lambda>p d. p = d \<or> p = wildcard) ps ds"

definition name_matches :: "string list \<Rightarrow> string list \<Rightarrow> bool" where
  "name_matches pat ds =
     (if hd pat = complexWildcard
      then length (tl pat) \<le> length ds \<and> labels_match (tl pat) (drop (length ds - length (tl pat)) ds)
      else if hd pat = dotWildcard
      then length (tl pat) < length ds \<and> labels_match (tl pat) (drop (length ds - length (tl pat)) ds)
      else labels_match pat ds)"

lemma pat_matches_plain:
  "[] \<notin> set ps \<Longrightarrow> pat_matches ps ds = list_all2 (\<lambda>p d. p = d \<or> p = wildcard) ps ds"
  by (induction ps ds rule: pat_matches.induct) (auto simp: dotWildcard_def)

lemma pat_matches_below:
  "[] \<notin> set ps \<Longrightarrow> [] \<notin> set ds \<Longrightarrow> pat_matches (ps @ [dotWildcard]) ds =
     (length ps < length ds \<and> list_all2 (\<lambda>p d. p = d \<or> p = wildcard) ps (take (length ps) ds))"
proof (induction ps ds rule: pat_matches.induct)
  case (1 ds)
  then show ?case by (cases ds) (auto simp: dotWildcard_def wildcard_def)
qed (auto simp: dotWildcard_def wildcard_def)

lemma pat_matches_name:
  assumes "ps \<noteq> []" "[] \<notin> set (tl ps)" "[] \<notin> set ds"
  shows "(\<exists>q \<in> set (patterns_of ps). pat_matches q (rev ds)) \<longleftrightarrow> name_matches ps ds"
proof -
  let ?R = "\<lambda>p d. p = d \<or> p = wildcard"
  let ?k = "length ds - length (tl ps)"
  have full: "pat_matches (rev qs) (rev ds) = labels_match qs ds" if "[] \<notin> set qs" for qs
    using that by (simp add: pat_matches_plain labels_match_def list_all2_rev)
  have below: "pat_matches (rev (dotWildcard # tl ps)) (rev ds) \<longleftrightarrow>
      length (tl ps) < length ds \<and> labels_match (tl ps) (drop ?k ds)"
    using assms list_all2_rev [of ?R "tl ps" "drop ?k ds"]
    by (simp add: pat_matches_below labels_match_def take_rev)
  show ?thesis
  proof (cases "hd ps = complexWildcard \<or> hd ps = dotWildcard")
    case True
    have "labels_match (tl ps) (drop ?k ds)" if "labels_match (tl ps) ds"
      using that list_all2_lengthD [of ?R "tl ps" ds] by (simp add: labels_match_def)
    moreover have "length (tl ps) \<le> length ds" if "labels_match (tl ps) ds"
      using that by (auto simp: labels_match_def dest: list_all2_lengthD)
    moreover have "labels_match (tl ps) ds"
      if "labels_match (tl ps) (drop ?k ds)" "length (tl ps) = length ds"
      using that by simp
    moreover have "complexWildcard \<noteq> dotWildcard" by (simp add: complexWildcard_def dotWildcard_def)
    moreover have "rev ps = rev (dotWildcard # tl ps)" if "hd ps = dotWildcard"
      using that assms(1) by (cases ps) auto
    ultimately show ?thesis
      using True below full [OF assms(2)]
      by (auto simp: patterns_of_def name_matches_def le_less simp del: rev.simps)
  next
    case False
    then have "[] \<notin> set ps" using assms by (cases ps) (auto simp: dotWildcard_def)
    with False full show ?thesis by (auto simp: patterns_of_def name_matches_def)
  qed
qed

lemma insert_all_inv:
  assumes "wf_node (root t)"
  shows "wf_node (root (insert_all xs t))"
    "entries (root (insert_all xs t)) q \<noteq> None \<longleftrightarrow> entries (root t) q \<noteq> None \<or>
      (\<exists>(s, d) \<in> set xs. \<exists>ps. ValidAndSplitDomain s = Some ps \<and> q \<in> set (patterns_of ps))"
  using assms
proof (induction xs arbitrary: t)
  case (Cons x xs)
  obtain s d where x: "x = (s, d)" by (cases x)
  {
    case 1
    with Cons.IH(1) show ?case by (auto simp: x Insert_wf split: sum.splits)
  next
    case 2
    show ?case
    proof (cases "ValidAndSplitDomain s")
      case None
      with 2 Cons.IH(2) [of t] show ?thesis by (auto simp: x Insert_def)
    next
      case (Some ps)
      from Insert_entries [OF Some, of d t] obtain t' where t': "Insert s d t = Inr t'"
        "entries (root t') = (\<lambda>p. if p \<in> set (patterns_of ps) then Some d else entries (root t) p)"
        by blast
      with 2 Cons.IH(2) [of t'] Some show ?thesis by (auto simp: x Insert_wf)
    qed
  }
qed simp_all

text \<open>C3: a name is found in a trie exactly when one of the names inserted into it matches it,
  for patterns of every form: plain, with \<^verbatim>\<open>*\<close> labels, with a leading dot, with a
  leading \<^verbatim>\<open>+.\<close> (the invalid ones were refused by \<open>Insert\<close> and match nothing).\<close>

theorem domain_trie_search:
  assumes "ValidAndSplitDomain name = Some ds" "hd ds \<noteq> []"
  shows "Search name (insert_all xs New) \<noteq> None \<longleftrightarrow>
    (\<exists>(s, d) \<in> set xs. \<exists>ps. ValidAndSplitDomain s = Some ps \<and> name_matches ps ds)"
proof -
  let ?t = "insert_all xs New"
  note inv = insert_all_inv [of New xs, OF wf_New]
  have ne: "[] \<notin> set ds"
    using ValidAndSplit_props(2,3) [OF assms(1)] assms(2) by (cases ds) auto
  have m: "(\<exists>q \<in> set (patterns_of ps). pat_matches q (rev ds)) \<longleftrightarrow> name_matches ps ds"
    if "ValidAndSplitDomain s = Some ps" for s ps
    using pat_matches_name [of ps ds] ValidAndSplit_props [OF that] ne by simp
  have "Search name ?t \<noteq> None \<longleftrightarrow> best (entries (root ?t)) (rev ds) \<noteq> None"
    using Search_best(2) [OF inv(1) assms] by simp
  also have "\<dots> \<longleftrightarrow> (\<exists>q. entries (root ?t) q \<noteq> None \<and> pat_matches q (rev ds))"
    using best_sound best_complete by fast
  also have "\<dots> \<longleftrightarrow> (\<exists>(s, d) \<in> set xs. \<exists>ps. ValidAndSplitDomain s = Some ps \<and>
      (\<exists>q \<in> set (patterns_of ps). pat_matches q (rev ds)))"
    unfolding inv(2) entries_New by fast
  also have "\<dots> \<longleftrightarrow> (\<exists>(s, d) \<in> set xs. \<exists>ps. ValidAndSplitDomain s = Some ps \<and> name_matches ps ds)"
    by (intro bex_cong refl) (simp add: m case_prod_beta cong: conj_cong)
  finally show ?thesis .
qed

lemma domain_trie_search_witness:
  "Search ''www.Google.com'' (insert_all [(''+.google.com'', 1 :: nat), (''*.x.org'', 2)] New) \<noteq> None
   \<longleftrightarrow> (\<exists>(s, d) \<in> set [(''+.google.com'', 1 :: nat), (''*.x.org'', 2)]. \<exists>ps.
     ValidAndSplitDomain s = Some ps \<and> name_matches ps [''www'', ''google'', ''com''])"
  by (rule domain_trie_search) code_simp+

text \<open>The search result has the best priority: it is the data of a stored pattern that matches
  the name, and no stored pattern that matches wins against it at the first label, from the right,
  where they differ in kind (exact label before \<^verbatim>\<open>*\<close> before a dot wildcard).\<close>

theorem domain_trie_priority:
  assumes "wf_node (root t)" "ValidAndSplitDomain name = Some ds" "hd ds \<noteq> []"
    "Search name t = Some n"
  shows "\<exists>pat. entries (root t) pat = data n \<and> data n \<noteq> None \<and> pat_matches pat (rev ds) \<and>
    (\<forall>q y. entries (root t) q = Some y \<and> pat_matches q (rev ds) \<longrightarrow> prefers pat q (rev ds))"
proof -
  have ne: "[] \<notin> set (rev ds)"
    using ValidAndSplit_props(2,3) [OF assms(2)] assms(3) by (cases ds) auto
  obtain x where x: "best (entries (root t)) (rev ds) = Some x"
    using Search_best(2) [OF assms(1-3)] assms(4) by auto
  with Search_best(1) [OF assms(1-3)] assms(4) have "data n = Some x"
    by (auto simp: value_of_def split: if_splits)
  with best_priority [OF x ne] show ?thesis by auto
qed

lemma domain_trie_priority_witness:
  "\<exists>n. Search ''a.x.org'' (insert_all [(''+.x.org'', 1 :: nat), (''*.x.org'', 2)] New) = Some n \<and>
    data n = Some 2 \<and> (\<exists>pat. pat_matches pat [''org'', ''x'', ''a''] \<and>
      prefers pat [''org'', ''x'', []] [''org'', ''x'', ''a''])"
proof -
  let ?t = "insert_all [(''+.x.org'', 1 :: nat), (''*.x.org'', 2)] New"
  have s: "Option.bind (Search ''a.x.org'' ?t) data = Some 2" by code_simp
  then obtain n where n: "Search ''a.x.org'' ?t = Some n" "data n = Some 2"
    by (cases "Search ''a.x.org'' ?t") auto
  have v: "ValidAndSplitDomain ''a.x.org'' = Some [''a'', ''x'', ''org'']" by code_simp
  have e: "entries (root ?t) [''org'', ''x'', []] = Some 1"
    "pat_matches [''org'', ''x'', []] [''org'', ''x'', ''a'']" by code_simp+
  have "wf_node (root ?t)" by (rule insert_all_inv(1) [OF wf_New])
  from domain_trie_priority [OF this v _ n(1)] e n show ?thesis by auto
qed

section \<open>Optimize and Foreach\<close>

lemma strClone_id [simp]: "strClone k = k"
  by (simp add: strClone_def)

declare optimize.simps [simp del]

lemma map_of_map_snd: "map_of (map (\<lambda>(k, c). (k, f c)) m) s = map_option f (map_of m s)"
  by (induction m) auto

lemma optimize_one: "optimize (Node (Some [(k, c)]) cn s i d) = Node None (Some (optimize c)) k i d"
  by (subst optimize.simps, simp add: Let_def, subst optimize.simps, simp add: Let_def)

lemma optimize_many:
  "length m \<noteq> 1 \<Longrightarrow> optimize (Node (Some m) cn s i d) =
     Node (if m = [] then None else Some (map (\<lambda>(k, c). (k, optimize c)) m))
       (map_option optimize cn) s i d"
  by (subst optimize.simps) (auto simp: Let_def split: list.splits)

lemma optimize_nil_map:
  "optimize (Node None cn s i d) = Node None (map_option optimize cn) s i d"
  by (subst optimize.simps) (simp add: Let_def)

lemma Node_cases_map:
  obtains cn s i d where "n = Node None cn s i d"
  | k c cn s i d where "n = Node (Some [(k, c)]) cn s i d"
  | m cn s i d where "n = Node (Some m) cn s i d" "length m \<noteq> 1"
proof (cases n)
  case (Node cm cn s i d)
  show ?thesis
  proof (cases cm)
    case None
    with Node that(1) show ?thesis by blast
  next
    case (Some m)
    show ?thesis
    proof (cases "length m = 1")
      case True
      then obtain k c where "m = [(k, c)]" by (cases m) auto
      with Node Some that(2) show ?thesis by blast
    qed (use Node Some that(3) in blast)
  qed
qed

lemma optimize_fields [simp]: "inited (optimize n) = inited n" "data (optimize n) = data n"
  by (cases n rule: Node_cases_map; simp add: optimize_one optimize_many optimize_nil_map)+

lemma getChild_optimize:
  "local_ok n \<Longrightarrow> getChild (optimize n) s = map_option optimize (getChild n s)"
  by (cases n rule: Node_cases_map)
    (auto simp: optimize_one optimize_many optimize_nil_map getChild_def local_ok_def map_of_map_snd)

lemma local_ok_optimize: "local_ok n \<Longrightarrow> local_ok (optimize n)"
  by (cases n rule: Node_cases_map)
    (auto simp: optimize_one optimize_many optimize_nil_map local_ok_def o_def case_prod_beta)

lemma walk_optimize: "wf_node n \<Longrightarrow> walk (optimize n) ps = map_option optimize (walk n ps)"
proof (induction ps arbitrary: n)
  case (Cons p ps)
  then show ?case
    using getChild_optimize [OF wf_local [OF Cons.prems], of p] wf_child [OF Cons.prems]
    by (auto split: option.splits)
qed simp

lemma wf_optimize: "wf_node n \<Longrightarrow> wf_node (optimize n)"
  by (auto simp: wf_node_def walk_optimize local_ok_optimize)

lemma entries_optimize: "wf_node n \<Longrightarrow> entries (optimize n) = entries n"
  by (auto simp: entries_def walk_optimize fun_eq_iff split: option.splits)

text \<open>\<open>Optimize\<close> only changes the representation of the children (a map of one child becomes the
  single-child fields, an empty map a nil map): every name finds the same data afterwards, and the
  trie may be inserted into and optimized again.\<close>

theorem domain_trie_optimize:
  assumes "wf_node (root t)"
  shows "wf_node (root (Optimize t)) \<and> value_of (Search s (Optimize t)) = value_of (Search s t) \<and>
    (Search s (Optimize t) = None \<longleftrightarrow> Search s t = None)"
proof -
  have w: "wf_node (root (Optimize t))" and e: "entries (root (Optimize t)) = entries (root t)"
    using assms by (simp_all add: Optimize_def wf_optimize entries_optimize)
  show ?thesis
  proof (cases "\<exists>ds. ValidAndSplitDomain s = Some ds \<and> hd ds \<noteq> []")
    case True
    then obtain ds where "ValidAndSplitDomain s = Some ds" "hd ds \<noteq> []" by blast
    with Search_best [OF w this] Search_best [OF assms this] w e show ?thesis by simp
  next
    case False
    with w show ?thesis by (auto simp: Search_def split: option.splits)
  qed
qed

lemma domain_trie_optimize_witness:
  "value_of (Search ''a.x.org'' (Optimize (insert_all [(''+.x.org'', 1 :: nat), (''*.y.org'', 2)] New))) = Some 1"
  (is "value_of (Search ?s (Optimize ?t)) = _")
proof -
  have "wf_node (root ?t)" by (rule insert_all_inv(1) [OF wf_New])
  from domain_trie_optimize [OF this, of ?s]
  have e: "value_of (Search ?s (Optimize ?t)) = value_of (Search ?s ?t)" by blast
  show ?thesis unfolding e by code_simp
qed

text \<open>How \<open>Foreach\<close> shows the label path \<open>ps\<close> (last label first).\<close>

definition shown :: "string list \<Rightarrow> string" where
  "shown items =
     (case joinDomain items of
        ch # r \<Rightarrow> if ch = CHR ''.'' \<and> length items > 1 then complexWildcard @ ch # r else ch # r
      | [] \<Rightarrow> [])"

lemma getChildren_iff: "local_ok n \<Longrightarrow> (k, c) \<in> set (getChildren n) \<longleftrightarrow> getChild n k = Some c"
  by (auto simp: getChildren_def getChild_def local_ok_def split: option.splits)

lemma in_concat_map_pairs:
  "x \<in> set (concat (map (\<lambda>(k, c). f k c) m)) \<longleftrightarrow> (\<exists>k c. (k, c) \<in> set m \<and> x \<in> set (f k c))"
  by force

lemma ex_path_split:
  "(\<exists>ps m. walk c ps = Some m \<and> Q ps m) \<longleftrightarrow>
     Q [] c \<or> (\<exists>ps m. ps \<noteq> [] \<and> walk c ps = Some m \<and> Q ps m)"
proof
  assume "\<exists>ps m. walk c ps = Some m \<and> Q ps m"
  then obtain ps m where "walk c ps = Some m" "Q ps m" by blast
  then show "Q [] c \<or> (\<exists>ps m. ps \<noteq> [] \<and> walk c ps = Some m \<and> Q ps m)"
    by (cases "ps = []") auto
next
  assume "Q [] c \<or> (\<exists>ps m. ps \<noteq> [] \<and> walk c ps = Some m \<and> Q ps m)"
  then show "\<exists>ps m. walk c ps = Some m \<and> Q ps m"
    using walk.simps(1) [of c] by blast
qed

lemma recursion_iff:
  "wf_node n \<Longrightarrow> items \<noteq> [] \<Longrightarrow> x \<in> set (recursion items n) \<longleftrightarrow>
     (\<exists>ps m. ps \<noteq> [] \<and> walk n ps = Some m \<and> inited m \<and> x = (shown (rev ps @ items), data m))"
proof (induction items n rule: recursion.induct)
  case (1 items n)
  have IH: "x \<in> set (recursion (k # items) c) \<longleftrightarrow>
     (\<exists>ps m. ps \<noteq> [] \<and> walk c ps = Some m \<and> inited m \<and> x = (shown (rev ps @ k # items), data m))"
    if "getChild n k = Some c" for k c
  proof -
    have "(k, c) \<in> set (getChildren n)" "wf_node c"
      using that "1.prems"(1) wf_local wf_child getChildren_iff by blast+
    then show ?thesis by (intro "1.IH" [OF _ refl refl refl refl]) auto
  qed
  have sh: "(case joinDomain (k # items) of [] \<Rightarrow> joinDomain (k # items)
      | ch # _ \<Rightarrow> if ch = CHR ''.'' then complexWildcard @ joinDomain (k # items)
                 else joinDomain (k # items)) = shown (k # items)" for k
    using "1.prems"(2) by (auto simp: shown_def split: list.splits)
  have "x \<in> set (recursion items n) \<longleftrightarrow> (\<exists>k c. getChild n k = Some c \<and>
      (inited c \<and> x = (shown (k # items), data c) \<or> x \<in> set (recursion (k # items) c)))"
    unfolding recursion.simps [of items n] in_concat_map_pairs Let_def sh
      getChildren_iff [OF wf_local [OF "1.prems"(1)]] by auto
  also have "\<dots> \<longleftrightarrow> (\<exists>k c. getChild n k = Some c \<and>
      (\<exists>ps m. walk c ps = Some m \<and> inited m \<and> x = (shown (rev ps @ k # items), data m)))"
  proof (rule iff_exI, rule iff_exI)
    fix k c
    show "(getChild n k = Some c \<and> (inited c \<and> x = (shown (k # items), data c) \<or>
        x \<in> set (recursion (k # items) c))) \<longleftrightarrow> (getChild n k = Some c \<and>
      (\<exists>ps m. walk c ps = Some m \<and> inited m \<and> x = (shown (rev ps @ k # items), data m)))"
      using ex_path_split [of c "\<lambda>ps m. inited m \<and> x = (shown (rev ps @ k # items), data m)"]
        IH [of k c] by auto
  qed
  also have "\<dots> \<longleftrightarrow> (\<exists>ps m. ps \<noteq> [] \<and> walk n ps = Some m \<and> inited m \<and>
      x = (shown (rev ps @ items), data m))"
  proof
    assume "\<exists>k c. getChild n k = Some c \<and>
      (\<exists>ps m. walk c ps = Some m \<and> inited m \<and> x = (shown (rev ps @ k # items), data m))"
    then obtain k c ps m where "getChild n k = Some c" "walk c ps = Some m" "inited m"
      "x = (shown (rev ps @ k # items), data m)" by blast
    then show "\<exists>ps m. ps \<noteq> [] \<and> walk n ps = Some m \<and> inited m \<and>
        x = (shown (rev ps @ items), data m)"
      by (intro exI [of _ "k # ps"] exI [of _ m]) simp
  next
    assume "\<exists>ps m. ps \<noteq> [] \<and> walk n ps = Some m \<and> inited m \<and>
      x = (shown (rev ps @ items), data m)"
    then obtain k ps m where "walk n (k # ps) = Some m" "inited m"
      "x = (shown (rev (k # ps) @ items), data m)" by (auto simp: neq_Nil_conv)
    then show "\<exists>k c. getChild n k = Some c \<and>
      (\<exists>ps m. walk c ps = Some m \<and> inited m \<and> x = (shown (rev ps @ k # items), data m))"
      by (auto split: option.splits)
  qed
  finally show ?case .
qed

lemma entries_walk:
  "wf_node n \<Longrightarrow> (\<exists>m. walk n ps = Some m \<and> inited m \<and> x = (s, data m)) \<longleftrightarrow>
     (\<exists>d. entries n ps = Some d \<and> x = (s, Some d))"
proof (cases "walk n ps")
  case (Some m)
  assume "wf_node n"
  with Some have "inited m \<longleftrightarrow> data m \<noteq> None" by (auto simp: wf_node_def local_ok_def)
  with Some show ?thesis by (cases "inited m") (auto simp: entries_def)
qed (simp add: entries_def)

text \<open>\<open>Foreach\<close> calls back for exactly the stored patterns below the root, with their data.\<close>

theorem domain_trie_foreach:
  assumes "wf_node (root t)"
  shows "x \<in> set (Foreach t) \<longleftrightarrow>
    (\<exists>ps d. ps \<noteq> [] \<and> entries (root t) ps = Some d \<and> x = (shown (rev ps), Some d))"
proof -
  note wf = wf_local [OF assms] wf_child [OF assms]
  have one: "joinDomain [k] = shown [k]" for k
    by (auto simp: shown_def joinDomain_def split: list.splits)
  have "x \<in> set (Foreach t) \<longleftrightarrow> (\<exists>k c. getChild (root t) k = Some c \<and>
      (x \<in> set (recursion [k] c) \<or> inited c \<and> x = (shown [k], data c)))"
    unfolding Foreach_def in_concat_map_pairs one getChildren_iff [OF wf(1)] by auto
  also have "\<dots> \<longleftrightarrow> (\<exists>k c ps m. getChild (root t) k = Some c \<and> walk c ps = Some m \<and> inited m \<and>
      x = (shown (rev ps @ [k]), data m))"
  proof (rule iff_exI, rule iff_exI)
    fix k c
    show "(getChild (root t) k = Some c \<and> (x \<in> set (recursion [k] c) \<or> inited c \<and> x = (shown [k], data c)))
      \<longleftrightarrow> (\<exists>ps m. getChild (root t) k = Some c \<and> walk c ps = Some m \<and> inited m \<and>
        x = (shown (rev ps @ [k]), data m))"
      using ex_path_split [of c "\<lambda>ps m. inited m \<and> x = (shown (rev ps @ [k]), data m)"]
        recursion_iff [OF wf(2), of k c "[k]" x] by auto
  qed
  also have "\<dots> \<longleftrightarrow> (\<exists>ps m. ps \<noteq> [] \<and> walk (root t) ps = Some m \<and> inited m \<and>
      x = (shown (rev ps), data m))"
  proof
    assume "\<exists>k c ps m. getChild (root t) k = Some c \<and> walk c ps = Some m \<and> inited m \<and>
      x = (shown (rev ps @ [k]), data m)"
    then obtain k c ps m where "getChild (root t) k = Some c" "walk c ps = Some m" "inited m"
      "x = (shown (rev ps @ [k]), data m)" by blast
    then show "\<exists>ps m. ps \<noteq> [] \<and> walk (root t) ps = Some m \<and> inited m \<and> x = (shown (rev ps), data m)"
      by (intro exI [of _ "k # ps"] exI [of _ m]) simp
  next
    assume "\<exists>ps m. ps \<noteq> [] \<and> walk (root t) ps = Some m \<and> inited m \<and> x = (shown (rev ps), data m)"
    then obtain k ps m where "walk (root t) (k # ps) = Some m" "inited m"
      "x = (shown (rev (k # ps)), data m)" by (auto simp: neq_Nil_conv)
    then show "\<exists>k c ps m. getChild (root t) k = Some c \<and> walk c ps = Some m \<and> inited m \<and>
      x = (shown (rev ps @ [k]), data m)"
      by (auto split: option.splits)
  qed
  also have "\<dots> \<longleftrightarrow> (\<exists>ps d. ps \<noteq> [] \<and> entries (root t) ps = Some d \<and> x = (shown (rev ps), Some d))"
  proof (rule iff_exI)
    fix ps
    show "(\<exists>m. ps \<noteq> [] \<and> walk (root t) ps = Some m \<and> inited m \<and> x = (shown (rev ps), data m)) \<longleftrightarrow>
      (\<exists>d. ps \<noteq> [] \<and> entries (root t) ps = Some d \<and> x = (shown (rev ps), Some d))"
      using entries_walk [OF assms, of ps x "shown (rev ps)"] by (cases "ps = []") simp_all
  qed
  finally show ?thesis .
qed

lemma domain_trie_foreach_witness:
  "(''+.x.org'', Some 1) \<in> set (Foreach (insert_all [(''.x.org'', 1 :: nat)] New)) \<longleftrightarrow>
   (\<exists>ps d. ps \<noteq> [] \<and> entries (root (insert_all [(''.x.org'', 1 :: nat)] New)) ps = Some d \<and>
     (''+.x.org'', Some (1 :: nat)) = (shown (rev ps), Some d))"
  by (rule domain_trie_foreach [OF insert_all_inv(1) [OF wf_New]])

end
