(* ===== verification/FakeIP.thy ===== *)
theory FakeIP imports LruCache CacheFile DomainTrie begin

text \<open>
  \<^verbatim>\<open>component/fakeip\<close>: the pool that hands out fake addresses for host names, over a store that is
  either two LRU caches in memory or the cache file.

  The Go interface \<^verbatim>\<open>store\<close> is a record of its methods; the contract the pool relies on is the
  locale \<open>fakeip_store\<close>. The pool's mutex is not modelled: every method holds it from start to
  end. \<open>None\<close> is a run-time panic.
\<close>

section \<open>The store interface (pool.go)\<close>

record 's store_if =
  GetByHost :: "string \<Rightarrow> 's \<Rightarrow> ('s \<times> Addr option) option"
  PutByHost :: "string \<Rightarrow> Addr \<Rightarrow> 's \<Rightarrow> 's option"
  GetByIP :: "Addr \<Rightarrow> 's \<Rightarrow> ('s \<times> string option) option"
  PutByIP :: "Addr \<Rightarrow> string \<Rightarrow> 's \<Rightarrow> 's option"
  DelByIP :: "Addr \<Rightarrow> 's \<Rightarrow> 's option"
  ExistIP :: "Addr \<Rightarrow> 's \<Rightarrow> bool"
  FlushStore :: "'s \<Rightarrow> ('s \<times> bool) option"   \<comment> \<open>the flag: the error is nil\<close>
  is_cachefile :: bool                       \<comment> \<open>the type assertion \<^verbatim>\<open>p.store.(*cachefileStore)\<close>\<close>

section \<open>memory.go\<close>

record memoryStore =
  cacheIP :: "string LruCache"
  cacheHost :: "Addr LruCache"

record mem_heap =
  hIP :: "(string, Addr) lru_heap"
  hHost :: "(Addr, string) lru_heap"

type_synonym mem_state = "memoryStore \<times> mem_heap"

text \<open>A step on one of the two caches.\<close>

definition on_IP :: "((string, Addr) lru_state \<Rightarrow> ((string, Addr) lru_state \<times> 'r) option) \<Rightarrow>
    mem_state \<Rightarrow> (mem_state \<times> 'r) option" where
  "on_IP f = (\<lambda>(m, h). do {
     ((c, hp), r) \<leftarrow> f (cacheIP m, hIP h);
     Some ((m\<lparr>cacheIP := c\<rparr>, h\<lparr>hIP := hp\<rparr>), r) })"

definition on_Host :: "((Addr, string) lru_state \<Rightarrow> ((Addr, string) lru_state \<times> 'r) option) \<Rightarrow>
    mem_state \<Rightarrow> (mem_state \<times> 'r) option" where
  "on_Host f = (\<lambda>(m, h). do {
     ((c, hp), r) \<leftarrow> f (cacheHost m, hHost h);
     Some ((m\<lparr>cacheHost := c\<rparr>, h\<lparr>hHost := hp\<rparr>), r) })"

definition no_result :: "('s \<Rightarrow> 's option) \<Rightarrow> 's \<Rightarrow> ('s \<times> unit) option" where
  "no_result f s = map_option (\<lambda>s'. (s', ())) (f s)"

definition mem_GetByHost :: "int \<Rightarrow> string \<Rightarrow> mem_state \<Rightarrow> (mem_state \<times> Addr option) option" where
  "mem_GetByHost now host s = do {
     (s, r) \<leftarrow> on_IP (lru_Get now host) s;
     case r of
       Some ip \<Rightarrow> do { (s, _) \<leftarrow> on_Host (lru_Get now ip) s; Some (s, Some ip) }
     | None \<Rightarrow> Some (s, None) }"

definition mem_PutByHost :: "int \<Rightarrow> string \<Rightarrow> Addr \<Rightarrow> mem_state \<Rightarrow> mem_state option" where
  "mem_PutByHost now host ip s = do { (s, _) \<leftarrow> on_IP (no_result (lru_Set now host ip)) s; Some s }"

definition mem_GetByIP :: "int \<Rightarrow> Addr \<Rightarrow> mem_state \<Rightarrow> (mem_state \<times> string option) option" where
  "mem_GetByIP now ip s = do {
     (s, r) \<leftarrow> on_Host (lru_Get now ip) s;
     case r of
       Some host \<Rightarrow> do { (s, _) \<leftarrow> on_IP (lru_Get now host) s; Some (s, Some host) }
     | None \<Rightarrow> Some (s, None) }"

definition mem_PutByIP :: "int \<Rightarrow> Addr \<Rightarrow> string \<Rightarrow> mem_state \<Rightarrow> mem_state option" where
  "mem_PutByIP now ip host s = do { (s, _) \<leftarrow> on_Host (no_result (lru_Set now ip host)) s; Some s }"

definition mem_DelByIP :: "int \<Rightarrow> Addr \<Rightarrow> mem_state \<Rightarrow> mem_state option" where
  "mem_DelByIP now ip s = do {
     (s, r) \<leftarrow> on_Host (lru_Get now ip) s;
     s \<leftarrow> (case r of
             Some host \<Rightarrow> do { (s, _) \<leftarrow> on_IP (no_result (lru_Delete host)) s; Some s }
           | None \<Rightarrow> Some s);
     (s, _) \<leftarrow> on_Host (no_result (lru_Delete ip)) s;
     Some s }"

definition mem_Exist :: "Addr \<Rightarrow> mem_state \<Rightarrow> bool" where
  "mem_Exist ip s = lru_Exist ip (cacheHost (fst s), hHost (snd s))"

text \<open>Both stores share the heap afterwards: \<^verbatim>\<open>CloneTo\<close> copies pointers to the entries.\<close>

definition mem_CloneTo :: "memoryStore \<Rightarrow> memoryStore \<Rightarrow> mem_heap \<Rightarrow> (memoryStore \<times> mem_heap) option" where
  "mem_CloneTo m ms h = do {
     (c1, h1) \<leftarrow> CloneTo (cacheIP m) (cacheIP ms) (hIP h);
     (c2, h2) \<leftarrow> CloneTo (cacheHost m) (cacheHost ms) (hHost h);
     Some (\<lparr>cacheIP = c1, cacheHost = c2\<rparr>, \<lparr>hIP = h1, hHost = h2\<rparr>) }"

definition mem_FlushFakeIP :: "mem_state \<Rightarrow> (mem_state \<times> bool) option" where
  "mem_FlushFakeIP = (\<lambda>(m, h).
     let (c1, h1) = lru_Clear (cacheIP m, hIP h);
         (c2, h2) = lru_Clear (cacheHost m, hHost h)
     in Some ((\<lparr>cacheIP = c1, cacheHost = c2\<rparr>, \<lparr>hIP = h1, hHost = h2\<rparr>), True))"

definition newMemoryStore :: "int \<Rightarrow> mem_heap \<Rightarrow> mem_state" where
  "newMemoryStore n h =
     (let (c1, h1) = NewLru [WithSize n] (hIP h);
          (c2, h2) = NewLru [WithSize n] (hHost h)
      in (\<lparr>cacheIP = c1, cacheHost = c2\<rparr>, \<lparr>hIP = h1, hHost = h2\<rparr>))"

definition mem_ops :: "int \<Rightarrow> mem_state store_if" where
  "mem_ops now = \<lparr>
     GetByHost = mem_GetByHost now, PutByHost = mem_PutByHost now, GetByIP = mem_GetByIP now,
     PutByIP = mem_PutByIP now, DelByIP = mem_DelByIP now, ExistIP = mem_Exist,
     FlushStore = mem_FlushFakeIP, is_cachefile = False\<rparr>"

section \<open>cachefile.go\<close>

text \<open>The conversion of a slice to an array pointer panics when the slice is shorter.\<close>

definition cf_GetByHost :: "'d bolt \<Rightarrow> string \<Rightarrow> 'd CacheFile \<Rightarrow> ('d CacheFile \<times> Addr option) option" where
  "cf_GetByHost B host c =
     (case GetFakeip B (to_bytes host) c of
        None \<Rightarrow> Some (c, None)
      | Some elm \<Rightarrow>
          if length elm = 4 then Some (c, Some (V4 (word_of_bytes elm)))
          else if length elm < 16 then None
          else Some (c, Some (V6 (word_of_bytes (take 16 elm)))))"

definition cf_PutByHost :: "'d bolt \<Rightarrow> string \<Rightarrow> Addr \<Rightarrow> 'd CacheFile \<Rightarrow> 'd CacheFile option" where
  "cf_PutByHost B host ip c = Some (fst (PutFakeip B (to_bytes host) (AsSlice ip) c))"

definition cf_GetByIP :: "'d bolt \<Rightarrow> Addr \<Rightarrow> 'd CacheFile \<Rightarrow> ('d CacheFile \<times> string option) option" where
  "cf_GetByIP B ip c =
     (case GetFakeip B (AsSlice ip) c of
        None \<Rightarrow> Some (c, None)
      | Some elm \<Rightarrow> Some (c, Some (of_bytes elm)))"

definition cf_PutByIP :: "'d bolt \<Rightarrow> Addr \<Rightarrow> string \<Rightarrow> 'd CacheFile \<Rightarrow> 'd CacheFile option" where
  "cf_PutByIP B ip host c = Some (fst (PutFakeip B (AsSlice ip) (to_bytes host) c))"

text \<open>A nil slice has length 0.\<close>

definition cf_DelByIP :: "'d bolt \<Rightarrow> Addr \<Rightarrow> 'd CacheFile \<Rightarrow> 'd CacheFile option" where
  "cf_DelByIP B ip c =
     (let addr = AsSlice ip;
          host = (case GetFakeip B addr c of None \<Rightarrow> [] | Some v \<Rightarrow> v)
      in Some (fst (DelFakeipPair B addr host c)))"

definition cf_Exist :: "'d bolt \<Rightarrow> Addr \<Rightarrow> 'd CacheFile \<Rightarrow> bool" where
  "cf_Exist B ip c = (case cf_GetByIP B ip c of Some (_, Some _) \<Rightarrow> True | _ \<Rightarrow> False)"

definition cf_ops :: "'d bolt \<Rightarrow> 'd CacheFile store_if" where
  "cf_ops B = \<lparr>
     GetByHost = cf_GetByHost B, PutByHost = cf_PutByHost B, GetByIP = cf_GetByIP B,
     PutByIP = cf_PutByIP B, DelByIP = cf_DelByIP B, ExistIP = cf_Exist B,
     FlushStore = cf_FlushFakeIP B, is_cachefile = True\<rparr>"

section \<open>The pool (pool.go)\<close>

definition offsetKey :: string where "offsetKey = ''key-offset-fake-ip''"
definition cycleKey :: string where "cycleKey = ''key-cycle-fake-ip''"

record 's Pool =
  p_gateway :: Addr
  p_first :: Addr
  p_last :: Addr
  p_offset :: Addr
  p_cycle :: bool
  p_host :: "unit DomainTrie option"
  p_ipnet :: Prefix
  p_store :: 's

definition pool_get :: "'s store_if \<Rightarrow> string \<Rightarrow> 's Pool \<Rightarrow> ('s Pool \<times> Addr) option" where
  "pool_get ops host p = (
     let p = p\<lparr>p_offset := addr_Next (p_offset p)\<rparr>;
         p = (if \<not> addr_Less (p_offset p) (p_last p)
              then p\<lparr>p_cycle := True, p_offset := p_first p\<rparr> else p)
     in do {
       s \<leftarrow> (if p_cycle p \<or> ExistIP ops (p_offset p) (p_store p)
             then DelByIP ops (p_offset p) (p_store p) else Some (p_store p));
       s \<leftarrow> PutByIP ops (p_offset p) host s;
       Some (p\<lparr>p_store := s\<rparr>, p_offset p) })"

definition Lookup :: "'s store_if \<Rightarrow> string \<Rightarrow> 's Pool \<Rightarrow> ('s Pool \<times> Addr) option" where
  "Lookup ops host0 p = (
     let host = ToLower host0
     in do {
       (s, r) \<leftarrow> GetByHost ops host (p_store p);
       let p = p\<lparr>p_store := s\<rparr>;
       case r of
         Some ip \<Rightarrow> Some (p, ip)
       | None \<Rightarrow> do {
           (p, ip) \<leftarrow> pool_get ops host p;
           s \<leftarrow> PutByHost ops host ip (p_store p);
           Some (p\<lparr>p_store := s\<rparr>, ip) } })"

definition LookBack :: "'s store_if \<Rightarrow> Addr \<Rightarrow> 's Pool \<Rightarrow> ('s Pool \<times> string option) option" where
  "LookBack ops ip p = do {
     (s, r) \<leftarrow> GetByIP ops ip (p_store p);
     Some (p\<lparr>p_store := s\<rparr>, r) }"

definition ShouldSkipped :: "string \<Rightarrow> 's Pool \<Rightarrow> bool" where
  "ShouldSkipped domain p =
     (case p_host p of None \<Rightarrow> False | Some t \<Rightarrow> Search domain t \<noteq> None)"

definition pool_Exist :: "'s store_if \<Rightarrow> Addr \<Rightarrow> 's Pool \<Rightarrow> bool" where
  "pool_Exist ops ip p = ExistIP ops ip (p_store p)"

definition Gateway :: "'s Pool \<Rightarrow> Addr" where "Gateway p = p_gateway p"
definition Broadcast :: "'s Pool \<Rightarrow> Addr" where "Broadcast p = p_last p"
definition pool_IPNet :: "'s Pool \<Rightarrow> Prefix" where "pool_IPNet p = p_ipnet p"

definition pool_FlushFakeIP :: "'s store_if \<Rightarrow> 's Pool \<Rightarrow> ('s Pool \<times> bool) option" where
  "pool_FlushFakeIP ops p = do {
     (s, ok) \<leftarrow> FlushStore ops (p_store p);
     let p = p\<lparr>p_store := s\<rparr>;
     Some (if ok then p\<lparr>p_cycle := False, p_offset := addr_Prev (p_first p)\<rparr> else p, ok) }"

definition StoreState :: "'s store_if \<Rightarrow> 's Pool \<Rightarrow> 's Pool option" where
  "StoreState ops p =
     (if is_cachefile ops then do {
        s \<leftarrow> PutByHost ops offsetKey (p_offset p) (p_store p);
        s \<leftarrow> (if p_cycle p then PutByHost ops cycleKey (p_offset p) s else Some s);
        Some (p\<lparr>p_store := s\<rparr>) }
      else Some p)"

definition restoreState :: "'s store_if \<Rightarrow> 's Pool \<Rightarrow> 's Pool option" where
  "restoreState ops p =
     (if is_cachefile ops then do {
        (s, r) \<leftarrow> GetByHost ops cycleKey (p_store p);
        let p = p\<lparr>p_store := s\<rparr>;
        let p = (if r \<noteq> None then p\<lparr>p_cycle := True\<rparr> else p);
        (s, r) \<leftarrow> GetByHost ops offsetKey (p_store p);
        let p = p\<lparr>p_store := s\<rparr>;
        case r of
          Some offset \<Rightarrow>
            if pfx_Contains (p_ipnet p) offset then Some (p\<lparr>p_offset := offset\<rparr>)
            else map_option fst (pool_FlushFakeIP ops p)
        | None \<Rightarrow>
            if ExistIP ops (p_first p) (p_store p) then map_option fst (pool_FlushFakeIP ops p)
            else Some p }
      else Some p)"

record pool_options =
  o_IPNet :: Prefix
  o_Host :: "unit DomainTrie option"
  o_Size :: int
  o_Persistence :: bool

datatype pool_error = NoValidIP

text \<open>\<open>st\<close> is the store that goes with \<open>ops\<close>: see \<open>New_memory\<close> and \<open>New_persistent\<close>.\<close>

definition NewPool :: "'s store_if \<Rightarrow> 's \<Rightarrow> pool_options \<Rightarrow> (pool_error + 's Pool) option" where
  "NewPool ops st options =
     (let hostAddr = pfx_Addr (Masked (o_IPNet options));
          gateway = addr_Next hostAddr;
          fst_ip = addr_Next (addr_Next (addr_Next gateway));
          lst = UnMasked (o_IPNet options)
      in if \<not> pfx_IsValid (o_IPNet options) \<or> \<not> addr_IsValid fst_ip \<or> \<not> addr_Less fst_ip lst
         then Some (Inl NoValidIP)
         else map_option Inr (restoreState ops
           \<lparr>p_gateway = gateway, p_first = fst_ip, p_last = lst, p_offset = addr_Prev fst_ip,
            p_cycle = False, p_host = o_Host options, p_ipnet = o_IPNet options, p_store = st\<rparr>))"

definition New_memory :: "int \<Rightarrow> mem_heap \<Rightarrow> pool_options \<Rightarrow> (pool_error + mem_state Pool) option" where
  "New_memory now h options = NewPool (mem_ops now) (newMemoryStore (o_Size options) h) options"

definition New_persistent ::
    "'d bolt \<Rightarrow> 'd CacheFile \<Rightarrow> pool_options \<Rightarrow> (pool_error + 'd CacheFile Pool) option" where
  "New_persistent B c options = NewPool (cf_ops B) c options"

text \<open>\<^verbatim>\<open>CloneFrom\<close> on memory stores; on a cache file it does nothing.\<close>

definition mem_CloneFrom :: "memoryStore Pool \<Rightarrow> memoryStore Pool \<Rightarrow> mem_heap \<Rightarrow>
    (memoryStore Pool \<times> mem_heap) option" where
  "mem_CloneFrom p ol h = do {
     (ms, h') \<leftarrow> mem_CloneTo (p_store ol) (p_store p) h;
     Some (p\<lparr>p_store := ms\<rparr>, h') }"

text \<open>A run of calls of the DNS server and of the tunnel.\<close>

datatype pool_op = OpLookup string | OpLookBack Addr

fun pool_step :: "'s store_if \<Rightarrow> pool_op \<Rightarrow> 's Pool \<Rightarrow> 's Pool option" where
  "pool_step ops (OpLookup host) p = map_option fst (Lookup ops host p)"
| "pool_step ops (OpLookBack ip) p = map_option fst (LookBack ops ip p)"

fun pool_run :: "'s store_if \<Rightarrow> pool_op list \<Rightarrow> 's Pool \<Rightarrow> 's Pool option" where
  "pool_run ops [] p = Some p"
| "pool_run ops (x # xs) p = pool_step ops x p \<bind> pool_run ops xs"

section \<open>The contract between the pool and its store\<close>

lemma word_next: "(x :: 'a :: len word) < z \<Longrightarrow> x + 1 \<noteq> 0 \<and> x \<le> x + 1"
proof -
  assume "x < z"
  then have "Suc (unat x) \<le> unat z" by (simp add: word_less_nat_alt Suc_le_eq)
  then have "Suc (unat x) < 2 ^ LENGTH('a)" by (rule le_less_trans) (rule unsigned_less)
  then have "unat (x + 1) = Suc (unat x)" by (simp add: unat_word_ariths)
  then show ?thesis by (auto simp: word_le_nat_alt)
qed

lemma addr_order:
  "BitLen b = BitLen c \<Longrightarrow> \<not> addr_Less a b \<Longrightarrow> addr_Less a c \<Longrightarrow> \<not> addr_Less (addr_Next a) b"
  by (cases a; cases b; cases c) (auto simp: not_less dest!: word_next intro: order_trans)

lemma addr_first: "addr_Less b c \<Longrightarrow> BitLen b = BitLen c \<Longrightarrow> \<not> addr_Less b b"
  by (cases b; cases c) auto

text \<open>\<open>assoc s\<close> is the map from hosts to addresses the store holds; \<open>hosts\<close> and \<open>ips\<close> are the names
  and addresses it is used for. A store may drop other pairs when one is put.\<close>

locale fakeip_store =
  fixes ops :: "'s store_if"
    and inv :: "'s \<Rightarrow> bool"
    and assoc :: "'s \<Rightarrow> string \<Rightarrow> Addr option"
    and hosts :: "string \<Rightarrow> bool"
    and ips :: "Addr \<Rightarrow> bool"
  assumes assoc_inj: "inv s \<Longrightarrow> assoc s h = Some i \<Longrightarrow> assoc s g = Some i \<Longrightarrow> h = g"
    and get_by_host: "inv s \<Longrightarrow> hosts h \<Longrightarrow>
      \<exists>s'. GetByHost ops h s = Some (s', assoc s h) \<and> inv s' \<and> assoc s' = assoc s"
    and get_by_ip: "inv s \<Longrightarrow> ips i \<Longrightarrow>
      \<exists>s' r. GetByIP ops i s = Some (s', r) \<and> inv s' \<and> assoc s' = assoc s \<and>
        (\<forall>h. r = Some h \<longleftrightarrow> assoc s h = Some i)"
    and exist_iff: "inv s \<Longrightarrow> ips i \<Longrightarrow> ExistIP ops i s \<longleftrightarrow> (\<exists>h. assoc s h = Some i)"
    and del_by_ip: "inv s \<Longrightarrow> ips i \<Longrightarrow>
      \<exists>s'. DelByIP ops i s = Some s' \<and> inv s' \<and>
        assoc s' = (\<lambda>h. if assoc s h = Some i then None else assoc s h)"
    and put_pair: "inv s \<Longrightarrow> hosts h \<Longrightarrow> ips i \<Longrightarrow> assoc s h = None \<Longrightarrow> \<forall>g. assoc s g \<noteq> Some i \<Longrightarrow>
      \<exists>s1 s2. PutByIP ops i h s = Some s1 \<and> PutByHost ops h i s1 = Some s2 \<and> inv s2 \<and>
        assoc s2 h = Some i \<and> (\<forall>g. g \<noteq> h \<longrightarrow> assoc s2 g = None \<or> assoc s2 g = assoc s g)"
begin

text \<open>The pool's invariant: the next offset is not below the first address, and every address of the
  range is one the store can hold.\<close>

definition pool_ok :: "'s Pool \<Rightarrow> bool" where
  "pool_ok p \<longleftrightarrow> inv (p_store p) \<and> BitLen (p_first p) = BitLen (p_last p) \<and> addr_Less (p_first p) (p_last p) \<and>
     \<not> addr_Less (addr_Next (p_offset p)) (p_first p) \<and>
     (\<forall>a. \<not> addr_Less a (p_first p) \<and> addr_Less a (p_last p) \<longrightarrow> ips a)"


lemma get_fresh:
  assumes p: "pool_ok p" and h: "hosts h" and new: "assoc (p_store p) h = None"
  shows "\<exists>p1 ip s2. pool_get ops h p = Some (p1, ip) \<and> PutByHost ops h ip (p_store p1) = Some s2 \<and>
    pool_ok (p1\<lparr>p_store := s2\<rparr>) \<and> assoc s2 h = Some ip \<and>
    \<not> addr_Less ip (p_first p) \<and> addr_Less ip (p_last p) \<and>
    p_first p1 = p_first p \<and> p_last p1 = p_last p \<and>
    (\<forall>g. g \<noteq> h \<longrightarrow> assoc s2 g = None \<or> assoc s2 g = assoc (p_store p) g)"
proof -
  let ?n = "addr_Next (p_offset p)"
  define q where "q = (if \<not> addr_Less ?n (p_last p)
    then p\<lparr>p_cycle := True, p_offset := p_first p\<rparr> else p\<lparr>p_offset := ?n\<rparr>)"
  define ip where "ip = p_offset q"
  have q: "p_store q = p_store p" "p_first q = p_first p" "p_last q = p_last p"
    by (simp_all add: q_def)
  have rng: "\<not> addr_Less ip (p_first p)" "addr_Less ip (p_last p)"
    using p addr_first by (auto simp: pool_ok_def ip_def q_def)
  then have ips: "ips ip" using p by (auto simp: pool_ok_def)
  have inv: "inv (p_store p)" using p by (simp add: pool_ok_def)
  obtain s where s: "(if p_cycle q \<or> ExistIP ops ip (p_store p) then DelByIP ops ip (p_store p)
      else Some (p_store p)) = Some s" "inv s" "\<forall>g. assoc s g \<noteq> Some ip" "assoc s h = None"
    "\<forall>g. assoc s g = None \<or> assoc s g = assoc (p_store p) g"
  proof (cases "p_cycle q \<or> ExistIP ops ip (p_store p)")
    case True
    obtain s' where "DelByIP ops ip (p_store p) = Some s'" "inv s'"
      "assoc s' = (\<lambda>g. if assoc (p_store p) g = Some ip then None else assoc (p_store p) g)"
      using del_by_ip [OF inv ips] by blast
    with True new that show ?thesis by simp
  next
    case False
    with exist_iff [OF inv ips] inv new that show ?thesis by auto
  qed
  obtain s1 s2 where put: "PutByIP ops ip h s = Some s1" "PutByHost ops h ip s1 = Some s2" "inv s2"
    "assoc s2 h = Some ip" "\<forall>g. g \<noteq> h \<longrightarrow> assoc s2 g = None \<or> assoc s2 g = assoc s g"
    using put_pair [OF s(2) h ips s(4,3)] by blast
  have "pool_get ops h p = Some (q\<lparr>p_store := s1\<rparr>, ip)"
  proof -
    have "pool_get ops h p = (do {
        s \<leftarrow> (if p_cycle q \<or> ExistIP ops ip (p_store p) then DelByIP ops ip (p_store p)
             else Some (p_store p));
        s \<leftarrow> PutByIP ops ip h s; Some (q\<lparr>p_store := s\<rparr>, ip) })"
      by (simp add: pool_get_def Let_def q_def ip_def)
    then show ?thesis by (simp only: s(1) put(1) Option.bind.simps)
  qed
  moreover have "pool_ok ((q\<lparr>p_store := s1\<rparr>)\<lparr>p_store := s2\<rparr>)"
    using p put(3) addr_order [of "p_first p" "p_last p" ip] rng by (auto simp: pool_ok_def q ip_def)
  moreover have "assoc s2 g = None \<or> assoc s2 g = assoc (p_store p) g" if "g \<noteq> h" for g
    using put(5) s(5) that by metis
  ultimately show ?thesis using put rng q
    by (intro exI [of _ "q\<lparr>p_store := s1\<rparr>"] exI [of _ ip] exI [of _ s2]) auto
qed

lemma Lookup_spec:
  assumes p: "pool_ok p" and h: "hosts (ToLower host)"
  shows "\<exists>p' ip. Lookup ops host p = Some (p', ip) \<and> pool_ok p' \<and>
    assoc (p_store p') (ToLower host) = Some ip \<and>
    p_first p' = p_first p \<and> p_last p' = p_last p \<and>
    (\<forall>g. g \<noteq> ToLower host \<longrightarrow>
       assoc (p_store p') g = None \<or> assoc (p_store p') g = assoc (p_store p) g) \<and>
    (case assoc (p_store p) (ToLower host) of
       Some i \<Rightarrow> ip = i \<and> assoc (p_store p') = assoc (p_store p)
     | None \<Rightarrow> \<not> addr_Less ip (p_first p) \<and> addr_Less ip (p_last p))"
proof -
  have inv: "inv (p_store p)" using p by (simp add: pool_ok_def)
  obtain s where s: "GetByHost ops (ToLower host) (p_store p) = Some (s, assoc (p_store p) (ToLower host))"
    "inv s" "assoc s = assoc (p_store p)" using get_by_host [OF inv h] by blast
  have ok: "pool_ok (p\<lparr>p_store := s\<rparr>)" using p s(2) by (simp add: pool_ok_def)
  show ?thesis
  proof (cases "assoc (p_store p) (ToLower host)")
    case (Some i)
    with s ok show ?thesis
      by (intro exI [of _ "p\<lparr>p_store := s\<rparr>"] exI [of _ i]) (auto simp: Lookup_def Let_def)
  next
    case None
    with s(3) have "assoc (p_store (p\<lparr>p_store := s\<rparr>)) (ToLower host) = None" by simp
    from get_fresh [OF ok h this] obtain p1 ip s2 where
      g: "pool_get ops (ToLower host) (p\<lparr>p_store := s\<rparr>) = Some (p1, ip)"
        "PutByHost ops (ToLower host) ip (p_store p1) = Some s2" "pool_ok (p1\<lparr>p_store := s2\<rparr>)"
        "assoc s2 (ToLower host) = Some ip" "\<not> addr_Less ip (p_first p)" "addr_Less ip (p_last p)"
        "p_first p1 = p_first p" "p_last p1 = p_last p"
        "\<forall>g. g \<noteq> ToLower host \<longrightarrow> assoc s2 g = None \<or> assoc s2 g = assoc s g"
      by auto
    with s None show ?thesis
      by (intro exI [of _ "p1\<lparr>p_store := s2\<rparr>"] exI [of _ ip]) (simp add: Lookup_def Let_def)
  qed
qed

lemma LookBack_spec:
  assumes p: "pool_ok p" and i: "ips ip"
  shows "\<exists>p' r. LookBack ops ip p = Some (p', r) \<and> pool_ok p' \<and>
    p_first p' = p_first p \<and> p_last p' = p_last p \<and> assoc (p_store p') = assoc (p_store p) \<and>
    (\<forall>h. r = Some h \<longleftrightarrow> assoc (p_store p) h = Some ip)"
proof -
  have inv: "inv (p_store p)" using p by (simp add: pool_ok_def)
  obtain s r where s: "GetByIP ops ip (p_store p) = Some (s, r)" "inv s" "assoc s = assoc (p_store p)"
    "\<forall>h. r = Some h \<longleftrightarrow> assoc (p_store p) h = Some ip" using get_by_ip [OF inv i] by blast
  have "pool_ok (p\<lparr>p_store := s\<rparr>)" using p s(2) by (simp add: pool_ok_def)
  with s show ?thesis
    by (intro exI [of _ "p\<lparr>p_store := s\<rparr>"] exI [of _ r]) (simp add: LookBack_def)
qed

text \<open>A pool whose store holds only addresses of its range.\<close>

definition in_range :: "'s Pool \<Rightarrow> bool" where
  "in_range p \<longleftrightarrow> (\<forall>h i. assoc (p_store p) h = Some i \<longrightarrow>
     \<not> addr_Less i (p_first p) \<and> addr_Less i (p_last p))"

lemma Lookup_LookBack:
  assumes p: "pool_ok p" "in_range p" and h: "hosts (ToLower host)"
  shows "\<exists>p1 ip p2. Lookup ops host p = Some (p1, ip) \<and> pool_ok p1 \<and> in_range p1 \<and>
    \<not> addr_Less ip (p_first p) \<and> addr_Less ip (p_last p) \<and>
    LookBack ops ip p1 = Some (p2, Some (ToLower host)) \<and>
    (\<exists>p3. Lookup ops host p2 = Some (p3, ip))"
proof -
  obtain p1 ip where 1: "Lookup ops host p = Some (p1, ip)" "pool_ok p1"
    "assoc (p_store p1) (ToLower host) = Some ip" "p_first p1 = p_first p" "p_last p1 = p_last p"
    "\<forall>g. g \<noteq> ToLower host \<longrightarrow>
       assoc (p_store p1) g = None \<or> assoc (p_store p1) g = assoc (p_store p) g"
    "case assoc (p_store p) (ToLower host) of
       Some i \<Rightarrow> ip = i \<and> assoc (p_store p1) = assoc (p_store p)
     | None \<Rightarrow> \<not> addr_Less ip (p_first p) \<and> addr_Less ip (p_last p)"
    using Lookup_spec [OF p(1) h] by blast
  have rng: "\<not> addr_Less ip (p_first p)" "addr_Less ip (p_last p)"
    using 1(7) p(2) by (auto simp: in_range_def split: option.splits)
  have "in_range p1" unfolding in_range_def 1(4,5)
  proof (intro allI impI)
    fix g i assume "assoc (p_store p1) g = Some i"
    then show "\<not> addr_Less i (p_first p) \<and> addr_Less i (p_last p)"
      using 1(3,6) rng p(2) by (cases "g = ToLower host") (fastforce simp: in_range_def)+
  qed
  moreover have "ips ip" using p(1) rng by (auto simp: pool_ok_def)
  from LookBack_spec [OF 1(2) this] 1(3) obtain p2 where
    2: "LookBack ops ip p1 = Some (p2, Some (ToLower host))" "pool_ok p2"
    "assoc (p_store p2) = assoc (p_store p1)" by force
  moreover obtain p3 where "Lookup ops host p2 = Some (p3, ip)"
    using Lookup_spec [OF 2(2) h] 1(3) unfolding 2(3) by auto
  ultimately show ?thesis using 1(1,2) rng by blast
qed

definition op_ok :: "pool_op \<Rightarrow> bool" where
  "op_ok x = (case x of OpLookup h \<Rightarrow> hosts (ToLower h) | OpLookBack i \<Rightarrow> ips i)"

lemma run_ok:
  "pool_ok p \<Longrightarrow> in_range p \<Longrightarrow> \<forall>x \<in> set xs. op_ok x \<Longrightarrow>
   \<exists>p'. pool_run ops xs p = Some p' \<and> pool_ok p' \<and> in_range p' \<and>
     p_first p' = p_first p \<and> p_last p' = p_last p"
proof (induction xs arbitrary: p)
  case (Cons x xs)
  have "\<exists>p1. pool_step ops x p = Some p1 \<and> pool_ok p1 \<and> in_range p1 \<and>
      p_first p1 = p_first p \<and> p_last p1 = p_last p"
  proof (cases x)
    case (OpLookup h)
    with Cons.prems have h: "hosts (ToLower h)" by (simp add: op_ok_def)
    obtain p1 ip where a: "Lookup ops h p = Some (p1, ip)" "pool_ok p1" "in_range p1"
      using Lookup_LookBack [OF Cons.prems(1,2) h] by blast
    moreover have "p_first p1 = p_first p \<and> p_last p1 = p_last p"
      using Lookup_spec [OF Cons.prems(1) h] a(1) by auto
    ultimately show ?thesis using OpLookup by simp
  next
    case (OpLookBack i)
    with Cons.prems have i: "ips i" by (simp add: op_ok_def)
    obtain p1 r where "LookBack ops i p = Some (p1, r)" "pool_ok p1" "p_first p1 = p_first p"
      "p_last p1 = p_last p" "assoc (p_store p1) = assoc (p_store p)"
      using LookBack_spec [OF Cons.prems(1) i] by blast
    with OpLookBack Cons.prems(2) show ?thesis by (auto simp: in_range_def)
  qed
  then obtain p1 where p1: "pool_step ops x p = Some p1" "pool_ok p1" "in_range p1"
    "p_first p1 = p_first p" "p_last p1 = p_last p" by blast
  with Cons.IH [OF p1(2,3)] Cons.prems(3) show ?case by auto
qed simp

end

section \<open>The memory store keeps the contract\<close>

definition ent :: "'k \<times> 'v \<Rightarrow> ('k, 'v) entry" where
  "ent p = \<lparr>e_key = fst p, e_value = snd p, e_expires = 0\<rparr>"

definition touch :: "'k \<Rightarrow> ('k \<times> 'v) list \<Rightarrow> ('k \<times> 'v) list" where
  "touch k L = (case map_of L k of None \<Rightarrow> L | Some v \<Rightarrow> filter (\<lambda>p. fst p \<noteq> k) L @ [(k, v)])"

definition push_bounded :: "int \<Rightarrow> 'k \<times> 'v \<Rightarrow> ('k \<times> 'v) list \<Rightarrow> ('k \<times> 'v) list" where
  "push_bounded n e L = (if 0 < n \<and> n < int (length L) + 1 then tl (L @ [e]) else L @ [e])"

text \<open>Pairs (host, address), least recently used first, the same in both caches.\<close>

definition mem_rel :: "mem_state \<Rightarrow> (string \<times> Addr) list \<Rightarrow> bool" where
  "mem_rel s L \<longleftrightarrow>
     lru_rel (cacheIP (fst s)) (hIP (snd s)) (map ent L) \<and>
     lru_rel (cacheHost (fst s)) (hHost (snd s)) (map ent (map prod.swap L)) \<and>
     maxAge (cacheIP (fst s)) = 0 \<and> maxAge (cacheHost (fst s)) = 0 \<and>
     maxSize (cacheIP (fst s)) = maxSize (cacheHost (fst s))"

definition mem_inv :: "mem_state \<Rightarrow> bool" where
  "mem_inv s \<longleftrightarrow> (\<exists>L. mem_rel s L)"

definition mem_assoc :: "mem_state \<Rightarrow> string \<Rightarrow> Addr option" where
  "mem_assoc s host = (case cache (cacheIP (fst s)) host of
     None \<Rightarrow> None | Some a \<Rightarrow> map_option e_value (entry_at (hIP (snd s)) a))"

lemma find_key_ent: "find_key k (map ent L) = map_option (\<lambda>v. ent (k, v)) (map_of L k)"
  by (induction L) (auto simp: find_key_def ent_def)

lemma filter_ent: "filter (other k) (map ent L) = map ent (filter (\<lambda>p. fst p \<noteq> k) L)"
  by (induction L) (auto simp: other_def ent_def)

lemma ent_fields [simp]: "e_key (ent p) = fst p" "e_value (ent p) = snd p" "e_expires (ent p) = 0"
  by (simp_all add: ent_def)

lemma lru_Get_ent:
  assumes "lru_rel c h (map ent L)" "maxAge c = 0"
  shows "\<exists>c' h'. lru_Get now k (c, h) = Some ((c', h'), map_of L k) \<and> same_cfg c c' \<and>
    lru_rel c' h' (map ent (touch k L))"
proof -
  have s: "spec_get c now k (map ent L) = (map ent (touch k L), map_option (\<lambda>v. ent (k, v)) (map_of L k))"
    using assms(2) by (cases "map_of L k")
      (auto simp: spec_get_def find_key_ent touch_def expiring_def filter_ent Let_def)
  have e: "map_option e_value (map_option (\<lambda>v. ent (k, v)) (map_of L k)) = map_of L k"
    by (cases "map_of L k") auto
  show ?thesis using lru_Get_sim [OF assms(1), of now k] unfolding s fst_conv snd_conv e .
qed

lemma lru_Set_ent:
  assumes "lru_rel c h (map ent L)" "maxAge c = 0" "map_of L k = None"
  shows "\<exists>c' h'. lru_Set now k v (c, h) = Some (c', h') \<and> same_cfg c c' \<and>
    lru_rel c' h' (map ent (push_bounded (maxSize c) (k, v) L))"
proof -
  have p: "purge c now M = M" for M using assms(2) by (simp add: purge_def expiring_def)
  have f: "find_key k (map ent L) = None" using assms(3) by (simp add: find_key_ent)
  have e: "\<lparr>e_key = k, e_value = v, e_expires = 0\<rparr> = ent (k, v)" by (simp add: ent_def)
  have "spec_set c now k v 0 (map ent L) = map ent (push_bounded (maxSize c) (k, v) L)"
    by (simp add: spec_set_def p f e bounded_def push_bounded_def map_tl Let_def)
  moreover have "(if 0 < maxAge c then now + maxAge c else 0) = 0" using assms(2) by simp
  ultimately show ?thesis using lru_Set_sim [OF assms(1), of now k v] by metis
qed

lemma lru_Delete_ent:
  assumes "lru_rel c h (map ent L)"
  shows "\<exists>c' h'. lru_Delete k (c, h) = Some (c', h') \<and> same_cfg c c' \<and>
    lru_rel c' h' (map ent (filter (\<lambda>p. fst p \<noteq> k) L))"
  using lru_Delete_sim [OF assms, of k] unfolding spec_delete_def filter_ent by blast

lemma mem_rel_distinct:
  assumes "mem_rel s L"
  shows "distinct (map fst L)" "distinct (map snd L)"
proof -
  have "distinct (map e_key (map ent L))" "distinct (map e_key (map ent (map prod.swap L)))"
    using assms lru_rel_distinct unfolding mem_rel_def by blast+
  then show "distinct (map fst L)" "distinct (map snd L)" by (simp_all add: o_def)
qed

lemma mem_assoc_eq: "mem_rel s L \<Longrightarrow> mem_assoc s = map_of L"
proof
  fix h assume "mem_rel s L"
  then obtain xs where ok: "lru_ok (cacheIP (fst s)) (hIP (snd s)) xs" and L: "view (hIP (snd s)) xs = map ent L"
    by (auto simp: mem_rel_def lru_rel_def)
  show "mem_assoc s h = map_of L h"
  proof (cases "cache (cacheIP (fst s)) h")
    case None
    then show ?thesis
      using lru_find_None [OF ok, of h] by (simp add: L find_key_ent mem_assoc_def)
  next
    case (Some a)
    then obtain e where "entry_at (hIP (snd s)) a = Some e"
      using lru_ok_cache [OF ok, of h a] lru_ok_entry [OF ok, of a] by auto
    with lru_find_Some [OF ok Some this] Some show ?thesis
      by (auto simp: L find_key_ent mem_assoc_def)
  qed
qed

lemma map_of_swap:
  "distinct (map snd L) \<Longrightarrow> map_of (map prod.swap L) i = Some h \<longleftrightarrow> (h, i) \<in> set L"
  by (subst map_of_eq_Some_iff) (auto simp: o_def)

lemma map_of_pair:
  "distinct (map fst L) \<Longrightarrow> map_of L h = Some i \<longleftrightarrow> (h, i) \<in> set L"
  by (rule map_of_eq_Some_iff)

lemma same_pair:
  assumes "distinct (map fst L)" "distinct (map snd L)" "(h, i) \<in> set L"
  shows "filter (\<lambda>p. fst p \<noteq> i) (map prod.swap L) = map prod.swap (filter (\<lambda>p. fst p \<noteq> h) L)"
    "touch i (map prod.swap L) = map prod.swap (touch h L)"
proof -
  have "snd p = i \<longleftrightarrow> fst p = h" if "p \<in> set L" for p
    using assms that unfolding distinct_map inj_on_def by (metis fst_conv snd_conv)
  then show e: "filter (\<lambda>p. fst p \<noteq> i) (map prod.swap L) = map prod.swap (filter (\<lambda>p. fst p \<noteq> h) L)"
    by (simp add: filter_map o_def cong: filter_cong)
  have "map_of L h = Some i" "map_of (map prod.swap L) i = Some h"
    using assms map_of_pair [of L h i] map_of_swap [of L i h] by auto
  then show "touch i (map prod.swap L) = map prod.swap (touch h L)"
    by (simp add: touch_def e)
qed

text \<open>One step on one cache, seen from the store.\<close>

lemma on_IP_Get:
  assumes "lru_rel (cacheIP (fst s)) (hIP (snd s)) (map ent L)" "maxAge (cacheIP (fst s)) = 0"
  shows "\<exists>c hp. on_IP (lru_Get now host) s = Some (((fst s)\<lparr>cacheIP := c\<rparr>, (snd s)\<lparr>hIP := hp\<rparr>), map_of L host) \<and>
    same_cfg (cacheIP (fst s)) c \<and> lru_rel c hp (map ent (touch host L))"
proof -
  obtain c hp where "lru_Get now host (cacheIP (fst s), hIP (snd s)) = Some ((c, hp), map_of L host)"
    "same_cfg (cacheIP (fst s)) c" "lru_rel c hp (map ent (touch host L))"
    using lru_Get_ent [OF assms] by blast
  then show ?thesis
    by (intro exI [of _ c] exI [of _ hp]) (simp add: on_IP_def case_prod_beta)
qed

lemma on_Host_Get:
  assumes "lru_rel (cacheHost (fst s)) (hHost (snd s)) (map ent L)" "maxAge (cacheHost (fst s)) = 0"
  shows "\<exists>c hp. on_Host (lru_Get now ip) s =
      Some (((fst s)\<lparr>cacheHost := c\<rparr>, (snd s)\<lparr>hHost := hp\<rparr>), map_of L ip) \<and>
    same_cfg (cacheHost (fst s)) c \<and> lru_rel c hp (map ent (touch ip L))"
proof -
  obtain c hp where "lru_Get now ip (cacheHost (fst s), hHost (snd s)) = Some ((c, hp), map_of L ip)"
    "same_cfg (cacheHost (fst s)) c" "lru_rel c hp (map ent (touch ip L))"
    using lru_Get_ent [OF assms] by blast
  then show ?thesis
    by (intro exI [of _ c] exI [of _ hp]) (simp add: on_Host_def case_prod_beta)
qed

lemma mem_GetByHost_sim:
  assumes r: "mem_rel s L"
  shows "\<exists>s'. mem_GetByHost now host s = Some (s', map_of L host) \<and> mem_rel s' (touch host L) \<and>
    maxSize (cacheIP (fst s')) = maxSize (cacheIP (fst s))"
proof -
  obtain c hp where 1: "on_IP (lru_Get now host) s =
      Some (((fst s)\<lparr>cacheIP := c\<rparr>, (snd s)\<lparr>hIP := hp\<rparr>), map_of L host)"
    "same_cfg (cacheIP (fst s)) c" "lru_rel c hp (map ent (touch host L))"
    using on_IP_Get [of s L now host] r by (auto simp: mem_rel_def)
  let ?s = "((fst s)\<lparr>cacheIP := c\<rparr>, (snd s)\<lparr>hIP := hp\<rparr>)"
  note cfg = same_cfg_eqs [OF 1(2)]
  show ?thesis
  proof (cases "map_of L host")
    case None
    with 1 r cfg show ?thesis
      by (intro exI [of _ ?s]) (simp add: mem_GetByHost_def mem_rel_def touch_def)
  next
    case (Some ip)
    have L: "(host, ip) \<in> set L" using Some by (rule map_of_SomeD)
    note sp = same_pair [OF mem_rel_distinct [OF r] L]
    obtain d hq where 2: "on_Host (lru_Get now ip) ?s =
        Some (((fst ?s)\<lparr>cacheHost := d\<rparr>, (snd ?s)\<lparr>hHost := hq\<rparr>), map_of (map prod.swap L) ip)"
      "same_cfg (cacheHost (fst ?s)) d" "lru_rel d hq (map ent (touch ip (map prod.swap L)))"
      using on_Host_Get [of ?s "map prod.swap L" now ip] r by (auto simp: mem_rel_def)
    let ?t = "((fst ?s)\<lparr>cacheHost := d\<rparr>, (snd ?s)\<lparr>hHost := hq\<rparr>)"
    have "mem_rel ?t (touch host L)"
      using 1(3) 2(3) cfg same_cfg_eqs [OF 2(2)] r unfolding mem_rel_def sp(2) by simp
    moreover have "mem_GetByHost now host s = Some (?t, map_of L host)"
      using 1(1) 2(1) Some by (simp add: mem_GetByHost_def)
    moreover have "maxSize (cacheIP (fst ?t)) = maxSize (cacheIP (fst s))" using cfg by simp
    ultimately show ?thesis by blast
  qed
qed

lemma mem_GetByIP_sim:
  assumes r: "mem_rel s L"
  shows "\<exists>s' L'. mem_GetByIP now ip s = Some (s', map_of (map prod.swap L) ip) \<and> mem_rel s' L' \<and>
    set L' = set L"
proof -
  let ?M = "map prod.swap L"
  obtain c hp where 1: "on_Host (lru_Get now ip) s =
      Some (((fst s)\<lparr>cacheHost := c\<rparr>, (snd s)\<lparr>hHost := hp\<rparr>), map_of ?M ip)"
    "same_cfg (cacheHost (fst s)) c" "lru_rel c hp (map ent (touch ip ?M))"
    using on_Host_Get [of s ?M now ip] r by (auto simp: mem_rel_def)
  let ?s = "((fst s)\<lparr>cacheHost := c\<rparr>, (snd s)\<lparr>hHost := hp\<rparr>)"
  note cfg = same_cfg_eqs [OF 1(2)]
  show ?thesis
  proof (cases "map_of ?M ip")
    case None
    with 1 r cfg show ?thesis
      by (intro exI [of _ ?s] exI [of _ L]) (simp add: mem_GetByIP_def mem_rel_def touch_def)
  next
    case (Some host)
    have L: "(host, ip) \<in> set L" using Some map_of_swap [OF mem_rel_distinct(2) [OF r]] by simp
    note sp = same_pair [OF mem_rel_distinct [OF r] L]
    obtain d hq where 2: "on_IP (lru_Get now host) ?s =
        Some (((fst ?s)\<lparr>cacheIP := d\<rparr>, (snd ?s)\<lparr>hIP := hq\<rparr>), map_of L host)"
      "same_cfg (cacheIP (fst ?s)) d" "lru_rel d hq (map ent (touch host L))"
      using on_IP_Get [of ?s L now host] r by (auto simp: mem_rel_def)
    let ?t = "((fst ?s)\<lparr>cacheIP := d\<rparr>, (snd ?s)\<lparr>hIP := hq\<rparr>)"
    have "mem_rel ?t (touch host L)"
      using 1(3) 2(3) cfg same_cfg_eqs [OF 2(2)] r unfolding mem_rel_def sp(2) by simp
    moreover have "mem_GetByIP now ip s = Some (?t, map_of ?M ip)"
      using 1(1) 2(1) Some by (simp add: mem_GetByIP_def)
    moreover have "map_of L host = Some ip"
      using L map_of_pair [OF mem_rel_distinct(1) [OF r]] by simp
    then have "set (touch host L) = set L"
      using L mem_rel_distinct(1) [OF r] by (auto simp: touch_def dest: eq_key_imp_eq_value)
    ultimately show ?thesis by blast
  qed
qed

lemma mem_Exist_sim: "mem_rel s L \<Longrightarrow> mem_Exist ip s \<longleftrightarrow> (\<exists>h. (h, ip) \<in> set L)"
proof -
  assume r: "mem_rel s L"
  then have "mem_Exist ip s \<longleftrightarrow> map_of (map prod.swap L) ip \<noteq> None"
    using lru_Exist_sim [of "cacheHost (fst s)" "hHost (snd s)" _ ip] find_key_ent [of ip "map prod.swap L"]
    unfolding mem_rel_def mem_Exist_def by fastforce
  then show ?thesis using map_of_swap [OF mem_rel_distinct(2) [OF r], of ip] by auto
qed

lemma mem_DelByIP_sim:
  assumes r: "mem_rel s L"
  shows "\<exists>s'. mem_DelByIP now ip s = Some s' \<and> mem_rel s' (filter (\<lambda>p. snd p \<noteq> ip) L)"
proof -
  let ?M = "map prod.swap L"
  obtain c hp where 1: "on_Host (lru_Get now ip) s =
      Some (((fst s)\<lparr>cacheHost := c\<rparr>, (snd s)\<lparr>hHost := hp\<rparr>), map_of ?M ip)"
    "same_cfg (cacheHost (fst s)) c" "lru_rel c hp (map ent (touch ip ?M))"
    using on_Host_Get [of s ?M now ip] r by (auto simp: mem_rel_def)
  let ?s = "((fst s)\<lparr>cacheHost := c\<rparr>, (snd s)\<lparr>hHost := hp\<rparr>)"
  note cfg = same_cfg_eqs [OF 1(2)]
  obtain d hq where 3: "lru_Delete ip (c, hp) = Some (d, hq)" "same_cfg c d"
    "lru_rel d hq (map ent (filter (\<lambda>p. fst p \<noteq> ip) (touch ip ?M)))"
    using lru_Delete_ent [OF 1(3), of ip] by blast
  have flt: "filter (\<lambda>p. fst p \<noteq> ip) (touch ip ?M) = map prod.swap (filter (\<lambda>p. snd p \<noteq> ip) L)"
    by (auto simp: touch_def filter_map o_def split: option.splits cong: filter_cong)
  show ?thesis
  proof (cases "map_of ?M ip")
    case None
    then have "filter (\<lambda>p. snd p \<noteq> ip) L = L"
      using map_of_swap [OF mem_rel_distinct(2) [OF r], of ip] by (force simp: filter_id_conv)
    with 1 3 r cfg None same_cfg_eqs [OF 3(2)] flt show ?thesis
      by (intro exI [of _ "((fst s)\<lparr>cacheHost := d\<rparr>, (snd s)\<lparr>hHost := hq\<rparr>)"])
        (simp add: mem_DelByIP_def mem_rel_def on_Host_def no_result_def)
  next
    case (Some host)
    have L: "(host, ip) \<in> set L" using Some map_of_swap [OF mem_rel_distinct(2) [OF r]] by simp
    have "filter (\<lambda>p. snd p \<noteq> ip) L = filter (\<lambda>p. fst p \<noteq> host) L"
      using L mem_rel_distinct [OF r] unfolding distinct_map inj_on_def
      by (intro filter_cong refl) (metis fst_conv snd_conv)
    moreover obtain e hr where 2: "lru_Delete host (cacheIP (fst s), hIP (snd s)) = Some (e, hr)"
      "same_cfg (cacheIP (fst s)) e" "lru_rel e hr (map ent (filter (\<lambda>p. fst p \<noteq> host) L))"
      using lru_Delete_ent [of "cacheIP (fst s)" "hIP (snd s)" L host] r unfolding mem_rel_def by blast
    ultimately show ?thesis
      using 1 3 r cfg Some same_cfg_eqs [OF 3(2)] same_cfg_eqs [OF 2(2)] flt
      by (intro exI [of _ "((fst s)\<lparr>cacheIP := e, cacheHost := d\<rparr>, (snd s)\<lparr>hIP := hr, hHost := hq\<rparr>)"])
        (simp add: mem_DelByIP_def mem_rel_def on_Host_def on_IP_def no_result_def)
  qed
qed

lemma push_swap:
  "map prod.swap (push_bounded n (h, i) L) = push_bounded n (i, h) (map prod.swap L)"
  by (simp add: push_bounded_def map_tl)

lemma mem_put_sim:
  assumes r: "mem_rel s L" and h: "map_of L host = None" and i: "\<forall>g. (g, ip) \<notin> set L"
  shows "\<exists>s1 s2. mem_PutByIP now ip host s = Some s1 \<and> mem_PutByHost now host ip s1 = Some s2 \<and>
    mem_rel s2 (push_bounded (maxSize (cacheIP (fst s))) (host, ip) L) \<and>
    maxSize (cacheIP (fst s2)) = maxSize (cacheIP (fst s))"
proof -
  let ?M = "map prod.swap L"
  have "map_of ?M ip = None"
    using i map_of_swap [OF mem_rel_distinct(2) [OF r], of ip] by (cases "map_of ?M ip") auto
  then obtain c hp where 1: "lru_Set now ip host (cacheHost (fst s), hHost (snd s)) = Some (c, hp)"
    "same_cfg (cacheHost (fst s)) c"
    "lru_rel c hp (map ent (push_bounded (maxSize (cacheHost (fst s))) (ip, host) ?M))"
    using lru_Set_ent [of "cacheHost (fst s)" "hHost (snd s)" ?M ip now host] r unfolding mem_rel_def by blast
  obtain d hq where 2: "lru_Set now host ip (cacheIP (fst s), hIP (snd s)) = Some (d, hq)"
    "same_cfg (cacheIP (fst s)) d"
    "lru_rel d hq (map ent (push_bounded (maxSize (cacheIP (fst s))) (host, ip) L))"
    using lru_Set_ent [of "cacheIP (fst s)" "hIP (snd s)" L host now ip] r h unfolding mem_rel_def by blast
  let ?s = "((fst s)\<lparr>cacheHost := c\<rparr>, (snd s)\<lparr>hHost := hp\<rparr>)"
  let ?t = "((fst ?s)\<lparr>cacheIP := d\<rparr>, (snd ?s)\<lparr>hIP := hq\<rparr>)"
  have "mem_PutByIP now ip host s = Some ?s" "mem_PutByHost now host ip ?s = Some ?t"
    using 1(1) 2(1)
    by (simp_all add: mem_PutByIP_def mem_PutByHost_def on_Host_def on_IP_def no_result_def case_prod_beta)
  moreover have "mem_rel ?t (push_bounded (maxSize (cacheIP (fst s))) (host, ip) L)"
    using 1(3) 2(3) r same_cfg_eqs [OF 1(2)] same_cfg_eqs [OF 2(2)]
    unfolding mem_rel_def push_swap by simp
  moreover have "maxSize (cacheIP (fst ?t)) = maxSize (cacheIP (fst s))"
    using same_cfg_eqs [OF 2(2)] by simp
  ultimately show ?thesis by blast
qed

lemma map_of_push:
  assumes "distinct (map fst L)" "map_of L h = None"
  shows "map_of (push_bounded n (h, i) L) h = Some i"
    "g \<noteq> h \<Longrightarrow> map_of (push_bounded n (h, i) L) g = None \<or> map_of (push_bounded n (h, i) L) g = map_of L g"
proof -
  have snoc: "map_of (xs @ [(h, i)]) = (\<lambda>g. if map_of xs g = None \<and> g = h then Some i else map_of xs g)"
    for xs :: "('a \<times> 'b) list"
    by (auto simp: map_add_def fun_eq_iff split: option.splits)
  have tl: "map_of (tl L) g = None \<or> map_of (tl L) g = map_of L g" for g
    using assms(1) by (cases L) (auto simp: map_of_eq_None_iff)
  have e: "push_bounded n (h, i) L = (if 0 < n \<and> n < int (length L) + 1 then tl L else L) @ [(h, i)]"
    by (auto simp: push_bounded_def tl_append split: list.splits)
  show "map_of (push_bounded n (h, i) L) h = Some i"
    using assms(2) tl [of h] unfolding e snoc by auto
  show "g \<noteq> h \<Longrightarrow> map_of (push_bounded n (h, i) L) g = None \<or> map_of (push_bounded n (h, i) L) g = map_of L g"
    using tl [of g] unfolding e snoc by auto
qed

lemma map_of_filter_snd:
  assumes "distinct (map fst L)"
  shows "map_of (filter (\<lambda>p. snd p \<noteq> i) L) h = (if map_of L h = Some i then None else map_of L h)"
proof -
  have "map_of (filter (\<lambda>p. snd p \<noteq> i) L) h = Some j \<longleftrightarrow> map_of L h = Some j \<and> j \<noteq> i" for j
    unfolding map_of_pair [OF assms] map_of_pair [OF distinct_map_filter [OF assms]] by auto
  then show ?thesis
    by (metis not_Some_eq)
qed

interpretation mem: fakeip_store "mem_ops now" mem_inv mem_assoc "\<lambda>_. True" "\<lambda>_. True" for now
proof (unfold_locales, goal_cases)
  case (1 s h i g)
  then obtain L where r: "mem_rel s L" by (auto simp: mem_inv_def)
  with 1 show ?case
    using mem_rel_distinct [OF r] mem_assoc_eq [OF r]
    by (metis map_of_SomeD map_of_swap option.inject)
next
  case (2 s h)
  then obtain L where r: "mem_rel s L" by (auto simp: mem_inv_def)
  obtain s' where s': "mem_GetByHost now h s = Some (s', map_of L h)" "mem_rel s' (touch h L)"
    using mem_GetByHost_sim [OF r] by blast
  have "map_of (touch h L) = map_of L"
  proof
    fix g
    have "map_of (filter (\<lambda>p. fst p \<noteq> h) L) g = (if g = h then None else map_of L g)"
      by (induction L) auto
    then show "map_of (touch h L) g = map_of L g"
      by (auto simp: touch_def map_add_def split: option.splits)
  qed
  with s' mem_assoc_eq [OF r] mem_assoc_eq [OF s'(2)] show ?case
    by (auto simp: mem_ops_def mem_inv_def)
next
  case (3 s i)
  then obtain L where r: "mem_rel s L" by (auto simp: mem_inv_def)
  obtain s' L' where s': "mem_GetByIP now i s = Some (s', map_of (map prod.swap L) i)" "mem_rel s' L'"
    "set L' = set L" using mem_GetByIP_sim [OF r] by blast
  have m: "map_of L' = map_of L"
    using s'(3) mem_rel_distinct(1) [OF r] mem_rel_distinct(1) [OF s'(2)] map_of_inject_set by metis
  have "map_of (map prod.swap L) i = Some h \<longleftrightarrow> map_of L h = Some i" for h
    using map_of_swap [OF mem_rel_distinct(2) [OF r]] map_of_pair [OF mem_rel_distinct(1) [OF r]] by auto
  with s' m mem_assoc_eq [OF r] mem_assoc_eq [OF s'(2)] show ?case
    by (auto simp: mem_ops_def mem_inv_def)
next
  case (4 s i)
  then obtain L where r: "mem_rel s L" by (auto simp: mem_inv_def)
  with mem_Exist_sim [OF r] mem_assoc_eq [OF r] map_of_pair [OF mem_rel_distinct(1) [OF r]] show ?case
    by (simp add: mem_ops_def)
next
  case (5 s i)
  then obtain L where r: "mem_rel s L" by (auto simp: mem_inv_def)
  obtain s' where s': "mem_DelByIP now i s = Some s'" "mem_rel s' (filter (\<lambda>p. snd p \<noteq> i) L)"
    using mem_DelByIP_sim [OF r] by blast
  have "map_of (filter (\<lambda>p. snd p \<noteq> i) L) h = (if map_of L h = Some i then None else map_of L h)" for h
    by (rule map_of_filter_snd [OF mem_rel_distinct(1) [OF r]])
  with s' mem_assoc_eq [OF r] mem_assoc_eq [OF s'(2)] show ?case
    by (auto simp: mem_ops_def mem_inv_def fun_eq_iff)
next
  case (6 s h i)
  then obtain L where r: "mem_rel s L" by (auto simp: mem_inv_def)
  have h: "map_of L h = None" and i: "\<forall>g. (g, i) \<notin> set L"
    using 6 mem_assoc_eq [OF r] map_of_pair [OF mem_rel_distinct(1) [OF r]] by auto
  obtain s1 s2 where s: "mem_PutByIP now i h s = Some s1" "mem_PutByHost now h i s1 = Some s2"
    "mem_rel s2 (push_bounded (maxSize (cacheIP (fst s))) (h, i) L)"
    using mem_put_sim [OF r h i] by blast
  have "mem_inv s2" using s(3) by (auto simp: mem_inv_def)
  with s(1,2) mem_assoc_eq [OF r] mem_assoc_eq [OF s(3)] map_of_push [OF mem_rel_distinct(1) [OF r] h]
  show ?case by (intro exI [of _ s1] exI [of _ s2]) (simp add: mem_ops_def)
qed

section \<open>The cache file keeps the contract\<close>

text \<open>One bucket holds both directions, so a host name whose bytes are those of an address of the
  pool would collide; those, the two keys of the pool's own state and names the database refuses
  are excluded.\<close>

definition cf_hosts :: "(Addr \<Rightarrow> bool) \<Rightarrow> string \<Rightarrow> bool" where
  "cf_hosts P h \<longleftrightarrow> key_ok (to_bytes h) \<and> h \<noteq> offsetKey \<and> h \<noteq> cycleKey \<and>
     (\<forall>ip. P ip \<longrightarrow> AsSlice ip \<noteq> to_bytes h)"

definition cf_assoc :: "'d bolt \<Rightarrow> (Addr \<Rightarrow> bool) \<Rightarrow> 'd CacheFile \<Rightarrow> string \<Rightarrow> Addr option" where
  "cf_assoc B P c h = (if cf_hosts P h then fakeips B c (to_bytes h) \<bind> AddrFromSlice else None)"

definition cf_inv :: "'d bolt \<Rightarrow> (Addr \<Rightarrow> bool) \<Rightarrow> 'd CacheFile \<Rightarrow> bool" where
  "cf_inv B P c \<longleftrightarrow> DB c \<noteq> None \<and>
     (\<forall>h v. cf_hosts P h \<and> fakeips B c (to_bytes h) = Some v \<longrightarrow>
        (\<exists>ip. P ip \<and> v = AsSlice ip \<and> fakeips B c (AsSlice ip) = Some (to_bytes h))) \<and>
     (\<forall>ip v. P ip \<and> fakeips B c (AsSlice ip) = Some v \<longrightarrow>
        (\<exists>h. cf_hosts P h \<and> v = to_bytes h \<and> fakeips B c (to_bytes h) = Some (AsSlice ip)))"

lemma AddrFromSlice_AsSlice: "a \<noteq> AddrZero \<Longrightarrow> AddrFromSlice (AsSlice a) = Some a"
  by (cases a) (simp_all add: AddrFromSlice_def length_bytes_of word_of_bytes_of)

lemma AsSlice_inj: "a \<noteq> AddrZero \<Longrightarrow> b \<noteq> AddrZero \<Longrightarrow> AsSlice a = AsSlice b \<Longrightarrow> a = b"
  by (metis AddrFromSlice_AsSlice option.inject)

lemma cf_assoc_Some:
  assumes "cf_inv B P c" "\<not> P AddrZero"
  shows "cf_assoc B P c h = Some i \<longleftrightarrow> cf_hosts P h \<and> P i \<and>
    fakeips B c (to_bytes h) = Some (AsSlice i) \<and> fakeips B c (AsSlice i) = Some (to_bytes h)"
proof
  assume "cf_assoc B P c h = Some i"
  then obtain v where v: "cf_hosts P h" "fakeips B c (to_bytes h) = Some v" "AddrFromSlice v = Some i"
    by (auto simp: cf_assoc_def bind_eq_Some_conv split: if_splits)
  then obtain ip where "P ip" "v = AsSlice ip" "fakeips B c (AsSlice ip) = Some (to_bytes h)"
    using assms(1) unfolding cf_inv_def by blast
  with v assms(2) AddrFromSlice_AsSlice [of ip] show "cf_hosts P h \<and> P i \<and>
    fakeips B c (to_bytes h) = Some (AsSlice i) \<and> fakeips B c (AsSlice i) = Some (to_bytes h)" by auto
next
  assume a: "cf_hosts P h \<and> P i \<and>
    fakeips B c (to_bytes h) = Some (AsSlice i) \<and> fakeips B c (AsSlice i) = Some (to_bytes h)"
  then have "i \<noteq> AddrZero" using assms(2) by auto
  with a show "cf_assoc B P c h = Some i" by (simp add: cf_assoc_def AddrFromSlice_AsSlice)
qed

lemma cf_assoc_None:
  assumes "cf_inv B P c" "\<not> P AddrZero" "cf_hosts P h"
  shows "cf_assoc B P c h = None \<longleftrightarrow> fakeips B c (to_bytes h) = None"
proof
  assume n: "cf_assoc B P c h = None"
  show "fakeips B c (to_bytes h) = None"
  proof (rule ccontr)
    assume "fakeips B c (to_bytes h) \<noteq> None"
    then obtain v where "fakeips B c (to_bytes h) = Some v" by auto
    then obtain ip where "P ip" "fakeips B c (to_bytes h) = Some (AsSlice ip)"
      "fakeips B c (AsSlice ip) = Some (to_bytes h)"
      using assms(1,3) unfolding cf_inv_def by blast
    with cf_assoc_Some [OF assms(1,2), of h ip] n assms(3) show False by simp
  qed
qed (simp add: cf_assoc_def assms(3))

text \<open>The two parts of the invariant from a change of the bucket.\<close>

lemma cf_by_ip:
  assumes "cf_inv B P c" "\<not> P AddrZero" "P i"
  shows "fakeips B c (AsSlice i) = Some v \<longleftrightarrow> (\<exists>h. v = to_bytes h \<and> cf_assoc B P c h = Some i)"
proof
  assume "fakeips B c (AsSlice i) = Some v"
  then obtain h where "cf_hosts P h" "v = to_bytes h" "fakeips B c (to_bytes h) = Some (AsSlice i)"
    using assms unfolding cf_inv_def by blast
  with \<open>fakeips B c (AsSlice i) = Some v\<close> assms(3) show "\<exists>h. v = to_bytes h \<and> cf_assoc B P c h = Some i"
    by (auto simp: cf_assoc_Some [OF assms(1,2)])
next
  assume "\<exists>h. v = to_bytes h \<and> cf_assoc B P c h = Some i"
  then show "fakeips B c (AsSlice i) = Some v" by (auto simp: cf_assoc_Some [OF assms(1,2)])
qed

lemma key_ok_AsSlice: "a \<noteq> AddrZero \<Longrightarrow> key_ok (AsSlice a)"
  by (cases a) (auto simp: key_ok_def simp flip: length_0_conv)

lemma value_ok_AsSlice: "value_ok (AsSlice a)"
  by (cases a) auto

lemma cf_put_pair:
  assumes B: "bolt_ok B" and P0: "\<not> P AddrZero" and inv: "cf_inv B P c"
    and h: "cf_hosts P h" and i: "P i" and new: "cf_assoc B P c h = None" "\<forall>g. cf_assoc B P c g \<noteq> Some i"
  shows "\<exists>c1 c2. cf_PutByIP B i h c = Some c1 \<and> cf_PutByHost B h i c1 = Some c2 \<and> cf_inv B P c2 \<and>
    cf_assoc B P c2 h = Some i \<and> (\<forall>g. g \<noteq> h \<longrightarrow> cf_assoc B P c2 g = cf_assoc B P c g)"
proof -
  let ?f = "fakeips B c"
  have i0: "i \<noteq> AddrZero" using i P0 by auto
  have db: "DB c \<noteq> None" using inv by (simp add: cf_inv_def)
  have vh: "value_ok (to_bytes h)" using h by (auto simp: cf_hosts_def key_ok_def)
  obtain c1 where c1: "PutFakeip B (AsSlice i) (to_bytes h) c = (c1, True)" "DB c1 \<noteq> None"
    "fakeips B c1 = ?f(AsSlice i \<mapsto> to_bytes h)" using PutFakeip_eq [OF B db key_ok_AsSlice [OF i0] vh] by blast
  obtain c2 where c2: "PutFakeip B (to_bytes h) (AsSlice i) c1 = (c2, True)" "DB c2 \<noteq> None"
    "fakeips B c2 = (fakeips B c1)(to_bytes h \<mapsto> AsSlice i)"
    using PutFakeip_eq [OF B c1(2) _ value_ok_AsSlice, of "to_bytes h"] h unfolding cf_hosts_def by blast
  have ne: "AsSlice j \<noteq> to_bytes g" "j \<noteq> AddrZero" if "P j" "cf_hosts P g" for j g
    using that P0 by (auto simp: cf_hosts_def)
  have f: "fakeips B c2 = ?f(AsSlice i \<mapsto> to_bytes h, to_bytes h \<mapsto> AsSlice i)" using c1 c2 by simp
  have fh: "fakeips B c2 (to_bytes g) = (if g = h then Some (AsSlice i) else ?f (to_bytes g))"
    if "cf_hosts P g" for g using ne [OF i that] by (auto simp: f to_bytes_inj)
  have fi: "fakeips B c2 (AsSlice j) = (if j = i then Some (to_bytes h) else ?f (AsSlice j))"
    if "P j" for j using ne [OF that h] AsSlice_inj [OF _ i0, of j] by (auto simp: f)
  have inv2: "cf_inv B P c2" unfolding cf_inv_def
  proof (intro conjI allI impI)
    show "DB c2 \<noteq> None" by (rule c2(2))
  next
    fix g v assume a: "cf_hosts P g \<and> fakeips B c2 (to_bytes g) = Some v"
    show "\<exists>ip. P ip \<and> v = AsSlice ip \<and> fakeips B c2 (AsSlice ip) = Some (to_bytes g)"
    proof (cases "g = h")
      case True
      with a fh [OF h] fi [OF i] i show ?thesis by (intro exI [of _ i]) simp
    next
      case False
      with a fh [of g] have "?f (to_bytes g) = Some v" by auto
      then obtain ip where ip: "P ip" "v = AsSlice ip" "?f (AsSlice ip) = Some (to_bytes g)"
        using inv a unfolding cf_inv_def by blast
      have "ip \<noteq> i" using ip new(2) cf_by_ip [OF inv P0 i, of "to_bytes g"] by auto
      with ip fi show ?thesis by auto
    qed
  next
    fix j v assume a: "P j \<and> fakeips B c2 (AsSlice j) = Some v"
    show "\<exists>g. cf_hosts P g \<and> v = to_bytes g \<and> fakeips B c2 (to_bytes g) = Some (AsSlice j)"
    proof (cases "j = i")
      case True
      with a fi fh [OF h] h i show ?thesis by auto
    next
      case False
      with a fi [of j] have "?f (AsSlice j) = Some v" by auto
      then obtain g where g: "cf_hosts P g" "v = to_bytes g" "?f (to_bytes g) = Some (AsSlice j)"
        using inv a unfolding cf_inv_def by blast
      have "g \<noteq> h" using g new(1) cf_assoc_None [OF inv P0 h] by auto
      with g fh show ?thesis by auto
    qed
  qed
  have "cf_assoc B P c2 h = Some i"
    unfolding cf_assoc_Some [OF inv2 P0] using h i fh [OF h] fi [OF i] by simp
  moreover have "cf_assoc B P c2 g = cf_assoc B P c g" if "g \<noteq> h" for g
    using that fh [of g] by (auto simp: cf_assoc_def)
  ultimately show ?thesis using c1(1) c2(1) inv2 by (simp add: cf_PutByIP_def cf_PutByHost_def)
qed

lemma cf_del:
  assumes B: "bolt_ok B" and P0: "\<not> P AddrZero" and inv: "cf_inv B P c" and i: "P i"
  shows "\<exists>c'. cf_DelByIP B i c = Some c' \<and> cf_inv B P c' \<and>
    cf_assoc B P c' = (\<lambda>h. if cf_assoc B P c h = Some i then None else cf_assoc B P c h)"
proof -
  let ?f = "fakeips B c"
  have i0: "i \<noteq> AddrZero" using i P0 by auto
  have db: "DB c \<noteq> None" using inv by (simp add: cf_inv_def)
  define hb where "hb = (case ?f (AsSlice i) of None \<Rightarrow> [] | Some v \<Rightarrow> v)"
  obtain c' where c': "DelFakeipPair B (AsSlice i) hb c = (c', True)" "DB c' \<noteq> None"
    "fakeips B c' = (if hb = [] then ?f(AsSlice i := None) else ?f(AsSlice i := None, hb := None))"
    using DelFakeipPair_eq [OF B db] by blast
  have hb: "hb = to_bytes h \<longleftrightarrow> cf_assoc B P c h = Some i" if "cf_hosts P h" for h
  proof -
    have "to_bytes h \<noteq> []" using that by (auto simp: cf_hosts_def key_ok_def)
    then show ?thesis
      using cf_by_ip [OF inv P0 i] unfolding hb_def
      by (cases "?f (AsSlice i)") (auto simp: to_bytes_inj dest: sym)
  qed
  have ne: "AsSlice j \<noteq> to_bytes g" if "P j" "cf_hosts P g" for j g
    using that P0 by (auto simp: cf_hosts_def)
  have hb2: "hb = [] \<or> (\<exists>h. cf_hosts P h \<and> hb = to_bytes h)"
  proof (cases "?f (AsSlice i)")
    case (Some v)
    then obtain h where "v = to_bytes h" "cf_assoc B P c h = Some i"
      using cf_by_ip [OF inv P0 i, of v] by blast
    then show ?thesis using Some cf_assoc_Some [OF inv P0, of h i] by (simp add: hb_def) blast
  qed (simp add: hb_def)
  have fh: "fakeips B c' (to_bytes g) = (if cf_assoc B P c g = Some i then None else ?f (to_bytes g))"
    if g: "cf_hosts P g" for g
    using ne [OF i g] hb [OF g] g unfolding c'(3) by (auto simp: cf_hosts_def key_ok_def)
  have fi: "fakeips B c' (AsSlice j) = (if j = i then None else ?f (AsSlice j))" if j: "P j" for j
  proof -
    have "j \<noteq> AddrZero" using j P0 by auto
    from hb2 ne [OF j] AsSlice_inj [OF this i0] show ?thesis unfolding c'(3) by auto
  qed
  have inv': "cf_inv B P c'" unfolding cf_inv_def
  proof (intro conjI allI impI)
    show "DB c' \<noteq> None" by (rule c'(2))
  next
    fix g v assume a: "cf_hosts P g \<and> fakeips B c' (to_bytes g) = Some v"
    with fh have n: "cf_assoc B P c g \<noteq> Some i" "?f (to_bytes g) = Some v" by (auto split: if_splits)
    then obtain ip where ip: "P ip" "v = AsSlice ip" "?f (AsSlice ip) = Some (to_bytes g)"
      using inv a unfolding cf_inv_def by blast
    have "ip \<noteq> i" using ip n a cf_assoc_Some [OF inv P0] by auto
    with ip fi show "\<exists>ip. P ip \<and> v = AsSlice ip \<and> fakeips B c' (AsSlice ip) = Some (to_bytes g)" by auto
  next
    fix j v assume a: "P j \<and> fakeips B c' (AsSlice j) = Some v"
    with fi have j: "j \<noteq> i" "?f (AsSlice j) = Some v" by (auto split: if_splits)
    then obtain g where g: "cf_hosts P g" "v = to_bytes g" "?f (to_bytes g) = Some (AsSlice j)"
      using inv a unfolding cf_inv_def by blast
    have "cf_assoc B P c g = Some j" using g j a cf_assoc_Some [OF inv P0] by auto
    with j g fh show "\<exists>g. cf_hosts P g \<and> v = to_bytes g \<and> fakeips B c' (to_bytes g) = Some (AsSlice j)"
      by auto
  qed
  have "cf_assoc B P c' h = (if cf_assoc B P c h = Some i then None else cf_assoc B P c h)" for h
    using fh [of h] by (auto simp: cf_assoc_def)
  then show ?thesis
    using c'(1) inv' GetFakeip_eq [OF B, of "AsSlice i" c]
    by (simp add: cf_DelByIP_def Let_def hb_def fun_eq_iff)
qed

lemma cf_store:
  assumes B: "bolt_ok B" and P0: "\<not> P AddrZero"
  shows "fakeip_store (cf_ops B) (cf_inv B P) (cf_assoc B P) (cf_hosts P) P"
proof (unfold_locales, goal_cases)
  case (1 s h i g)
  then show ?case using cf_assoc_Some [OF 1(1) P0] by (auto simp: to_bytes_inj)
next
  case (2 s h)
  have "cf_GetByHost B h s = Some (s, cf_assoc B P s h)"
  proof (cases "fakeips B s (to_bytes h)")
    case None
    with cf_assoc_None [OF 2(1) P0 2(2)] GetFakeip_eq [OF B] show ?thesis by (simp add: cf_GetByHost_def)
  next
    case (Some v)
    with 2 obtain ip where ip: "P ip" "v = AsSlice ip" unfolding cf_inv_def by blast
    with P0 have "ip \<noteq> AddrZero" by auto
    with Some ip 2(2) show ?thesis
      by (cases ip) (simp_all add: cf_GetByHost_def GetFakeip_eq [OF B] cf_assoc_def AddrFromSlice_def word_of_bytes_of)
  qed
  with 2 show ?case by (simp add: cf_ops_def)
next
  case (3 s i)
  show ?case
  proof (cases "fakeips B s (AsSlice i)")
    case None
    then have "cf_assoc B P s h \<noteq> Some i" for h using cf_assoc_Some [OF 3(1) P0] by auto
    with 3 None GetFakeip_eq [OF B] show ?thesis by (simp add: cf_ops_def cf_GetByIP_def)
  next
    case (Some v)
    then obtain g where g: "v = to_bytes g" "cf_assoc B P s g = Some i" using cf_by_ip [OF 3(1) P0 3(2)] by blast
    then have "of_bytes v = h \<longleftrightarrow> cf_assoc B P s h = Some i" for h
      using cf_assoc_Some [OF 3(1) P0] Some by (auto simp: to_bytes_inj)
    with 3 Some GetFakeip_eq [OF B] show ?thesis by (simp add: cf_ops_def cf_GetByIP_def)
  qed
next
  case (4 s i)
  have "cf_Exist B i s \<longleftrightarrow> fakeips B s (AsSlice i) \<noteq> None"
    by (auto simp: cf_Exist_def cf_GetByIP_def GetFakeip_eq [OF B] split: option.splits)
  also have "\<dots> \<longleftrightarrow> (\<exists>h. cf_assoc B P s h = Some i)" using cf_by_ip [OF 4(1) P0 4(2)] by auto
  finally show ?case by (simp add: cf_ops_def)
next
  case (5 s i)
  then show ?case using cf_del [OF B P0 5] by (simp add: cf_ops_def)
next
  case (6 s h i)
  then show ?case using cf_put_pair [OF B P0 6(1-5)] by (auto simp: cf_ops_def)
qed

section \<open>New pools\<close>

lemma addr_Next_valid: "addr_Next a \<noteq> AddrZero \<Longrightarrow> addr_Next (addr_Prev (addr_Next a)) = addr_Next a"
  by (cases a) (auto split: if_splits)

lemma BitLen_Next: "addr_Next a \<noteq> AddrZero \<Longrightarrow> BitLen (addr_Next a) = BitLen a"
  by (cases a) (auto split: if_splits)

lemma new_range:
  assumes v: "pfx_IsValid p" and g: "a = addr_Next (addr_Next (addr_Next (addr_Next (pfx_Addr (Masked p)))))"
    and ok: "addr_IsValid a"
  shows "BitLen a = BitLen (UnMasked p)" "addr_Next (addr_Prev a) = a"
proof -
  let ?a = "pfx_Addr (Masked p)"
  have n: "addr_Next (addr_Next (addr_Next (addr_Next ?a))) \<noteq> AddrZero"
    using g ok by (simp add: addr_IsValid_def)
  have z: "addr_Next AddrZero = AddrZero" by simp
  have "BitLen (addr_Next (addr_Next (addr_Next (addr_Next ?a)))) = BitLen ?a"
    using n z BitLen_Next by metis
  moreover have "BitLen ?a = BitLen (UnMasked p)"
  proof (cases "pfx_Addr p")
    case AddrZero
    with v show ?thesis by (simp add: pfx_IsValid_def)
  next
    case (V4 w)
    with v UnMasked_V4 [OF v V4] show ?thesis by (simp add: Masked_def)
  next
    case (V6 w)
    with v UnMasked_V6 [OF v V6] show ?thesis by (simp add: Masked_def)
  qed
  ultimately show "BitLen a = BitLen (UnMasked p)" using g by simp
  show "addr_Next (addr_Prev a) = a" using n g addr_Next_valid by blast
qed

lemma newMemoryStore_rel: "mem_rel (newMemoryStore n h) []"
proof -
  obtain c1 h1 where 1: "NewLru [WithSize n] (hIP h) = (c1, h1)" "lru_rel c1 h1 []"
    using NewLru_sim [of "[WithSize n]" "hIP h"] std_options(1) by auto
  obtain c2 h2 where 2: "NewLru [WithSize n] (hHost h) = (c2, h2)" "lru_rel c2 h2 []"
    using NewLru_sim [of "[WithSize n]" "hHost h"] std_options(1) by auto
  have "maxAge c1 = 0" "maxSize c1 = n" "maxAge c2 = 0" "maxSize c2 = n"
    using 1(1) 2(1) by (auto simp: NewLru_def WithSize_def split: prod.splits)
  with 1 2 show ?thesis by (simp add: newMemoryStore_def mem_rel_def)
qed

lemma New_memory_ok:
  assumes "New_memory now h opts = Some (Inr p)"
  shows "mem.pool_ok p \<and> mem.in_range p"
proof -
  let ?n = "o_IPNet opts"
  let ?f = "addr_Next (addr_Next (addr_Next (addr_Next (pfx_Addr (Masked ?n)))))"
  have c: "pfx_IsValid ?n" "addr_IsValid ?f" "addr_Less ?f (UnMasked ?n)"
    using assms by (auto simp: New_memory_def NewPool_def Let_def split: if_splits)
  have p: "p_first p = ?f" "p_last p = UnMasked ?n" "p_offset p = addr_Prev ?f"
    "p_store p = newMemoryStore (o_Size opts) h"
    using assms c by (auto simp: New_memory_def NewPool_def Let_def restoreState_def mem_ops_def)
  have r: "mem_rel (p_store p) []" using p(4) newMemoryStore_rel by simp
  then have "mem_inv (p_store p)" by (auto simp: mem_inv_def)
  moreover have "\<not> addr_Less ?f ?f" using addr_first [OF c(3)] new_range(1) [OF c(1) refl c(2)] by simp
  ultimately show ?thesis
    using c(3) new_range [OF c(1) refl c(2)] mem_assoc_eq [OF r]
    unfolding mem.pool_ok_def mem.in_range_def p(1-3) by simp
qed

text \<open>C2: whatever lookups went before, on a pool with a memory store the address given out for a
  host lies in the pool's range, reading it back gives the (lower-case) host also at a later time,
  and asking again gives the same address; no operation panics.\<close>

theorem fakeip_memory_lookback:
  assumes "New_memory t0 h opts = Some (Inr p0)"
  shows "\<exists>p p1 ip p2. pool_run (mem_ops t1) xs p0 = Some p \<and> Lookup (mem_ops t2) host p = Some (p1, ip) \<and>
    \<not> addr_Less ip (p_first p0) \<and> addr_Less ip (p_last p0) \<and>
    LookBack (mem_ops t2) ip p1 = Some (p2, Some (ToLower host)) \<and>
    (\<exists>p3. Lookup (mem_ops t2) host p2 = Some (p3, ip))"
proof -
  have "\<forall>x \<in> set xs. mem.op_ok x" by (auto simp: mem.op_ok_def split: pool_op.splits)
  then obtain p where p: "pool_run (mem_ops t1) xs p0 = Some p" "mem.pool_ok p" "mem.in_range p"
    "p_first p = p_first p0" "p_last p = p_last p0"
    using mem.run_ok [of p0 xs t1] New_memory_ok [OF assms] by blast
  from mem.Lookup_LookBack [OF p(2,3) TrueI, where host = host and now = t2] p(1,4,5) show ?thesis by auto
qed

definition demo_heap :: mem_heap where
  "demo_heap = \<lparr>hIP = empty_lru_heap, hHost = empty_lru_heap\<rparr>"

definition demo_options :: pool_options where
  "demo_options = \<lparr>o_IPNet = \<lparr>pfx_Addr = V4 0xC6120001, pfx_Bits = 16\<rparr>, o_Host = None, o_Size = 1,
     o_Persistence = False\<rparr>"

lemma demo_pool: "\<exists>p. New_memory 0 demo_heap demo_options = Some (Inr p) \<and> p_first p = V4 0xC6120004 \<and>
   p_store p = newMemoryStore 1 demo_heap"
proof -
  have "pfx_IsValid (o_IPNet demo_options)" "UnMasked (o_IPNet demo_options) = V4 0xC612FFFF"
    "addr_Next (addr_Next (addr_Next (addr_Next (pfx_Addr (Masked (o_IPNet demo_options)))))) = V4 0xC6120004"
    by code_simp+
  then show ?thesis
    by (simp add: New_memory_def NewPool_def Let_def restoreState_def mem_ops_def addr_IsValid_def demo_options_def)
qed

lemma fakeip_memory_lookback_witness:
  "\<exists>p0 p p1 ip p2. New_memory 0 demo_heap demo_options = Some (Inr p0) \<and>
     pool_run (mem_ops 1) [OpLookup ''a.org'', OpLookBack (V4 7), OpLookup ''b.org''] p0 = Some p \<and>
     Lookup (mem_ops 2) ''C.org'' p = Some (p1, ip) \<and>
     LookBack (mem_ops 2) ip p1 = Some (p2, Some (ToLower ''C.org''))"
  using demo_pool fakeip_memory_lookback [of 0 demo_heap demo_options _ 1
      "[OpLookup ''a.org'', OpLookBack (V4 7), OpLookup ''b.org'']" 2 "''C.org''"] by blast

text \<open>\<open>FlushFakeIP\<close> on a memory store that was full, whose least recently used address is the first
  of the pool: the next lookup hands that address out again, and it cannot be read back.\<close>

theorem fakeip_flush_loses_lookback:
  assumes r: "mem_rel (p_store p) L" and full: "0 < maxSize (cacheIP (fst (p_store p)))"
      "int (length L) = maxSize (cacheIP (fst (p_store p)))"
    and lru: "snd (hd L) = p_first p"
    and rng: "addr_Less (p_first p) (p_last p)" "addr_Next (addr_Prev (p_first p)) = p_first p"
  shows "\<exists>q q1 q2. pool_FlushFakeIP (mem_ops t) p = Some (q, True) \<and>
    Lookup (mem_ops t) host q = Some (q1, p_first p) \<and> LookBack (mem_ops t) (p_first p) q1 = Some (q2, None)"
proof -
  obtain m h where s: "p_store p = (m, h)" by (cases "p_store p")
  obtain c1 h1 where 1: "lru_Clear (cacheIP m, hIP h) = (c1, h1)" "cache c1 = Map.empty" by (simp add: lru_Clear_def)
  obtain c2 h2 where 2: "lru_Clear (cacheHost m, hHost h) = (c2, h2)" "cache c2 = Map.empty" by (simp add: lru_Clear_def)
  define m' where "m' = \<lparr>cacheIP = c1, cacheHost = c2\<rparr>"
  define h' where "h' = \<lparr>hIP = h1, hHost = h2\<rparr>"
  define q where "q = p\<lparr>p_cycle := False, p_offset := addr_Prev (p_first p), p_store := (m', h')\<rparr>"
  have flush: "pool_FlushFakeIP (mem_ops t) p = Some (q, True)"
    using 1(1) 2(1) by (simp add: pool_FlushFakeIP_def mem_ops_def mem_FlushFakeIP_def s q_def m'_def h'_def)
  have L: "L \<noteq> []" using full by auto
  have na: "\<not> expiring (cacheIP m)" "\<not> expiring (cacheHost m)" "maxSize (cacheIP m) = maxSize (cacheHost m)"
    using r by (simp_all add: mem_rel_def s expiring_def)
  obtain d2 g2 where set2: "lru_Set t (p_first p) (ToLower host) (c2, h2) = Some (d2, g2)"
    "\<not> lru_Exist (p_first p) (d2, g2)"
    using lru_clear_loses_next_set [of "cacheHost m" "hHost h" "map ent (map prod.swap L)" "p_first p" t "ToLower host"]
      r full na lru L 2(1) by (auto simp: mem_rel_def s hd_map)
  obtain d1 g1 where set1: "lru_Set t (ToLower host) (p_first p) (c1, h1) = Some (d1, g1)"
    using lru_set_after_clear [of "cacheIP m" "hIP h" "map ent L" t "ToLower host" "p_first p"] r full na 1(1)
    by (auto simp: mem_rel_def s)
  have get: "mem_GetByHost t (ToLower host) (m', h') = Some ((m', h'), None)"
    using 1(2) by (simp add: mem_GetByHost_def on_IP_def lru_Get_def lru_get_def m'_def h'_def)
  have ex: "\<not> mem_Exist (p_first p) (m', h')" using 2(2) by (simp add: mem_Exist_def lru_Exist_def m'_def)
  define st where "st = (m'\<lparr>cacheHost := d2\<rparr>, h'\<lparr>hHost := g2\<rparr>)"
  have put: "mem_PutByIP t (p_first p) (ToLower host) (m', h') = Some st"
    using set2 by (simp add: mem_PutByIP_def on_Host_def no_result_def m'_def h'_def st_def)
  define st' where "st' = ((fst st)\<lparr>cacheIP := d1\<rparr>, (snd st)\<lparr>hIP := g1\<rparr>)"
  have put': "mem_PutByHost t (ToLower host) (p_first p) st = Some st'"
    using set1 by (simp add: mem_PutByHost_def on_IP_def no_result_def m'_def h'_def st_def st'_def)
  define q1 where "q1 = p\<lparr>p_cycle := False, p_offset := p_first p, p_store := st'\<rparr>"
  have "pool_get (mem_ops t) (ToLower host) q = Some (q\<lparr>p_offset := p_first p, p_store := st\<rparr>, p_first p)"
    using rng ex put by (simp add: pool_get_def Let_def q_def mem_ops_def)
  then have "Lookup (mem_ops t) host q = Some (q1, p_first p)"
    using get put' by (simp add: Lookup_def Let_def mem_ops_def q_def q1_def)
  moreover have "cache d2 (p_first p) = None" using set2(2) by (simp add: lru_Exist_def)
  then have "LookBack (mem_ops t) (p_first p) q1 = Some (q1, None)"
    by (simp add: LookBack_def mem_ops_def mem_GetByIP_def on_Host_def lru_Get_def lru_get_def q1_def st'_def st_def)
  ultimately show ?thesis using flush by blast
qed

lemma demo_lookup:
  assumes p: "New_memory 0 demo_heap demo_options = Some (Inr p0)"
    "p_first p0 = V4 0xC6120004" "p_store p0 = newMemoryStore 1 demo_heap"
  shows "\<exists>p. Lookup (mem_ops 1) ''a.org'' p0 = Some (p, p_first p0) \<and> p_first p = p_first p0 \<and>
    p_last p = p_last p0 \<and> mem_rel (p_store p) [(''a.org'', p_first p0)] \<and>
    maxSize (cacheIP (fst (p_store p))) = 1"
proof -
  let ?s = "newMemoryStore 1 demo_heap"
  have r: "mem_rel ?s []" by (rule newMemoryStore_rel)
  have n: "maxSize (cacheIP (fst ?s)) = 1"
    by (simp add: newMemoryStore_def NewLru_def WithSize_def split: prod.splits)
  define H where "H = ''a.org''"
  have h: "ToLower ''a.org'' = H" unfolding H_def by code_simp
  obtain s1 where s1: "mem_GetByHost 1 H ?s = Some (s1, None)" "mem_rel s1 []"
    "maxSize (cacheIP (fst s1)) = 1"
    using mem_GetByHost_sim [OF r, of 1 H] n by (auto simp: touch_def)
  have ex: "\<not> mem_Exist (p_first p0) s1" using mem_Exist_sim [OF s1(2)] by simp
  obtain s2 s3 where s2: "mem_PutByIP 1 (p_first p0) H s1 = Some s2"
    "mem_PutByHost 1 H (p_first p0) s2 = Some s3" "mem_rel s3 [(H, p_first p0)]"
    "maxSize (cacheIP (fst s3)) = 1"
    using mem_put_sim [OF s1(2), of H "p_first p0" 1] s1(3) by (auto simp: push_bounded_def)
  have o: "p_offset p0 = V4 0xC6120003" "p_cycle p0 = False" "addr_Less (p_first p0) (p_last p0)"
    using p by (auto simp: New_memory_def NewPool_def Let_def restoreState_def mem_ops_def split: if_splits)
  have "Lookup (mem_ops 1) ''a.org'' p0 =
      Some (p0\<lparr>p_offset := p_first p0, p_store := s3\<rparr>, p_first p0)"
  proof -
    have "pool_get (mem_ops 1) H (p0\<lparr>p_store := s1\<rparr>) = Some (p0\<lparr>p_offset := p_first p0, p_store := s2\<rparr>, p_first p0)"
      using ex s2(1) o p(2) by (simp add: pool_get_def Let_def mem_ops_def)
    with s1(1) s2(2) p(3) show ?thesis unfolding Lookup_def h Let_def by (simp add: mem_ops_def)
  qed
  with s2 show ?thesis by (intro exI [of _ "p0\<lparr>p_offset := p_first p0, p_store := s3\<rparr>"]) (simp add: H_def)
qed

lemma fakeip_flush_loses_lookback_witness:
  "\<exists>p0 p q q1 q2. New_memory 0 demo_heap demo_options = Some (Inr p0) \<and>
     Lookup (mem_ops 1) ''a.org'' p0 = Some (p, p_first p0) \<and>
     pool_FlushFakeIP (mem_ops 2) p = Some (q, True) \<and>
     Lookup (mem_ops 2) ''b.org'' q = Some (q1, p_first p0) \<and>
     LookBack (mem_ops 2) (p_first p0) q1 = Some (q2, None)"
proof -
  obtain p0 where p0: "New_memory 0 demo_heap demo_options = Some (Inr p0)" "p_first p0 = V4 0xC6120004"
    "p_store p0 = newMemoryStore 1 demo_heap" using demo_pool by blast
  obtain p where p: "Lookup (mem_ops 1) ''a.org'' p0 = Some (p, p_first p0)" "p_first p = p_first p0"
    "p_last p = p_last p0" "mem_rel (p_store p) [(''a.org'', p_first p0)]"
    "maxSize (cacheIP (fst (p_store p))) = 1" using demo_lookup [OF p0] by blast
  have "addr_Less (p_first p) (p_last p)"
    using New_memory_ok [OF p0(1)] p(2,3) by (simp add: mem.pool_ok_def)
  moreover have "addr_Next (addr_Prev (p_first p)) = p_first p" using p(2) p0(2) by simp
  ultimately show ?thesis
    using fakeip_flush_loses_lookback [OF p(4), of 2 "''b.org''"] p p0(1) by auto
qed

text \<open>The addresses a pool hands out.\<close>

definition pool_addr :: "'s Pool \<Rightarrow> Addr \<Rightarrow> bool" where
  "pool_addr p a \<longleftrightarrow> \<not> addr_Less a (p_first p) \<and> addr_Less a (p_last p)"

lemma pool_addr_zero: "addr_Less (p_first p) (p_last p) \<Longrightarrow> BitLen (p_first p) = BitLen (p_last p) \<Longrightarrow>
  \<not> pool_addr p AddrZero"
  by (cases "p_first p"; cases "p_last p") (auto simp: pool_addr_def)

text \<open>A new pool on a cache file without fake-ip pairs.\<close>

lemma New_persistent_fields:
  assumes B: "bolt_ok B" and c: "DB c \<noteq> None" "fakeips B c = Map.empty"
    and n: "New_persistent B c opts = Some (Inr p)"
  shows "p_store p = c" "addr_Less (p_first p) (p_last p)" "BitLen (p_first p) = BitLen (p_last p)"
    "addr_Next (p_offset p) = p_first p"
proof -
  let ?n = "o_IPNet opts"
  let ?f = "addr_Next (addr_Next (addr_Next (addr_Next (pfx_Addr (Masked ?n)))))"
  have g: "cf_GetByHost B h c = Some (c, None)" for h
    by (simp add: cf_GetByHost_def GetFakeip_eq [OF B] c(2))
  have e: "\<not> cf_Exist B i c" for i
    by (simp add: cf_Exist_def cf_GetByIP_def GetFakeip_eq [OF B] c(2))
  have k: "pfx_IsValid ?n" "addr_IsValid ?f" "addr_Less ?f (UnMasked ?n)"
    using n by (auto simp: New_persistent_def NewPool_def Let_def split: if_splits)
  have f: "p_first p = ?f" "p_last p = UnMasked ?n" "p_offset p = addr_Prev ?f" "p_store p = c"
    using n k by (auto simp: New_persistent_def NewPool_def Let_def restoreState_def cf_ops_def g e)
  from f(4) show "p_store p = c" .
  from k f show "addr_Less (p_first p) (p_last p)" by simp
  from new_range [OF k(1) refl k(2)] f show "BitLen (p_first p) = BitLen (p_last p)"
    "addr_Next (p_offset p) = p_first p" by simp_all
qed

text \<open>C16: the same for a pool that persists its pairs in the cache file, over any database that keeps its documented
  contract and none of whose transactions fails, when the bucket is empty at the start: for host names of 1 to 32768
  bytes other than the two state keys and those that spell an address of the pool, and whatever such lookups and
  lookups back of addresses of the pool went before.\<close>

theorem fakeip_cachefile_lookback:
  assumes L: "bolt_laws B" and H: "bolt_healthy B" and c: "DB c \<noteq> None" "fakeips B c = Map.empty"
    and n: "New_persistent B c opts = Some (Inr p0)"
    and xs: "\<forall>x \<in> set xs. case x of OpLookup h \<Rightarrow> cf_hosts (pool_addr p0) (ToLower h)
      | OpLookBack i \<Rightarrow> pool_addr p0 i"
    and h: "cf_hosts (pool_addr p0) (ToLower host)"
  shows "\<exists>p p1 ip p2. pool_run (cf_ops B) xs p0 = Some p \<and> Lookup (cf_ops B) host p = Some (p1, ip) \<and>
    pool_addr p0 ip \<and> LookBack (cf_ops B) ip p1 = Some (p2, Some (ToLower host)) \<and>
    (\<exists>p3. Lookup (cf_ops B) host p2 = Some (p3, ip))"
proof -
  have B: "bolt_ok B" using L H by (simp add: bolt_ok_def)
  let ?P = "pool_addr p0"
  note nf = New_persistent_fields [OF B c n]
  have P0: "\<not> ?P AddrZero" using pool_addr_zero nf(2,3) by blast
  note st = cf_store [of B ?P, OF B P0]
  have "fakeip_store.pool_ok (cf_inv B ?P) ?P p0"
    unfolding fakeip_store.pool_ok_def [OF st] nf(1,4)
    using nf(2,3) c addr_first [OF nf(2,3)] by (auto simp: cf_inv_def pool_addr_def)
  moreover have "fakeip_store.in_range (cf_assoc B ?P) p0"
    unfolding fakeip_store.in_range_def [OF st] nf(1) by (auto simp: cf_assoc_def c)
  moreover have "\<forall>x \<in> set xs. fakeip_store.op_ok (cf_hosts ?P) ?P x"
    using xs unfolding fakeip_store.op_ok_def [OF st] .
  ultimately obtain p where p: "pool_run (cf_ops B) xs p0 = Some p"
    "fakeip_store.pool_ok (cf_inv B ?P) ?P p" "fakeip_store.in_range (cf_assoc B ?P) p"
    "p_first p = p_first p0" "p_last p = p_last p0"
    using fakeip_store.run_ok [OF st, of p0 xs] by blast
  from fakeip_store.Lookup_LookBack [OF st p(2,3) h] p(1,4,5) show ?thesis
    by (auto simp: pool_addr_def)
qed

definition demo_cachefile :: "(bytes \<rightharpoonup> bytes \<rightharpoonup> bytes) CacheFile" where
  "demo_cachefile = \<lparr>DB = Some Map.empty\<rparr>"

lemma fakeip_cachefile_lookback_witness:
  "\<exists>p0 p p1 ip p2. New_persistent bolt_maps demo_cachefile demo_options = Some (Inr p0) \<and>
     pool_run (cf_ops bolt_maps) [OpLookup ''a.cn''] p0 = Some p \<and>
     Lookup (cf_ops bolt_maps) ''b.org'' p = Some (p1, ip) \<and>
     LookBack (cf_ops bolt_maps) ip p1 = Some (p2, Some (ToLower ''b.org''))"
proof -
  have c: "DB demo_cachefile \<noteq> None" "fakeips bolt_maps demo_cachefile = Map.empty"
    by (auto simp: demo_cachefile_def fakeips_def contents_def bolt_maps_def fun_eq_iff)
  have "pfx_IsValid (o_IPNet demo_options)" "UnMasked (o_IPNet demo_options) = V4 0xC612FFFF"
    "addr_Next (addr_Next (addr_Next (addr_Next (pfx_Addr (Masked (o_IPNet demo_options)))))) = V4 0xC6120004"
    by code_simp+
  then obtain p0 where p0: "New_persistent bolt_maps demo_cachefile demo_options = Some (Inr p0)"
    "p_first p0 = V4 0xC6120004" "p_last p0 = V4 0xC612FFFF"
    using GetFakeip_eq [OF bolt_maps_ok, of _ demo_cachefile] c(2)
    by (simp add: New_persistent_def NewPool_def Let_def restoreState_def cf_ops_def addr_IsValid_def
        cf_GetByHost_def cf_Exist_def cf_GetByIP_def)
  have hd: "hd (AsSlice (V4 w)) = ucast (drop_bit 24 w)" for w
    by (simp add: bytes_of_def upt_conv_Cons)
  have nb: "AsSlice a \<noteq> to_bytes H" if H: "H = ToLower ''a.cn'' \<or> H = ToLower ''b.org''" and a: "pool_addr p0 a" for a H
  proof
    assume e: "AsSlice a = to_bytes H"
    obtain w where w: "a = V4 w" "0xC6120004 \<le> w" "w < 0xC612FFFF"
      using a p0 by (cases a) (auto simp: pool_addr_def not_less)
    have "hd (to_bytes H) = 97 \<or> hd (to_bytes H) = (98 :: 8 word)"
      using H by (elim disjE) (simp only:, code_simp)+
    then have "ucast (drop_bit 24 w) = (97 :: 8 word) \<or> ucast (drop_bit 24 w) = (98 :: 8 word)"
      using e hd [of w] w(1) by simp
    moreover have "drop_bit 24 w = 0xC6"
    proof -
      have "unat (drop_bit 24 w) = unat w div 16777216"
        by (subst unat_drop_bit_eq) (simp add: drop_bit_eq_div)
      moreover have "unat w div 16777216 = 198" using w(2,3) by (simp add: word_le_nat_alt word_less_nat_alt)
      ultimately show ?thesis by (simp add: word_unat_eq_iff)
    qed
    ultimately show False by simp
  qed
  have "key_ok (to_bytes (ToLower ''a.cn''))" "key_ok (to_bytes (ToLower ''b.org''))"
    by (simp_all add: key_ok_def)
  moreover have "ToLower ''a.cn'' \<noteq> offsetKey" "ToLower ''a.cn'' \<noteq> cycleKey"
    "ToLower ''b.org'' \<noteq> offsetKey" "ToLower ''b.org'' \<noteq> cycleKey" by code_simp+
  ultimately
  have hs: "cf_hosts (pool_addr p0) (ToLower ''a.cn'')" "cf_hosts (pool_addr p0) (ToLower ''b.org'')"
    unfolding cf_hosts_def using nb by blast+
  show ?thesis
    using fakeip_cachefile_lookback [OF bolt_maps_laws bolt_maps_healthy c p0(1), of "[OpLookup ''a.cn'']" "''b.org''"] hs p0(1)
    by (simp del: ToLower_simps) blast
qed

text \<open>The state saved by \<open>StoreState\<close> is the one \<open>restoreState\<close> finds at the next start: the same
  offset, the cycle mark (also one left from an earlier run), the same pairs.\<close>

theorem fakeip_persist:
  assumes B: "bolt_ok B" and db: "DB (p_store p) \<noteq> None"
    and o: "p_offset p \<noteq> AddrZero" "pfx_Contains (p_ipnet p) (p_offset p)"
    and cyc: "\<forall>v. fakeips B (p_store p) (to_bytes cycleKey) = Some v \<longrightarrow> (\<exists>a. a \<noteq> AddrZero \<and> v = AsSlice a)"
    and s: "StoreState (cf_ops B) p = Some p1"
  shows "\<exists>p2. restoreState (cf_ops B) (p\<lparr>p_cycle := False, p_offset := x, p_store := p_store p1\<rparr>) = Some p2 \<and>
    p_offset p2 = p_offset p \<and>
    (p_cycle p2 \<longleftrightarrow> p_cycle p \<or> fakeips B (p_store p) (to_bytes cycleKey) \<noteq> None) \<and>
    (\<forall>h. cf_assoc B P (p_store p2) h = cf_assoc B P (p_store p) h)"
proof -
  let ?c = "p_store p" and ?v = "AsSlice (p_offset p)"
  have k: "key_ok (to_bytes offsetKey)" "key_ok (to_bytes cycleKey)" "to_bytes offsetKey \<noteq> to_bytes cycleKey"
    by (simp_all add: key_ok_def offsetKey_def cycleKey_def to_bytes_inj)
  obtain c1 where c1: "PutFakeip B (to_bytes offsetKey) ?v ?c = (c1, True)" "DB c1 \<noteq> None"
    "fakeips B c1 = (fakeips B ?c)(to_bytes offsetKey \<mapsto> ?v)" using PutFakeip_eq [OF B db k(1) value_ok_AsSlice] by blast
  obtain c2 where c2: "PutFakeip B (to_bytes cycleKey) ?v c1 = (c2, True)" "DB c2 \<noteq> None"
    "fakeips B c2 = (fakeips B c1)(to_bytes cycleKey \<mapsto> ?v)" using PutFakeip_eq [OF B c1(2) k(2) value_ok_AsSlice] by blast
  define d where "d = p_store p1"
  have d: "d = (if p_cycle p then c2 else c1)"
    using s c1(1) c2(1) by (auto simp: StoreState_def cf_ops_def cf_PutByHost_def d_def)
  have fo: "fakeips B d (to_bytes offsetKey) = Some ?v" using d c1 c2 k(3) by auto
  have fc: "fakeips B d (to_bytes cycleKey) = (if p_cycle p then Some ?v else fakeips B ?c (to_bytes cycleKey))"
    using d c1 c2 k(3) by auto
  have fh: "fakeips B d (to_bytes h) = fakeips B ?c (to_bytes h)" if "cf_hosts P h" for h
    using that d c1 c2 by (auto simp: cf_hosts_def to_bytes_inj)
  have get: "cf_GetByHost B h d = Some (d, Some a)" if "fakeips B d (to_bytes h) = Some (AsSlice a)" "a \<noteq> AddrZero" for h a
    using that by (cases a) (simp_all add: cf_GetByHost_def GetFakeip_eq [OF B] word_of_bytes_of)
  have go: "cf_GetByHost B offsetKey d = Some (d, Some (p_offset p))" by (rule get [OF fo o(1)])
  have "\<exists>r. cf_GetByHost B cycleKey d = Some (d, r) \<and> (r \<noteq> None \<longleftrightarrow> fakeips B d (to_bytes cycleKey) \<noteq> None)"
  proof (cases "fakeips B d (to_bytes cycleKey)")
    case None
    then show ?thesis by (simp add: cf_GetByHost_def GetFakeip_eq [OF B])
  next
    case (Some v)
    then obtain a where "a \<noteq> AddrZero" "v = AsSlice a" using fc o(1) cyc by (auto split: if_splits)
    with get Some show ?thesis by auto
  qed
  then obtain r where gc: "cf_GetByHost B cycleKey d = Some (d, r)"
    "r \<noteq> None \<longleftrightarrow> fakeips B d (to_bytes cycleKey) \<noteq> None" by blast
  have "cf_assoc B P d h = cf_assoc B P ?c h" for h using fh [of h] by (simp add: cf_assoc_def)
  then show ?thesis
    using gc go o(2) fc
    by (auto simp: restoreState_def cf_ops_def d_def [symmetric] Let_def)
qed

lemma fakeip_persist_witness:
  "\<exists>p0 p1 p2. New_persistent bolt_maps demo_cachefile demo_options = Some (Inr p0) \<and>
     StoreState (cf_ops bolt_maps) p0 = Some p1 \<and>
     restoreState (cf_ops bolt_maps) (p0\<lparr>p_cycle := False, p_offset := V4 0xC6120FFF, p_store := p_store p1\<rparr>) = Some p2 \<and>
     p_offset p2 = V4 0xC6120003"
proof -
  have c: "DB demo_cachefile \<noteq> None" "fakeips bolt_maps demo_cachefile = Map.empty"
    by (auto simp: demo_cachefile_def fakeips_def contents_def bolt_maps_def fun_eq_iff)
  have "pfx_IsValid (o_IPNet demo_options)" "UnMasked (o_IPNet demo_options) = V4 0xC612FFFF"
    "addr_Next (addr_Next (addr_Next (addr_Next (pfx_Addr (Masked (o_IPNet demo_options)))))) = V4 0xC6120004"
    by code_simp+
  then obtain p0 where p0: "New_persistent bolt_maps demo_cachefile demo_options = Some (Inr p0)"
    "p_offset p0 = V4 0xC6120003" "p_store p0 = demo_cachefile" "p_ipnet p0 = o_IPNet demo_options"
    using GetFakeip_eq [OF bolt_maps_ok, of _ demo_cachefile] c(2)
    by (simp add: New_persistent_def NewPool_def Let_def restoreState_def cf_ops_def addr_IsValid_def
        cf_GetByHost_def cf_Exist_def cf_GetByIP_def)
  have "pfx_Contains (o_IPNet demo_options) (V4 0xC6120003)" by code_simp
  moreover obtain p1 where "StoreState (cf_ops bolt_maps) p0 = Some p1"
    by (cases "p_cycle p0") (simp_all add: StoreState_def cf_ops_def cf_PutByHost_def)
  ultimately show ?thesis
    using fakeip_persist [OF bolt_maps_ok, of p0 p1 "V4 0xC6120FFF"] c p0 by auto
qed

end
