(* ===== verification/DomainSet.thy ===== *)
theory DomainSet imports DomainTrie "HOL-Library.Word" "HOL-Library.Char_ord" "HOL-Library.List_Lexorder" begin

text \<open>
  The succinct domain set of \<^verbatim>\<open>component/trie/domain_set.go\<close>, which the \<^verbatim>\<open>domain\<close> rule providers
  match with: a byte trie of the reversed names in breadth-first order, kept as a bitmap of the
  children (0 for a child, 1 for the end of a node), the labels of the children and a bitmap of
  the leaves.

  Rank and select on a bitmap come from \<^verbatim>\<open>github.com/openacid/low/bitmap\<close> and are parameters of
  the definitions; \<open>rank_ones\<close> and \<open>select_one\<close> are the functions its documentation describes.
  \<open>None\<close> is an index out of range or a loop that does not end.
\<close>

unbundle bit_operations_syntax

section \<open>Bitmaps\<close>

type_synonym bitmap = "64 word list"

record rank_select =
  Rank64 :: "bitmap \<Rightarrow> nat \<Rightarrow> nat"        \<comment> \<open>the number of ones before a position\<close>
  Select32 :: "bitmap \<Rightarrow> nat \<Rightarrow> nat"      \<comment> \<open>the position of the \<open>i\<close>-th one, from 0\<close>

definition setBit :: "bitmap \<Rightarrow> nat \<Rightarrow> bool \<Rightarrow> bitmap" where
  "setBit bm i v =
     (let bm1 = bm @ replicate (i div 64 + 1 - length bm) 0
      in bm1[i div 64 := bm1 ! (i div 64) OR push_bit (i mod 64) (of_bool v)])"

definition getBit :: "bitmap \<Rightarrow> nat \<Rightarrow> bool option" where
  "getBit bm i = map_option (\<lambda>w. bit w (i mod 64)) (idx bm (i div 64))"

definition countZeros :: "rank_select \<Rightarrow> bitmap \<Rightarrow> nat \<Rightarrow> nat" where
  "countZeros R bm i = i - Rank64 R bm i"

definition selectIthOne :: "rank_select \<Rightarrow> bitmap \<Rightarrow> nat \<Rightarrow> nat" where
  "selectIthOne R bm i = Select32 R bm i"

section \<open>Building\<close>

record DomainSet =
  leaves :: bitmap
  labelBitmap :: bitmap
  labels :: string

text \<open>\<^verbatim>\<open>utils.Reverse\<close> reverses characters; for the ASCII names of the trie, bytes.\<close>

definition Reverse :: "string \<Rightarrow> string" where
  "Reverse s = rev s"

definition setLabel :: "DomainSet \<Rightarrow> nat \<Rightarrow> bool \<Rightarrow> DomainSet" where
  "setLabel ss lIdx v = ss\<lparr>labelBitmap := setBit (labelBitmap ss) lIdx v\<rparr>"

text \<open>The end of the run of keys from \<open>j\<close> on whose byte at \<open>col\<close> is \<open>c\<close>.\<close>

function runEnd :: "string list \<Rightarrow> nat \<Rightarrow> nat \<Rightarrow> char \<Rightarrow> nat \<Rightarrow> nat option" where
  "runEnd keys e col c j =
     (if j < e then do {
        k \<leftarrow> idx keys j;
        d \<leftarrow> idx k col;
        if d = c then runEnd keys e col c (Suc j) else Some j }
      else Some j)"
  by pat_completeness auto

termination
  by (relation "measure (\<lambda>(keys, e, col, c, j). e - j)") auto

text \<open>The children of one queue element: the queue entries, the set and the next label position.\<close>

partial_function (option) childLoop ::
    "string list \<Rightarrow> nat \<Rightarrow> nat \<Rightarrow> nat \<Rightarrow> (nat \<times> nat \<times> nat) list \<Rightarrow> DomainSet \<Rightarrow> nat \<Rightarrow>
     ((nat \<times> nat \<times> nat) list \<times> DomainSet \<times> nat) option" where
  "childLoop keys e col j queue ss lIdx =
     (if j < e then do {
        k \<leftarrow> idx keys j;
        c \<leftarrow> idx k col;
        j' \<leftarrow> runEnd keys e col c j;
        childLoop keys e col j' (queue @ [(j, j', col + 1)])
          (setLabel (ss\<lparr>labels := labels ss @ [c]\<rparr>) lIdx False) (lIdx + 1) }
      else Some (queue, ss, lIdx))"

partial_function (option) buildLoop ::
    "string list \<Rightarrow> nat \<Rightarrow> (nat \<times> nat \<times> nat) list \<Rightarrow> DomainSet \<Rightarrow> nat \<Rightarrow> DomainSet option" where
  "buildLoop keys i queue ss lIdx =
     (if i < length queue then do {
        let (s, e, col) = queue ! i;
        k \<leftarrow> idx keys s;
        let leaf = (col = length k);
        let ss1 = (if leaf then ss\<lparr>leaves := setBit (leaves ss) i True\<rparr> else ss);
        (queue1, ss2, lIdx1) \<leftarrow> childLoop keys e col (if leaf then s + 1 else s) queue ss1 lIdx;
        buildLoop keys (i + 1) queue1 (setLabel ss2 lIdx1 True) (lIdx1 + 1) }
      else Some ss)"

text \<open>\<open>Some None\<close> is the nil set of an empty trie.\<close>

definition NewDomainSet :: "'a DomainTrie \<Rightarrow> DomainSet option option" where
  "NewDomainSet t =
     (let keys = sort (map (\<lambda>(domain, d). Reverse domain) (Foreach t))
      in if length keys = 0 then Some None
         else map_option Some
           (buildLoop keys 0 [(0, length keys, 0)] \<lparr>leaves = [], labelBitmap = [], labels = []\<rparr> 0))"

section \<open>Looking a name up\<close>

text \<open>From \<open>j\<close> on, the first \<^verbatim>\<open>.\<close> of the key, or its length.\<close>

definition nextStep :: "string \<Rightarrow> nat \<Rightarrow> nat" where
  "nextStep key j = j + length (takeWhile (\<lambda>c. c \<noteq> CHR ''.'') (drop j key))"

text \<open>The loop that looks for a \<^verbatim>\<open>.\<close> among the labels: it runs to the end of all labels, not of the
  node.\<close>

partial_function (option) findStep :: "DomainSet \<Rightarrow> nat \<Rightarrow> nat \<Rightarrow> nat option option" where
  "findStep ss nextNodeId nextBmIdx =
     (if nextBmIdx - nextNodeId < length (labels ss) then
        (if labels ss ! (nextBmIdx - nextNodeId) = CHR ''.'' then Some (Some nextBmIdx)
         else findStep ss nextNodeId (nextBmIdx + 1))
      else Some None)"

text \<open>From the label \<^verbatim>\<open>RESTART\<close> on, with the byte index, the position in the bitmap, the node and the
  stack of wildcard cursors (position, byte index), the last pushed first.\<close>

partial_function (option) hasLoop ::
    "rank_select \<Rightarrow> DomainSet \<Rightarrow> string \<Rightarrow> nat \<Rightarrow> nat \<Rightarrow> nat \<Rightarrow> (nat \<times> nat) list \<Rightarrow> bool option" where
  "hasLoop R ss key i bmIdx nodeId stack =
     (if i < length key then do {
        b \<leftarrow> getBit (labelBitmap ss) bmIdx;
        if b then
          (case stack of
             [] \<Rightarrow> Some False
           | (cBm, cIdx) # stack1 \<Rightarrow>
               let nextNodeId = countZeros R (labelBitmap ss) (cBm + 1);
                   nextBmIdx = selectIthOne R (labelBitmap ss) (nextNodeId - 1) + 1;
                   j = nextStep key cIdx
               in if j = length key then do {
                    l \<leftarrow> getBit (leaves ss) nextNodeId;
                    if l then Some True else hasLoop R ss key i bmIdx nodeId stack1 }
                  else do {
                    r \<leftarrow> findStep ss nextNodeId nextBmIdx;
                    case r of
                      Some bm \<Rightarrow> hasLoop R ss key j bm nextNodeId stack1
                    | None \<Rightarrow> Some False })
        else do {
          l \<leftarrow> idx (labels ss) (bmIdx - nodeId);
          if l = CHR ''+'' then Some True
          else if l = CHR ''*'' then hasLoop R ss key i (bmIdx + 1) nodeId ((bmIdx, i) # stack)
          else if l = key ! i then
            let node1 = countZeros R (labelBitmap ss) (bmIdx + 1)
            in hasLoop R ss key (i + 1) (selectIthOne R (labelBitmap ss) (node1 - 1) + 1) node1 stack
          else hasLoop R ss key i (bmIdx + 1) nodeId stack } }
      else getBit (leaves ss) nodeId)"

definition Has :: "rank_select \<Rightarrow> DomainSet option \<Rightarrow> string \<Rightarrow> bool option" where
  "Has R ss key =
     (case ss of
        None \<Rightarrow> Some False
      | Some s \<Rightarrow> hasLoop R s (ToLower (Reverse key)) 0 0 0 [])"

section \<open>The functions of the bitmap package, as documented\<close>

definition bitmap_bits :: "bitmap \<Rightarrow> bool list" where
  "bitmap_bits bm = concat (map (\<lambda>w. map (\<lambda>j. bit w j) [0..<64]) bm)"

definition rank_ones :: "bitmap \<Rightarrow> nat \<Rightarrow> nat" where
  "rank_ones bm i = length (filter (\<lambda>b. b) (take i (bitmap_bits bm)))"

definition select_one :: "bitmap \<Rightarrow> nat \<Rightarrow> nat" where
  "select_one bm i =
     (let ps = filter (\<lambda>j. bitmap_bits bm ! j) [0..<length (bitmap_bits bm)]
      in if i < length ps then ps ! i else 0)"

definition bitmap_pkg :: rank_select where
  "bitmap_pkg = \<lparr>Rank64 = rank_ones, Select32 = select_one\<rparr>"

declare childLoop.simps [code] findStep.simps [code] hasLoop.simps [code]
declare runEnd.simps [simp del]

section \<open>Evaluation\<close>

text \<open>One turn of the loop and the rest of it as a function of its result, which evaluates before it
  is looked at.\<close>

definition buildStep ::
    "string list \<Rightarrow> nat \<Rightarrow> (nat \<times> nat \<times> nat) list \<Rightarrow> DomainSet \<Rightarrow> nat \<Rightarrow>
     (nat \<times> (nat \<times> nat \<times> nat) list \<times> DomainSet \<times> nat) option" where
  "buildStep keys i queue ss lIdx = do {
     let (s, e, col) = queue ! i;
     k \<leftarrow> idx keys s;
     let leaf = (col = length k);
     let ss1 = (if leaf then ss\<lparr>leaves := setBit (leaves ss) i True\<rparr> else ss);
     (queue1, ss2, lIdx1) \<leftarrow> childLoop keys e col (if leaf then s + 1 else s) queue ss1 lIdx;
     Some (i + 1, queue1, setLabel ss2 lIdx1 True, lIdx1 + 1) }"

fun buildFrom ::
    "string list \<Rightarrow> (nat \<times> (nat \<times> nat \<times> nat) list \<times> DomainSet \<times> nat) option \<Rightarrow> DomainSet option" where
  "buildFrom keys None = None"
| "buildFrom keys (Some (i, queue, ss, lIdx)) = buildLoop keys i queue ss lIdx"

lemma buildFrom_bind: "buildFrom keys st = st \<bind> (\<lambda>(i, queue, ss, lIdx). buildLoop keys i queue ss lIdx)"
  by (cases st) auto

lemma buildLoop_code [code]:
  "buildLoop keys i queue ss lIdx =
     (if i < length queue then buildFrom keys (buildStep keys i queue ss lIdx) else Some ss)"
  by (subst buildLoop.simps)
    (simp add: buildStep_def buildFrom_bind Let_def split_def)

section \<open>The set and the trie it is built from differ\<close>

definition set_has :: "string list \<Rightarrow> string \<Rightarrow> bool option" where
  "set_has ps name =
     NewDomainSet (insert_all (map (\<lambda>p. (p, ())) ps) New) \<bind> (\<lambda>s. Has bitmap_pkg s name)"

lemma set_has_eval:
  assumes "sort (map (\<lambda>(domain, d). Reverse domain) (Foreach (insert_all (map (\<lambda>p. (p, ())) ps) New))) = keys"
    "keys \<noteq> []"
    "buildLoop keys 0 [(0, length keys, 0)] \<lparr>leaves = [], labelBitmap = [], labels = []\<rparr> 0 = Some ss"
  shows "set_has ps name = Has bitmap_pkg (Some ss) name"
  using assms by (simp add: set_has_def NewDomainSet_def)

lemma set_has_1:
  "set_has [''*.x''] name =
   Has bitmap_pkg (Some \<lparr>leaves = [8], labelBitmap = [106], labels = ''x.*''\<rparr>) name"
  by (rule set_has_eval [where keys = "[''x.*'']"]) code_simp+

lemma set_has_2:
  "set_has [''*.x'', ''ba.x''] name =
   Has bitmap_pkg (Some \<lparr>leaves = [40], labelBitmap = [1738], labels = ''x.*ab''\<rparr>) name"
  by (rule set_has_eval [where keys = "[''x.*'', ''x.ab'']"]) code_simp+

lemma set_has_3:
  "set_has [''b.a.ba'', ''ab.ba'', ''*.a''] name =
   Has bitmap_pkg (Some \<lparr>leaves = [1552], labelBitmap = [1921874], labels = ''a.b*.ab.ab''\<rparr>) name"
  by (rule set_has_eval [where keys = "[''a.*'', ''ab.a.b'', ''ab.ba'']"]) code_simp+

lemma Has_1: "Has bitmap_pkg (Some \<lparr>leaves = [8], labelBitmap = [106], labels = ''x.*''\<rparr>) ''a.x'' = Some True"
  by code_simp

lemma Has_2: "Has bitmap_pkg (Some \<lparr>leaves = [40], labelBitmap = [1738], labels = ''x.*ab''\<rparr>) ''a.x'' = Some False"
  by code_simp

lemma Has_3: "Has bitmap_pkg (Some \<lparr>leaves = [1552], labelBitmap = [1921874], labels = ''a.b*.ab.ab''\<rparr>) ''a.ba.a'' = Some True"
  by code_simp

lemma Search_2: "Search ''a.x'' (insert_all (map (\<lambda>p. (p, ())) [''*.x'', ''ba.x'']) New) \<noteq> None"
  by code_simp

lemma Search_3: "Search ''a.ba.a'' (insert_all (map (\<lambda>p. (p, ())) [''b.a.ba'', ''ab.ba'', ''*.a'']) New) = None"
  by code_simp

text \<open>The set built from a trie does not find all the names the trie finds: when the bytes of the
  name run out inside a longer label, the pending wildcard is not tried any more, so with
  \<^verbatim>\<open>*.x\<close> and \<^verbatim>\<open>ba.x\<close> inserted the name \<^verbatim>\<open>a.x\<close> is found by the trie and not by the set.\<close>

theorem domain_set_misses_wildcard:
  "set_has [''*.x'', ''ba.x''] ''a.x'' = Some False \<and> set_has [''*.x''] ''a.x'' = Some True \<and>
   Search ''a.x'' (insert_all (map (\<lambda>p. (p, ())) [''*.x'', ''ba.x'']) New) \<noteq> None"
  unfolding set_has_1 set_has_2 using Has_1 Has_2 Search_2 by blast

text \<open>Nor only those: after a wildcard the search for the next dot runs past the end of the node
  into the labels of other nodes, so with \<^verbatim>\<open>b.a.ba\<close>, \<^verbatim>\<open>ab.ba\<close> and \<^verbatim>\<open>*.a\<close> inserted the set has
  \<^verbatim>\<open>a.ba.a\<close>, which none of them matches.\<close>

theorem domain_set_false_match:
  "set_has [''b.a.ba'', ''ab.ba'', ''*.a''] ''a.ba.a'' = Some True \<and>
   Search ''a.ba.a'' (insert_all (map (\<lambda>p. (p, ())) [''b.a.ba'', ''ab.ba'', ''*.a'']) New) = None"
  unfolding set_has_3 using Has_3 Search_3 by blast

end
