(* ===== verification/Metadata.thy ===== *)
theory Metadata imports GoNet begin

text \<open>
  \<^verbatim>\<open>constant/metadata.go\<close>, \<^verbatim>\<open>constant/rule.go\<close> and the DNS enumerations of \<^verbatim>\<open>constant/dns.go\<close>: what a
  connection is described by and what the rules look at.

  An \<^verbatim>\<open>iota\<close> enumeration is a datatype with the constants the source declares; the \<^verbatim>\<open>default\<close>
  branches of the \<^verbatim>\<open>String\<close> methods are for numbers no constant has. \<^verbatim>\<open>net.JoinHostPort\<close> and
  \<^verbatim>\<open>net.SplitHostPort\<close> are modelled; the text format of addresses and prefixes
  (\<^verbatim>\<open>netip.Addr.String\<close>, \<^verbatim>\<open>netip.ParseAddr\<close>, \<^verbatim>\<open>netip.ParsePrefix\<close>) is the parameter \<open>net_text\<close>.
\<close>

section \<open>Enumerations\<close>

datatype NetWork = TCP | UDP | ALLNet | InvalidNet

fun NetWork_String :: "NetWork \<Rightarrow> string" where
  "NetWork_String TCP = ''tcp''"
| "NetWork_String UDP = ''udp''"
| "NetWork_String ALLNet = ''all''"
| "NetWork_String InvalidNet = ''invalid''"

datatype Type = HTTP | HTTPS | SOCKS4 | SOCKS5 | SHADOWSOCKS | VMESS | REDIR | TPROXY | TUNNEL
  | TUN | TUIC | INNER

fun Type_String :: "Type \<Rightarrow> string" where
  "Type_String HTTP = ''HTTP''"
| "Type_String HTTPS = ''HTTPS''"
| "Type_String SOCKS4 = ''Socks4''"
| "Type_String SOCKS5 = ''Socks5''"
| "Type_String SHADOWSOCKS = ''ShadowSocks''"
| "Type_String VMESS = ''Vmess''"
| "Type_String REDIR = ''Redir''"
| "Type_String TPROXY = ''TProxy''"
| "Type_String TUNNEL = ''Tunnel''"
| "Type_String TUN = ''Tun''"
| "Type_String TUIC = ''Tuic''"
| "Type_String INNER = ''Inner''"

definition ParseType :: "string \<Rightarrow> Type option" where
  "ParseType t =
     (if t = ''HTTP'' then Some HTTP
      else if t = ''HTTPS'' then Some HTTPS
      else if t = ''SOCKS4'' then Some SOCKS4
      else if t = ''SOCKS5'' then Some SOCKS5
      else if t = ''SHADOWSOCKS'' then Some SHADOWSOCKS
      else if t = ''VMESS'' then Some VMESS
      else if t = ''REDIR'' then Some REDIR
      else if t = ''TPROXY'' then Some TPROXY
      else if t = ''TUNNEL'' then Some TUNNEL
      else if t = ''TUN'' then Some TUN
      else if t = ''TUIC'' then Some TUIC
      else if t = ''INNER'' then Some INNER
      else None)"

datatype DNSMode = DNSNormal | DNSFakeIP | DNSMapping | DNSHosts

fun DNSMode_String :: "DNSMode \<Rightarrow> string" where
  "DNSMode_String DNSNormal = ''normal''"
| "DNSMode_String DNSFakeIP = ''fake-ip''"
| "DNSMode_String DNSMapping = ''redir-host''"
| "DNSMode_String DNSHosts = ''hosts''"

definition DNSModeMapping :: "(string \<times> DNSMode) list" where
  "DNSModeMapping = map (\<lambda>m. (DNSMode_String m, m)) [DNSNormal, DNSFakeIP, DNSMapping]"

text \<open>The body of \<^verbatim>\<open>UnmarshalYAML\<close> and \<^verbatim>\<open>UnmarshalJSON\<close> once the text is read.\<close>

definition DNSMode_Unmarshal :: "string \<Rightarrow> DNSMode option" where
  "DNSMode_Unmarshal tp = map_of DNSModeMapping tp"

datatype DNSPrefer = DualStack | IPv4Only | IPv6Only | IPv4Prefer | IPv6Prefer

fun DNSPrefer_String :: "DNSPrefer \<Rightarrow> string" where
  "DNSPrefer_String DualStack = ''dual''"
| "DNSPrefer_String IPv4Only = ''ipv4''"
| "DNSPrefer_String IPv6Only = ''ipv6''"
| "DNSPrefer_String IPv4Prefer = ''ipv4-prefer''"
| "DNSPrefer_String IPv6Prefer = ''ipv6-prefer''"

definition dnsPreferMap :: "(string \<times> DNSPrefer) list" where
  "dnsPreferMap =
     map (\<lambda>m. (DNSPrefer_String m, m)) [DualStack, IPv4Only, IPv6Only, IPv4Prefer, IPv6Prefer]"

definition NewDNSPrefer :: "string \<Rightarrow> DNSPrefer" where
  "NewDNSPrefer prefer = (case map_of dnsPreferMap prefer of Some p \<Rightarrow> p | None \<Rightarrow> DualStack)"

text \<open>The constants of \<^verbatim>\<open>constant/rule.go\<close>, prefixed because the rule structs have the same names.\<close>

datatype RuleType = RT_Domain | RT_DomainSuffix | RT_DomainKeyword | RT_GEOSITE | RT_GEOIP
  | RT_IPCIDR | RT_SrcIPCIDR | RT_IPSuffix | RT_SrcIPSuffix | RT_SrcPort | RT_DstPort | RT_InPort
  | RT_InUser | RT_InName | RT_InType | RT_Process | RT_ProcessPath | RT_RuleSet | RT_Network
  | RT_Uid | RT_SubRules | RT_MATCH | RT_AND | RT_OR | RT_NOT

fun RuleType_String :: "RuleType \<Rightarrow> string" where
  "RuleType_String RT_Domain = ''Domain''"
| "RuleType_String RT_DomainSuffix = ''DomainSuffix''"
| "RuleType_String RT_DomainKeyword = ''DomainKeyword''"
| "RuleType_String RT_GEOSITE = ''GeoSite''"
| "RuleType_String RT_GEOIP = ''GeoIP''"
| "RuleType_String RT_IPCIDR = ''IPCIDR''"
| "RuleType_String RT_SrcIPCIDR = ''SrcIPCIDR''"
| "RuleType_String RT_IPSuffix = ''IPSuffix''"
| "RuleType_String RT_SrcIPSuffix = ''SrcIPSuffix''"
| "RuleType_String RT_SrcPort = ''SrcPort''"
| "RuleType_String RT_DstPort = ''DstPort''"
| "RuleType_String RT_InPort = ''InPort''"
| "RuleType_String RT_InUser = ''InUser''"
| "RuleType_String RT_InName = ''InName''"
| "RuleType_String RT_InType = ''InType''"
| "RuleType_String RT_Process = ''Process''"
| "RuleType_String RT_ProcessPath = ''ProcessPath''"
| "RuleType_String RT_RuleSet = ''RuleSet''"
| "RuleType_String RT_Network = ''Network''"
| "RuleType_String RT_Uid = ''Uid''"
| "RuleType_String RT_SubRules = ''SubRules''"
| "RuleType_String RT_MATCH = ''Match''"
| "RuleType_String RT_AND = ''AND''"
| "RuleType_String RT_OR = ''OR''"
| "RuleType_String RT_NOT = ''NOT''"

section \<open>The text format of addresses\<close>

record net_text =
  addr_String :: "Addr \<Rightarrow> string"
  ParseAddr :: "string \<Rightarrow> Addr option"
  prefix_String :: "Prefix \<Rightarrow> string"
  ParsePrefix :: "string \<Rightarrow> Prefix option"

text \<open>\<^verbatim>\<open>net.JoinHostPort\<close> and \<^verbatim>\<open>net.SplitHostPort\<close>; the error return of the second is \<open>None\<close>.\<close>

definition JoinHostPort :: "string \<Rightarrow> string \<Rightarrow> string" where
  "JoinHostPort host port =
     (if CHR '':'' \<in> set host then ''['' @ host @ '']:'' @ port else host @ '':'' @ port)"

fun IndexByte :: "char \<Rightarrow> string \<Rightarrow> nat option" where
  "IndexByte c [] = None"
| "IndexByte c (x # xs) = (if x = c then Some 0 else map_option Suc (IndexByte c xs))"

definition LastIndexByte :: "char \<Rightarrow> string \<Rightarrow> nat option" where
  "LastIndexByte c s = map_option (\<lambda>i. length s - 1 - i) (IndexByte c (rev s))"

definition SplitHostPort :: "string \<Rightarrow> (string \<times> string) option" where
  "SplitHostPort hostport =
     (case LastIndexByte (CHR '':'') hostport of
        None \<Rightarrow> None
      | Some i \<Rightarrow>
          (case (if hd hostport = CHR ''[''
                 then (case IndexByte (CHR '']'') hostport of
                         None \<Rightarrow> None
                       | Some e \<Rightarrow> if e + 1 = i then Some (take (e - 1) (drop 1 hostport), 1, e + 1)
                                 else None)
                 else (let host = take i hostport
                       in if CHR '':'' \<in> set host then None else Some (host, 0, 0))) of
             None \<Rightarrow> None
           | Some (host, j, k) \<Rightarrow>
               if CHR ''['' \<in> set (drop j hostport) then None
               else if CHR '']'' \<in> set (drop k hostport) then None
               else Some (host, drop (i + 1) hostport)))"

section \<open>Metadata\<close>

record Metadata =
  m_NetWork :: NetWork
  m_Type :: Type
  m_SrcIP :: Addr
  m_DstIP :: Addr
  m_SrcPort :: string
  m_DstPort :: string
  m_InIP :: Addr
  m_InPort :: string
  m_InName :: string
  m_InUser :: string
  m_Host :: string
  m_DNSMode :: DNSMode
  m_Uid :: "32 word"
  m_Process :: string
  m_ProcessPath :: string
  m_SpecialProxy :: string
  m_SpecialRules :: string
  m_RemoteDst :: string
  m_SniffHost :: string

definition Metadata_String :: "net_text \<Rightarrow> Metadata \<Rightarrow> string" where
  "Metadata_String T m =
     (if m_Host m \<noteq> [] then m_Host m
      else if addr_IsValid (m_DstIP m) then addr_String T (m_DstIP m)
      else ''<nil>'')"

definition RemoteAddress :: "net_text \<Rightarrow> Metadata \<Rightarrow> string" where
  "RemoteAddress T m = JoinHostPort (Metadata_String T m) (m_DstPort m)"

definition SourceAddress :: "net_text \<Rightarrow> Metadata \<Rightarrow> string" where
  "SourceAddress T m = JoinHostPort (addr_String T (m_SrcIP m)) (m_SrcPort m)"

text \<open>\<^verbatim>\<open>%d\<close> of an unsigned number.\<close>

fun decimal :: "nat \<Rightarrow> string" where
  "decimal n = (if n < 10 then [char_of (48 + n)] else decimal (n div 10) @ [char_of (48 + n mod 10)])"

declare decimal.simps [simp del]

definition ClashName :: string where "ClashName = ''clash.meta''"

definition SourceDetail :: "net_text \<Rightarrow> Metadata \<Rightarrow> string" where
  "SourceDetail T m =
     (if m_Type m = INNER then ClashName
      else if m_Process m \<noteq> [] \<and> m_Uid m \<noteq> 0
      then SourceAddress T m @ ''('' @ m_Process m @ '', uid='' @ decimal (unat (m_Uid m)) @ '')''
      else if m_Uid m \<noteq> 0 then SourceAddress T m @ ''(uid='' @ decimal (unat (m_Uid m)) @ '')''
      else if m_Process m \<noteq> [] then SourceAddress T m @ ''('' @ m_Process m @ '')''
      else SourceAddress T m)"

definition AtypIPv4 :: nat where "AtypIPv4 = 1"
definition AtypDomainName :: nat where "AtypDomainName = 3"
definition AtypIPv6 :: nat where "AtypIPv6 = 4"

definition AddrType :: "Metadata \<Rightarrow> nat" where
  "AddrType m =
     (if m_Host m \<noteq> [] \<or> \<not> addr_IsValid (m_DstIP m) then AtypDomainName
      else if Is4 (m_DstIP m) then AtypIPv4 else AtypIPv6)"

definition Resolved :: "Metadata \<Rightarrow> bool" where
  "Resolved m = addr_IsValid (m_DstIP m)"

definition RuleHost :: "Metadata \<Rightarrow> string" where
  "RuleHost m = (if length (m_SniffHost m) = 0 then m_Host m else m_SniffHost m)"

definition Pure :: "Metadata \<Rightarrow> Metadata" where
  "Pure m =
     (if (m_DNSMode m = DNSMapping \<or> m_DNSMode m = DNSHosts) \<and> addr_IsValid (m_DstIP m)
      then m\<lparr>m_Host := []\<rparr> else m)"

text \<open>On a syntax error \<^verbatim>\<open>ParseUint\<close> returns 0 beside the error, on overflow the largest value.\<close>

definition ParseUint_val :: "nat \<Rightarrow> string \<Rightarrow> nat" where
  "ParseUint_val bits s =
     (if s \<noteq> [] \<and> list_all is_digit s then min (digits_val s) (2 ^ bits - 1) else 0)"

definition AddrPort :: "Metadata \<Rightarrow> Addr \<times> 16 word" where
  "AddrPort m = (Unmap (m_DstIP m), of_nat (ParseUint_val 16 (m_DstPort m)))"

definition UDPAddr :: "Metadata \<Rightarrow> (Addr \<times> 16 word) option" where
  "UDPAddr m =
     (if m_NetWork m \<noteq> UDP \<or> \<not> addr_IsValid (m_DstIP m) then None else Some (AddrPort m))"

definition Metadata_Valid :: "Metadata \<Rightarrow> bool" where
  "Metadata_Valid m \<longleftrightarrow> m_Host m \<noteq> [] \<or> addr_IsValid (m_DstIP m)"

definition SetRemoteAddress :: "net_text \<Rightarrow> string \<Rightarrow> Metadata \<Rightarrow> Metadata option" where
  "SetRemoteAddress T rawAddress m =
     (case SplitHostPort rawAddress of
        None \<Rightarrow> None
      | Some (host, port) \<Rightarrow>
          (case ParseAddr T host of
             None \<Rightarrow> Some (m\<lparr>m_Host := host, m_DstIP := AddrZero, m_DstPort := port\<rparr>)
           | Some ip \<Rightarrow> Some (m\<lparr>m_Host := [], m_DstIP := Unmap ip, m_DstPort := port\<rparr>)))"

section \<open>Lemmas\<close>

lemma IndexByte_None: "IndexByte c s = None \<longleftrightarrow> c \<notin> set s"
  by (induction s) auto

lemma IndexByte_append: "c \<notin> set s \<Longrightarrow> IndexByte c (s @ c # t) = Some (length s)"
  by (induction s) auto

lemma LastIndexByte_append: "c \<notin> set t \<Longrightarrow> LastIndexByte c (s @ c # t) = Some (length s)"
  using IndexByte_append [of c "rev t" "rev s"] by (simp add: LastIndexByte_def)

text \<open>What was joined is split again.\<close>

lemma SplitHostPort_JoinHostPort:
  assumes h: "CHR ''['' \<notin> set host" "CHR '']'' \<notin> set host"
    and p: "CHR '':'' \<notin> set port" "CHR ''['' \<notin> set port" "CHR '']'' \<notin> set port"
  shows "SplitHostPort (JoinHostPort host port) = Some (host, port)"
proof (cases "CHR '':'' \<in> set host")
  case True
  let ?s = "''['' @ host @ '']:'' @ port"
  have i: "LastIndexByte (CHR '':'') ?s = Some (length host + 2)"
    using LastIndexByte_append [OF p(1), of "''['' @ host @ '']''"] by simp
  have e: "IndexByte (CHR '']'') ?s = Some (length host + 1)"
    using IndexByte_append [of "CHR '']''" "''['' @ host" "'':'' @ port"] h by simp
  have "take (length host) (drop 1 ?s) = host" "drop 1 ?s = host @ '']:'' @ port"
    "drop (length host + 2) ?s = '':'' @ port" "drop (length host + 3) ?s = port"
    by (simp_all add: eval_nat_numeral)
  with True h p i e show ?thesis by (simp add: SplitHostPort_def JoinHostPort_def)
next
  case False
  let ?s = "host @ '':'' @ port"
  have i: "LastIndexByte (CHR '':'') ?s = Some (length host)"
    using LastIndexByte_append [OF p(1), of host] by simp
  have "hd ?s \<noteq> CHR ''[''" using h by (cases host) auto
  with False h p i show ?thesis by (simp add: SplitHostPort_def JoinHostPort_def Let_def)
qed

text \<open>C17: the address a connection is dialled by is read back from its text: a domain name as the host
  with no address, an address (in IPv4 form when it is IPv4-mapped) with no host, with the same
  port. The text format of addresses is assumed to be read back by its parser and to hold no
  bracket, and host names to be no addresses.\<close>

theorem remote_address_roundtrip:
  assumes T: "\<forall>a. a \<noteq> AddrZero \<longrightarrow> ParseAddr T (addr_String T a) = Some a \<and>
      CHR ''['' \<notin> set (addr_String T a) \<and> CHR '']'' \<notin> set (addr_String T a)"
    and h: "m_Host m \<noteq> [] \<longrightarrow> ParseAddr T (m_Host m) = None \<and>
      CHR ''['' \<notin> set (m_Host m) \<and> CHR '']'' \<notin> set (m_Host m)"
    and p: "CHR '':'' \<notin> set (m_DstPort m)" "CHR ''['' \<notin> set (m_DstPort m)" "CHR '']'' \<notin> set (m_DstPort m)"
    and v: "Metadata_Valid m"
  shows "SetRemoteAddress T (RemoteAddress T m) m' =
    Some (m'\<lparr>m_Host := m_Host m, m_DstIP := (if m_Host m \<noteq> [] then AddrZero else Unmap (m_DstIP m)),
      m_DstPort := m_DstPort m\<rparr>)"
proof (cases "m_Host m = []")
  case True
  with v have a: "m_DstIP m \<noteq> AddrZero" by (simp add: Metadata_Valid_def addr_IsValid_def)
  with T True p show ?thesis
    by (simp add: SetRemoteAddress_def RemoteAddress_def Metadata_String_def addr_IsValid_def
        SplitHostPort_JoinHostPort)
next
  case False
  with h p show ?thesis
    by (simp add: SetRemoteAddress_def RemoteAddress_def Metadata_String_def SplitHostPort_JoinHostPort)
qed

lemma digits_val_snoc: "digits_val (s @ [c]) = 10 * digits_val s + (byte_of c - 48)"
  by (simp add: digits_val_def)

lemma decimal_digits: "list_all is_digit (decimal n)" "digits_val (decimal n) = n" "decimal n \<noteq> []"
proof -
  have d: "is_digit (char_of (48 + k))" "byte_of (char_of (48 + k :: nat)) = 48 + k" if "k < 10" for k
    using that by (simp_all add: is_digit_def of_char_of)
  have "list_all is_digit (decimal n) \<and> digits_val (decimal n) = n"
  proof (induction n rule: decimal.induct)
    case (1 n)
    show ?case
    proof (cases "n < 10")
      case True
      then show ?thesis using d [OF True] by (subst (1 2) decimal.simps) (simp add: digits_val_def)
    next
      case False
      with 1 d [of "n mod 10"] show ?thesis
        by (subst (1 2) decimal.simps) (simp add: digits_val_snoc)
    qed
  qed
  then show "list_all is_digit (decimal n)" "digits_val (decimal n) = n" by simp_all
  show "decimal n \<noteq> []" by (subst decimal.simps) simp
qed

text \<open>A format to try the definitions on: \<^verbatim>\<open>v\<close> and the value in decimal, or a colon first for IPv6.\<close>

definition demo_metadata :: Metadata where
  "demo_metadata = \<lparr>m_NetWork = TCP, m_Type = SOCKS5, m_SrcIP = V4 0x7F000001, m_DstIP = AddrZero,
     m_SrcPort = ''4321'', m_DstPort = ''443'', m_InIP = AddrZero, m_InPort = ''7890'', m_InName = [],
     m_InUser = [], m_Host = ''www.x.org'', m_DNSMode = DNSNormal, m_Uid = 0, m_Process = [],
     m_ProcessPath = [], m_SpecialProxy = [], m_SpecialRules = [], m_RemoteDst = [], m_SniffHost = []\<rparr>"

definition demo_text :: net_text where
  "demo_text = \<lparr>
     addr_String = (\<lambda>a. case a of AddrZero \<Rightarrow> [] | V4 w \<Rightarrow> CHR ''v'' # decimal (unat w)
       | V6 w \<Rightarrow> CHR '':'' # decimal (unat w)),
     ParseAddr = (\<lambda>s. case s of [] \<Rightarrow> None | c # r \<Rightarrow>
       if r = [] \<or> \<not> list_all is_digit r then None
       else if c = CHR ''v'' then Some (V4 (of_nat (digits_val r)))
       else if c = CHR '':'' then Some (V6 (of_nat (digits_val r))) else None),
     prefix_String = (\<lambda>p. []), ParsePrefix = (\<lambda>s. None)\<rparr>"

lemma demo_text_ok: "a \<noteq> AddrZero \<Longrightarrow> ParseAddr demo_text (addr_String demo_text a) = Some a \<and>
   CHR ''['' \<notin> set (addr_String demo_text a) \<and> CHR '']'' \<notin> set (addr_String demo_text a)"
proof -
  have "CHR ''['' \<notin> set (decimal n)" "CHR '']'' \<notin> set (decimal n)" for n
    using decimal_digits(1) [of n] by (auto simp: list_all_iff is_digit_def)
  then show "a \<noteq> AddrZero \<Longrightarrow> ?thesis"
    by (cases a) (simp_all add: demo_text_def decimal_digits)
qed

lemma remote_address_roundtrip_witness:
  "SetRemoteAddress demo_text (RemoteAddress demo_text demo_metadata)
     (demo_metadata\<lparr>m_Host := ''y'', m_DstIP := V4 7\<rparr>) = Some demo_metadata"
proof -
  have "\<forall>a. a \<noteq> AddrZero \<longrightarrow> ParseAddr demo_text (addr_String demo_text a) = Some a \<and>
     CHR ''['' \<notin> set (addr_String demo_text a) \<and> CHR '']'' \<notin> set (addr_String demo_text a)"
    using demo_text_ok by blast
  from remote_address_roundtrip [OF this, of demo_metadata] show ?thesis
    by (simp add: demo_metadata_def demo_text_def is_digit_def Metadata_Valid_def)
qed

end
