(* ===== verification/GeoIPMatcher.thy ===== *)
theory GeoIPMatcher imports GoNet "HOL-Library.List_Lexorder" "HOL-Library.Product_Lexorder" begin

text \<open>
  The IP half of \<^verbatim>\<open>component/geodata/router/condition.go\<close>: the sorted prefix table of a country, its
  binary search, and the container that shares the tables.

  A protobuf message is the record of the fields the code reads. \<open>None\<close> is an index out of range or
  a search that does not end; a theorem about a search says that it is \<open>Some\<close>.
\<close>

section \<open>Addresses\<close>

text \<open>The struct \<^verbatim>\<open>ipv6\<close>: the two halves of an address, compared by \<^verbatim>\<open>less6\<close>.\<close>

datatype ipv6 = Ipv6 (ip6_a: "64 word") (ip6_b: "64 word")

instantiation ipv6 :: linorder
begin

definition less_ipv6 :: "ipv6 \<Rightarrow> ipv6 \<Rightarrow> bool" where
  "x < y \<longleftrightarrow> ip6_a x < ip6_a y \<or> (ip6_a x = ip6_a y \<and> ip6_b x < ip6_b y)"

definition less_eq_ipv6 :: "ipv6 \<Rightarrow> ipv6 \<Rightarrow> bool" where
  "x \<le> y \<longleftrightarrow> x < y \<or> x = (y :: ipv6)"

instance
  by standard (auto simp: less_ipv6_def less_eq_ipv6_def intro: ipv6.expand)

end

definition less6 :: "ipv6 \<Rightarrow> ipv6 \<Rightarrow> bool" where
  "less6 a b = (ip6_a a < ip6_a b \<or> (ip6_a a = ip6_a b \<and> ip6_b a < ip6_b b))"

lemma less6_less: "less6 = (<)"
  by (intro ext) (simp add: less6_def less_ipv6_def)

text \<open>The shift distances are computed in \<^verbatim>\<open>uint8\<close>, so they wrap for a prefix that is too long.\<close>

definition normalize4 :: "32 word \<Rightarrow> 8 word \<Rightarrow> 32 word" where
  "normalize4 ip prefix = push_bit (unat (32 - prefix)) (drop_bit (unat (32 - prefix)) ip)"

definition normalize6 :: "ipv6 \<Rightarrow> 8 word \<Rightarrow> ipv6" where
  "normalize6 ip prefix =
     (if prefix \<le> 64
      then Ipv6 (push_bit (unat (64 - prefix)) (drop_bit (unat (64 - prefix)) (ip6_a ip))) 0
      else Ipv6 (ip6_a ip) (push_bit (unat (128 - prefix)) (drop_bit (unat (128 - prefix)) (ip6_b ip))))"

section \<open>Building the table\<close>

record CIDR =
  c_Ip :: net_IP
  c_Prefix :: "32 word"

text \<open>\<^verbatim>\<open>CIDRList.Less\<close>: by length, then by the bytes, then by the prefix.\<close>

fun bytes_Less :: "8 word list \<Rightarrow> 8 word list \<Rightarrow> bool option" where
  "bytes_Less (x # xs) (y # ys) =
     (if x < y then Some True else if x > y then Some False else bytes_Less xs ys)"
| "bytes_Less _ _ = None"

definition CIDRList_Less :: "CIDR \<Rightarrow> CIDR \<Rightarrow> bool" where
  "CIDRList_Less ci cj =
     (if length (c_Ip ci) < length (c_Ip cj) then True
      else if length (c_Ip ci) > length (c_Ip cj) then False
      else case bytes_Less (c_Ip ci) (c_Ip cj) of
        Some b \<Rightarrow> b
      | None \<Rightarrow> c_Prefix ci < c_Prefix cj)"

text \<open>\<^verbatim>\<open>sort.Sort\<close> leaves a list sorted by \<open>CIDRList_Less\<close>; entries that are not less than one another are
  equal, so every such list is this one.\<close>

fun insort_cidr :: "CIDR \<Rightarrow> CIDR list \<Rightarrow> CIDR list" where
  "insort_cidr c [] = [c]"
| "insort_cidr c (d # ds) = (if CIDRList_Less d c then d # insort_cidr c ds else c # d # ds)"

definition sort_cidrs :: "CIDR list \<Rightarrow> CIDR list" where
  "sort_cidrs cidrs = foldr insort_cidr cidrs []"

record GeoIPMatcher =
  gm_countryCode :: string
  gm_reverseMatch :: bool
  gm_ip4 :: "32 word list"
  gm_prefix4 :: "8 word list"
  gm_ip6 :: "ipv6 list"
  gm_prefix6 :: "8 word list"

definition addr4 :: "net_IP \<Rightarrow> 32 word" where
  "addr4 ip = word_of_bytes ip"

definition addr6 :: "net_IP \<Rightarrow> ipv6" where
  "addr6 ip = Ipv6 (word_of_bytes (take 8 ip)) (word_of_bytes (take 8 (drop 8 ip)))"

definition addCidr :: "GeoIPMatcher \<Rightarrow> CIDR \<Rightarrow> GeoIPMatcher" where
  "addCidr m cidr =
     (let ip = c_Ip cidr; prefix = ucast (c_Prefix cidr) :: 8 word
      in if length ip = 4
         then m\<lparr>gm_ip4 := gm_ip4 m @ [normalize4 (addr4 ip) prefix], gm_prefix4 := gm_prefix4 m @ [prefix]\<rparr>
         else if length ip = 16
         then m\<lparr>gm_ip6 := gm_ip6 m @ [normalize6 (addr6 ip) prefix], gm_prefix6 := gm_prefix6 m @ [prefix]\<rparr>
         else m)"

text \<open>\<open>None\<close> is the error for an address that has neither 4 nor 16 bytes.\<close>

definition Init :: "GeoIPMatcher \<Rightarrow> CIDR list \<Rightarrow> GeoIPMatcher option" where
  "Init m cidrs =
     (if \<exists>c \<in> set cidrs. length (c_Ip c) \<noteq> 4 \<and> length (c_Ip c) \<noteq> 16 then None
      else Some (foldl addCidr (m\<lparr>gm_ip4 := [], gm_prefix4 := [], gm_ip6 := [], gm_prefix6 := []\<rparr>)
             (sort_cidrs cidrs)))"

definition SetReverseMatch :: "bool \<Rightarrow> GeoIPMatcher \<Rightarrow> GeoIPMatcher" where
  "SetReverseMatch b m = m\<lparr>gm_reverseMatch := b\<rparr>"

section \<open>Searching\<close>

text \<open>The loop of \<^verbatim>\<open>match4\<close> and \<^verbatim>\<open>match6\<close> with the comparison and the masking of its address family:
  \<open>Some None\<close> when it returns true, \<open>Some (Some l)\<close> when it ends with the lower bound \<open>l\<close>. The bounds are
  \<^verbatim>\<open>uint32\<close>.\<close>

partial_function (option) search_loop ::
    "('a \<Rightarrow> 'a \<Rightarrow> bool) \<Rightarrow> ('a \<Rightarrow> 8 word \<Rightarrow> 'a) \<Rightarrow> 'a list \<Rightarrow> 8 word list \<Rightarrow> 'a \<Rightarrow> 32 word \<Rightarrow> 32 word \<Rightarrow>
     32 word option option" where
  "search_loop lt norm ips prefixes ip l r =
     (if l < r then do {
        let x = drop_bit 1 (l + r);
        e \<leftarrow> idx ips (unat x);
        if lt ip e then search_loop lt norm ips prefixes ip l x
        else do {
          p \<leftarrow> idx prefixes (unat x);
          if norm ip p = e then Some None
          else search_loop lt norm ips prefixes ip (x + 1) r } }
      else Some (Some l))"

declare search_loop.simps [code]

definition table_match ::
    "('a \<Rightarrow> 'a \<Rightarrow> bool) \<Rightarrow> ('a \<Rightarrow> 8 word \<Rightarrow> 'a) \<Rightarrow> 'a list \<Rightarrow> 8 word list \<Rightarrow> 'a \<Rightarrow> bool option" where
  "table_match lt norm ips prefixes ip =
     (if length ips = 0 then Some False
      else if lt ip (ips ! 0) then Some False
      else do {
        res \<leftarrow> search_loop lt norm ips prefixes ip 0 (of_nat (length ips));
        case res of
          None \<Rightarrow> Some True
        | Some l \<Rightarrow>
            if 0 < l then do {
              p \<leftarrow> idx prefixes (unat (l - 1));
              e \<leftarrow> idx ips (unat (l - 1));
              Some (norm ip p = e) }
            else Some False })"

definition match4 :: "GeoIPMatcher \<Rightarrow> 32 word \<Rightarrow> bool option" where
  "match4 m ip = table_match (<) normalize4 (gm_ip4 m) (gm_prefix4 m) ip"

definition match6 :: "GeoIPMatcher \<Rightarrow> ipv6 \<Rightarrow> bool option" where
  "match6 m ip = table_match less6 normalize6 (gm_ip6 m) (gm_prefix6 m) ip"

definition GeoIP_Match :: "GeoIPMatcher \<Rightarrow> net_IP \<Rightarrow> bool option" where
  "GeoIP_Match m ip =
     (if length ip = 4 then map_option (\<lambda>b. b \<noteq> gm_reverseMatch m) (match4 m (addr4 ip))
      else if length ip = 16 then map_option (\<lambda>b. b \<noteq> gm_reverseMatch m) (match6 m (addr6 ip))
      else Some False)"

section \<open>The container\<close>

record GeoIP =
  g_CountryCode :: string
  g_Cidr :: "CIDR list"
  g_ReverseMatch :: bool

definition same_code :: "GeoIP \<Rightarrow> GeoIPMatcher \<Rightarrow> bool" where
  "same_code geoip m = (gm_countryCode m = g_CountryCode geoip \<and> gm_reverseMatch m = g_ReverseMatch geoip)"

text \<open>\<open>None\<close> is the error of \<open>Init\<close>.\<close>

definition Add :: "GeoIP \<Rightarrow> GeoIPMatcher list \<Rightarrow> (GeoIPMatcher list \<times> GeoIPMatcher) option" where
  "Add geoip c =
     (case (if length (g_CountryCode geoip) > 0 then find (same_code geoip) c else None) of
        Some m \<Rightarrow> Some (c, m)
      | None \<Rightarrow> do {
          m \<leftarrow> Init \<lparr>gm_countryCode = g_CountryCode geoip, gm_reverseMatch = g_ReverseMatch geoip,
                    gm_ip4 = [], gm_prefix4 = [], gm_ip6 = [], gm_prefix6 = []\<rparr> (g_Cidr geoip);
          Some (if length (g_CountryCode geoip) > 0 then c @ [m] else c, m) })"

definition NewGeoIPMatcher :: "GeoIP \<Rightarrow> GeoIPMatcher list \<Rightarrow> (GeoIPMatcher list \<times> GeoIPMatcher) option" where
  "NewGeoIPMatcher geoip c = Add geoip c"

fun ApplyIp :: "GeoIPMatcher list \<Rightarrow> net_IP \<Rightarrow> bool option" where
  "ApplyIp [] ip = Some False"
| "ApplyIp (m # ms) ip = do { b \<leftarrow> GeoIP_Match m ip; if b then Some True else ApplyIp ms ip }"

fun NewMultiGeoIPMatcher ::
    "GeoIP list \<Rightarrow> GeoIPMatcher list \<Rightarrow> (GeoIPMatcher list \<times> GeoIPMatcher list) option" where
  "NewMultiGeoIPMatcher [] c = Some (c, [])"
| "NewMultiGeoIPMatcher (g # gs) c = do {
     (c1, m) \<leftarrow> Add g c;
     (c2, ms) \<leftarrow> NewMultiGeoIPMatcher gs c1;
     Some (c2, m # ms) }"

section \<open>The search finds what the table holds\<close>

text \<open>What masking guarantees for either address family: networks are intervals that start with
  their address.\<close>

locale prefix_order =
  fixes norm :: "'a :: linorder \<Rightarrow> 8 word \<Rightarrow> 'a"
  assumes norm_le: "norm x p \<le> x"
    and norm_convex: "norm x p \<le> y \<Longrightarrow> y \<le> x \<Longrightarrow> norm y p = norm x p"
begin

definition table_ok :: "'a list \<Rightarrow> 8 word list \<Rightarrow> bool" where
  "table_ok ips prefixes \<longleftrightarrow> length prefixes = length ips \<and> length ips < 2 ^ 31 \<and> sorted ips \<and>
     (\<forall>i < length ips. norm (ips ! i) (prefixes ! i) = ips ! i) \<and>
     (\<forall>i < length ips. \<forall>j < length ips. \<forall>y.
        norm y (prefixes ! i) = ips ! i \<and> norm y (prefixes ! j) = ips ! j \<longrightarrow>
        ips ! i = ips ! j \<and> prefixes ! i = prefixes ! j)"

lemma midpoint:
  assumes "unat l < unat r" "unat r < 2 ^ 31"
  shows "unat (drop_bit 1 (l + r) :: 32 word) = (unat l + unat r) div 2"
proof -
  have "unat (l + r) = unat l + unat r"
    using assms by (simp add: unat_word_ariths)
  then show ?thesis by (simp only: unat_drop_bit_eq) (simp add: drop_bit_eq_div)
qed

lemma search_loop_correct:
  assumes t: "table_ok ips prefixes"
    and "unat l \<le> unat r" "unat r \<le> length ips"
    and "\<forall>k < unat l. ips ! k \<le> ip" "\<forall>k. unat r \<le> k \<and> k < length ips \<longrightarrow> ip < ips ! k"
  shows "(search_loop (<) norm ips prefixes ip l r = Some None \<and>
            (\<exists>i < length ips. norm ip (prefixes ! i) = ips ! i)) \<or>
         (\<exists>m. search_loop (<) norm ips prefixes ip l r = Some (Some m) \<and> unat m \<le> length ips \<and>
            (\<forall>k < unat m. ips ! k \<le> ip) \<and> (\<forall>k. unat m \<le> k \<and> k < length ips \<longrightarrow> ip < ips ! k))"
  using assms(2-)
proof (induction "unat r - unat l" arbitrary: l r rule: less_induct)
  case less
  have n: "length ips < 2 ^ 31" "length prefixes = length ips" "sorted ips"
    using t by (simp_all add: table_ok_def)
  show ?case
  proof (cases "l < r")
    case False
    with less.prems show ?thesis
      by (subst (1 2) search_loop.simps) (auto simp: word_less_nat_alt)
  next
    case True
    let ?x = "drop_bit 1 (l + r)"
    from True have lr: "unat l < unat r" by (simp add: word_less_nat_alt)
    have x: "unat ?x = (unat l + unat r) div 2" using lr less.prems(2) n(1) by (intro midpoint) auto
    with lr have b: "unat l \<le> unat ?x" "unat ?x < unat r" by auto
    with less.prems(2) have xn: "unat ?x < length ips" by simp
    have x1: "unat (?x + 1) = unat ?x + 1"
      using xn n(1) by (simp add: unat_word_ariths(1) del: drop_bit_Suc)
    have step: "search_loop (<) norm ips prefixes ip l r =
       (if ip < ips ! unat ?x then search_loop (<) norm ips prefixes ip l ?x
        else if norm ip (prefixes ! unat ?x) = ips ! unat ?x then Some None
        else search_loop (<) norm ips prefixes ip (?x + 1) r)"
      using True xn n(2) by (subst search_loop.simps) (simp add: Let_def idx_def)
    show ?thesis
    proof (cases "ip < ips ! unat ?x")
      case True
      have "ip < ips ! k" if "unat ?x \<le> k" "k < length ips" for k
        using True sorted_nth_mono [OF n(3) that] by simp
      with less.hyps [of ?x l] b less.prems True step show ?thesis by auto
    next
      case False
      have "ips ! k \<le> ip" if "k < unat (?x + 1)" for k
        using False sorted_nth_mono [OF n(3), of k "unat ?x"] that xn x1 by simp
      with less.hyps [of r "?x + 1"] b less.prems False step x1 xn show ?thesis by auto
    qed
  qed
qed

lemma table_match_correct:
  assumes t: "table_ok ips prefixes"
  shows "table_match (<) norm ips prefixes ip = Some (\<exists>i < length ips. norm ip (prefixes ! i) = ips ! i)"
proof -
  have n: "length ips < 2 ^ 31" "length prefixes = length ips" "sorted ips"
    using t by (simp_all add: table_ok_def)
  have below: "ips ! i \<le> ip" if "norm ip (prefixes ! i) = ips ! i" for i
    using norm_le [of ip "prefixes ! i"] that by simp
  show ?thesis
  proof (cases "ips = [] \<or> ip < ips ! 0")
    case True
    have "norm ip (prefixes ! i) \<noteq> ips ! i" if "i < length ips" for i
      using True that below [of i] sorted_nth_mono [OF n(3), of 0 i] by auto
    with True show ?thesis by (auto simp: table_match_def)
  next
    case False
    have len: "unat (of_nat (length ips) :: 32 word) = length ips"
      using n(1) by (simp add: unat_of_nat)
    have tm: "table_match (<) norm ips prefixes ip =
       search_loop (<) norm ips prefixes ip 0 (of_nat (length ips)) \<bind> (\<lambda>res. case res of
          None \<Rightarrow> Some True
        | Some l \<Rightarrow> if 0 < l then idx prefixes (unat (l - 1)) \<bind> (\<lambda>p. idx ips (unat (l - 1)) \<bind>
            (\<lambda>e. Some (norm ip p = e))) else Some False)"
      using False by (simp add: table_match_def)
    let ?r = "search_loop (<) norm ips prefixes ip 0 (of_nat (length ips))"
    have "(?r = Some None \<and> (\<exists>i < length ips. norm ip (prefixes ! i) = ips ! i)) \<or>
      (\<exists>m. ?r = Some (Some m) \<and> unat m \<le> length ips \<and> (\<forall>k < unat m. ips ! k \<le> ip) \<and>
        (\<forall>k. unat m \<le> k \<and> k < length ips \<longrightarrow> ip < ips ! k))"
      by (rule search_loop_correct [OF t]) (use len in auto)
    then consider
      "?r = Some None" "\<exists>i < length ips. norm ip (prefixes ! i) = ips ! i"
    | m where "?r = Some (Some m)" "unat m \<le> length ips" "\<forall>k < unat m. ips ! k \<le> ip"
        "\<forall>k. unat m \<le> k \<and> k < length ips \<longrightarrow> ip < ips ! k"
      by blast
    then show ?thesis
    proof cases
      case 1
      then show ?thesis unfolding tm by simp
    next
      case 2
      have m0: "0 < unat m" using 2(4) False by (cases "unat m") auto
      then have m1: "unat (m - 1) = unat m - 1"
        by (simp add: unat_sub word_le_nat_alt Suc_leI)
      let ?l = "unat m - 1"
      have l: "?l < length ips" using 2(2) m0 by simp
      have all: "(\<exists>i < length ips. norm ip (prefixes ! i) = ips ! i) \<longleftrightarrow> norm ip (prefixes ! ?l) = ips ! ?l"
      proof
        assume "\<exists>i < length ips. norm ip (prefixes ! i) = ips ! i"
        then obtain i where i: "i < length ips" "norm ip (prefixes ! i) = ips ! i" by blast
        have "i < unat m"
          using 2(4) below [OF i(2)] i(1) by (meson leD not_le_imp_less)
        then have "i \<le> ?l" by simp
        with l n(3) have up: "ips ! i \<le> ips ! ?l" by (simp add: sorted_nth_mono)
        have "ips ! ?l \<le> ip" using 2(3) m0 by simp
        with up i(2) norm_convex [of ip "prefixes ! i" "ips ! ?l"] have "norm (ips ! ?l) (prefixes ! i) = ips ! i"
          by simp
        moreover have "norm (ips ! ?l) (prefixes ! ?l) = ips ! ?l" using t l by (simp add: table_ok_def)
        ultimately have "ips ! i = ips ! ?l \<and> prefixes ! i = prefixes ! ?l"
          using t l i(1) unfolding table_ok_def by blast
        with i(2) show "norm ip (prefixes ! ?l) = ips ! ?l" by simp
      qed (use l in blast)
      have "0 < m" using m0 by (simp add: word_less_nat_alt)
      with l n(2) 2(1) show ?thesis unfolding tm all by (simp add: m1 idx_def)
    qed
  qed
qed

text \<open>A list of addresses with their prefixes, sorted by the addresses as they are written, gives
  such a table when its networks do not overlap.\<close>

lemma table_ok_sorted:
  assumes "sorted (map fst xs)" "length xs < 2 ^ 31"
    and d: "\<And>a p b q y. (a, p) \<in> set xs \<Longrightarrow> (b, q) \<in> set xs \<Longrightarrow> norm y p = norm a p \<Longrightarrow>
      norm y q = norm b q \<Longrightarrow> norm a p = norm b q \<and> p = q"
  shows "table_ok (map (\<lambda>(a, p). norm a p) xs) (map snd xs)"
proof -
  have idem: "norm (norm a p) p = norm a p" for a p
    using norm_convex [of a p "norm a p"] norm_le by simp
  have "norm (fst (xs ! i)) (snd (xs ! i)) \<le> norm (fst (xs ! j)) (snd (xs ! j))"
    if ij: "i \<le> j" "j < length xs" for i j
  proof (rule ccontr)
    obtain a p b q where e: "xs ! i = (a, p)" "xs ! j = (b, q)" by (meson surj_pair)
    assume "\<not> ?thesis"
    then have lt: "norm b q < norm a p" by (simp add: e)
    have "a \<le> b" using sorted_nth_mono [OF assms(1), of i j] ij by (simp add: e)
    moreover have "norm b q \<le> a" using lt norm_le [of a p] by order
    ultimately have "norm a q = norm b q" by (intro norm_convex)
    with d [of a p b q a] e ij nth_mem [of i xs] nth_mem [of j xs] lt show False by auto
  qed
  then have "sorted (map (\<lambda>(a, p). norm a p) xs)"
    by (auto simp: sorted_iff_nth_mono case_prod_beta)
  moreover have "norm (fst (xs ! i)) (snd (xs ! i)) = norm (fst (xs ! j)) (snd (xs ! j)) \<and>
      snd (xs ! i) = snd (xs ! j)"
    if "i < length xs" "j < length xs" "norm y (snd (xs ! i)) = norm (fst (xs ! i)) (snd (xs ! i))"
      "norm y (snd (xs ! j)) = norm (fst (xs ! j)) (snd (xs ! j))" for i j y
    using that d [of "fst (xs ! i)" "snd (xs ! i)" "fst (xs ! j)" "snd (xs ! j)" y] by simp
  ultimately show ?thesis
    using assms(2) unfolding table_ok_def by (simp add: case_prod_beta idem) blast
qed

lemma table_answer:
  assumes "sorted (map fst xs)" "length xs < 2 ^ 31"
    and d: "\<And>a p b q y. (a, p) \<in> set xs \<Longrightarrow> (b, q) \<in> set xs \<Longrightarrow> norm y p = norm a p \<Longrightarrow>
      norm y q = norm b q \<Longrightarrow> p = q"
  shows "table_match (<) norm (map (\<lambda>(a, p). norm a p) xs) (map snd xs) ip =
    Some (\<exists>(a, p) \<in> set xs. norm ip p = norm a p)"
proof -
  let ?ips = "map (\<lambda>(a, p). norm a p) xs" and ?pre = "map snd xs"
  have "table_ok ?ips ?pre"
  proof (rule table_ok_sorted)
    fix a p b q y
    assume a: "(a, p) \<in> set xs" "(b, q) \<in> set xs" "norm y p = norm a p" "norm y q = norm b q"
    from d [OF this] have "p = q" .
    with a show "norm a p = norm b q \<and> p = q" by simp
  qed (use assms in auto)
  then have "table_match (<) norm ?ips ?pre ip = Some (\<exists>i < length ?ips. norm ip (?pre ! i) = ?ips ! i)"
    by (rule table_match_correct)
  also have "(\<exists>i < length ?ips. norm ip (?pre ! i) = ?ips ! i) \<longleftrightarrow> (\<exists>(a, p) \<in> set xs. norm ip p = norm a p)"
    by (force simp: in_set_conv_nth case_prod_beta)
  finally show ?thesis .
qed

end

section \<open>Masking\<close>

lemma clear_low_le: "push_bit n (drop_bit n x) \<le> (x :: 'a :: len word)"
proof -
  have "push_bit n (drop_bit n x) = x AND NOT (mask n)"
    by (rule bit_eqI) (auto simp: bit_simps not_le)
  then show ?thesis by (simp add: word_and_le2)
qed

lemma drop_bit_mono: "x \<le> y \<Longrightarrow> drop_bit n x \<le> drop_bit n (y :: 'a :: len word)"
  by (simp only: word_le_nat_alt unat_drop_bit_eq) (simp add: drop_bit_eq_div div_le_mono)

lemma drop_clear_low: "drop_bit n (push_bit n (drop_bit n x)) = drop_bit n (x :: 'a :: len word)"
  by (rule bit_eqI) (auto simp: bit_simps dest: bit_imp_le_length)

lemma clear_low_convex:
  assumes "push_bit n (drop_bit n x) \<le> y" "y \<le> (x :: 'a :: len word)"
  shows "drop_bit n y = drop_bit n x"
  using drop_bit_mono [OF assms(1), of n] drop_bit_mono [OF assms(2), of n] by (simp add: drop_clear_low)

lemma clear_low_eq_iff:
  "push_bit n (drop_bit n x) = push_bit n (drop_bit n y) \<longleftrightarrow> drop_bit n x = drop_bit n (y :: 'a :: len word)"
  using drop_clear_low [of n x] drop_clear_low [of n y] by metis

interpretation net4: prefix_order normalize4
proof
  show "normalize4 x p \<le> x" for x p by (simp add: normalize4_def clear_low_le)
  show "normalize4 y p = normalize4 x p" if "normalize4 x p \<le> y" "y \<le> x" for x p y
    using clear_low_convex [of "unat (32 - p)" x y] that by (simp add: normalize4_def)
qed

interpretation net6: prefix_order normalize6
proof
  show "normalize6 x p \<le> x" for x p
    using clear_low_le [of "unat (64 - p)" "ip6_a x"] clear_low_le [of "unat (128 - p)" "ip6_b x"]
    by (cases x) (auto simp: normalize6_def less_eq_ipv6_def less_ipv6_def le_less word_gt_0)
  show "normalize6 y p = normalize6 x p" if le: "normalize6 x p \<le> y" "y \<le> x" for x p y
  proof (cases "p \<le> 64")
    case True
    then have "push_bit (unat (64 - p)) (drop_bit (unat (64 - p)) (ip6_a x)) \<le> ip6_a y" "ip6_a y \<le> ip6_a x"
      using le clear_low_le [of "unat (64 - p)" "ip6_a x"]
      by (auto simp: normalize6_def less_eq_ipv6_def less_ipv6_def)
    with True show ?thesis by (simp add: normalize6_def clear_low_convex)
  next
    case False
    then have "ip6_a y = ip6_a x"
      "push_bit (unat (128 - p)) (drop_bit (unat (128 - p)) (ip6_b x)) \<le> ip6_b y" "ip6_b y \<le> ip6_b x"
      using le clear_low_le [of "unat (128 - p)" "ip6_b x"]
      by (auto simp: normalize6_def less_eq_ipv6_def less_ipv6_def)
    with False show ?thesis by (simp add: normalize6_def clear_low_convex)
  qed
qed

section \<open>Sorting\<close>

lemma bytes_Less_order:
  "length xs = length ys \<Longrightarrow>
     bytes_Less xs ys = (if xs < ys then Some True else if ys < xs then Some False else None)"
  by (induction xs ys rule: list_induct2) (auto simp: not_less_iff_gr_or_eq)

definition cidr_key :: "CIDR \<Rightarrow> nat \<times> net_IP \<times> 32 word" where
  "cidr_key c = (length (c_Ip c), c_Ip c, c_Prefix c)"

lemma CIDRList_Less_key: "CIDRList_Less c d \<longleftrightarrow> cidr_key c < cidr_key d"
  by (auto simp: CIDRList_Less_def cidr_key_def bytes_Less_order)

lemma sort_cidrs_key: "sort_cidrs cidrs = sort_key cidr_key cidrs"
proof -
  have "insort_cidr c ds = insort_key cidr_key c ds" for c ds
    by (induction ds) (auto simp: CIDRList_Less_key)
  then show ?thesis by (simp add: sort_cidrs_def sort_key_def fun_eq_iff foldr_map o_def cong: foldr_cong)
qed

text \<open>On byte strings of one length the order is that of the numbers they spell.\<close>

fun bytes_val :: "8 word list \<Rightarrow> nat" where
  "bytes_val [] = 0"
| "bytes_val (b # bs) = unat b * 256 ^ length bs + bytes_val bs"

lemma bytes_val_less: "bytes_val bs < 256 ^ length bs"
proof (induction bs)
  case (Cons b bs)
  have "unat b < 2 ^ LENGTH(8)" by (rule unsigned_less)
  then have "unat b + 1 \<le> 256" by simp
  have "bytes_val (b # bs) < (unat b + 1) * 256 ^ length bs" using Cons by (simp add: add_mult_distrib)
  also have "\<dots> \<le> 256 * 256 ^ length bs" using \<open>unat b + 1 \<le> 256\<close> by (rule mult_le_mono1)
  finally show ?case by simp
qed simp

lemma bytes_val_mono: "length xs = length ys \<Longrightarrow> xs < ys \<Longrightarrow> bytes_val xs < bytes_val ys"
proof (induction xs ys rule: list_induct2)
  case (Cons x xs y ys)
  show ?case
  proof (cases "x = y")
    case False
    with Cons.prems have "unat x + 1 \<le> unat y" by (simp add: word_less_nat_alt Suc_leI)
    then have "(unat x + 1) * 256 ^ length xs \<le> unat y * 256 ^ length xs" by (rule mult_le_mono1)
    with bytes_val_less [of xs] Cons.hyps show ?thesis by simp
  qed (use Cons in simp)
qed simp

lemma bytes_val_snoc: "bytes_val (bs @ [b]) = 256 * bytes_val bs + unat b"
  by (induction bs) (simp_all add: algebra_simps)

lemma unat_word_of_bytes:
  "8 * length bs \<le> LENGTH('a :: len) \<Longrightarrow> unat (word_of_bytes bs :: 'a word) = bytes_val bs"
proof (induction bs rule: rev_induct)
  case Nil
  then show ?case by (simp add: word_of_bytes_def)
next
  case (snoc b bs)
  let ?w = "word_of_bytes bs :: 'a word"
  have v: "unat ?w = bytes_val bs" using snoc by simp
  have "bytes_val (bs @ [b]) < 256 ^ length (bs @ [b])" by (rule bytes_val_less)
  also have "\<dots> = 2 ^ (8 * length (bs @ [b]))" by (simp only: power_mult) simp
  also have "\<dots> \<le> 2 ^ LENGTH('a)" using snoc.prems by (intro power_increasing) auto
  finally have lt: "256 * bytes_val bs + unat b < 2 ^ LENGTH('a)" by (simp only: bytes_val_snoc)
  have l8: "8 \<le> LENGTH('a)" using snoc.prems by simp
  have ub: "unat (ucast b :: 'a word) = unat b"
  proof -
    have "unat b < 2 ^ LENGTH(8)" by (rule unsigned_less)
    also have "(2 :: nat) ^ LENGTH(8) \<le> 2 ^ LENGTH('a)" using l8 by (intro power_increasing) auto
    finally show ?thesis by (simp add: unsigned_ucast_eq take_bit_nat_eq_self)
  qed
  have disj: "push_bit 8 ?w OR ucast b = push_bit 8 ?w + ucast b"
    by (rule disjunctive_add [symmetric]) (auto simp: bit_simps dest: bit_imp_le_length)
  have "unat (push_bit 8 ?w) = 256 * bytes_val bs"
    using lt by (simp only: unsigned_push_bit_eq v) (simp add: push_bit_eq_mult take_bit_nat_eq_self mult.commute)
  then have "unat (push_bit 8 ?w + ucast b) = 256 * bytes_val bs + unat b"
    using lt ub by (simp add: unat_word_ariths(1))
  moreover have "(word_of_bytes (bs @ [b]) :: 'a word) = push_bit 8 ?w OR ucast b"
    by (simp add: word_of_bytes_def)
  ultimately show ?case by (simp only: bytes_val_snoc disj)
qed

section \<open>What the table of a country answers\<close>

text \<open>The first \<open>p\<close> bits of two addresses agree.\<close>

definition agree4 :: "nat \<Rightarrow> 32 word \<Rightarrow> 32 word \<Rightarrow> bool" where
  "agree4 p x y = (drop_bit (32 - p) x = drop_bit (32 - p) y)"

definition agree6 :: "nat \<Rightarrow> ipv6 \<Rightarrow> ipv6 \<Rightarrow> bool" where
  "agree6 p x y =
     (if p \<le> 64 then drop_bit (64 - p) (ip6_a x) = drop_bit (64 - p) (ip6_a y)
      else ip6_a x = ip6_a y \<and> drop_bit (128 - p) (ip6_b x) = drop_bit (128 - p) (ip6_b y))"

definition in_cidr :: "CIDR \<Rightarrow> net_IP \<Rightarrow> bool" where
  "in_cidr c ip \<longleftrightarrow> length (c_Ip c) = length ip \<and>
     (if length ip = 4 then agree4 (unat (c_Prefix c)) (addr4 ip) (addr4 (c_Ip c))
      else agree6 (unat (c_Prefix c)) (addr6 ip) (addr6 (c_Ip c)))"

text \<open>What the table needs: proper prefixes, and networks that are the same or have no common
  address.\<close>

definition cidr_ok :: "CIDR \<Rightarrow> bool" where
  "cidr_ok c \<longleftrightarrow> (length (c_Ip c) = 4 \<and> c_Prefix c \<le> 32) \<or> (length (c_Ip c) = 16 \<and> c_Prefix c \<le> 128)"

definition disjoint_cidrs :: "CIDR list \<Rightarrow> bool" where
  "disjoint_cidrs cidrs \<longleftrightarrow> (\<forall>c \<in> set cidrs. \<forall>d \<in> set cidrs. \<forall>ip.
     in_cidr c ip \<and> in_cidr d ip \<longrightarrow> c_Prefix c = c_Prefix d)"

definition fam4 :: "CIDR list \<Rightarrow> (32 word \<times> 8 word) list" where
  "fam4 cidrs = map (\<lambda>c. (addr4 (c_Ip c), ucast (c_Prefix c))) (filter (\<lambda>c. length (c_Ip c) = 4) cidrs)"

definition fam6 :: "CIDR list \<Rightarrow> (ipv6 \<times> 8 word) list" where
  "fam6 cidrs = map (\<lambda>c. (addr6 (c_Ip c), ucast (c_Prefix c))) (filter (\<lambda>c. length (c_Ip c) = 16) cidrs)"

lemma foldl_addCidr:
  "gm_ip4 (foldl addCidr m cs) = gm_ip4 m @ map (\<lambda>(a, p). normalize4 a p) (fam4 cs)"
  "gm_prefix4 (foldl addCidr m cs) = gm_prefix4 m @ map snd (fam4 cs)"
  "gm_ip6 (foldl addCidr m cs) = gm_ip6 m @ map (\<lambda>(a, p). normalize6 a p) (fam6 cs)"
  "gm_prefix6 (foldl addCidr m cs) = gm_prefix6 m @ map snd (fam6 cs)"
  "gm_reverseMatch (foldl addCidr m cs) = gm_reverseMatch m"
  "gm_countryCode (foldl addCidr m cs) = gm_countryCode m"
  by (induction cs arbitrary: m) (auto simp: addCidr_def fam4_def fam6_def Let_def)

lemma addr4_mono: "length x = 4 \<Longrightarrow> length y = 4 \<Longrightarrow> x \<le> y \<Longrightarrow> addr4 x \<le> addr4 y"
  using bytes_val_mono [of x y] by (auto simp: addr4_def word_le_nat_alt unat_word_of_bytes le_less)

lemma append_order:
  "length a = length c \<Longrightarrow> a @ b < c @ d \<longleftrightarrow> a < c \<or> (a = c \<and> b < (d :: 8 word list))"
  by (induction a c rule: list_induct2) auto

lemma addr6_mono: "length x = 16 \<Longrightarrow> length y = 16 \<Longrightarrow> x \<le> y \<Longrightarrow> addr6 x \<le> addr6 y"
proof -
  assume l: "length x = 16" "length y = 16" and le: "x \<le> y"
  have w: "unat (word_of_bytes z :: 64 word) = bytes_val z" if "length z \<le> 8" for z
    using that by (intro unat_word_of_bytes) simp
  have "x = take 8 x @ drop 8 x" "y = take 8 y @ drop 8 y" by simp_all
  with le l append_order [of "take 8 x" "take 8 y" "drop 8 x" "drop 8 y"]
  have "x = y \<or> take 8 x < take 8 y \<or> (take 8 x = take 8 y \<and> drop 8 x < drop 8 y)"
    by (auto simp: le_less)
  then show ?thesis
    using l bytes_val_mono [of "take 8 x" "take 8 y"] bytes_val_mono [of "drop 8 x" "drop 8 y"]
    by (auto simp: addr6_def less_eq_ipv6_def less_ipv6_def word_less_nat_alt w)
qed

lemma sorted_fam:
  "sorted (map fst (fam4 (sort_cidrs cidrs)))" "sorted (map fst (fam6 (sort_cidrs cidrs)))"
proof -
  have s: "sorted_wrt (\<lambda>c d. cidr_key c \<le> cidr_key d) (sort_cidrs cidrs)"
    using sorted_sort_key [of cidr_key cidrs] by (simp add: sort_cidrs_key sorted_map)
  have "sorted_wrt (\<lambda>c d. addr4 (c_Ip c) \<le> addr4 (c_Ip d)) (filter (\<lambda>c. length (c_Ip c) = 4) (sort_cidrs cidrs))"
    by (rule sorted_wrt_mono_rel [OF _ sorted_wrt_filter [OF s]]) (auto simp: cidr_key_def addr4_mono intro: addr4_mono)
  then show "sorted (map fst (fam4 (sort_cidrs cidrs)))"
    by (simp add: fam4_def sorted_map o_def)
  have "sorted_wrt (\<lambda>c d. addr6 (c_Ip c) \<le> addr6 (c_Ip d)) (filter (\<lambda>c. length (c_Ip c) = 16) (sort_cidrs cidrs))"
    by (rule sorted_wrt_mono_rel [OF _ sorted_wrt_filter [OF s]]) (auto simp: cidr_key_def intro: addr6_mono)
  then show "sorted (map fst (fam6 (sort_cidrs cidrs)))"
    by (simp add: fam6_def sorted_map o_def)
qed

lemma normalize4_agree:
  "p \<le> 32 \<Longrightarrow> normalize4 x (ucast p) = normalize4 y (ucast p) \<longleftrightarrow> agree4 (unat (p :: 32 word)) x y"
proof -
  assume p: "p \<le> 32"
  have "unat (ucast p :: 8 word) = unat p"
    using p by (simp add: unsigned_ucast_eq take_bit_nat_eq_self word_le_nat_alt)
  then have "unat (32 - ucast p :: 8 word) = 32 - unat p"
    using p by (simp add: unat_sub word_le_nat_alt)
  then show ?thesis by (simp add: normalize4_def clear_low_eq_iff agree4_def)
qed

lemma normalize6_agree:
  "p \<le> 128 \<Longrightarrow> normalize6 x (ucast p) = normalize6 y (ucast p) \<longleftrightarrow> agree6 (unat (p :: 32 word)) x y"
proof -
  assume p: "p \<le> 128"
  have u: "unat (ucast p :: 8 word) = unat p"
    using p by (simp add: unsigned_ucast_eq take_bit_nat_eq_self word_le_nat_alt)
  then have "unat (128 - ucast p :: 8 word) = 128 - unat p"
    "(ucast p :: 8 word) \<le> 64 \<longleftrightarrow> unat p \<le> 64"
    "unat p \<le> 64 \<Longrightarrow> unat (64 - ucast p :: 8 word) = 64 - unat p"
    using p by (simp_all add: unat_sub word_le_nat_alt)
  then show ?thesis by (auto simp: normalize6_def clear_low_eq_iff agree6_def)
qed

lemma ucast_prefix_inj: "p \<le> 128 \<Longrightarrow> q \<le> 128 \<Longrightarrow> (ucast p :: 8 word) = ucast q \<Longrightarrow> p = (q :: 32 word)"
proof -
  have u: "unat (ucast p :: 8 word) = unat p" if "p \<le> 128" for p :: "32 word"
    using that by (simp add: unsigned_ucast_eq take_bit_nat_eq_self word_le_nat_alt)
  assume "p \<le> 128" "q \<le> 128" and e: "(ucast p :: 8 word) = ucast q"
  with u [of p] u [of q] show ?thesis by (simp add: word_unat_eq_iff)
qed

lemma length_filter_sort: "length (filter P (sort_cidrs cidrs)) \<le> length cidrs"
  using length_filter_le [of P "sort_cidrs cidrs"] by (simp add: sort_cidrs_key)

lemma set_sort_cidrs: "set (sort_cidrs cidrs) = set cidrs"
  by (simp add: sort_cidrs_key)

text \<open>Either family, from the disjointness of the networks.\<close>

lemma match4_correct:
  assumes i: "Init m cidrs = Some m'" and n: "length cidrs < 2 ^ 31"
    and ok: "\<forall>c \<in> set cidrs. cidr_ok c" and d: "disjoint_cidrs cidrs" and ip: "length ip = 4"
  shows "match4 m' (addr4 ip) = Some (\<exists>c \<in> set cidrs. in_cidr c ip)"
proof -
  let ?xs = "fam4 (sort_cidrs cidrs)"
  have m': "gm_ip4 m' = map (\<lambda>(a, p). normalize4 a p) ?xs" "gm_prefix4 m' = map snd ?xs"
    using i by (auto simp: Init_def foldl_addCidr split: if_splits)
  have in4: "in_cidr c x \<longleftrightarrow> normalize4 (addr4 x) (ucast (c_Prefix c)) = normalize4 (addr4 (c_Ip c)) (ucast (c_Prefix c))"
    if "c \<in> set cidrs" "length (c_Ip c) = 4" "length x = 4" for c x
    using that ok by (auto simp: in_cidr_def cidr_ok_def normalize4_agree)
  have mem: "(a, p) \<in> set ?xs \<longleftrightarrow>
      (\<exists>c \<in> set cidrs. length (c_Ip c) = 4 \<and> a = addr4 (c_Ip c) \<and> p = ucast (c_Prefix c))" for a p
    by (auto simp: fam4_def set_sort_cidrs)
  have "p = q" if "(a, p) \<in> set ?xs" "(b, q) \<in> set ?xs" "normalize4 y p = normalize4 a p" "normalize4 y q = normalize4 b q" for a p b q y
  proof -
    have y: "y = addr4 (bytes_of 4 y)" by (simp add: addr4_def word_of_bytes_of)
    from that(1,2) obtain c e where c: "c \<in> set cidrs" "length (c_Ip c) = 4" "a = addr4 (c_Ip c)" "p = ucast (c_Prefix c)"
      and e: "e \<in> set cidrs" "length (c_Ip e) = 4" "b = addr4 (c_Ip e)" "q = ucast (c_Prefix e)"
      unfolding mem by blast
    have "in_cidr c (bytes_of 4 y)" "in_cidr e (bytes_of 4 y)"
      using that(3,4) in4 [OF c(1,2)] in4 [OF e(1,2)] c e y by auto
    with d c e show ?thesis unfolding disjoint_cidrs_def by metis
  qed
  then have "match4 m' (addr4 ip) = Some (\<exists>(a, p) \<in> set ?xs. normalize4 (addr4 ip) p = normalize4 a p)"
    unfolding match4_def m' using n length_filter_sort [of "\<lambda>c. length (c_Ip c) = 4" cidrs]
    by (intro net4.table_answer sorted_fam) (auto simp: fam4_def)
  also have "(\<exists>(a, p) \<in> set ?xs. normalize4 (addr4 ip) p = normalize4 a p) \<longleftrightarrow> (\<exists>c \<in> set cidrs. in_cidr c ip)"
    using in4 [of _ ip] ip by (force simp: fam4_def set_sort_cidrs in_cidr_def)
  finally show ?thesis .
qed

lemma match6_correct:
  assumes i: "Init m cidrs = Some m'" and n: "length cidrs < 2 ^ 31"
    and ok: "\<forall>c \<in> set cidrs. cidr_ok c" and d: "disjoint_cidrs cidrs" and ip: "length ip = 16"
  shows "match6 m' (addr6 ip) = Some (\<exists>c \<in> set cidrs. in_cidr c ip)"
proof -
  let ?xs = "fam6 (sort_cidrs cidrs)"
  have m': "gm_ip6 m' = map (\<lambda>(a, p). normalize6 a p) ?xs" "gm_prefix6 m' = map snd ?xs"
    using i by (auto simp: Init_def foldl_addCidr split: if_splits)
  have in6: "in_cidr c x \<longleftrightarrow> normalize6 (addr6 x) (ucast (c_Prefix c)) = normalize6 (addr6 (c_Ip c)) (ucast (c_Prefix c))"
    if "c \<in> set cidrs" "length (c_Ip c) = 16" "length x = 16" for c x
    using that ok by (auto simp: in_cidr_def cidr_ok_def normalize6_agree)
  have mem: "(a, p) \<in> set ?xs \<longleftrightarrow>
      (\<exists>c \<in> set cidrs. length (c_Ip c) = 16 \<and> a = addr6 (c_Ip c) \<and> p = ucast (c_Prefix c))" for a p
    by (auto simp: fam6_def set_sort_cidrs)
  have "p = q" if "(a, p) \<in> set ?xs" "(b, q) \<in> set ?xs" "normalize6 y p = normalize6 a p" "normalize6 y q = normalize6 b q" for a p b q y
  proof -
    let ?y = "bytes_of 8 (ip6_a y) @ bytes_of 8 (ip6_b y)"
    have y: "y = addr6 ?y"
      using word_of_bytes_prefix [of 8 8 "ip6_a y"] word_of_bytes_prefix [of 8 8 "ip6_b y"]
      by (simp add: addr6_def bytes_of_def)
    from that(1,2) obtain c e where c: "c \<in> set cidrs" "length (c_Ip c) = 16" "a = addr6 (c_Ip c)" "p = ucast (c_Prefix c)"
      and e: "e \<in> set cidrs" "length (c_Ip e) = 16" "b = addr6 (c_Ip e)" "q = ucast (c_Prefix e)"
      unfolding mem by blast
    have "in_cidr c ?y" "in_cidr e ?y"
      using that(3,4) in6 [OF c(1,2), of ?y] in6 [OF e(1,2), of ?y] c e y by auto
    with d c e show ?thesis unfolding disjoint_cidrs_def by metis
  qed
  then have "match6 m' (addr6 ip) = Some (\<exists>(a, p) \<in> set ?xs. normalize6 (addr6 ip) p = normalize6 a p)"
    unfolding match6_def m' less6_less using n length_filter_sort [of "\<lambda>c. length (c_Ip c) = 16" cidrs]
    by (intro net6.table_answer sorted_fam) (auto simp: fam6_def)
  also have "(\<exists>(a, p) \<in> set ?xs. normalize6 (addr6 ip) p = normalize6 a p) \<longleftrightarrow> (\<exists>c \<in> set cidrs. in_cidr c ip)"
    using in6 [of _ ip] ip by (force simp: fam6_def set_sort_cidrs in_cidr_def)
  finally show ?thesis .
qed

text \<open>C18: on a table of proper, pairwise disjoint networks the binary search ends and answers whether
  the address lies in one of them, for IPv4 and IPv6 and in any order of the input, negated for a
  reversed matcher; an address that has neither 4 nor 16 bytes is never matched.\<close>

theorem geoip_match_correct:
  assumes "Init m cidrs = Some m'" "length cidrs < 2 ^ 31"
    "\<forall>c \<in> set cidrs. cidr_ok c" "disjoint_cidrs cidrs"
  shows "GeoIP_Match m' ip = Some ((length ip = 4 \<or> length ip = 16) \<and>
    ((\<exists>c \<in> set cidrs. in_cidr c ip) \<noteq> gm_reverseMatch m))"
proof -
  have "gm_reverseMatch m' = gm_reverseMatch m"
    using assms(1) by (auto simp: Init_def foldl_addCidr split: if_splits)
  then show ?thesis
    using match4_correct [OF assms] match6_correct [OF assms] by (auto simp: GeoIP_Match_def)
qed

definition demo_cidrs :: "CIDR list" where
  "demo_cidrs = [\<lparr>c_Ip = [192, 168, 0, 0], c_Prefix = 16\<rparr>, \<lparr>c_Ip = [10, 0, 0, 0], c_Prefix = 8\<rparr>]"

definition demo_matcher :: GeoIPMatcher where
  "demo_matcher = \<lparr>gm_countryCode = ''x'', gm_reverseMatch = False, gm_ip4 = [], gm_prefix4 = [],
     gm_ip6 = [], gm_prefix6 = []\<rparr>"

lemma geoip_match_correct_witness:
  "\<exists>m'. Init demo_matcher demo_cidrs = Some m' \<and> GeoIP_Match m' [10, 1, 2, 3] = Some True \<and>
     GeoIP_Match m' [172, 16, 0, 1] = Some False"
proof -
  have i: "Init demo_matcher demo_cidrs \<noteq> None" by (simp add: Init_def demo_cidrs_def)
  then obtain m' where m': "Init demo_matcher demo_cidrs = Some m'" by blast
  have d: "disjoint_cidrs demo_cidrs"
  proof -
    have False if "drop_bit 24 x = (10 :: 32 word)" "drop_bit 16 x = (0xC0A8 :: 32 word)" for x :: "32 word"
    proof -
      have "drop_bit 24 x = drop_bit 8 (drop_bit 16 x)" by simp
      with that show False by simp
    qed
    then show ?thesis
      by (auto simp: disjoint_cidrs_def demo_cidrs_def in_cidr_def agree4_def addr4_def word_of_bytes_def)
  qed
  have "length demo_cidrs < 2 ^ 31" "\<forall>c \<in> set demo_cidrs. cidr_ok c"
    by (simp_all add: demo_cidrs_def cidr_ok_def)
  from geoip_match_correct [OF m' this d, of "[10, 1, 2, 3]"] geoip_match_correct [OF m' this d, of "[172, 16, 0, 1]"] m'
  show ?thesis
    by (simp add: demo_cidrs_def in_cidr_def agree4_def addr4_def word_of_bytes_def demo_matcher_def)
qed

text \<open>The container never forgets a country: once a country code is loaded, every later load
  of it returns the same matcher and leaves the container as it is, whatever the records are by then.\<close>

theorem geoip_container_keeps:
  assumes "g_CountryCode g \<noteq> []" "Add g c = Some (c', m)"
    "g_CountryCode g' = g_CountryCode g" "g_ReverseMatch g' = g_ReverseMatch g"
  shows "Add g' c' = Some (c', m)"
proof -
  have same: "same_code g' = same_code g" using assms by (auto simp: same_code_def fun_eq_iff)
  show ?thesis
  proof (cases "find (same_code g) c")
    case (Some m0)
    with assms(1,2,3) same show ?thesis by (simp add: Add_def)
  next
    case None
    let ?m = "\<lparr>gm_countryCode = g_CountryCode g, gm_reverseMatch = g_ReverseMatch g,
        gm_ip4 = [], gm_prefix4 = [], gm_ip6 = [], gm_prefix6 = []\<rparr>"
    have "Add g c = Init ?m (g_Cidr g) \<bind> (\<lambda>m. Some (c @ [m], m))"
      unfolding Add_def None using assms(1) by simp
    with assms(2) obtain m1 where m1: "Init ?m (g_Cidr g) = Some m1" "c' = c @ [m1]" "m = m1"
      by (metis (no_types, lifting) bind_eq_Some_conv option.inject prod.inject)
    have "same_code g m1" using m1(1) by (auto simp: Init_def foldl_addCidr same_code_def split: if_splits)
    with None have "find (same_code g) (c @ [m1]) = Some m1"
      by (induction c) (simp_all split: if_splits)
    with assms(1,3) m1(2,3) same show ?thesis by (simp add: Add_def)
  qed
qed

lemma geoip_container_keeps_witness:
  "\<exists>c' m. Add \<lparr>g_CountryCode = ''cn'', g_Cidr = demo_cidrs, g_ReverseMatch = False\<rparr> [] = Some (c', m) \<and>
     Add \<lparr>g_CountryCode = ''cn'', g_Cidr = [], g_ReverseMatch = False\<rparr> c' = Some (c', m)"
proof -
  let ?g = "\<lparr>g_CountryCode = ''cn'', g_Cidr = demo_cidrs, g_ReverseMatch = False\<rparr>"
  have "Add ?g [] \<noteq> None" by (simp add: Add_def Init_def demo_cidrs_def)
  then obtain c' m where a: "Add ?g [] = Some (c', m)" by auto
  from geoip_container_keeps [OF _ a, of "\<lparr>g_CountryCode = ''cn'', g_Cidr = [], g_ReverseMatch = False\<rparr>"] a
  show ?thesis by auto
qed

text \<open>Networks that are nested, on the other hand, hide one another: an address of the wider network
  behind the narrower one is not found.\<close>

lemma nested_networks_hidden:
  "Init demo_matcher [\<lparr>c_Ip = [10, 0, 0, 0], c_Prefix = 8\<rparr>, \<lparr>c_Ip = [10, 1, 0, 0], c_Prefix = 16\<rparr>]
     \<bind> (\<lambda>m'. GeoIP_Match m' [10, 2, 0, 1]) = Some False"
  by code_simp

end
