(* ===== verification/StrMatcher.thy ===== *)
theory StrMatcher imports GoPrelude "HOL-Library.Word" begin

text \<open>
  \<^verbatim>\<open>component/geodata/strmatcher\<close>: the string matchers of the geosite rules, one by one (\<^verbatim>\<open>matchers.go\<close>,
  \<^verbatim>\<open>strmatcher.go\<close>) and as the linear group with its map for full names and its trie for domains
  (\<^verbatim>\<open>full_matcher.go\<close>, \<^verbatim>\<open>domain_matcher.go\<close>).

  Regular expressions are the library's: the record \<open>regexp\<close> has the methods that are called.
\<close>

section \<open>Matchers\<close>

record 'r regexp =
  Compile :: "string \<Rightarrow> 'r option"
  MatchString :: "'r \<Rightarrow> string \<Rightarrow> bool"
  re_String :: "'r \<Rightarrow> string"

datatype MType = Full | Substr | Domain | Regex

datatype 'r Matcher = fullMatcher string | substrMatcher string | domainMatcher string | regexMatcher 'r

definition domain_Match :: "string \<Rightarrow> string \<Rightarrow> bool" where
  "domain_Match pattern s =
     (if \<not> HasSuffix s pattern then False
      else length s = length pattern \<or> s ! (length s - length pattern - 1) = CHR ''.'')"

fun Matcher_Match :: "'r regexp \<Rightarrow> 'r Matcher \<Rightarrow> string \<Rightarrow> bool" where
  "Matcher_Match R (fullMatcher m) s = (m = s)"
| "Matcher_Match R (substrMatcher m) s = Contains s m"
| "Matcher_Match R (domainMatcher m) s = domain_Match m s"
| "Matcher_Match R (regexMatcher m) s = MatchString R m s"

fun Matcher_String :: "'r regexp \<Rightarrow> 'r Matcher \<Rightarrow> string" where
  "Matcher_String R (fullMatcher m) = ''full:'' @ m"
| "Matcher_String R (substrMatcher m) = ''keyword:'' @ m"
| "Matcher_String R (domainMatcher m) = ''domain:'' @ m"
| "Matcher_String R (regexMatcher m) = ''regexp:'' @ re_String R m"

text \<open>\<^verbatim>\<open>Type.New\<close>; \<open>None\<close> is the error of the regular expression.\<close>

fun MType_New :: "'r regexp \<Rightarrow> MType \<Rightarrow> string \<Rightarrow> 'r Matcher option" where
  "MType_New R Full pattern = Some (fullMatcher pattern)"
| "MType_New R Substr pattern = Some (substrMatcher pattern)"
| "MType_New R Domain pattern = Some (domainMatcher pattern)"
| "MType_New R Regex pattern = map_option regexMatcher (Compile R pattern)"

section \<open>Full names\<close>

type_synonym FullMatcherGroup = "(string \<times> 32 word list) list"

definition full_Add :: "string \<Rightarrow> 32 word \<Rightarrow> FullMatcherGroup \<Rightarrow> FullMatcherGroup" where
  "full_Add domain v g = map_put domain ((case map_of g domain of Some vs \<Rightarrow> vs | None \<Rightarrow> []) @ [v]) g"

definition full_Match :: "FullMatcherGroup \<Rightarrow> string \<Rightarrow> 32 word list" where
  "full_Match g str = (case map_of g str of Some vs \<Rightarrow> vs | None \<Rightarrow> [])"

section \<open>Domains\<close>

datatype node = node (node_values: "32 word list") (node_sub: "(string \<times> node) list")

definition breakDomain :: "string \<Rightarrow> string list" where
  "breakDomain domain = Split (CHR ''.'') domain"

text \<open>The loop of \<^verbatim>\<open>Add\<close> over the parts, the last one first.\<close>

function addParts :: "string list \<Rightarrow> 32 word \<Rightarrow> node \<Rightarrow> node" where
  "addParts [] v n = node (node_values n @ [v]) (node_sub n)"
| "addParts (part # parts) v n =
     node (node_values n) (map_put part
       (addParts parts v (case map_of (node_sub n) part of Some c \<Rightarrow> c | None \<Rightarrow> node [] [])) (node_sub n))"
  by pat_completeness auto

termination
  by (relation "measure (\<lambda>(parts, v, n). length parts)") auto

definition domain_Add :: "string \<Rightarrow> 32 word \<Rightarrow> node option \<Rightarrow> node option" where
  "domain_Add domain v root =
     Some (addParts (rev (breakDomain domain)) v (case root of Some n \<Rightarrow> n | None \<Rightarrow> node [] []))"

text \<open>\<^verbatim>\<open>nextPart\<close>: the last dot before \<open>pos\<close>; \<open>None\<close> is -1.\<close>

fun nextPart :: "string \<Rightarrow> nat \<Rightarrow> nat option" where
  "nextPart domain 0 = None"
| "nextPart domain (Suc i) = (if domain ! i = CHR ''.'' then Some i else nextPart domain i)"

lemma nextPart_less: "nextPart domain i = Some j \<Longrightarrow> j < i"
  by (induction domain i rule: nextPart.induct) (auto split: if_splits)

definition partAt :: "string \<Rightarrow> nat option \<Rightarrow> nat \<Rightarrow> string" where
  "partAt domain nidx i = (let s = (case nidx of Some n \<Rightarrow> n + 1 | None \<Rightarrow> 0) in take (i - s) (drop s domain))"

function matchLoop :: "string \<Rightarrow> nat option \<Rightarrow> node \<Rightarrow> 32 word list list \<Rightarrow> 32 word list list" where
  "matchLoop domain pos current matches =
     (case pos of
        None \<Rightarrow> matches
      | Some i \<Rightarrow>
          if node_sub current = [] then matches
          else let nidx = nextPart domain i
               in case map_of (node_sub current) (partAt domain nidx i) of
                    None \<Rightarrow> matches
                  | Some n \<Rightarrow> matchLoop domain nidx n
                      (if 0 < length (node_values n) then matches @ [node_values n] else matches))"
  by pat_completeness auto

termination
  by (relation "measure (\<lambda>(domain, pos, n, ms). case pos of None \<Rightarrow> 0 | Some i \<Rightarrow> Suc i)")
    (auto split: option.splits dest: nextPart_less)

declare matchLoop.simps [simp del]

definition domain_group_Match :: "node option \<Rightarrow> string \<Rightarrow> 32 word list" where
  "domain_group_Match root domain =
     (if domain = [] then []
      else case root of
        None \<Rightarrow> []
      | Some current \<Rightarrow> concat (rev (matchLoop domain (Some (length domain)) current [])))"

section \<open>The linear group\<close>

record 'r MatcherGroup =
  mg_count :: "32 word"
  mg_full :: FullMatcherGroup
  mg_domain :: "node option"
  mg_others :: "('r Matcher \<times> 32 word) list"

definition mg_empty :: "'r MatcherGroup" where
  "mg_empty = \<lparr>mg_count = 0, mg_full = [], mg_domain = None, mg_others = []\<rparr>"

definition mg_Add :: "'r Matcher \<Rightarrow> 'r MatcherGroup \<Rightarrow> 'r MatcherGroup \<times> 32 word" where
  "mg_Add m g =
     (let c = mg_count g + 1; g = g\<lparr>mg_count := c\<rparr>
      in ((case m of
             fullMatcher tm \<Rightarrow> g\<lparr>mg_full := full_Add tm c (mg_full g)\<rparr>
           | domainMatcher tm \<Rightarrow> g\<lparr>mg_domain := domain_Add tm c (mg_domain g)\<rparr>
           | _ \<Rightarrow> g\<lparr>mg_others := mg_others g @ [(m, c)]\<rparr>), c))"

definition mg_Match :: "'r regexp \<Rightarrow> 'r MatcherGroup \<Rightarrow> string \<Rightarrow> 32 word list" where
  "mg_Match R g pattern =
     full_Match (mg_full g) pattern @ domain_group_Match (mg_domain g) pattern @
     map snd (filter (\<lambda>(m, i). Matcher_Match R m pattern) (mg_others g))"

definition mg_Size :: "'r MatcherGroup \<Rightarrow> 32 word" where
  "mg_Size g = mg_count g"

section \<open>The domain trie\<close>

text \<open>The values below a node along a path.\<close>

fun vals_at :: "node \<Rightarrow> string list \<Rightarrow> 32 word list" where
  "vals_at n [] = node_values n"
| "vals_at n (p # ps) = (case map_of (node_sub n) p of None \<Rightarrow> [] | Some c \<Rightarrow> vals_at c ps)"

lemma vals_at_new: "vals_at (node [] []) ps = []"
  by (cases ps) auto

lemma vals_at_add: "vals_at (addParts ps v n) qs = vals_at n qs @ (if ps = qs then [v] else [])"
proof (induction ps v n arbitrary: qs rule: addParts.induct)
  case (1 v n)
  then show ?case by (cases qs) auto
next
  case (2 part parts v n)
  show ?case
  proof (cases qs)
    case (Cons q qs')
    with 2 [of qs'] show ?thesis by (auto simp: vals_at_new split: option.split)
  qed simp
qed

text \<open>The path the loop of \<open>matchLoop\<close> follows: the labels of the name, the last one first.\<close>

lemma Split_last: "c \<notin> set q \<Longrightarrow> Split c (p @ c # q) = Split c p @ [q]"
proof (induction p)
  case Nil
  then show ?case using Split_append [of c "[]" q] by (simp add: Split_self)
next
  case (Cons x p)
  then show ?case using Split_not_Nil [of c p] by (auto split: list.splits)
qed

lemma rev_Split_take:
  assumes "i \<le> length s"
  shows "rev (Split (CHR ''.'') (take i s)) = partAt s (nextPart s i) i #
    (case nextPart s i of None \<Rightarrow> [] | Some j \<Rightarrow> rev (Split (CHR ''.'') (take j s)))"
proof -
  have "(case nextPart s i of
       None \<Rightarrow> CHR ''.'' \<notin> set (take i s)
     | Some j \<Rightarrow> take i s = take j s @ CHR ''.'' # partAt s (Some j) i \<and> CHR ''.'' \<notin> set (partAt s (Some j) i))"
    using assms
  proof (induction i)
    case (Suc i)
    then have i: "i < length s" "take (Suc i) s = take i s @ [s ! i]" by (simp_all add: take_Suc_conv_app_nth)
    show ?case
    proof (cases "s ! i = CHR ''.''")
      case True
      with i show ?thesis by (simp add: partAt_def)
    next
      case False
      show ?thesis
      proof (cases "nextPart s i")
        case None
        with Suc False i show ?thesis by simp
      next
        case (Some j)
        then have j: "j < i" by (rule nextPart_less)
        then have "partAt s (Some j) (Suc i) = partAt s (Some j) i @ [s ! i]"
          using i take_Suc_conv_app_nth [of "i - Suc j" "drop (Suc j) s"]
          by (simp add: partAt_def Suc_diff_Suc)
        with Suc False i Some show ?thesis by auto
      qed
    qed
  qed simp
  then show ?thesis
    using assms by (auto simp: partAt_def Split_self Split_last split: option.splits)
qed

text \<open>What the loop collects: the values at the proper prefixes of the path.\<close>

lemma matchLoop_values:
  assumes "case pos of None \<Rightarrow> True | Some i \<Rightarrow> i \<le> length s"
  shows "v \<in> set (concat (matchLoop s pos n ms)) \<longleftrightarrow> v \<in> set (concat ms) \<or>
    (\<exists>k > 0. v \<in> set (vals_at n (take k
      (case pos of None \<Rightarrow> [] | Some i \<Rightarrow> rev (Split (CHR ''.'') (take i s))))) \<and>
      k \<le> length (case pos of None \<Rightarrow> [] | Some i \<Rightarrow> rev (Split (CHR ''.'') (take i s))))"
  using assms
proof (induction s pos n ms rule: matchLoop.induct)
  case (1 s pos n ms)
  show ?case
  proof (cases pos)
    case None
    then show ?thesis by (simp add: matchLoop.simps)
  next
    case (Some i)
    with "1.prems" have i: "i \<le> length s" by simp
    let ?p = "partAt s (nextPart s i) i"
    let ?rest = "case nextPart s i of None \<Rightarrow> [] | Some j \<Rightarrow> rev (Split (CHR ''.'') (take j s))"
    have path: "rev (Split (CHR ''.'') (take i s)) = ?p # ?rest" by (rule rev_Split_take [OF i])
    show ?thesis
    proof (cases "map_of (node_sub n) ?p")
      case None
      have none: "vals_at n (take k (?p # ?rest)) = []" if "k > 0" for k
        using None that by (cases k) auto
      have "matchLoop s pos n ms = ms"
        using Some None by (simp add: matchLoop.simps [of s "Some i"] Let_def)
      with none show ?thesis unfolding Some option.case path by auto
    next
      case (Some c)
      then have ne: "node_sub n \<noteq> []" by auto
      have step: "matchLoop s pos n ms = matchLoop s (nextPart s i) c
          (if 0 < length (node_values c) then ms @ [node_values c] else ms)"
        using \<open>pos = Some i\<close> Some ne by (simp add: matchLoop.simps [of s "Some i"] Let_def)
      have pre: "case nextPart s i of None \<Rightarrow> True | Some j \<Rightarrow> j \<le> length s"
        using i by (auto split: option.split dest: nextPart_less)
      have "(\<exists>k > 0. v \<in> set (vals_at n (take k (?p # ?rest))) \<and> k \<le> length (?p # ?rest)) \<longleftrightarrow>
        v \<in> set (node_values c) \<or> (\<exists>k > 0. v \<in> set (vals_at c (take k ?rest)) \<and> k \<le> length ?rest)"
        (is "?l \<longleftrightarrow> ?r")
      proof
        assume ?l
        then obtain k where k: "k > 0" "v \<in> set (vals_at n (take k (?p # ?rest)))" "k \<le> length (?p # ?rest)" by blast
        obtain j where j: "k = Suc j" using k(1) by (cases k) auto
        with k Some have "v \<in> set (vals_at c (take j ?rest))" "j \<le> length ?rest" by simp_all
        then show ?r by (cases j) (simp, blast)
      next
        assume ?r
        then show ?l
        proof
          assume "v \<in> set (node_values c)"
          then have "v \<in> set (vals_at n (take 1 (?p # ?rest)))" using Some by simp
          then show ?l by (intro exI [of _ 1]) simp
        next
          assume "\<exists>k > 0. v \<in> set (vals_at c (take k ?rest)) \<and> k \<le> length ?rest"
          then obtain k where "v \<in> set (vals_at c (take k ?rest))" "k \<le> length ?rest" by blast
          then show ?l using Some by (intro exI [of _ "Suc k"]) simp
        qed
      qed
      moreover have "v \<in> set (concat (matchLoop s pos n ms)) \<longleftrightarrow> v \<in> set (concat ms) \<or> v \<in> set (node_values c) \<or>
          (\<exists>k > 0. v \<in> set (vals_at c (take k ?rest)) \<and> k \<le> length ?rest)"
        unfolding step
        using "1.IH" [OF \<open>pos = Some i\<close> _ refl Some pre] ne by auto
      ultimately show ?thesis unfolding \<open>pos = Some i\<close> option.case path by blast
    qed
  qed
qed

text \<open>A domain pattern matches a name exactly when its labels are the last labels of the name.\<close>

lemma Split_snoc_iff: "Split c (p @ c # q) = Split c p @ Split c q"
proof (induction p)
  case (Cons x p)
  then show ?case using Split_not_Nil [of c p] by (auto split: list.splits)
qed simp

lemma Split_inj: "Split c s = Split c t \<Longrightarrow> s = t"
  by (metis Join_Split)

lemma Join_append: "xs \<noteq> [] \<Longrightarrow> ys \<noteq> [] \<Longrightarrow> Join sep (xs @ ys) = Join sep xs @ sep @ Join sep ys"
proof (induction xs)
  case (Cons x xs)
  then show ?case by (cases xs) (auto simp: Join_Cons_not_Nil)
qed simp

lemma domain_Match_suffix: "domain_Match pattern s \<longleftrightarrow> s = pattern \<or> (\<exists>u. s = u @ CHR ''.'' # pattern)"
proof
  assume m: "domain_Match pattern s"
  then obtain t where t: "s = t @ pattern" by (auto simp: domain_Match_def HasSuffix_iff split: if_splits)
  show "s = pattern \<or> (\<exists>u. s = u @ CHR ''.'' # pattern)"
  proof (cases t rule: rev_cases)
    case (snoc u x)
    with m t show ?thesis by (auto simp: domain_Match_def nth_append split: if_splits)
  qed (simp add: t)
next
  assume "s = pattern \<or> (\<exists>u. s = u @ CHR ''.'' # pattern)"
  then show "domain_Match pattern s"
  proof
    assume "\<exists>u. s = u @ CHR ''.'' # pattern"
    then obtain u where u: "s = (u @ ''.'') @ pattern" by auto
    then have "HasSuffix s pattern" unfolding HasSuffix_iff by blast
    with u show ?thesis by (simp add: domain_Match_def nth_append)
  qed (simp add: domain_Match_def HasSuffix_iff)
qed

lemma domain_Match_labels:
  "domain_Match pattern s \<longleftrightarrow> (\<exists>k > 0. k \<le> length (breakDomain s) \<and>
     rev (breakDomain pattern) = take k (rev (breakDomain s)))"
proof
  assume "domain_Match pattern s"
  then consider "s = pattern" | u where "s = u @ CHR ''.'' # pattern"
    unfolding domain_Match_suffix by blast
  then show "\<exists>k > 0. k \<le> length (breakDomain s) \<and> rev (breakDomain pattern) = take k (rev (breakDomain s))"
    by cases (auto simp: breakDomain_def Split_snoc_iff intro!: exI [of _ "length (Split (CHR ''.'') pattern)"])
next
  assume "\<exists>k > 0. k \<le> length (breakDomain s) \<and> rev (breakDomain pattern) = take k (rev (breakDomain s))"
  then obtain k where "rev (breakDomain s) = rev (breakDomain pattern) @ drop k (rev (breakDomain s))"
    by (metis append_take_drop_id)
  then have eq: "Split (CHR ''.'') s = rev (drop k (rev (Split (CHR ''.'') s))) @ Split (CHR ''.'') pattern"
    (is "_ = ?u @ _") unfolding breakDomain_def by (metis rev_append rev_rev_ident)
  show "domain_Match pattern s"
  proof (cases "?u = []")
    case True
    with eq show ?thesis using Split_inj [of "CHR ''.''" s pattern] by (simp add: domain_Match_suffix)
  next
    case False
    have "s = Join ''.'' (?u @ Split (CHR ''.'') pattern)" using eq Join_Split [of "CHR ''.''" s] by simp
    then have "s = Join ''.'' ?u @ ''.'' @ pattern"
      using Join_append [OF False Split_not_Nil] by (simp add: Join_Split)
    then show ?thesis unfolding domain_Match_suffix by auto
  qed
qed

lemma domain_group_values:
  assumes "s \<noteq> []"
  shows "v \<in> set (domain_group_Match root s) \<longleftrightarrow> root \<noteq> None \<and> (\<exists>k > 0. k \<le> length (breakDomain s) \<and>
    v \<in> set (vals_at (the root) (take k (rev (breakDomain s)))))"
proof (cases root)
  case (Some n)
  have "set (domain_group_Match root s) = set (concat (matchLoop s (Some (length s)) n []))"
    using assms Some by (simp add: domain_group_Match_def)
  with matchLoop_values [where pos = "Some (length s)" and s = s and v = v and n = n and ms = "[]"] Some show ?thesis
    by (auto simp: breakDomain_def)
qed (use assms in \<open>simp add: domain_group_Match_def\<close>)

section \<open>The group answers for its matchers\<close>

definition group_of :: "'r Matcher list \<Rightarrow> 'r MatcherGroup" where
  "group_of ms = foldl (\<lambda>g m. fst (mg_Add m g)) mg_empty ms"

lemma group_of_snoc: "group_of (ms @ [m]) = fst (mg_Add m (group_of ms))"
  by (simp add: group_of_def)

lemma ex_index_snoc:
  "(\<exists>i < length (ms @ [m]). P ((ms @ [m]) ! i) i) \<longleftrightarrow> (\<exists>i < length ms. P (ms ! i) i) \<or> P m (length ms)"
proof
  assume "\<exists>i < length (ms @ [m]). P ((ms @ [m]) ! i) i"
  then obtain i where "i < Suc (length ms)" "P ((ms @ [m]) ! i) i" by auto
  then show "(\<exists>i < length ms. P (ms ! i) i) \<or> P m (length ms)"
    by (cases "i < length ms") (auto simp: nth_append less_Suc_eq)
next
  assume "(\<exists>i < length ms. P (ms ! i) i) \<or> P m (length ms)"
  then show "\<exists>i < length (ms @ [m]). P ((ms @ [m]) ! i) i"
  proof
    assume "\<exists>i < length ms. P (ms ! i) i"
    then obtain i where "i < length ms" "P (ms ! i) i" by blast
    then show ?thesis by (intro exI [of _ i]) (simp add: nth_append)
  qed (auto intro: exI [of _ "length ms"])
qed

lemma group_count: "mg_count (group_of ms) = of_nat (length ms)"
  by (induction ms rule: rev_induct)
    (auto simp: group_of_snoc mg_Add_def Let_def group_of_def mg_empty_def split: Matcher.split)

lemma full_Match_Add: "full_Match (full_Add d v g) s = full_Match g s @ (if s = d then [v] else [])"
  by (auto simp: full_Match_def full_Add_def split: option.split)

lemma group_full:
  "v \<in> set (full_Match (mg_full (group_of ms)) s) \<longleftrightarrow>
     (\<exists>i < length ms. ms ! i = fullMatcher s \<and> v = of_nat (i + 1))"
proof (induction ms rule: rev_induct)
  case Nil
  then show ?case by (simp add: group_of_def mg_empty_def full_Match_def)
next
  case (snoc m ms)
  show ?case
    unfolding ex_index_snoc [where P = "\<lambda>x i. x = fullMatcher s \<and> v = of_nat (i + 1)"] snoc [symmetric]
    by (cases m) (auto simp: group_of_snoc mg_Add_def Let_def full_Match_Add group_count add.commute)
qed

definition domain_root :: "'r MatcherGroup \<Rightarrow> node" where
  "domain_root g = (case mg_domain g of None \<Rightarrow> node [] [] | Some n \<Rightarrow> n)"

lemma group_domain:
  "v \<in> set (vals_at (domain_root (group_of ms)) ps) \<longleftrightarrow>
     (\<exists>i < length ms. (\<exists>d. ms ! i = domainMatcher d \<and> rev (breakDomain d) = ps) \<and> v = of_nat (i + 1))"
proof (induction ms rule: rev_induct)
  case Nil
  then show ?case by (simp add: group_of_def mg_empty_def domain_root_def vals_at_new)
next
  case (snoc m ms)
  show ?case
    unfolding ex_index_snoc [where P = "\<lambda>x i. (\<exists>d. x = domainMatcher d \<and> rev (breakDomain d) = ps) \<and> v = of_nat (i + 1)"]
      snoc [symmetric]
    by (cases m) (auto simp: group_of_snoc mg_Add_def Let_def domain_root_def domain_Add_def vals_at_add
        group_count add.commute)
qed

lemma group_others:
  "(m, v) \<in> set (mg_others (group_of ms)) \<longleftrightarrow>
     (\<exists>i < length ms. (ms ! i = m \<and> (\<forall>d. m \<noteq> fullMatcher d \<and> m \<noteq> domainMatcher d)) \<and> v = of_nat (i + 1))"
proof (induction ms rule: rev_induct)
  case Nil
  then show ?case by (simp add: group_of_def mg_empty_def)
next
  case (snoc x ms)
  show ?case
    unfolding ex_index_snoc [where P = "\<lambda>x i. (x = m \<and> (\<forall>d. m \<noteq> fullMatcher d \<and> m \<noteq> domainMatcher d)) \<and> v = of_nat (i + 1)"]
      snoc [symmetric]
    by (cases x) (auto simp: group_of_snoc mg_Add_def Let_def group_count add.commute)
qed

lemma mg_Match_members:
  assumes "s \<noteq> []"
  shows "v \<in> set (mg_Match R (group_of ms) s) \<longleftrightarrow>
    (\<exists>i < length ms. Matcher_Match R (ms ! i) s \<and> v = of_nat (i + 1))"
proof -
  let ?g = "group_of ms"
  have dom: "v \<in> set (domain_group_Match (mg_domain ?g) s) \<longleftrightarrow>
      (\<exists>i < length ms. (\<exists>d. ms ! i = domainMatcher d \<and> domain_Match d s) \<and> v = of_nat (i + 1))" for v
  proof -
    have none: "mg_domain ?g = None \<Longrightarrow> vals_at (domain_root ?g) ps = []" for ps
      by (simp add: domain_root_def vals_at_new)
    have "v \<in> set (domain_group_Match (mg_domain ?g) s) \<longleftrightarrow> (\<exists>k > 0. k \<le> length (breakDomain s) \<and>
        v \<in> set (vals_at (domain_root ?g) (take k (rev (breakDomain s)))))"
      unfolding domain_group_values [OF assms] using none by (cases "mg_domain ?g") (auto simp: domain_root_def)
    then show ?thesis unfolding group_domain domain_Match_labels by blast
  qed
  have oth: "v \<in> set (map snd (filter (\<lambda>(m, i). Matcher_Match R m s) (mg_others ?g))) \<longleftrightarrow>
      (\<exists>i < length ms. (\<forall>d. ms ! i \<noteq> fullMatcher d \<and> ms ! i \<noteq> domainMatcher d) \<and> Matcher_Match R (ms ! i) s \<and>
        v = of_nat (i + 1))" for v
    using group_others [of _ v ms] by (auto simp: image_iff split_beta)
  have one: "Matcher_Match R m s \<longleftrightarrow> m = fullMatcher s \<or> (\<exists>d. m = domainMatcher d \<and> domain_Match d s) \<or>
      ((\<forall>d. m \<noteq> fullMatcher d \<and> m \<noteq> domainMatcher d) \<and> Matcher_Match R m s)" for m
    by (cases m) auto
  show ?thesis
    unfolding mg_Match_def set_append Un_iff group_full dom oth using one by blast
qed

text \<open>The linear group finds, for every name that is not empty, exactly the indices of the matchers
  that match it, although full names are looked up in a map and domains in a trie of labels.\<close>

theorem matcher_group_correct:
  assumes "s \<noteq> []"
  shows "set (mg_Match R (group_of ms) s) =
    {of_nat (i + 1) | i. i < length ms \<and> Matcher_Match R (ms ! i) s}"
  using mg_Match_members [OF assms] by blast

lemma matcher_group_correct_witness:
  "set (mg_Match \<lparr>Compile = (\<lambda>s. Some s), MatchString = (=), re_String = (\<lambda>s. s)\<rparr>
     (group_of [substrMatcher ''oo'', domainMatcher ''x.org'', fullMatcher ''google.com'']) ''google.com'') = {1, 3}"
proof -
  let ?ms = "[substrMatcher ''oo'', domainMatcher ''x.org'', fullMatcher ''google.com''] :: string Matcher list"
  let ?R = "\<lparr>Compile = (\<lambda>s. Some s), MatchString = (=), re_String = (\<lambda>s. s)\<rparr>"
  have f: "Matcher_Match ?R (?ms ! 0) ''google.com''" "\<not> Matcher_Match ?R (?ms ! 1) ''google.com''"
    "Matcher_Match ?R (?ms ! 2) ''google.com''"
    by code_simp+
  have gen: "(i < length ?ms \<and> P i) \<longleftrightarrow> i = 0 \<or> i = 2" if "P 0" "\<not> P 1" "P 2" for P :: "nat \<Rightarrow> bool" and i
  proof -
    have "i < length ?ms \<longleftrightarrow> i = 0 \<or> i = 1 \<or> i = 2" by auto
    with that show ?thesis by blast
  qed
  have eq: "(i < length ?ms \<and> Matcher_Match ?R (?ms ! i) ''google.com'') \<longleftrightarrow> i = 0 \<or> i = 2" for i
    by (rule gen [OF f])
  have "set (mg_Match ?R (group_of ?ms) ''google.com'') =
      {of_nat (i + 1) | i. i < length ?ms \<and> Matcher_Match ?R (?ms ! i) ''google.com''}"
    by (rule matcher_group_correct) simp
  also have "\<dots> = (\<lambda>i. of_nat (i + 1)) ` {i. i = 0 \<or> i = 2}" unfolding eq by blast
  also have "{i. i = 0 \<or> i = 2} = {0, 2 :: nat}" by blast
  also have "(\<lambda>i. of_nat (i + 1)) ` {0, 2 :: nat} = {1, 3 :: 32 word}" by simp
  finally show ?thesis .
qed

end
