(* ===== verification/AcAutomaton.thy ===== *)
theory AcAutomaton imports StrMatcher "HOL-Library.Sublist" begin

text \<open>
  \<^verbatim>\<open>component/geodata/strmatcher/ac_automaton_matcher.go\<close>: the automaton for the keywords of a geosite
  list. Strings are read from their last byte to their first.

  Nodes are indices into parallel slices. \<open>None\<close> is an index out of range (a byte above \<^verbatim>\<open>~\<close> has no
  entry in \<^verbatim>\<open>char2Index\<close>).
\<close>

section \<open>The automaton\<close>

definition validCharCount :: nat where "validCharCount = 53"

datatype Edge = Edge (edgeType: bool) (nextNode: nat)

definition TrieEdge :: bool where "TrieEdge = True"
definition FailEdge :: bool where "FailEdge = False"

record ACAutomaton =
  ac_trie :: "Edge list list"
  ac_fail :: "nat list"
  ac_exists :: "(MType \<times> bool) list"
  ac_count :: nat

definition newNode :: "Edge list" where
  "newNode = replicate validCharCount (Edge FailEdge 0)"

definition char_table :: "(char \<times> nat) list" where
  "char_table = [
    (CHR ''A'', 0), (CHR ''a'', 0), (CHR ''B'', 1), (CHR ''b'', 1), (CHR ''C'', 2),
    (CHR ''c'', 2), (CHR ''D'', 3), (CHR ''d'', 3), (CHR ''E'', 4), (CHR ''e'', 4),
    (CHR ''F'', 5), (CHR ''f'', 5), (CHR ''G'', 6), (CHR ''g'', 6), (CHR ''H'', 7),
    (CHR ''h'', 7), (CHR ''I'', 8), (CHR ''i'', 8), (CHR ''J'', 9), (CHR ''j'', 9),
    (CHR ''K'', 10), (CHR ''k'', 10), (CHR ''L'', 11), (CHR ''l'', 11), (CHR ''M'', 12),
    (CHR ''m'', 12), (CHR ''N'', 13), (CHR ''n'', 13), (CHR ''O'', 14), (CHR ''o'', 14),
    (CHR ''P'', 15), (CHR ''p'', 15), (CHR ''Q'', 16), (CHR ''q'', 16), (CHR ''R'', 17),
    (CHR ''r'', 17), (CHR ''S'', 18), (CHR ''s'', 18), (CHR ''T'', 19), (CHR ''t'', 19),
    (CHR ''U'', 20), (CHR ''u'', 20), (CHR ''V'', 21), (CHR ''v'', 21), (CHR ''W'', 22),
    (CHR ''w'', 22), (CHR ''X'', 23), (CHR ''x'', 23), (CHR ''Y'', 24), (CHR ''y'', 24),
    (CHR ''Z'', 25), (CHR ''z'', 25), (CHR ''!'', 26), (CHR ''$'', 27), (CHR ''&'', 28),
    (CHR 0x27, 29), (CHR ''('', 30), (CHR '')'', 31), (CHR ''*'', 32), (CHR ''+'', 33),
    (CHR '','', 34), (CHR '';'', 35), (CHR ''='', 36), (CHR '':'', 37), (CHR ''%'', 38),
    (CHR ''-'', 39), (CHR ''.'', 40), (CHR ''_'', 41), (CHR ''~'', 42), (CHR ''0'', 43),
    (CHR ''1'', 44), (CHR ''2'', 45), (CHR ''3'', 46), (CHR ''4'', 47), (CHR ''5'', 48),
    (CHR ''6'', 49), (CHR ''7'', 50), (CHR ''8'', 51), (CHR ''9'', 52)]"

text \<open>The slice literal: as long as its largest key and one, 0 where no key is given.\<close>

definition char2Index :: "char \<Rightarrow> nat option" where
  "char2Index c = (if byte_of c \<le> 126 then Some (case map_of char_table c of Some i \<Rightarrow> i | None \<Rightarrow> 0) else None)"

definition appendNode :: "ACAutomaton \<Rightarrow> ACAutomaton" where
  "appendNode ac = ac\<lparr>ac_trie := ac_trie ac @ [newNode], ac_fail := ac_fail ac @ [0],
                      ac_exists := ac_exists ac @ [(Full, False)]\<rparr>"

definition NewACAutomaton :: ACAutomaton where
  "NewACAutomaton = appendNode \<lparr>ac_trie = [], ac_fail = [], ac_exists = [], ac_count = 0\<rparr>"

definition getEdge :: "ACAutomaton \<Rightarrow> nat \<Rightarrow> nat \<Rightarrow> Edge option" where
  "getEdge ac n i = idx (ac_trie ac) n \<bind> (\<lambda>row. idx row i)"

definition setEdge :: "nat \<Rightarrow> nat \<Rightarrow> Edge \<Rightarrow> ACAutomaton \<Rightarrow> ACAutomaton" where
  "setEdge n i e ac = ac\<lparr>ac_trie := (ac_trie ac)[n := (ac_trie ac ! n)[i := e]]\<rparr>"

text \<open>One step down the trie along index \<open>i\<close>, with the new node where there is none.\<close>

definition descend :: "nat \<Rightarrow> nat \<Rightarrow> ACAutomaton \<Rightarrow> (ACAutomaton \<times> nat) option" where
  "descend n i ac = do {
     e \<leftarrow> getEdge ac n i;
     if nextNode e = 0 then do {
       let ac1 = ac\<lparr>ac_count := ac_count ac + 1\<rparr>;
       let ac2 = (if length (ac_trie ac1) < ac_count ac1 + 1 then appendNode ac1 else ac1);
       Some (setEdge n i (Edge TrieEdge (ac_count ac2)) ac2, ac_count ac2) }
     else Some (ac, nextNode e) }"

fun addLoop :: "string \<Rightarrow> ACAutomaton \<Rightarrow> nat \<Rightarrow> (ACAutomaton \<times> nat) option" where
  "addLoop [] ac n = Some (ac, n)"
| "addLoop (c # cs) ac n = do {
     i \<leftarrow> char2Index c;
     (ac1, n1) \<leftarrow> descend n i ac;
     addLoop cs ac1 n1 }"

definition setExists :: "nat \<Rightarrow> MType \<Rightarrow> ACAutomaton \<Rightarrow> ACAutomaton" where
  "setExists n t ac = ac\<lparr>ac_exists := (ac_exists ac)[n := (t, True)]\<rparr>"

definition ac_Add :: "string \<Rightarrow> MType \<Rightarrow> ACAutomaton \<Rightarrow> ACAutomaton option" where
  "ac_Add domain t ac = do {
     (ac, n) \<leftarrow> addLoop (rev domain) ac 0;
     let ac = setExists n t ac;
     case t of
       Domain \<Rightarrow> do {
         let ac = setExists n Full ac;
         i \<leftarrow> char2Index (CHR ''.'');
         (ac, n) \<leftarrow> descend n i ac;
         Some (setExists n t ac) }
     | _ \<Rightarrow> Some ac }"

section \<open>Failure links\<close>

text \<open>The loop over the edges of a node that leaves the queue.\<close>

fun buildRow :: "nat list \<Rightarrow> nat \<Rightarrow> ACAutomaton \<Rightarrow> Edge list \<Rightarrow> (ACAutomaton \<times> Edge list) option" where
  "buildRow [] n ac queue = Some (ac, queue)"
| "buildRow (i # is) n ac queue = do {
     e \<leftarrow> getEdge ac n i;
     f \<leftarrow> idx (ac_fail ac) n;
     fe \<leftarrow> getEdge ac f i;
     if nextNode e \<noteq> 0
     then buildRow is n (ac\<lparr>ac_fail := (ac_fail ac)[nextNode e := nextNode fe]\<rparr>) (queue @ [e])
     else buildRow is n (setEdge n i (Edge FailEdge (nextNode fe)) ac) queue }"

partial_function (option) buildQueue :: "ACAutomaton \<Rightarrow> Edge list \<Rightarrow> ACAutomaton option" where
  "buildQueue ac queue =
     (case queue of
        [] \<Rightarrow> Some ac
      | front # rest \<Rightarrow> do {
          (ac1, queue1) \<leftarrow> buildRow [0..<validCharCount] (nextNode front) ac rest;
          buildQueue ac1 queue1 })"

declare buildQueue.simps [code]

definition ac_Build :: "ACAutomaton \<Rightarrow> ACAutomaton option" where
  "ac_Build ac = do {
     row \<leftarrow> idx (ac_trie ac) 0;
     buildQueue ac (filter (\<lambda>e. nextNode e \<noteq> 0) row) }"

section \<open>Matching\<close>

fun matchChars :: "ACAutomaton \<Rightarrow> string \<Rightarrow> nat \<Rightarrow> bool \<Rightarrow> bool option" where
  "matchChars ac [] n fullMatch = map_option (\<lambda>(t, ex). fullMatch \<and> ex) (idx (ac_exists ac) n)"
| "matchChars ac (c # cs) n fullMatch = do {
     i \<leftarrow> char2Index c;
     e \<leftarrow> getEdge ac n i;
     let fullMatch = (fullMatch \<and> edgeType e);
     let n = nextNode e;
     (t, ex) \<leftarrow> idx (ac_exists ac) n;
     if t = Substr then Some True
     else if t = Domain \<and> fullMatch then Some True
     else matchChars ac cs n fullMatch }"

definition ac_Match :: "ACAutomaton \<Rightarrow> string \<Rightarrow> bool option" where
  "ac_Match ac s = matchChars ac (rev s) 0 True"

section \<open>A keyword can be missed\<close>

text \<open>The bytes of a string as the automaton sees them.\<close>

definition code :: "char \<Rightarrow> nat" where
  "code c = (case char2Index c of Some i \<Rightarrow> i | None \<Rightarrow> 0)"


fun addAll :: "string list \<Rightarrow> ACAutomaton \<Rightarrow> ACAutomaton option" where
  "addAll [] ac = Some ac"
| "addAll (p # ps) ac = ac_Add p Substr ac \<bind> addAll ps"

text \<open>The automaton does not find every keyword: with the keywords \<^verbatim>\<open>cba\<close> and \<^verbatim>\<open>b\<close> the name
  \<^verbatim>\<open>xba\<close>, which contains \<^verbatim>\<open>b\<close>, is not matched, because a node takes no note of the keywords its
  failure links lead to; with the keyword \<^verbatim>\<open>b\<close> alone it is.\<close>

theorem keyword_missed:
  "addAll [''cba'', ''b''] NewACAutomaton \<bind> ac_Build \<bind> (\<lambda>ac. ac_Match ac ''xba'') = Some False \<and>
   addAll [''b''] NewACAutomaton \<bind> ac_Build \<bind> (\<lambda>ac. ac_Match ac ''xba'') = Some True \<and>
   Contains ''xba'' ''b''"
  by code_simp

section \<open>The trie before the links\<close>









lemma fields_setEdge [simp]:
  "ac_fail (setEdge n i e ac) = ac_fail ac" "ac_exists (setEdge n i e ac) = ac_exists ac"
  "ac_count (setEdge n i e ac) = ac_count ac"
  by (simp_all add: setEdge_def)








section \<open>The links\<close>










section \<open>What a built automaton answers\<close>


















end
