(* ===== verification/MphMatcher.thy ===== *)
theory MphMatcher imports "HOL-Library.Multiset" AcAutomaton begin

text \<open>
  \<^verbatim>\<open>component/geodata/strmatcher/mph_matcher.go\<close>: the group the geosite rules use, which keeps full names
  and domains in a perfect hash table keyed by a rolling hash, and its hash function
  \<^verbatim>\<open>memhashFallback\<close>.

  \<^verbatim>\<open>unsafe\<close> pointers into a string are its bytes and an offset. The order in which a Go map is walked
  is any order; here it is that of the association list. \<open>None\<close> is an index out of range, or a search
  for seeds that does not end: a theorem about a built group assumes that \<open>Build\<close> returned.
\<close>

unbundle bit_operations_syntax

section \<open>Hashing\<close>

definition PrimeRK :: "32 word" where "PrimeRK = 16777619"

definition ord32 :: "char \<Rightarrow> 32 word" where
  "ord32 c = of_nat (byte_of c)"

text \<open>The hash of a string from its last byte to its first.\<close>

fun RollingHash :: "string \<Rightarrow> 32 word" where
  "RollingHash [] = 0"
| "RollingHash (c # s) = RollingHash s * PrimeRK + ord32 c"

definition m1 :: "64 word" where "m1 = 16877499708836156737"
definition m2 :: "64 word" where "m2 = 2820277070424839065"
definition m3 :: "64 word" where "m3 = 9497967016996688599"
definition m4 :: "64 word" where "m4 = 15839092249703872147"

definition hashkey :: "64 word list" where "hashkey = [1, 1, 1, 1]"

definition byte_at :: "string \<Rightarrow> nat \<Rightarrow> 64 word" where
  "byte_at s p = of_nat (byte_of (s ! p))"

definition readUnaligned32 :: "string \<Rightarrow> nat \<Rightarrow> 64 word" where
  "readUnaligned32 s p = byte_at s p OR push_bit 8 (byte_at s (p + 1)) OR push_bit 16 (byte_at s (p + 2)) OR
     push_bit 24 (byte_at s (p + 3))"

definition readUnaligned64 :: "string \<Rightarrow> nat \<Rightarrow> 64 word" where
  "readUnaligned64 s p = byte_at s p OR push_bit 8 (byte_at s (p + 1)) OR push_bit 16 (byte_at s (p + 2)) OR
     push_bit 24 (byte_at s (p + 3)) OR push_bit 32 (byte_at s (p + 4)) OR push_bit 40 (byte_at s (p + 5)) OR
     push_bit 48 (byte_at s (p + 6)) OR push_bit 56 (byte_at s (p + 7))"

definition rotl31 :: "64 word \<Rightarrow> 64 word" where
  "rotl31 x = push_bit 31 x OR drop_bit (64 - 31) x"

text \<open>The body of the switch for the last 32 bytes or fewer, with the bytes from offset \<open>p\<close> on and
  their number \<open>s\<close>.\<close>

definition memhash_tail :: "string \<Rightarrow> nat \<Rightarrow> nat \<Rightarrow> 64 word \<Rightarrow> 64 word" where
  "memhash_tail str p s h =
     (if s = 0 then h
      else if s < 4 then
        let h = h XOR byte_at str p;
            h = h XOR push_bit 8 (byte_at str (p + s div 2));
            h = h XOR push_bit 16 (byte_at str (p + s - 1))
        in rotl31 (h * m1) * m2
      else if s \<le> 8 then
        let h = h XOR readUnaligned32 str p;
            h = h XOR push_bit 32 (readUnaligned32 str (p + s - 4))
        in rotl31 (h * m1) * m2
      else if s \<le> 16 then
        let h = h XOR readUnaligned64 str p;
            h = rotl31 (h * m1) * m2;
            h = h XOR readUnaligned64 str (p + s - 8)
        in rotl31 (h * m1) * m2
      else
        let h = h XOR readUnaligned64 str p;
            h = rotl31 (h * m1) * m2;
            h = h XOR readUnaligned64 str (p + 8);
            h = rotl31 (h * m1) * m2;
            h = h XOR readUnaligned64 str (p + s - 16);
            h = rotl31 (h * m1) * m2;
            h = h XOR readUnaligned64 str (p + s - 8)
        in rotl31 (h * m1) * m2)"

function memhash_lanes ::
    "string \<Rightarrow> nat \<Rightarrow> nat \<Rightarrow> 64 word \<Rightarrow> 64 word \<Rightarrow> 64 word \<Rightarrow> 64 word \<Rightarrow> nat \<times> nat \<times> 64 word" where
  "memhash_lanes str p s v1 v2 v3 v4 =
     (if 32 \<le> s then
        memhash_lanes str (p + 32) (s - 32)
          (rotl31 ((v1 XOR readUnaligned64 str p) * m1) * m2)
          (rotl31 ((v2 XOR readUnaligned64 str (p + 8)) * m2) * m3)
          (rotl31 ((v3 XOR readUnaligned64 str (p + 16)) * m3) * m4)
          (rotl31 ((v4 XOR readUnaligned64 str (p + 24)) * m4) * m1)
      else (p, s, v1 XOR v2 XOR v3 XOR v4))"
  by pat_completeness auto

termination
  by (relation "measure (\<lambda>(str, p, s, v). s)") auto

declare memhash_lanes.simps [simp del]

definition memhashFallback :: "string \<Rightarrow> 64 word \<Rightarrow> 64 word" where
  "memhashFallback str seed =
     (let s = length str;
          h = seed + of_nat s * hashkey ! 0;
          (p, s, h) = (if s \<le> 32 then (0, s, h)
            else memhash_lanes str 0 s h (seed * hashkey ! 1) (seed * hashkey ! 2) (seed * hashkey ! 3));
          h = memhash_tail str p s h;
          h = h XOR drop_bit 29 h;
          h = h * m3
      in h XOR drop_bit 32 h)"

definition strhashFallback :: "string \<Rightarrow> 32 word \<Rightarrow> 64 word" where
  "strhashFallback a h = memhashFallback a (ucast h)"

section \<open>The group\<close>

fun bitLen :: "nat \<Rightarrow> nat" where
  "bitLen n = (if n = 0 then 0 else 1 + bitLen (n div 2))"

declare bitLen.simps [simp del]

definition LeadingZeros :: "nat \<Rightarrow> nat" where
  "LeadingZeros v = 64 - bitLen v"

definition nextPow2 :: "nat \<Rightarrow> nat" where
  "nextPow2 v = (if v \<le> 1 then 1 else unat (drop_bit (LeadingZeros v) (- 1 :: 64 word) + 1))"

record 'r MphGroup =
  mp_ac :: "ACAutomaton option"
  mp_others :: "('r Matcher \<times> 32 word) list"
  mp_rules :: "string list"
  mp_level0 :: "32 word list"
  mp_level0Mask :: nat
  mp_level1 :: "32 word list"
  mp_level1Mask :: nat
  mp_count :: "32 word"
  mp_ruleMap :: "(string \<times> 32 word) list"

definition NewMphMatcherGroup :: "'r MphGroup" where
  "NewMphMatcherGroup = \<lparr>mp_ac = None, mp_others = [], mp_rules = [], mp_level0 = [], mp_level0Mask = 0,
     mp_level1 = [], mp_level1Mask = 0, mp_count = 1, mp_ruleMap = []\<rparr>"

definition AddFullOrDomainPattern :: "string \<Rightarrow> MType \<Rightarrow> 'r MphGroup \<Rightarrow> 'r MphGroup" where
  "AddFullOrDomainPattern pattern t g =
     (let h = RollingHash pattern;
          full = (\<lambda>g. g\<lparr>mp_ruleMap := map_put pattern h (mp_ruleMap g)\<rparr>)
      in case t of
           Domain \<Rightarrow> full (g\<lparr>mp_ruleMap := map_put (CHR ''.'' # pattern) (h * PrimeRK + ord32 (CHR ''.'')) (mp_ruleMap g)\<rparr>)
         | Full \<Rightarrow> full g
         | _ \<Rightarrow> g)"

text \<open>\<open>None\<close> is a panic, \<open>Some None\<close> the error of a regular expression.\<close>

definition AddPattern :: "'r regexp \<Rightarrow> string \<Rightarrow> MType \<Rightarrow> 'r MphGroup \<Rightarrow> 'r MphGroup option option" where
  "AddPattern R pattern t g =
     (case t of
        Substr \<Rightarrow> do {
          ac \<leftarrow> ac_Add pattern t (case mp_ac g of None \<Rightarrow> NewACAutomaton | Some ac \<Rightarrow> ac);
          Some (Some (g\<lparr>mp_ac := Some ac\<rparr>)) }
      | Regex \<Rightarrow> Some (map_option (\<lambda>r. g\<lparr>mp_others := mp_others g @ [(regexMatcher r, mp_count g)]\<rparr>)
          (Compile R pattern))
      | _ \<Rightarrow> Some (Some (AddFullOrDomainPattern (ToLower pattern) t g)))"

section \<open>Building the hash table\<close>

text \<open>The buckets of level 0: the indices of the rules that hash there.\<close>

fun sparse :: "nat \<Rightarrow> (string \<times> 32 word) list \<Rightarrow> nat \<Rightarrow> nat list list \<Rightarrow> nat list list" where
  "sparse level0Mask [] ruleIdx bs = bs"
| "sparse level0Mask ((rule, hash) # m) ruleIdx bs =
     (let n = unat hash AND level0Mask
      in sparse level0Mask m (ruleIdx + 1) (bs[n := bs ! n @ [ruleIdx]]))"

text \<open>\<^verbatim>\<open>sort.Sort(bySize(buckets))\<close> puts the larger buckets first; it is not stable, so what it does is a parameter
  with the law \<open>bySize_ok\<close>.\<close>

type_synonym bySize_sort = "(nat \<times> nat list) list \<Rightarrow> (nat \<times> nat list) list"

definition bySize_ok :: "bySize_sort \<Rightarrow> bool" where
  "bySize_ok srt \<longleftrightarrow> (\<forall>bs. mset (srt bs) = mset bs \<and>
     sorted_wrt (\<lambda>b c. length (snd c) \<le> length (snd b)) (srt bs))"

definition buckets_of :: "bySize_sort \<Rightarrow> nat list list \<Rightarrow> (nat \<times> nat list) list" where
  "buckets_of srt bs = srt (filter (\<lambda>(n, vals). 0 < length vals) (enumerate 0 bs))"

text \<open>A stable sort is an instance.\<close>

definition bySize_stable :: bySize_sort where
  "bySize_stable = sort_key (\<lambda>(n, vals). - int (length vals))"

lemma bySize_stable_ok: "bySize_ok bySize_stable"
  unfolding bySize_ok_def bySize_stable_def
proof (intro allI conjI)
  fix bs :: "(nat \<times> nat list) list"
  have "sorted (map (\<lambda>(n, vals). - int (length vals)) (sort_key (\<lambda>(n, vals). - int (length vals)) bs))"
    by (rule sorted_sort_key)
  then show "sorted_wrt (\<lambda>b c. length (snd c) \<le> length (snd b)) (sort_key (\<lambda>(n, vals). - int (length vals)) bs)"
    unfolding sorted_map by (rule sorted_wrt_mono_rel [rotated]) auto
qed simp

definition slot :: "string list \<Rightarrow> nat \<Rightarrow> 32 word \<Rightarrow> nat \<Rightarrow> nat" where
  "slot rules level1Mask seed i = unat (strhashFallback (rules ! i) seed) AND level1Mask"

text \<open>One seed for the rules of a bucket: whether all found a free slot, the slots taken and level 1.\<close>

fun trySeed ::
    "string list \<Rightarrow> nat \<Rightarrow> 32 word \<Rightarrow> nat list \<Rightarrow> nat list \<Rightarrow> bool list \<Rightarrow> 32 word list \<Rightarrow>
     bool \<times> bool list \<times> 32 word list" where
  "trySeed rules mask1 seed [] tmpOcc occ level1 = (True, occ, level1)"
| "trySeed rules mask1 seed (i # is) tmpOcc occ level1 =
     (let n = slot rules mask1 seed i
      in if occ ! n then (False, fold (\<lambda>n occ. occ[n := False]) tmpOcc occ, level1)
         else trySeed rules mask1 seed is (tmpOcc @ [n]) (occ[n := True]) (level1[n := of_nat i]))"

partial_function (option) seedLoop ::
    "string list \<Rightarrow> nat \<Rightarrow> nat list \<Rightarrow> 32 word \<Rightarrow> bool list \<Rightarrow> 32 word list \<Rightarrow>
     (32 word \<times> bool list \<times> 32 word list) option" where
  "seedLoop rules mask1 vals seed occ level1 =
     (case trySeed rules mask1 seed vals [] occ level1 of
        (findSeed, occ1, level1') \<Rightarrow>
          if findSeed then Some (seed, occ1, level1')
          else seedLoop rules mask1 vals (seed + 1) occ1 level1')"

text \<open>For evaluation, the rest of the loop by the result of a seed.\<close>

fun seedFrom ::
    "string list \<Rightarrow> nat \<Rightarrow> nat list \<Rightarrow> 32 word \<Rightarrow> bool \<times> bool list \<times> 32 word list \<Rightarrow>
     (32 word \<times> bool list \<times> 32 word list) option" where
  "seedFrom rules mask1 vals seed (True, occ, level1) = Some (seed, occ, level1)"
| "seedFrom rules mask1 vals seed (False, occ, level1) = seedLoop rules mask1 vals (seed + 1) occ level1"

lemma seedLoop_code [code]:
  "seedLoop rules mask1 vals seed occ level1 =
     seedFrom rules mask1 vals seed (trySeed rules mask1 seed vals [] occ level1)"
  by (subst seedLoop.simps) (auto split: prod.split bool.split)

fun placeBuckets ::
    "string list \<Rightarrow> nat \<Rightarrow> (nat \<times> nat list) list \<Rightarrow> 32 word list \<Rightarrow> bool list \<Rightarrow> 32 word list \<Rightarrow>
     (32 word list \<times> 32 word list) option" where
  "placeBuckets rules mask1 [] level0 occ level1 = Some (level0, level1)"
| "placeBuckets rules mask1 ((n, vals) # bs) level0 occ level1 = do {
     (seed, occ1, level1') \<leftarrow> seedLoop rules mask1 vals 0 occ level1;
     placeBuckets rules mask1 bs (level0[n := seed]) occ1 level1' }"

definition empty_key :: string where "empty_key = ''empty___''"

definition mph_Build :: "bySize_sort \<Rightarrow> 'r MphGroup \<Rightarrow> 'r MphGroup option" where
  "mph_Build srt g = do {
     ac \<leftarrow> (case mp_ac g of None \<Rightarrow> Some None | Some a \<Rightarrow> map_option Some (ac_Build a));
     let ruleMap = (if length (mp_ruleMap g) = 0 then map_put empty_key (RollingHash empty_key) (mp_ruleMap g)
                    else mp_ruleMap g);
     let keyLen = length ruleMap;
     let level0 = replicate (nextPow2 (keyLen div 4)) 0;
     let mask0 = length level0 - 1;
     let level1 = replicate (nextPow2 keyLen) 0;
     let mask1 = length level1 - 1;
     let rules = map fst ruleMap;
     let bs = buckets_of srt (sparse mask0 ruleMap 0 (replicate (length level0) []));
     (level0, level1) \<leftarrow> placeBuckets rules mask1 bs level0 (replicate (length level1) False) level1;
     Some (g\<lparr>mp_ac := ac, mp_rules := rules, mp_level0 := level0, mp_level0Mask := mask0,
             mp_level1 := level1, mp_level1Mask := mask1, mp_ruleMap := []\<rparr>) }"

section \<open>Matching\<close>

definition mph_Lookup :: "'r MphGroup \<Rightarrow> 32 word \<Rightarrow> string \<Rightarrow> bool option" where
  "mph_Lookup g h s = do {
     let i0 = unat h AND mp_level0Mask g;
     seed \<leftarrow> idx (mp_level0 g) i0;
     let i1 = unat (strhashFallback s seed) AND mp_level1Mask g;
     n \<leftarrow> idx (mp_level1 g) i1;
     r \<leftarrow> idx (mp_rules g) (unat n);
     Some (s = r) }"

text \<open>The loop over the pattern from its end: whether a lookup at a dot succeeded, and the hash.\<close>

fun mph_scan :: "'r MphGroup \<Rightarrow> string \<Rightarrow> 32 word \<Rightarrow> string \<Rightarrow> (bool \<times> 32 word) option" where
  "mph_scan g [] hash suf = Some (False, hash)"
| "mph_scan g (c # cs) hash suf =
     (let hash = hash * PrimeRK + ord32 c
      in if c = CHR ''.'' then do {
           b \<leftarrow> mph_Lookup g hash (c # suf);
           if b then Some (True, hash) else mph_scan g cs hash (c # suf) }
         else mph_scan g cs hash (c # suf))"

fun firstOther :: "'r regexp \<Rightarrow> ('r Matcher \<times> 32 word) list \<Rightarrow> string \<Rightarrow> 32 word list" where
  "firstOther R [] pattern = []"
| "firstOther R ((m, i) # es) pattern = (if Matcher_Match R m pattern then [i] else firstOther R es pattern)"

definition mph_Match :: "'r regexp \<Rightarrow> 'r MphGroup \<Rightarrow> string \<Rightarrow> 32 word list option" where
  "mph_Match R g pattern = do {
     (found, hash) \<leftarrow> mph_scan g (rev pattern) 0 [];
     if found then Some [1]
     else do {
       b \<leftarrow> mph_Lookup g hash pattern;
       if b then Some [1]
       else do {
         a \<leftarrow> (case mp_ac g of None \<Rightarrow> Some False | Some ac \<Rightarrow> ac_Match ac pattern);
         if a then Some [1] else Some (firstOther R (mp_others g) pattern) } } }"

text \<open>For evaluation, hashes are masked as words, before they become indices.\<close>

lemma unat_AND_mask: "unat (h :: 'a::len word) AND m = unat (h AND of_nat m)"
proof -
  have "unat (h AND of_nat m) = unat h AND take_bit LENGTH('a) m"
    by (simp add: unsigned_and_eq unsigned_of_nat)
  also have "\<dots> = unat h AND m"
    by (auto simp: bit_eq_iff bit_simps dest: bit_imp_le_length)
  finally show ?thesis by (rule sym)
qed

declare sparse.simps [unfolded unat_AND_mask, code]
declare slot_def [unfolded unat_AND_mask, code]
declare mph_Lookup_def [unfolded unat_AND_mask, code]

section \<open>The table finds its keys\<close>

lemma and_nat_le: "(a :: nat) AND m \<le> m"
proof -
  have "int (a AND m) \<le> int m" unfolding of_nat_and_eq by (rule AND_upper2) simp
  then show ?thesis by simp
qed

lemma bitLen_bound: "n < 2 ^ k \<Longrightarrow> bitLen n \<le> k"
proof (induction n arbitrary: k rule: bitLen.induct)
  case (1 n)
  show ?case
  proof (cases "n = 0")
    case False
    with "1.prems" obtain j where j: "k = Suc j" by (cases k) auto
    with "1.prems" have "n div 2 < 2 ^ j" by (simp add: less_mult_imp_div_less)
    with 1(1) [OF False] j False show ?thesis by (subst bitLen.simps) simp
  qed (subst bitLen.simps, simp)
qed

lemma nextPow2_pos: "v < 2 ^ 63 \<Longrightarrow> 0 < nextPow2 v"
proof -
  assume "v < 2 ^ 63"
  then have "1 \<le> LeadingZeros v" using bitLen_bound [of v 63] by (simp add: LeadingZeros_def)
  then have "(2 :: nat) ^ 1 \<le> 2 ^ LeadingZeros v" by (intro power_increasing) auto
  then have "(2 ^ 64 - 1 :: nat) div 2 ^ LeadingZeros v \<le> (2 ^ 64 - 1) div 2 ^ 1"
    by (rule div_le_mono2 [rotated]) simp
  moreover have "unat (drop_bit (LeadingZeros v) (- 1 :: 64 word)) = (2 ^ 64 - 1) div 2 ^ LeadingZeros v"
    by (simp only: unat_drop_bit_eq unsigned_minus_1_eq_mask mask_eq_exp_minus_1) (simp add: drop_bit_eq_div)
  ultimately have "unat (drop_bit (LeadingZeros v) (- 1 :: 64 word)) \<le> (2 ^ 64 - 1) div 2" by simp
  then have "unat (drop_bit (LeadingZeros v) (- 1 :: 64 word) + 1) \<noteq> 0"
    by (simp add: unat_word_ariths(1) del: unat_eq_0)
  then show ?thesis unfolding nextPow2_def by (simp del: unat_eq_0)
qed

lemma fold_clear:
  "length (fold (\<lambda>n occ. occ[n := False]) ns occ) = length occ"
  "k < length occ \<Longrightarrow> fold (\<lambda>n occ. occ[n := False]) ns occ ! k \<longleftrightarrow> occ ! k \<and> k \<notin> set ns"
proof -
  show "length (fold (\<lambda>n occ. occ[n := False]) ns occ) = length occ"
    by (induction ns arbitrary: occ) auto
  show "k < length occ \<Longrightarrow> fold (\<lambda>n occ. occ[n := False]) ns occ ! k \<longleftrightarrow> occ ! k \<and> k \<notin> set ns"
  proof (induction ns arbitrary: occ)
    case (Cons n ns)
    then show ?case by (cases "k = n") auto
  qed simp
qed

definition entries_ok :: "nat \<Rightarrow> 32 word list \<Rightarrow> bool" where
  "entries_ok len level1 \<longleftrightarrow> (\<forall>k < length level1. unat (level1 ! k) < len)"

lemma trySeed_inv:
  assumes "trySeed rules mask1 seed is tmp occ level1 = (ok, occ', level1')"
    and "length occ = length level1" "mask1 < length level1" "\<forall>k \<in> set tmp. k < length occ \<and> occ ! k"
    and "entries_ok len level1" "\<forall>i \<in> set is. i < len" "len < 2 ^ 32"
  shows "length occ' = length occ \<and> length level1' = length level1 \<and> entries_ok len level1' \<and>
    (\<forall>k < length occ. occ ! k \<longrightarrow> level1' ! k = level1 ! k) \<and>
    (if ok then (\<forall>k < length occ. occ ! k \<longrightarrow> occ' ! k) \<and>
       (\<forall>i \<in> set is. occ' ! slot rules mask1 seed i \<and> level1' ! slot rules mask1 seed i = of_nat i)
     else (\<forall>k < length occ. occ' ! k \<longleftrightarrow> occ ! k \<and> k \<notin> set tmp))"
  using assms
proof (induction rules mask1 seed "is" tmp occ level1 rule: trySeed.induct)
  case (1 rules mask1 seed tmp occ level1)
  then show ?case by auto
next
  case (2 rules mask1 seed i "is" tmp occ level1)
  let ?n = "slot rules mask1 seed i"
  have n: "?n < length level1"
    using 2(4) and_nat_le [of _ mask1] by (metis slot_def le_less_trans)
  show ?case
  proof (cases "occ ! ?n")
    case True
    with 2 show ?thesis by (auto simp: Let_def fold_clear)
  next
    case False
    have "trySeed rules mask1 seed is (tmp @ [?n]) (occ[?n := True]) (level1[?n := of_nat i]) = (ok, occ', level1')"
      using 2(2) False by (simp add: Let_def)
    moreover have "entries_ok len (level1[?n := of_nat i])"
      using 2(6-8) n by (auto simp: entries_ok_def nth_list_update unat_of_nat)
    ultimately have IH: "length occ' = length occ \<and> length level1' = length level1 \<and> entries_ok len level1' \<and>
      (\<forall>k < length occ. (occ[?n := True]) ! k \<longrightarrow> level1' ! k = (level1[?n := of_nat i]) ! k) \<and>
      (if ok then (\<forall>k < length occ. (occ[?n := True]) ! k \<longrightarrow> occ' ! k) \<and>
         (\<forall>i \<in> set is. occ' ! slot rules mask1 seed i \<and> level1' ! slot rules mask1 seed i = of_nat i)
       else (\<forall>k < length occ. occ' ! k \<longleftrightarrow> (occ[?n := True]) ! k \<and> k \<notin> set (tmp @ [?n])))"
      using 2(1) [OF refl False] 2(3-8) n by (auto simp: nth_list_update)
    then have lev: "\<forall>k < length occ. occ ! k \<longrightarrow> level1' ! k = level1 ! k"
      using False by (metis nth_list_update_neq)
    show ?thesis
    proof (cases ok)
      case True
      with IH n 2(3) have "occ' ! ?n \<and> level1' ! ?n = of_nat i" by simp
      moreover have "\<forall>k < length occ. occ ! k \<longrightarrow> occ' ! k"
        using IH True False by (metis nth_list_update_neq)
      ultimately show ?thesis using IH lev True by simp
    next
      case False
      with IH have "\<forall>k < length occ. occ' ! k \<longleftrightarrow> occ ! k \<and> k \<notin> set tmp"
        using \<open>\<not> occ ! ?n\<close> n 2(3) by (auto simp: nth_list_update)
      with IH lev False show ?thesis by simp
    qed
  qed
qed

lemma seedLoop_inv:
  assumes "seedLoop rules mask1 vals seed occ level1 = Some (seed', occ', level1')"
    and "length occ = length level1" "mask1 < length level1"
    and "entries_ok len level1" "\<forall>i \<in> set vals. i < len" "len < 2 ^ 32"
  shows "length occ' = length occ \<and> length level1' = length level1 \<and> entries_ok len level1' \<and>
    (\<forall>k < length occ. occ ! k \<longrightarrow> occ' ! k \<and> level1' ! k = level1 ! k) \<and>
    (\<forall>i \<in> set vals. occ' ! slot rules mask1 seed' i \<and> level1' ! slot rules mask1 seed' i = of_nat i)"
proof -
  have "length occ = length level1 \<longrightarrow> mask1 < length level1 \<longrightarrow> entries_ok len level1 \<longrightarrow>
      (\<forall>i \<in> set vals. i < len) \<longrightarrow>
      (case r of (seed', occ', level1') \<Rightarrow>
        length occ' = length occ \<and> length level1' = length level1 \<and> entries_ok len level1' \<and>
        (\<forall>k < length occ. occ ! k \<longrightarrow> occ' ! k \<and> level1' ! k = level1 ! k) \<and>
        (\<forall>i \<in> set vals. occ' ! slot rules mask1 seed' i \<and> level1' ! slot rules mask1 seed' i = of_nat i))"
    if "seedLoop rules mask1 vals seed occ level1 = Some r" for r
    using that
  proof (induction rule: seedLoop.raw_induct [rotated, consumes 1])
    case (1 seedLoop rules mask1 vals seed occ level1 r)
    obtain ok o1 l1 where t: "trySeed rules mask1 seed vals [] occ level1 = (ok, o1, l1)" by (metis prod_cases3)
    show ?case
    proof (intro impI)
      assume a: "length occ = length level1" "mask1 < length level1" "entries_ok len level1" "\<forall>i \<in> set vals. i < len"
      note inv = trySeed_inv [OF t a(1,2) _ a(3,4) assms(6), simplified]
      show "case r of (seed', occ', level1') \<Rightarrow>
        length occ' = length occ \<and> length level1' = length level1 \<and> entries_ok len level1' \<and>
        (\<forall>k < length occ. occ ! k \<longrightarrow> occ' ! k \<and> level1' ! k = level1 ! k) \<and>
        (\<forall>i \<in> set vals. occ' ! slot rules mask1 seed' i \<and> level1' ! slot rules mask1 seed' i = of_nat i)"
      proof (cases ok)
        case True
        with 1(2) t inv show ?thesis by (auto split: prod.splits)
      next
        case False
        with 1(2) t have "seedLoop rules mask1 vals (seed + 1) o1 l1 = Some r" by simp
        from 1(1) [OF this] False inv a show ?thesis by (auto split: prod.splits)
      qed
    qed
  qed
  with assms show ?thesis by blast
qed

definition placed ::
    "string list \<Rightarrow> nat \<Rightarrow> (nat \<times> nat list) set \<Rightarrow> 32 word list \<Rightarrow> bool list \<Rightarrow> 32 word list \<Rightarrow> bool" where
  "placed rules mask1 D level0 occ level1 \<longleftrightarrow> (\<forall>(n, vals) \<in> D. \<forall>i \<in> set vals.
     occ ! slot rules mask1 (level0 ! n) i \<and> level1 ! slot rules mask1 (level0 ! n) i = of_nat i)"

lemma slot_less: "mask1 < len \<Longrightarrow> slot rules mask1 seed i < len"
  unfolding slot_def using and_nat_le le_less_trans by blast

lemma placeBuckets_inv:
  assumes "placeBuckets rules mask1 bs level0 occ level1 = Some (level0', level1')"
    and "length occ = length level1" "mask1 < length level1" "entries_ok len level1" "len < 2 ^ 32"
    and "distinct (map fst bs)" "\<forall>(n, vals) \<in> set bs. n < length level0 \<and> (\<forall>i \<in> set vals. i < len)"
    and "placed rules mask1 D level0 occ level1" "\<forall>(n, vals) \<in> D. n \<notin> fst ` set bs"
  shows "length level0' = length level0 \<and> length level1' = length level1 \<and> entries_ok len level1' \<and>
    (\<exists>occ'. placed rules mask1 (D \<union> set bs) level0' occ' level1')"
  using assms
proof (induction bs arbitrary: level0 occ level1 D)
  case Nil
  then show ?case by auto
next
  case (Cons b bs)
  obtain n vals where b: "b = (n, vals)" by (cases b)
  from Cons.prems(1) obtain seed o1 l1 where
    s: "seedLoop rules mask1 vals 0 occ level1 = Some (seed, o1, l1)"
    and p: "placeBuckets rules mask1 bs (level0[n := seed]) o1 l1 = Some (level0', level1')"
    by (auto simp: b bind_eq_Some_conv)
  have n: "n < length level0" "\<forall>i \<in> set vals. i < len" using Cons.prems(7) by (auto simp: b)
  from seedLoop_inv [OF s Cons.prems(2-4) n(2) Cons.prems(5)]
  have inv: "length o1 = length occ" "length l1 = length level1" "entries_ok len l1"
    "\<forall>k < length occ. occ ! k \<longrightarrow> o1 ! k \<and> l1 ! k = level1 ! k"
    "\<forall>i \<in> set vals. o1 ! slot rules mask1 seed i \<and> l1 ! slot rules mask1 seed i = of_nat i" by auto
  have "placed rules mask1 (insert (n, vals) D) (level0[n := seed]) o1 l1"
    unfolding placed_def
  proof
    fix x assume x: "x \<in> insert (n, vals) D"
    obtain k vs where xk: "x = (k, vs)" by (cases x)
    have "o1 ! slot rules mask1 (level0[n := seed] ! k) i \<and>
      l1 ! slot rules mask1 (level0[n := seed] ! k) i = of_nat i" if i: "i \<in> set vs" for i
    proof (cases "x = (n, vals)")
      case True
      with inv(5) i n(1) xk show ?thesis by simp
    next
      case False
      with x xk have D: "(k, vs) \<in> D" by auto
      with Cons.prems(9) have "k \<noteq> n" by (auto simp: b)
      moreover have "slot rules mask1 (level0 ! k) i < length occ"
        using Cons.prems(2,3) slot_less by simp
      moreover have "occ ! slot rules mask1 (level0 ! k) i \<and> level1 ! slot rules mask1 (level0 ! k) i = of_nat i"
        using Cons.prems(8) D i unfolding placed_def by blast
      ultimately show ?thesis using inv(4) by simp
    qed
    then show "case x of (k, vs) \<Rightarrow> \<forall>i \<in> set vs. o1 ! slot rules mask1 (level0[n := seed] ! k) i \<and>
      l1 ! slot rules mask1 (level0[n := seed] ! k) i = of_nat i" by (simp add: xk)
  qed
  moreover have "\<forall>(k, vs) \<in> insert (n, vals) D. k \<notin> fst ` set bs"
    using Cons.prems(6,9) by (auto simp: b)
  ultimately have "length level0' = length (level0[n := seed]) \<and> length level1' = length l1 \<and> entries_ok len level1' \<and>
    (\<exists>occ'. placed rules mask1 (insert (n, vals) D \<union> set bs) level0' occ' level1')"
    using Cons.prems inv by (intro Cons.IH [OF p]) (auto simp: b)
  then show ?case using inv by (simp add: b)
qed

lemma length_sparse: "length (sparse mask0 m r bs) = length bs"
  by (induction mask0 m r bs rule: sparse.induct) (auto simp: Let_def)

lemma sparse_keeps: "i \<in> set (bs ! n) \<Longrightarrow> n < length bs \<Longrightarrow> i \<in> set (sparse mask0 m r bs ! n)"
proof (induction mask0 m r bs rule: sparse.induct)
  case (2 mask0 rule hash m r bs)
  then show ?case by (cases "n = unat hash AND mask0") (auto simp: Let_def)
qed simp

lemma sparse_has:
  "j < length m \<Longrightarrow> mask0 < length bs \<Longrightarrow> r + j \<in> set (sparse mask0 m r bs ! (unat (snd (m ! j)) AND mask0))"
proof (induction mask0 m r bs arbitrary: j rule: sparse.induct)
  case (2 mask0 rule hash m r bs)
  have n: "unat h AND mask0 < length bs" for h :: "32 word"
    using 2(3) and_nat_le [of "unat h" mask0] by linarith
  show ?case
  proof (cases j)
    case 0
    then show ?thesis using n [of hash] by (auto simp: Let_def intro!: sparse_keeps)
  next
    case (Suc k)
    with 2(2,3) 2(1) [OF refl, of k] show ?thesis by (simp add: Let_def)
  qed
qed simp

lemma sparse_bound:
  "\<forall>n < length bs. \<forall>i \<in> set (bs ! n). i < r \<Longrightarrow>
   \<forall>n < length bs. \<forall>i \<in> set (sparse mask0 m r bs ! n). i < r + length m"
proof (induction mask0 m r bs rule: sparse.induct)
  case (2 mask0 rule hash m r bs)
  let ?k = "unat hash AND mask0"
  have "\<forall>n < length (bs[?k := bs ! ?k @ [r]]). \<forall>i \<in> set (bs[?k := bs ! ?k @ [r]] ! n). i < r + 1"
  proof (intro allI impI ballI)
    fix n i assume "n < length (bs[?k := bs ! ?k @ [r]])" "i \<in> set (bs[?k := bs ! ?k @ [r]] ! n)"
    with 2(2) show "i < r + 1" by (cases "n = ?k") (auto simp: less_Suc_eq)
  qed
  from 2(1) [OF refl this] show ?case by (simp add: Let_def)
qed simp

lemma buckets_of_mset:
  "bySize_ok srt \<Longrightarrow> mset (buckets_of srt bs) = mset (filter (\<lambda>(n, vals). 0 < length vals) (enumerate 0 bs))"
  by (simp add: buckets_of_def bySize_ok_def)

lemma buckets_of_set:
  "bySize_ok srt \<Longrightarrow> (n, vals) \<in> set (buckets_of srt bs) \<longleftrightarrow> n < length bs \<and> vals = bs ! n \<and> vals \<noteq> []"
  using mset_eq_setD [OF buckets_of_mset [of srt bs]] by (auto simp: in_set_enumerate_eq)

lemma buckets_of_distinct:
  assumes srt: "bySize_ok srt"
  shows "distinct (map fst (buckets_of srt bs))"
proof -
  have "distinct (filter (\<lambda>(n, vals). 0 < length vals) (enumerate 0 bs))"
    using distinct_enumerate by (rule distinct_filter)
  then have "distinct (buckets_of srt bs)"
    using mset_eq_imp_distinct_iff [OF buckets_of_mset [OF srt, of bs]] by simp
  moreover have "inj_on fst (set (buckets_of srt bs))"
    by (rule inj_onI) (metis buckets_of_set [OF srt] prod.collapse)
  ultimately show ?thesis by (simp add: distinct_map)
qed

text \<open>The keys a group is built on.\<close>

definition mph_keys :: "'r MphGroup \<Rightarrow> string list" where
  "mph_keys g = (if mp_ruleMap g = [] then [empty_key] else map fst (mp_ruleMap g))"

definition hashes_ok :: "'r MphGroup \<Rightarrow> bool" where
  "hashes_ok g \<longleftrightarrow> (\<forall>(r, h) \<in> set (mp_ruleMap g). h = RollingHash r) \<and> length (mp_ruleMap g) < 2 ^ 32"

lemma Build_Lookup:
  assumes srt: "bySize_ok srt" and b: "mph_Build srt g = Some g'" and h: "hashes_ok g"
  shows "mph_Lookup g' (RollingHash s) s = Some (s \<in> set (mph_keys g))"
    "mp_others g' = mp_others g" "mp_ac g = None \<Longrightarrow> mp_ac g' = None"
proof -
  define rm where "rm = (if length (mp_ruleMap g) = 0 then map_put empty_key (RollingHash empty_key) (mp_ruleMap g)
      else mp_ruleMap g)"
  define mask0 where "mask0 = nextPow2 (length rm div 4) - 1"
  define mask1 where "mask1 = nextPow2 (length rm) - 1"
  let ?rules = "map fst rm" and ?len = "length rm"
  let ?bs = "sparse mask0 rm 0 (replicate (nextPow2 (?len div 4)) [])"
  have rules: "?rules = mph_keys g" by (auto simp: rm_def mph_keys_def)
  have len: "0 < ?len" "?len < 2 ^ 32" using h by (auto simp: rm_def hashes_ok_def)
  have hash: "snd (rm ! j) = RollingHash (fst (rm ! j))" if "j < ?len" for j
    using h that nth_mem [OF that] by (fastforce simp: rm_def hashes_ok_def split: if_splits)
  have l0: "0 < nextPow2 (?len div 4)" using len(2) by (intro nextPow2_pos) simp
  have l1: "0 < nextPow2 ?len" using len(2) by (intro nextPow2_pos) simp
  from b obtain ac level0 level1 where
    ac: "(case mp_ac g of None \<Rightarrow> Some None | Some a \<Rightarrow> map_option Some (ac_Build a)) = Some ac" and
    p: "placeBuckets ?rules mask1 (buckets_of srt ?bs) (replicate (nextPow2 (?len div 4)) 0)
        (replicate (nextPow2 ?len) False) (replicate (nextPow2 ?len) 0) = Some (level0, level1)" and
    g': "g' = g\<lparr>mp_ac := ac, mp_rules := ?rules, mp_level0 := level0, mp_level0Mask := mask0,
             mp_level1 := level1, mp_level1Mask := mask1, mp_ruleMap := []\<rparr>"
    unfolding mph_Build_def Let_def rm_def [symmetric] length_replicate mask0_def [symmetric] mask1_def [symmetric]
    by (auto simp: bind_eq_Some_conv)
  have inv: "length level0 = nextPow2 (?len div 4) \<and> length level1 = nextPow2 ?len \<and> entries_ok ?len level1 \<and>
      (\<exists>occ'. placed ?rules mask1 ({} \<union> set (buckets_of srt ?bs)) level0 occ' level1)"
  proof -
    have "\<forall>n < nextPow2 (?len div 4). \<forall>i \<in> set (?bs ! n). i < ?len"
      using sparse_bound [of "replicate (nextPow2 (?len div 4)) []" 0 mask0 rm] by simp
    then have bb: "\<forall>(n, vals) \<in> set (buckets_of srt ?bs). n < length (replicate (nextPow2 (?len div 4)) (0 :: 32 word)) \<and>
        (\<forall>i \<in> set vals. i < ?len)"
      by (clarsimp simp: buckets_of_set [OF srt] length_sparse)
    have e: "entries_ok ?len (replicate (nextPow2 ?len) 0)" using len by (simp add: entries_ok_def)
    have m: "mask1 < length (replicate (nextPow2 ?len) (0 :: 32 word))" using l1 by (simp add: mask1_def)
    have pl: "placed ?rules mask1 {} (replicate (nextPow2 (?len div 4)) 0) (replicate (nextPow2 ?len) False)
        (replicate (nextPow2 ?len) 0)" by (simp add: placed_def)
    from placeBuckets_inv [OF p _ m e len(2) buckets_of_distinct [OF srt] bb pl] show ?thesis by simp
  qed
  then obtain occ' where pl: "placed ?rules mask1 (set (buckets_of srt ?bs)) level0 occ' level1" by auto
  have i0: "unat x AND mask0 < length level0" for x :: "32 word"
    using inv l0 and_nat_le [of "unat x" mask0] by (auto simp: mask0_def)
  have i1: "unat x AND mask1 < length level1" for x :: "64 word"
    using inv l1 and_nat_le [of "unat x" mask1] by (auto simp: mask1_def)
  let ?i0 = "unat (RollingHash s) AND mask0"
  let ?n = "level1 ! (unat (strhashFallback s (level0 ! ?i0)) AND mask1)"
  have n: "unat ?n < ?len" using inv i1 by (simp add: entries_ok_def)
  have lk: "mph_Lookup g' (RollingHash s) s = Some (s = ?rules ! unat ?n)"
    using i0 i1 n by (simp add: mph_Lookup_def g' Let_def idx_def)
  have "s \<in> set ?rules \<longleftrightarrow> s = ?rules ! unat ?n"
  proof
    assume "s \<in> set ?rules"
    then obtain j where j: "j < ?len" "s = ?rules ! j" by (auto simp: in_set_conv_nth)
    then have "snd (rm ! j) = RollingHash s" using hash by simp
    with sparse_has [of j rm mask0 "replicate (nextPow2 (?len div 4)) []" 0] j(1) l0
    have "j \<in> set (?bs ! ?i0)" by (simp add: mask0_def)
    moreover have "?i0 < length ?bs" using i0 inv by (simp add: length_sparse)
    ultimately have "(?i0, ?bs ! ?i0) \<in> set (buckets_of srt ?bs)" "j \<in> set (?bs ! ?i0)"
      by (auto simp: buckets_of_set [OF srt])
    with pl have "level1 ! slot ?rules mask1 (level0 ! ?i0) j = of_nat j"
      unfolding placed_def by blast
    then have "?n = of_nat j" using j(2) by (simp add: slot_def)
    with j len(2) show "s = ?rules ! unat ?n" by (simp add: unat_of_nat)
  next
    assume "s = ?rules ! unat ?n"
    with n show "s \<in> set ?rules" by simp
  qed
  with lk rules show "mph_Lookup g' (RollingHash s) s = Some (s \<in> set (mph_keys g))" by simp
  show "mp_others g' = mp_others g" by (simp add: g')
  show "mp_ac g = None \<Longrightarrow> mp_ac g' = None" using ac by (simp add: g')
qed

section \<open>The group and the linear group agree\<close>

fun addPatterns :: "'r regexp \<Rightarrow> (string \<times> MType) list \<Rightarrow> 'r MphGroup \<Rightarrow> 'r MphGroup option option" where
  "addPatterns R [] g = Some (Some g)"
| "addPatterns R ((p, t) # ds) g =
     (case AddPattern R p t g of
        Some (Some g1) \<Rightarrow> addPatterns R ds g1
      | r \<Rightarrow> r)"

text \<open>The keys and the regular expressions of a list of patterns.\<close>

definition pattern_keys :: "(string \<times> MType) list \<Rightarrow> string set" where
  "pattern_keys ds = {ToLower p | p t. (p, t) \<in> set ds \<and> (t = Full \<or> t = Domain)} \<union>
     {CHR ''.'' # ToLower p | p. (p, Domain) \<in> set ds}"

definition pattern_regexes :: "'r regexp \<Rightarrow> (string \<times> MType) list \<Rightarrow> 'r Matcher set" where
  "pattern_regexes R ds = {regexMatcher r | p r. (p, Regex) \<in> set ds \<and> Compile R p = Some r}"

definition group_ok :: "'r regexp \<Rightarrow> (string \<times> MType) list \<Rightarrow> 'r MphGroup \<Rightarrow> bool" where
  "group_ok R ds g \<longleftrightarrow> fst ` set (mp_ruleMap g) = pattern_keys ds \<and>
     (\<forall>(r, h) \<in> set (mp_ruleMap g). h = RollingHash r) \<and> length (mp_ruleMap g) \<le> 2 * length ds \<and>
     fst ` set (mp_others g) = pattern_regexes R ds \<and> mp_ac g = None"

lemma length_put: "length (map_put k v m) \<le> Suc (length m)"
  by (induction k v m rule: map_put.induct) auto

lemma put_hashes: "(\<forall>(r, h) \<in> set m. h = f r) \<Longrightarrow> (\<forall>(r, h) \<in> set (map_put k (f k) m). h = f r)"
  by (induction k "f k" m rule: map_put.induct) auto

lemma keys_snoc:
  "pattern_keys (ds @ [(p, t)]) = pattern_keys ds \<union> (if t = Full \<or> t = Domain then {ToLower p} else {}) \<union>
     (if t = Domain then {CHR ''.'' # ToLower p} else {})"
  by (auto simp: pattern_keys_def)

lemma regexes_snoc:
  "pattern_regexes R (ds @ [(p, t)]) = pattern_regexes R ds \<union>
     (if t = Regex then {regexMatcher r | r. Compile R p = Some r} else {})"
  by (auto simp: pattern_regexes_def)

lemma AddPattern_ok:
  assumes ok: "group_ok R ds g" and t: "t \<noteq> Substr" and a: "AddPattern R p t g = Some (Some g1)"
  shows "group_ok R (ds @ [(p, t)]) g1"
proof -
  let ?q = "ToLower p" and ?m = "mp_ruleMap g"
  have d: "RollingHash ?q * PrimeRK + ord32 (CHR ''.'') = RollingHash (CHR ''.'' # ?q)" by simp
  note ok' = ok [unfolded group_ok_def]
  show ?thesis
  proof (cases t)
    case Full
    with a have "g1 = g\<lparr>mp_ruleMap := map_put ?q (RollingHash ?q) ?m\<rparr>"
      by (simp add: AddPattern_def AddFullOrDomainPattern_def Let_def)
    with ok' Full length_put [of ?q "RollingHash ?q" ?m] put_hashes [of ?m RollingHash ?q] show ?thesis
      by (auto simp: group_ok_def keys_put keys_snoc regexes_snoc)
  next
    case Domain
    let ?m1 = "map_put (CHR ''.'' # ?q) (RollingHash (CHR ''.'' # ?q)) ?m"
    from Domain a have "g1 = g\<lparr>mp_ruleMap := map_put ?q (RollingHash ?q) ?m1\<rparr>"
      by (simp add: AddPattern_def AddFullOrDomainPattern_def Let_def)
    moreover have "\<forall>(r, h) \<in> set (map_put ?q (RollingHash ?q) ?m1). h = RollingHash r"
      using ok' by (intro put_hashes) blast
    moreover have "length (map_put ?q (RollingHash ?q) ?m1) \<le> 2 * length (ds @ [(p, t)])"
      using ok' length_put [of ?q "RollingHash ?q" ?m1] length_put [of "CHR ''.'' # ?q" "RollingHash (CHR ''.'' # ?q)" ?m]
      by simp
    moreover have "fst ` set (map_put ?q (RollingHash ?q) ?m1) = pattern_keys (ds @ [(p, t)])"
      using ok' Domain by (simp add: keys_put keys_snoc insert_commute)
    ultimately show ?thesis using ok' Domain by (simp add: group_ok_def regexes_snoc)
  next
    case Regex
    with a obtain r where "Compile R p = Some r" "g1 = g\<lparr>mp_others := mp_others g @ [(regexMatcher r, mp_count g)]\<rparr>"
      by (auto simp: AddPattern_def)
    with ok' Regex show ?thesis by (auto simp: group_ok_def keys_snoc regexes_snoc)
  qed (use t in simp)
qed

lemma addPatterns_ok:
  "group_ok R ds g \<Longrightarrow> \<forall>(p, t) \<in> set es. t \<noteq> Substr \<Longrightarrow> addPatterns R es g = Some (Some g1) \<Longrightarrow>
     group_ok R (ds @ es) g1"
proof (induction R es g arbitrary: ds rule: addPatterns.induct)
  case (2 R p t es g)
  then obtain g2 where g2: "AddPattern R p t g = Some (Some g2)" "addPatterns R es g2 = Some (Some g1)"
    by (auto split: option.splits)
  from 2(1) [OF g2(1) refl AddPattern_ok [OF 2(2) _ g2(1)] _ g2(2)] 2(3) show ?case by auto
qed simp

lemma scan_correct:
  assumes lk: "\<And>s. mph_Lookup g (RollingHash s) s = Some (s \<in> K)"
  shows "\<exists>b h. mph_scan g (rev xs) (RollingHash suf) suf = Some (b, h) \<and>
    (b \<longleftrightarrow> (\<exists>u v. xs = u @ CHR ''.'' # v \<and> CHR ''.'' # v @ suf \<in> K)) \<and> (\<not> b \<longrightarrow> h = RollingHash (xs @ suf))"
proof (induction xs arbitrary: suf rule: rev_induct)
  case (snoc c xs)
  have hash: "RollingHash suf * PrimeRK + ord32 c = RollingHash (c # suf)" by simp
  have split: "(\<exists>u v. xs @ [c] = u @ CHR ''.'' # v \<and> CHR ''.'' # v @ suf \<in> K) \<longleftrightarrow>
      (c = CHR ''.'' \<and> CHR ''.'' # suf \<in> K) \<or> (\<exists>u v. xs = u @ CHR ''.'' # v \<and> CHR ''.'' # v @ c # suf \<in> K)"
    (is "?l \<longleftrightarrow> ?r")
  proof
    assume ?l
    then obtain u v where uv: "xs @ [c] = u @ CHR ''.'' # v" "CHR ''.'' # v @ suf \<in> K" by blast
    then show ?r by (cases v rule: rev_cases) auto
  next
    assume ?r
    then show ?l by (metis append.assoc append_Cons append_Nil)
  qed
  have step: "mph_scan g (rev (xs @ [c])) (RollingHash suf) suf =
      (if c = CHR ''.'' \<and> c # suf \<in> K then Some (True, RollingHash (c # suf))
       else mph_scan g (rev xs) (RollingHash (c # suf)) (c # suf))"
    unfolding rev_append rev.simps append_Nil append_Cons mph_scan.simps Let_def hash
    by (cases "c = CHR ''.''") (simp_all only: lk simp_thms if_True if_False, auto)
  show ?case
  proof (cases "c = CHR ''.'' \<and> c # suf \<in> K")
    case True
    then have "mph_scan g (rev (xs @ [c])) (RollingHash suf) suf = Some (True, RollingHash (c # suf))"
      unfolding step by (rule if_P)
    with True show ?thesis unfolding split by auto
  next
    case False
    then have "mph_scan g (rev (xs @ [c])) (RollingHash suf) suf = mph_scan g (rev xs) (RollingHash (c # suf)) (c # suf)"
      unfolding step by auto
    with snoc [of "c # suf"] False show ?thesis unfolding split by auto
  qed
next
  case Nil
  show ?case by simp (rule exI [of _ False], simp)
qed

lemma firstOther_iff: "firstOther R es s \<noteq> [] \<longleftrightarrow> (\<exists>m \<in> fst ` set es. Matcher_Match R m s)"
  by (induction R es s rule: firstOther.induct) auto

lemma mph_Match_iff:
  assumes a: "addPatterns R ds NewMphMatcherGroup = Some (Some g)" and m: "set m = set (mp_ruleMap g)" "length m = length (mp_ruleMap g)"
    and srt: "bySize_ok srt" and b: "mph_Build srt (g\<lparr>mp_ruleMap := m\<rparr>) = Some g'"
    and p: "\<forall>(p, t) \<in> set ds. t \<noteq> Substr \<and> (t \<noteq> Regex \<longrightarrow> ToLower p = p \<and> \<not> HasPrefix p ''.'')"
    and n: "length ds < 2 ^ 31" and s: "s \<noteq> []"
    and ms: "map (\<lambda>(p, t). MType_New R t p) ds = map Some ms"
  shows "\<exists>r. mph_Match R g' s = Some r \<and> (r \<noteq> [] \<longleftrightarrow>
    mg_Match R (group_of ms) s \<noteq> [] \<or> s = empty_key \<and> (\<forall>(p, t) \<in> set ds. t = Regex))"
proof -
  let ?g = "g\<lparr>mp_ruleMap := m\<rparr>"
  have "group_ok R ([] @ ds) g"
    using p by (intro addPatterns_ok [OF _ _ a])
      (auto simp: group_ok_def NewMphMatcherGroup_def pattern_keys_def pattern_regexes_def)
  then have "group_ok R ds ?g"
    using m by (simp add: group_ok_def)
  then have ok: "fst ` set (mp_ruleMap ?g) = pattern_keys ds" "hashes_ok ?g" "mp_ac ?g = None"
    "fst ` set (mp_others ?g) = pattern_regexes R ds"
    using n by (auto simp: group_ok_def hashes_ok_def)
  note B = Build_Lookup [OF srt b ok(2)]
  let ?K = "set (mph_keys ?g)"
  from scan_correct [OF B(1), of s "[]"] obtain bb h where sc: "mph_scan g' (rev s) 0 [] = Some (bb, h)"
    "bb \<longleftrightarrow> (\<exists>u v. s = u @ CHR ''.'' # v \<and> CHR ''.'' # v \<in> ?K)" "\<not> bb \<longrightarrow> h = RollingHash s" by auto
  have "\<exists>r. mph_Match R g' s = Some r \<and> (r \<noteq> [] \<longleftrightarrow> bb \<or> s \<in> ?K \<or> firstOther R (mp_others g') s \<noteq> [])"
  proof (cases bb)
    case True
    with sc(1) show ?thesis by (simp add: mph_Match_def)
  next
    case False
    with sc(3) have "h = RollingHash s" by blast
    with False sc(1) have "mph_Match R g' s = do { b \<leftarrow> mph_Lookup g' (RollingHash s) s;
        if b then Some [1] else Some (firstOther R (mp_others g') s) }"
      unfolding mph_Match_def B(3) [OF ok(3)] by (simp cong: if_cong)
    with False show ?thesis by (simp add: B(1))
  qed
  then obtain r where r: "mph_Match R g' s = Some r"
    "r \<noteq> [] \<longleftrightarrow> bb \<or> s \<in> ?K \<or> firstOther R (mp_others g') s \<noteq> []" by blast
  define odd where "odd \<longleftrightarrow> s = empty_key \<and> (\<forall>(p, t) \<in> set ds. t = Regex)"
  have keys: "(\<exists>u v. s = u @ CHR ''.'' # v \<and> CHR ''.'' # v \<in> ?K) \<or> s \<in> ?K \<longleftrightarrow>
      (\<exists>(p, t) \<in> set ds. (t = Full \<and> s = p) \<or> (t = Domain \<and> domain_Match p s)) \<or>
      s = empty_key \<and> (\<forall>(p, t) \<in> set ds. t = Regex)"
  proof (cases "mp_ruleMap ?g = []")
    case True
    with ok(1) have e: "pattern_keys ds = {}" by simp
    then have none: "\<forall>(p, t) \<in> set ds. t \<noteq> Full \<and> t \<noteq> Domain" by (auto simp: pattern_keys_def)
    have "t = Regex" if "(q, t) \<in> set ds" for q t
      using bspec [OF p that] bspec [OF none that] by (cases t) simp_all
    then have all: "\<forall>(p, t) \<in> set ds. t = Regex" by auto
    have "?K = {empty_key}" using True by (simp add: mph_keys_def)
    moreover have "CHR ''.'' # v \<noteq> empty_key" for v by (simp add: empty_key_def)
    moreover have "\<not> (\<exists>(p, t) \<in> set ds. (t = Full \<and> s = p) \<or> (t = Domain \<and> domain_Match p s))"
      using none by fast
    ultimately show ?thesis using all by (simp only: singleton_iff simp_thms) blast
  next
    case False
    then have K: "?K = pattern_keys ds" using ok(1) by (simp add: mph_keys_def)
    have "pattern_keys ds \<noteq> {}" using False ok(1) by (metis image_is_empty set_empty)
    then have named: "\<not> (\<forall>(p, t) \<in> set ds. t = Regex)" by (auto simp: pattern_keys_def)
    have low: "ToLower q = q" "\<not> HasPrefix q ''.''" if "(q, t) \<in> set ds" "t = Full \<or> t = Domain" for q t
      using bspec [OF p that(1)] that(2) by auto
    have E: "x \<in> ?K \<longleftrightarrow> (x, Full) \<in> set ds \<or> (x, Domain) \<in> set ds \<or> (\<exists>q. x = CHR ''.'' # q \<and> (q, Domain) \<in> set ds)" for x
      unfolding K pattern_keys_def Un_iff mem_Collect_eq using low(1) by (intro iffI; elim disjE exE conjE; metis)
    have N: "(CHR ''.'' # v, t) \<notin> set ds" if "t = Full \<or> t = Domain" for v t
      using low(2) [of "CHR ''.'' # v" t] that by auto
    have D: "CHR ''.'' # v \<in> ?K \<longleftrightarrow> (v, Domain) \<in> set ds" for v
      unfolding E using N [of Full v] N [of Domain v] by simp
    have "(\<exists>q. s = CHR ''.'' # q \<and> (q, Domain) \<in> set ds) \<Longrightarrow> \<exists>u v. s = u @ CHR ''.'' # v \<and> (v, Domain) \<in> set ds"
      by (metis append_Nil)
    then have "(\<exists>u v. s = u @ CHR ''.'' # v \<and> CHR ''.'' # v \<in> ?K) \<or> s \<in> ?K \<longleftrightarrow>
        (\<exists>(p, t) \<in> set ds. (t = Full \<and> s = p) \<or> (t = Domain \<and> domain_Match p s))"
      unfolding D E [of s] domain_Match_suffix by (simp add: Bex_def) blast
    with named show ?thesis by (simp only: simp_thms)
  qed
  have "firstOther R (mp_others g') s \<noteq> [] \<longleftrightarrow> (\<exists>(p, t) \<in> set ds. t = Regex \<and> (\<exists>r. Compile R p = Some r \<and> MatchString R r s))"
    unfolding B(2) firstOther_iff ok(4) pattern_regexes_def by fastforce
  moreover have "mg_Match R (group_of ms) s \<noteq> [] \<longleftrightarrow> (\<exists>(p, t) \<in> set ds. \<exists>m. MType_New R t p = Some m \<and> Matcher_Match R m s)"
  proof -
    have len: "length ms = length ds" using ms by (metis length_map)
    have nth: "MType_New R (snd (ds ! i)) (fst (ds ! i)) = Some (ms ! i)" if "i < length ds" for i
      using arg_cong [OF ms, of "\<lambda>xs. xs ! i"] that len by (simp add: case_prod_beta)
    have "mg_Match R (group_of ms) s \<noteq> [] \<longleftrightarrow> (\<exists>v. v \<in> set (mg_Match R (group_of ms) s))" by (simp add: ex_in_conv)
    also have "\<dots> \<longleftrightarrow> (\<exists>i < length ds. Matcher_Match R (ms ! i) s)"
      unfolding mg_Match_members [OF s] len by blast
    also have "\<dots> \<longleftrightarrow> (\<exists>i < length ds. \<exists>m. MType_New R (snd (ds ! i)) (fst (ds ! i)) = Some m \<and> Matcher_Match R m s)"
      using nth by auto
    also have "\<dots> \<longleftrightarrow> (\<exists>d \<in> set ds. \<exists>m. MType_New R (snd d) (fst d) = Some m \<and> Matcher_Match R m s)"
      by (metis in_set_conv_nth)
    also have "\<dots> \<longleftrightarrow> (\<exists>(p, t) \<in> set ds. \<exists>m. MType_New R t p = Some m \<and> Matcher_Match R m s)"
      by (intro bex_cong refl) (simp add: case_prod_beta)
    finally show ?thesis .
  qed
  moreover have one: "(\<exists>m. MType_New R t q = Some m \<and> Matcher_Match R m s) \<longleftrightarrow>
      (t = Full \<and> s = q) \<or> (t = Domain \<and> domain_Match q s) \<or>
      (t = Regex \<and> (\<exists>r. Compile R q = Some r \<and> MatchString R r s))" if "(q, t) \<in> set ds" for q t
    using bspec [OF p that] by (cases t) auto
  moreover have "(\<exists>(q, t) \<in> set ds. \<exists>m. MType_New R t q = Some m \<and> Matcher_Match R m s) \<longleftrightarrow>
      (\<exists>(q, t) \<in> set ds. (t = Full \<and> s = q) \<or> (t = Domain \<and> domain_Match q s)) \<or>
      (\<exists>(q, t) \<in> set ds. t = Regex \<and> (\<exists>r. Compile R q = Some r \<and> MatchString R r s))"
    using one by (simp add: Bex_def case_prod_beta) blast
  ultimately have "r \<noteq> [] \<longleftrightarrow> mg_Match R (group_of ms) s \<noteq> [] \<or> odd"
    using r(2) keys [folded odd_def] sc(2) by (simp only: ex_simps) blast
  with r(1) show ?thesis by (auto simp: odd_def)
qed

text \<open>C12: once \<^verbatim>\<open>Build\<close> has returned, a group of full names and domains in lower case, which do not begin with a dot,
  and regular expressions matches a name that is not empty exactly when the linear group of the same matchers does, but
  for the name \<^verbatim>\<open>empty___\<close>, the key that is inserted when there are only regular expressions: such a group matches
  it. This holds in whatever order \<open>m\<close> the map of the rules is visited, however buckets of one size are sorted and
  whichever seeds were tried; that some seed works for each bucket is not proved.\<close>

theorem mph_equals_linear:
  assumes a: "addPatterns R ds NewMphMatcherGroup = Some (Some g)" and m: "set m = set (mp_ruleMap g)" "length m = length (mp_ruleMap g)"
    and srt: "bySize_ok srt" and b: "mph_Build srt (g\<lparr>mp_ruleMap := m\<rparr>) = Some g'"
    and p: "\<forall>(p, t) \<in> set ds. t \<noteq> Substr \<and> (t \<noteq> Regex \<longrightarrow> ToLower p = p \<and> \<not> HasPrefix p ''.'')"
    and n: "length ds < 2 ^ 31" and s: "s \<noteq> []"
    and ms: "map (\<lambda>(p, t). MType_New R t p) ds = map Some ms"
  shows "\<exists>r. mph_Match R g' s = Some r \<and> (r \<noteq> [] \<longleftrightarrow>
    mg_Match R (group_of ms) s \<noteq> [] \<or> s = empty_key \<and> (\<forall>(p, t) \<in> set ds. t = Regex))"
  by (rule mph_Match_iff [OF assms])

definition witness_regexp :: "string regexp" where
  "witness_regexp = \<lparr>Compile = (\<lambda>s. Some s), MatchString = (=), re_String = (\<lambda>s. s)\<rparr>"

definition witness_mph :: "string MphGroup" where
  "witness_mph = NewMphMatcherGroup\<lparr>mp_ruleMap :=
     map (\<lambda>s. (s, RollingHash s)) [''.x.y'', ''x.y'', ''t.co'']\<rparr>"

lemma witness_mph_added:
  "addPatterns witness_regexp [(''x.y'', Domain), (''t.co'', Full)] NewMphMatcherGroup = Some (Some witness_mph)"
  by code_simp

lemma witness_mph_built: "mph_Build bySize_stable (witness_mph\<lparr>mp_ruleMap := rev (mp_ruleMap witness_mph)\<rparr>) \<noteq> None"
  by code_simp

lemma mph_equals_linear_witness:
  "\<exists>g' r. mph_Build bySize_stable (witness_mph\<lparr>mp_ruleMap := rev (mp_ruleMap witness_mph)\<rparr>) = Some g' \<and>
     mph_Match witness_regexp g' ''a.x.y'' = Some r \<and> r \<noteq> []"
proof -
  obtain g' where b: "mph_Build bySize_stable (witness_mph\<lparr>mp_ruleMap := rev (mp_ruleMap witness_mph)\<rparr>) = Some g'"
    using witness_mph_built by blast
  have "mg_Match witness_regexp (group_of [domainMatcher ''x.y'', fullMatcher ''t.co'']) ''a.x.y'' \<noteq> []"
    "\<forall>(p, t) \<in> set [(''x.y'', Domain), (''t.co'', Full)]. t \<noteq> Substr \<and>
       (t \<noteq> Regex \<longrightarrow> ToLower p = p \<and> \<not> HasPrefix p ''.'')"
    by code_simp+
  moreover have "map (\<lambda>(p, t). MType_New witness_regexp t p) [(''x.y'', Domain), (''t.co'', Full)] =
      map Some [domainMatcher ''x.y'', fullMatcher ''t.co'']"
    by simp
  ultimately show ?thesis
    using b mph_equals_linear [OF witness_mph_added _ _ bySize_stable_ok b, of "''a.x.y''"
        "[domainMatcher ''x.y'', fullMatcher ''t.co'']"] by auto
qed

definition empty_mph :: "string MphGroup" where
  "empty_mph = NewMphMatcherGroup\<lparr>mp_others := [(regexMatcher ''oo'', 1)], mp_rules := [empty_key],
     mp_level0 := [0], mp_level1 := [0]\<rparr>"

lemma empty_mph_built:
  "mph_Build bySize_stable (NewMphMatcherGroup\<lparr>mp_others := [(regexMatcher ''oo'', 1)]\<rparr>) = Some empty_mph"
  by code_simp

lemma empty_mph_matches: "mph_Match witness_regexp empty_mph ''empty___'' = Some [1]"
  by code_simp

text \<open>A group without full names and domains matches the name \<^verbatim>\<open>empty___\<close>, which is none of its
  patterns: here a group of one regular expression for another name.\<close>

theorem empty_group_matches:
  "\<exists>g g'. AddPattern witness_regexp ''oo'' Regex NewMphMatcherGroup = Some (Some g) \<and> mph_Build bySize_stable g = Some g' \<and>
     mph_Match witness_regexp g' ''empty___'' = Some [1] \<and>
     mg_Match witness_regexp (group_of [regexMatcher ''oo'']) ''empty___'' = []"
proof (intro exI conjI)
  show "AddPattern witness_regexp ''oo'' Regex NewMphMatcherGroup =
      Some (Some (NewMphMatcherGroup\<lparr>mp_others := [(regexMatcher ''oo'', 1)]\<rparr>))"
    by code_simp
  show "mg_Match witness_regexp (group_of [regexMatcher ''oo'']) ''empty___'' = []"
    by code_simp
qed (rule empty_mph_built, rule empty_mph_matches)

end
