(* ===== verification/GeoSite.thy ===== *)
theory GeoSite imports MphMatcher GeoIPMatcher begin

text \<open>
  \<^verbatim>\<open>component/geodata/router/condition.go\<close> (the domain matchers), \<^verbatim>\<open>component/geodata/utils.go\<close> and
  \<^verbatim>\<open>component/geodata/attr.go\<close>: from the name of a list of domains, with its mark of negation and its
  attributes, to the matcher a GEOSITE rule asks.

  The loader of the database file is a parameter. Loads that run at the same time share one call of
  the loader (singleflight); a load here is one of them. \<open>None\<close> is a panic or a call that does not
  return, \<open>Inl\<close> an error that is returned.
\<close>

section \<open>Domains and attributes\<close>

text \<open>The fields that are read of the protobuf message; a type is a 32-bit enumeration whose known
  values are 0 (Plain), 1 (Regex), 2 (Domain) and 3 (Full).\<close>

record GeoDomain =
  d_type :: int
  d_value :: string
  d_attrs :: "string list"

datatype geo_error = EmptyCode | EmptyRule | EmptyListName | UnsupportedType int | BadPattern string | LoaderError string

definition matcherTypeMap :: "int \<Rightarrow> MType option" where
  "matcherTypeMap t = map_of [(0, Substr), (1, Regex), (2, Domain), (3, Full)] t"

definition BooleanMatcher_Match :: "string \<Rightarrow> GeoDomain \<Rightarrow> bool" where
  "BooleanMatcher_Match m d \<longleftrightarrow> list_ex (\<lambda>k. EqualFold k m) (d_attrs d)"

definition AttributeList_Match :: "string list \<Rightarrow> GeoDomain \<Rightarrow> bool" where
  "AttributeList_Match al d \<longleftrightarrow> list_all (\<lambda>m. BooleanMatcher_Match m d) al"

fun parseAttrs :: "string list \<Rightarrow> string list" where
  "parseAttrs [] = []"
| "parseAttrs (attr # attrs) =
     (let trimmedAttr = ToLower (TrimSpace attr)
      in if length trimmedAttr = 0 then parseAttrs attrs else trimmedAttr # parseAttrs attrs)"

section \<open>Domain matchers\<close>

text \<open>The interface \<^verbatim>\<open>IndexMatcher\<close> with its two implementations.\<close>

datatype 'r IndexMatcher = linearGroup "'r MatcherGroup" | mphGroup "'r MphGroup"

fun IndexMatcher_Match :: "'r regexp \<Rightarrow> 'r IndexMatcher \<Rightarrow> string \<Rightarrow> 32 word list option" where
  "IndexMatcher_Match R (linearGroup g) s = Some (mg_Match R g s)"
| "IndexMatcher_Match R (mphGroup g) s = mph_Match R g s"

record 'r DomainMatcher =
  dm_matchers :: "'r IndexMatcher"
  dm_not :: bool

text \<open>What Build leaves open: the order in which it walks the map of the rules, and of buckets of one size.\<close>

record orders =
  or_walk :: "(string \<times> 32 word) list \<Rightarrow> (string \<times> 32 word) list"
  or_bySize :: bySize_sort

definition orders_ok :: "orders \<Rightarrow> bool" where
  "orders_ok ord \<longleftrightarrow> (\<forall>rm. set (or_walk ord rm) = set rm \<and> length (or_walk ord rm) = length rm) \<and> bySize_ok (or_bySize ord)"

fun addDomains :: "'r regexp \<Rightarrow> GeoDomain list \<Rightarrow> 'r MphGroup \<Rightarrow> (geo_error + 'r MphGroup) option" where
  "addDomains R [] g = Some (Inr g)"
| "addDomains R (d # ds) g =
     (case matcherTypeMap (d_type d) of
        None \<Rightarrow> Some (Inl (UnsupportedType (d_type d)))
      | Some t \<Rightarrow>
          (case AddPattern R (d_value d) t g of
             None \<Rightarrow> None
           | Some None \<Rightarrow> Some (Inl (BadPattern (d_value d)))
           | Some (Some g1) \<Rightarrow> addDomains R ds g1))"

definition NewMphDomainMatcher ::
    "'r regexp \<Rightarrow> orders \<Rightarrow> GeoDomain list \<Rightarrow> bool \<Rightarrow> (geo_error + 'r DomainMatcher) option" where
  "NewMphDomainMatcher R ord domains neg = do {
     r \<leftarrow> addDomains R domains NewMphMatcherGroup;
     case r of
       Inl e \<Rightarrow> Some (Inl e)
     | Inr g \<Rightarrow> do {
         g1 \<leftarrow> mph_Build (or_bySize ord) (g\<lparr>mp_ruleMap := or_walk ord (mp_ruleMap g)\<rparr>);
         Some (Inr \<lparr>dm_matchers = mphGroup g1, dm_not = neg\<rparr>) } }"

definition domainToMatcher :: "'r regexp \<Rightarrow> GeoDomain \<Rightarrow> geo_error + 'r Matcher" where
  "domainToMatcher R d =
     (case matcherTypeMap (d_type d) of
        None \<Rightarrow> Inl (UnsupportedType (d_type d))
      | Some t \<Rightarrow>
          (case MType_New R t (d_value d) of None \<Rightarrow> Inl (BadPattern (d_value d)) | Some m \<Rightarrow> Inr m))"

fun addMatchers :: "'r regexp \<Rightarrow> GeoDomain list \<Rightarrow> 'r MatcherGroup \<Rightarrow> geo_error + 'r MatcherGroup" where
  "addMatchers R [] g = Inr g"
| "addMatchers R (d # ds) g =
     (case domainToMatcher R d of Inl e \<Rightarrow> Inl e | Inr m \<Rightarrow> addMatchers R ds (fst (mg_Add m g)))"

definition NewDomainMatcher :: "'r regexp \<Rightarrow> GeoDomain list \<Rightarrow> bool \<Rightarrow> geo_error + 'r DomainMatcher" where
  "NewDomainMatcher R domains neg =
     (case addMatchers R domains mg_empty of
        Inl e \<Rightarrow> Inl e
      | Inr g \<Rightarrow> Inr \<lparr>dm_matchers = linearGroup g, dm_not = neg\<rparr>)"

text \<open>The question put to a matcher, by what its group answers.\<close>

definition ask :: "(string \<Rightarrow> 32 word list option) \<Rightarrow> bool \<Rightarrow> string \<Rightarrow> bool option" where
  "ask match neg domain = do {
     r \<leftarrow> match (ToLower domain);
     let isMatched = length r > 0;
     Some (if neg then \<not> isMatched else isMatched) }"

definition ApplyDomain :: "'r regexp \<Rightarrow> 'r DomainMatcher \<Rightarrow> string \<Rightarrow> bool option" where
  "ApplyDomain R m domain = ask (IndexMatcher_Match R (dm_matchers m)) (dm_not m) domain"

section \<open>Loading\<close>

type_synonym site_loader = "string \<Rightarrow> geo_error + GeoDomain list"
type_synonym ip_loader = "string \<Rightarrow> geo_error + CIDR list"

definition splitNot :: "string \<Rightarrow> bool \<times> string" where
  "splitNot cc = (if cc ! 0 = CHR ''!'' then (True, drop 1 cc) else (False, cc))"

definition LoadGeoSiteMatcher ::
    "'r regexp \<Rightarrow> orders \<Rightarrow> site_loader \<Rightarrow> string \<Rightarrow> (geo_error + 'r DomainMatcher \<times> nat) option" where
  "LoadGeoSiteMatcher R ord load countryCode =
     (if length countryCode = 0 then Some (Inl EmptyCode)
      else let (neg, countryCode) = splitNot countryCode;
               countryCode = ToLower countryCode
           in case Split (CHR ''@'') countryCode of
                [] \<Rightarrow> Some (Inl EmptyRule)
              | part # attrVal \<Rightarrow>
                  let listName = TrimSpace part
                  in if length listName = 0 then Some (Inl EmptyListName)
                     else case load listName of
                       Inl e \<Rightarrow> Some (Inl e)
                     | Inr domains \<Rightarrow>
                         let attrs = parseAttrs attrVal;
                             domains = (if length attrs = 0 then domains
                                        else filter (AttributeList_Match attrs) domains)
                         in do {
                           r \<leftarrow> NewMphDomainMatcher R ord domains neg;
                           case r of Inl e \<Rightarrow> Some (Inl e) | Inr m \<Rightarrow> Some (Inr (m, length domains)) })"

text \<open>The container of the GeoIP matchers is passed on; \<open>None\<close> is the error of an address.\<close>

definition LoadGeoIPMatcher ::
    "ip_loader \<Rightarrow> string \<Rightarrow> GeoIPMatcher list \<Rightarrow>
     (geo_error + (GeoIPMatcher list \<times> GeoIPMatcher) \<times> nat) option" where
  "LoadGeoIPMatcher load country c =
     (if length country = 0 then Some (Inl EmptyCode)
      else let (neg, country) = splitNot country;
               country = ToLower country
           in case load country of
                Inl e \<Rightarrow> Some (Inl e)
              | Inr records \<Rightarrow> do {
                  m \<leftarrow> NewGeoIPMatcher \<lparr>g_CountryCode = country, g_Cidr = records, g_ReverseMatch = neg\<rparr> c;
                  Some (Inr (m, length records)) })"

section \<open>What the two groups have in common\<close>

text \<open>A group built from patterns answers with a number exactly when one of the patterns matches.\<close>

locale index_matcher =
  fixes match :: "'g \<Rightarrow> string \<Rightarrow> 32 word list option"
    and built :: "'p list \<Rightarrow> 'g \<Rightarrow> string \<Rightarrow> bool"
    and matches :: "'p \<Rightarrow> string \<Rightarrow> bool"
  assumes match_ok: "built ps g s \<Longrightarrow> \<exists>r. match g s = Some r \<and> (r \<noteq> [] \<longleftrightarrow> (\<exists>p \<in> set ps. matches p s))"
begin

lemma ask_ok:
  "built ps g (ToLower s) \<Longrightarrow> ask (match g) neg s = Some ((\<exists>p \<in> set ps. matches p (ToLower s)) \<noteq> neg)"
  using match_ok [of ps g "ToLower s"] by (auto simp: ask_def)

end

definition domain_matches :: "'r regexp \<Rightarrow> GeoDomain \<Rightarrow> string \<Rightarrow> bool" where
  "domain_matches R d s \<longleftrightarrow>
     (case matcherTypeMap (d_type d) of None \<Rightarrow> False
      | Some t \<Rightarrow> (case MType_New R t (d_value d) of None \<Rightarrow> False | Some m \<Rightarrow> Matcher_Match R m s))"

definition linear_built :: "'r regexp \<Rightarrow> GeoDomain list \<Rightarrow> 'r MatcherGroup \<Rightarrow> string \<Rightarrow> bool" where
  "linear_built R ds g s \<longleftrightarrow> addMatchers R ds mg_empty = Inr g \<and> s \<noteq> []"

lemma addMatchers_group:
  "addMatchers R ds (group_of ms0) = Inr g \<Longrightarrow>
     \<exists>ms. map (domainToMatcher R) ds = map Inr ms \<and> g = group_of (ms0 @ ms)"
proof (induction ds arbitrary: ms0)
  case (Cons d ds)
  then obtain m where m: "domainToMatcher R d = Inr m" "addMatchers R ds (fst (mg_Add m (group_of ms0))) = Inr g"
    by (auto split: sum.splits)
  from Cons.IH [of "ms0 @ [m]"] m(2) obtain ms where
    "map (domainToMatcher R) ds = map Inr ms" "g = group_of ((ms0 @ [m]) @ ms)"
    by (auto simp: group_of_snoc)
  with m(1) show ?case by (intro exI [of _ "m # ms"]) simp
qed simp

lemma domain_matches_Inr: "domainToMatcher R d = Inr m \<Longrightarrow> domain_matches R d s \<longleftrightarrow> Matcher_Match R m s"
  by (auto simp: domainToMatcher_def domain_matches_def split: option.splits)

lemma list_all2_ex:
  assumes "map f ds = map Inr ms" "\<And>d m. f d = Inr m \<Longrightarrow> P d \<longleftrightarrow> Q m"
  shows "(\<exists>d \<in> set ds. P d) \<longleftrightarrow> (\<exists>m \<in> set ms. Q m)"
  using assms(1)
proof (induction ds arbitrary: ms)
  case (Cons d ds)
  then obtain m ms' where "ms = m # ms'" "f d = Inr m" "map f ds = map Inr ms'" by (cases ms) auto
  with Cons.IH assms(2) show ?case by auto
qed simp

lemma mg_Match_ex:
  assumes "s \<noteq> []"
  shows "mg_Match R (group_of ms) s \<noteq> [] \<longleftrightarrow> (\<exists>m \<in> set ms. Matcher_Match R m s)"
proof -
  have "mg_Match R (group_of ms) s \<noteq> [] \<longleftrightarrow> (\<exists>v. v \<in> set (mg_Match R (group_of ms) s))"
    by (simp add: ex_in_conv)
  also have "\<dots> \<longleftrightarrow> (\<exists>i < length ms. Matcher_Match R (ms ! i) s)"
    unfolding mg_Match_members [OF assms] by blast
  finally show ?thesis by (metis in_set_conv_nth)
qed

interpretation linear: index_matcher "\<lambda>g. IndexMatcher_Match R (linearGroup g)" "linear_built R" "domain_matches R"
  for R :: "'r regexp"
proof
  fix ds :: "GeoDomain list" and g :: "'r MatcherGroup" and s
  assume b: "linear_built R ds g s"
  then have "addMatchers R ds (group_of []) = Inr g" by (simp add: linear_built_def group_of_def)
  then obtain ms where ms: "map (domainToMatcher R) ds = map Inr ms" "g = group_of ms"
    using addMatchers_group by fastforce
  have "(\<exists>d \<in> set ds. domain_matches R d s) \<longleftrightarrow> (\<exists>m \<in> set ms. Matcher_Match R m s)"
    by (rule list_all2_ex [OF ms(1)]) (rule domain_matches_Inr)
  with b show "\<exists>r. IndexMatcher_Match R (linearGroup g) s = Some r \<and> (r \<noteq> [] \<longleftrightarrow> (\<exists>p \<in> set ds. domain_matches R p s))"
    by (simp add: ms(2) linear_built_def mg_Match_ex)
qed

definition sound_domains :: "GeoDomain list \<Rightarrow> bool" where
  "sound_domains ds \<longleftrightarrow> length ds < 2 ^ 31 \<and>
     (\<forall>d \<in> set ds. d_type d \<noteq> 0 \<and> (d_type d \<noteq> 1 \<longrightarrow> ToLower (d_value d) = d_value d \<and> \<not> HasPrefix (d_value d) ''.''))"

definition may_ask :: "GeoDomain list \<Rightarrow> string \<Rightarrow> bool" where
  "may_ask ds s \<longleftrightarrow> s \<noteq> [] \<and> (s \<noteq> empty_key \<or> (\<exists>d \<in> set ds. d_type d \<noteq> 1))"

definition mph_built :: "'r regexp \<Rightarrow> GeoDomain list \<Rightarrow> 'r MphGroup \<Rightarrow> string \<Rightarrow> bool" where
  "mph_built R ds g' s \<longleftrightarrow> (\<exists>g m srt. addDomains R ds NewMphMatcherGroup = Some (Inr g) \<and>
     set m = set (mp_ruleMap g) \<and> length m = length (mp_ruleMap g) \<and> bySize_ok srt \<and> mph_Build srt (g\<lparr>mp_ruleMap := m\<rparr>) = Some g') \<and>
     sound_domains ds \<and> may_ask ds s"

definition pattern_of :: "GeoDomain \<Rightarrow> string \<times> MType" where
  "pattern_of d = (d_value d, the (matcherTypeMap (d_type d)))"

lemma addDomains_patterns:
  "addDomains R ds g = Some (Inr g1) \<Longrightarrow> \<forall>d \<in> set ds. d_type d \<noteq> 0 \<Longrightarrow>
     addPatterns R (map pattern_of ds) g = Some (Some g1) \<and>
     (\<forall>d \<in> set ds. matcherTypeMap (d_type d) \<noteq> None) \<and>
     (\<exists>ms. map (domainToMatcher R) ds = map Inr ms)"
proof (induction R ds g rule: addDomains.induct)
  case (2 R d ds g)
  from 2(2) obtain t g2 where t: "matcherTypeMap (d_type d) = Some t"
    and g2: "AddPattern R (d_value d) t g = Some (Some g2)" "addDomains R ds g2 = Some (Inr g1)"
    by (auto split: option.splits)
  have "t \<noteq> Substr" using t 2(3) by (auto simp: matcherTypeMap_def split: if_splits)
  then have "\<exists>m. domainToMatcher R d = Inr m"
    using t g2(1) by (cases t) (auto simp: domainToMatcher_def AddPattern_def split: option.splits)
  then obtain m where m: "domainToMatcher R d = Inr m" ..
  from 2(1) [OF t g2(1) refl g2(2)] 2(3) obtain ms where
    "addPatterns R (map pattern_of ds) g2 = Some (Some g1)" "\<forall>d \<in> set ds. matcherTypeMap (d_type d) \<noteq> None"
    "map (domainToMatcher R) ds = map Inr ms"
    by auto
  moreover have "pattern_of d = (d_value d, t)" using t by (simp add: pattern_of_def)
  ultimately show ?case using m t g2(1) by (auto intro: exI [of _ "m # ms"])
qed simp

interpretation mph: index_matcher "\<lambda>g. IndexMatcher_Match R (mphGroup g)" "mph_built R" "domain_matches R"
  for R :: "'r regexp"
proof
  fix ds :: "GeoDomain list" and g' :: "'r MphGroup" and s
  assume b: "mph_built R ds g' s"
  then obtain g m srt where g: "addDomains R ds NewMphMatcherGroup = Some (Inr g)" "set m = set (mp_ruleMap g)"
    "length m = length (mp_ruleMap g)" "bySize_ok srt" "mph_Build srt (g\<lparr>mp_ruleMap := m\<rparr>) = Some g'"
    by (auto simp: mph_built_def)
  from b have sd: "sound_domains ds" "may_ask ds s" by (simp_all add: mph_built_def)
  then have "\<forall>d \<in> set ds. d_type d \<noteq> 0" by (simp add: sound_domains_def)
  from addDomains_patterns [OF g(1) this] obtain ms where
    ps: "addPatterns R (map pattern_of ds) NewMphMatcherGroup = Some (Some g)"
    "\<forall>d \<in> set ds. matcherTypeMap (d_type d) \<noteq> None" "map (domainToMatcher R) ds = map Inr ms"
    by auto
  have type: "matcherTypeMap (d_type d) = Some t \<Longrightarrow> d \<in> set ds \<Longrightarrow> t \<noteq> Substr \<and> (t = Regex \<longleftrightarrow> d_type d = 1)" for d t
    using sd(1) by (auto simp: sound_domains_def matcherTypeMap_def split: if_splits)
  have "\<forall>(p, t) \<in> set (map pattern_of ds). t \<noteq> Substr \<and> (t \<noteq> Regex \<longrightarrow> ToLower p = p \<and> \<not> HasPrefix p ''.'')"
    using sd(1) ps(2) type by (fastforce simp: pattern_of_def sound_domains_def)
  moreover have "length (map pattern_of ds) < 2 ^ 31" "s \<noteq> []"
    using sd by (simp_all add: sound_domains_def may_ask_def)
  moreover have "s \<noteq> empty_key \<or> (\<exists>(p, t) \<in> set (map pattern_of ds). t \<noteq> Regex)"
    using sd(2) ps(2) type by (fastforce simp: pattern_of_def may_ask_def)
  moreover have "map (\<lambda>(p, t). MType_New R t p) (map pattern_of ds) = map Some ms"
    using ps(2,3)
  proof (induction ds arbitrary: ms)
    case (Cons d ds)
    then show ?case
      by (cases ms) (auto simp: pattern_of_def domainToMatcher_def split: option.splits)
  qed simp
  ultimately have "\<exists>r. mph_Match R g' s = Some r \<and> (r \<noteq> [] \<longleftrightarrow> mg_Match R (group_of ms) s \<noteq> [])"
    using mph_Match_iff [OF ps(1) g(2-5), of s ms] by blast
  moreover have "(\<exists>d \<in> set ds. domain_matches R d s) \<longleftrightarrow> (\<exists>m \<in> set ms. Matcher_Match R m s)"
    by (rule list_all2_ex [OF ps(3)]) (rule domain_matches_Inr)
  ultimately show "\<exists>r. IndexMatcher_Match R (mphGroup g') s = Some r \<and> (r \<noteq> [] \<longleftrightarrow> (\<exists>p \<in> set ds. domain_matches R p s))"
    using mg_Match_ex [of s R ms] sd(2) unfolding may_ask_def by auto
qed

section \<open>The matcher of a rule\<close>

text \<open>What a GEOSITE rule's payload names: the list, whether it is negated, and the attributes.\<close>

definition site_list :: "string \<Rightarrow> string" where
  "site_list cc = TrimSpace (hd (Split (CHR ''@'') (ToLower (snd (splitNot cc)))))"

definition has_attrs :: "string \<Rightarrow> GeoDomain \<Rightarrow> bool" where
  "has_attrs cc d \<longleftrightarrow> (\<forall>a \<in> set (tl (Split (CHR ''@'') (ToLower (snd (splitNot cc))))).
     ToLower (TrimSpace a) \<noteq> [] \<longrightarrow> (\<exists>k \<in> set (d_attrs d). EqualFold k (ToLower (TrimSpace a))))"

lemma parseAttrs_set: "set (parseAttrs as) = {ToLower (TrimSpace a) | a. a \<in> set as} - {[]}"
  by (induction as) (auto simp: Let_def)

lemma AttributeList_attrs:
  "AttributeList_Match (parseAttrs (tl (Split (CHR ''@'') (ToLower (snd (splitNot cc)))))) d \<longleftrightarrow> has_attrs cc d"
  by (auto simp: AttributeList_Match_def BooleanMatcher_Match_def list_all_iff list_ex_iff parseAttrs_set has_attrs_def)

lemma LoadGeoSiteMatcher_Inr:
  assumes l: "LoadGeoSiteMatcher R ord load cc = Some (Inr (m, n))" and ds: "load (site_list cc) = Inr ds"
  shows "NewMphDomainMatcher R ord (filter (has_attrs cc) ds) (fst (splitNot cc)) = Some (Inr m) \<and>
    n = length (filter (has_attrs cc) ds)"
proof -
  obtain neg c where c: "splitNot cc = (neg, c)" by fastforce
  show ?thesis
  proof (cases "Split (CHR ''@'') (ToLower c)")
    case Nil
    with l c show ?thesis by (simp add: LoadGeoSiteMatcher_def split: if_splits)
  next
    case (Cons part as)
    have "(if length (parseAttrs as) = 0 then ds else filter (AttributeList_Match (parseAttrs as)) ds) =
        filter (AttributeList_Match (parseAttrs as)) ds"
      by (simp add: AttributeList_Match_def)
    also have "\<dots> = filter (has_attrs cc) ds"
      using AttributeList_attrs [of cc] c Cons by (intro filter_cong refl) simp
    finally have f: "(if length (parseAttrs as) = 0 then ds else filter (AttributeList_Match (parseAttrs as)) ds) =
        filter (has_attrs cc) ds" .
    have "load (TrimSpace part) = Inr ds" using ds c Cons by (simp add: site_list_def)
    with l c Cons f have "NewMphDomainMatcher R ord (filter (has_attrs cc) ds) neg \<bind>
        case_sum (\<lambda>e. Some (Inl e)) (\<lambda>m. Some (Inr (m, length (filter (has_attrs cc) ds)))) = Some (Inr (m, n))"
      unfolding LoadGeoSiteMatcher_def Let_def
      by (simp only: prod.case list.case sum.case f) (simp split: if_splits)
    then obtain r where "NewMphDomainMatcher R ord (filter (has_attrs cc) ds) neg = Some r"
      "case_sum (\<lambda>e. Some (Inl e)) (\<lambda>m. Some (Inr (m, length (filter (has_attrs cc) ds)))) r = Some (Inr (m, n))"
      by (auto simp: bind_eq_Some_conv)
    with c show ?thesis by (cases r) simp_all
  qed
qed

text \<open>C20: a GEOSITE matcher that loads answers for a name, in any case of letters, whether one of the
  domains of its list that carry all its attributes matches the name, negated when the payload
  begins with \<^verbatim>\<open>!\<close>; the count returned is that of these domains. This is for lists whose chosen domains are full
  names and domains in lower case without a leading dot and regular expressions, no keywords (\<open>sound_domains\<close>), and for
  names other than the empty one and, when only regular expressions are chosen, \<^verbatim>\<open>empty___\<close> (\<open>may_ask\<close>). The orders the
  perfect hash is built in are arbitrary.\<close>

theorem geosite_matcher_correct:
  assumes l: "LoadGeoSiteMatcher R ord load cc = Some (Inr (m, n))"
    and ord: "orders_ok ord"
    and ds: "load (site_list cc) = Inr ds" "sound_domains (filter (has_attrs cc) ds)"
    and q: "may_ask (filter (has_attrs cc) ds) (ToLower name)"
  shows "ApplyDomain R m name =
       Some ((\<exists>d \<in> set ds. has_attrs cc d \<and> domain_matches R d (ToLower name)) \<noteq> fst (splitNot cc)) \<and>
     n = length (filter (has_attrs cc) ds)"
proof -
  let ?ds = "filter (has_attrs cc) ds"
  from LoadGeoSiteMatcher_Inr [OF l ds(1)]
  have "NewMphDomainMatcher R ord ?ds (fst (splitNot cc)) = Some (Inr m)" "n = length ?ds" by simp_all
  moreover from this(1) obtain r where "addDomains R ?ds NewMphMatcherGroup = Some r" 
    by (auto simp: NewMphDomainMatcher_def bind_eq_Some_conv)
  ultimately obtain g g' where g: "addDomains R ?ds NewMphMatcherGroup = Some (Inr g)"
    "mph_Build (or_bySize ord) (g\<lparr>mp_ruleMap := or_walk ord (mp_ruleMap g)\<rparr>) = Some g'"
    "m = \<lparr>dm_matchers = mphGroup g', dm_not = fst (splitNot cc)\<rparr>" "n = length ?ds"
    by (cases r) (auto simp: NewMphDomainMatcher_def bind_eq_Some_conv)
  then have "mph_built R ?ds g' (ToLower name)"
    using ord ds(2) q by (auto simp: mph_built_def orders_ok_def)
  from mph.ask_ok [OF this] show ?thesis
    by (auto simp: ApplyDomain_def g(3,4))
qed

definition witness_domains :: "GeoDomain list" where
  "witness_domains =
     [\<lparr>d_type = 2, d_value = ''x.y'', d_attrs = [''Ads'']\<rparr>, \<lparr>d_type = 3, d_value = ''t.co'', d_attrs = [''ads'']\<rparr>]"

definition witness_orders :: orders where
  "witness_orders = \<lparr>or_walk = rev, or_bySize = bySize_stable\<rparr>"

lemma witness_orders_ok: "orders_ok witness_orders"
  by (simp add: orders_ok_def witness_orders_def bySize_stable_ok)

lemma geosite_matcher_correct_witness:
  "\<exists>m. LoadGeoSiteMatcher witness_regexp witness_orders (\<lambda>_. Inr witness_domains) ''!CN@ads'' = Some (Inr (m, 2)) \<and>
     ApplyDomain witness_regexp m ''a.X.y'' = Some False"
proof -
  let ?cc = "''!CN@ads''"
  obtain g' where b: "mph_Build bySize_stable (witness_mph\<lparr>mp_ruleMap := rev (mp_ruleMap witness_mph)\<rparr>) = Some g'"
    using witness_mph_built by blast
  have add: "addDomains witness_regexp witness_domains NewMphMatcherGroup = Some (Inr witness_mph)"
    by code_simp
  have parts: "splitNot ?cc = (True, ''CN@ads'')" "Split (CHR ''@'') (ToLower ''CN@ads'') = [''cn'', ''ads'']"
    "TrimSpace ''cn'' = ''cn''" "parseAttrs [''ads''] = [''ads'']"
    "filter (AttributeList_Match [''ads'']) witness_domains = witness_domains" "length witness_domains = 2"
    by code_simp+
  have load: "LoadGeoSiteMatcher witness_regexp witness_orders (\<lambda>_. Inr witness_domains) ?cc =
      Some (Inr (\<lparr>dm_matchers = mphGroup g', dm_not = True\<rparr>, 2))"
  proof -
    have new: "NewMphDomainMatcher witness_regexp witness_orders witness_domains True =
        Some (Inr \<lparr>dm_matchers = mphGroup g', dm_not = True\<rparr>)"
      unfolding NewMphDomainMatcher_def add by (simp add: b witness_orders_def)
    show ?thesis
      unfolding LoadGeoSiteMatcher_def Let_def parts prod.case list.case sum.case
      by (simp add: parts new)
  qed
  have f: "filter (has_attrs ?cc) witness_domains = witness_domains"
    unfolding AttributeList_attrs [symmetric] parts fst_conv snd_conv list.sel by (rule refl)
  have low: "lower_char (CHR ''x'') = CHR ''x''" "lower_char (CHR ''y'') = CHR ''y''" "lower_char (CHR ''.'') = CHR ''.''" "lower_char (CHR ''t'') = CHR ''t''" "lower_char (CHR ''c'') = CHR ''c''" "lower_char (CHR ''o'') = CHR ''o''"
    by code_simp+
  have sd: "sound_domains witness_domains"
    by (simp add: sound_domains_def witness_domains_def low)
  have s: "may_ask witness_domains (ToLower ''a.X.y'')"
    "\<exists>d \<in> set witness_domains. domain_matches witness_regexp d (ToLower ''a.X.y'')"
    by code_simp+
  then have s2: "\<exists>d \<in> set witness_domains. has_attrs ?cc d \<and> domain_matches witness_regexp d (ToLower ''a.X.y'')"
    using f by (metis filter_id_conv)
  have "ApplyDomain witness_regexp \<lparr>dm_matchers = mphGroup g', dm_not = True\<rparr> ''a.X.y'' =
      Some ((\<exists>d \<in> set witness_domains. has_attrs ?cc d \<and>
         domain_matches witness_regexp d (ToLower ''a.X.y'')) \<noteq> fst (splitNot ?cc))"
    by (rule conjunct1, rule geosite_matcher_correct [OF load witness_orders_ok refl]) (simp_all only: f sd s)
  with s2 have "ApplyDomain witness_regexp \<lparr>dm_matchers = mphGroup g', dm_not = True\<rparr> ''a.X.y'' = Some False"
    by (simp only: parts fst_conv) simp
  with load show ?thesis by blast
qed

end
