(* ===== verification/Rules.thy ===== *)
theory Rules imports Metadata GeoSite begin

text \<open>
  \<^verbatim>\<open>rules/common/*.go\<close> and \<^verbatim>\<open>common/utils/range.go\<close>: the rules that look at a connection, their
  constructors and what they match.

  A rule struct is a constructor of \<open>Rule\<close> with the fields of the struct in their order; the rules of
  \<^verbatim>\<open>rules/logic\<close> and \<^verbatim>\<open>rules/provider\<close> are constructors too, their operations are in the next theories.
  What a rule asks of its surroundings is the record \<open>rule_env\<close>: the mode and the loaders of the geo
  databases, the country database, the fake-IP pool's broadcast address and the platform.
\<close>

section \<open>Results\<close>

text \<open>A call returns, panics, or has used up the bound on nested calls it was given.\<close>

datatype 'a run = Ret 'a | Panic | NoFuel

fun run_bind :: "'a run \<Rightarrow> ('a \<Rightarrow> 'b run) \<Rightarrow> 'b run" where
  "run_bind (Ret a) f = f a"
| "run_bind Panic f = Panic"
| "run_bind NoFuel f = NoFuel"

lemma run_bind_Ret: "run_bind r f = Ret b \<longleftrightarrow> (\<exists>a. r = Ret a \<and> f a = Ret b)"
  by (cases r) auto

fun run_of :: "'a option \<Rightarrow> 'a run" where
  "run_of None = Panic"
| "run_of (Some a) = Ret a"

datatype rule_error = ErrPayload | TooManyPorts | UnsupportedNetwork | UnsupportedPlatform | UnknownInType string
  | GeoInit | GeoErr geo_error | UnsupportedRule string | RuleSetNotFound string | LogicFormat string
  | MissingOpen | MissingClose | PayloadFormat | NotOneRule | RuleSetUnsupported

section \<open>Rules\<close>

datatype 'r Rule =
    DomainR string string
  | DomainSuffixR string string
  | DomainKeywordR string string
  | GeoSiteR string string "'r DomainMatcher" nat
  | GeoIPR string string bool "GeoIPMatcher option" nat
  | IPCIDRR Prefix string bool bool
  | IPSuffixR net_IP int string string bool bool
  | PortR string string RuleType "(16 word \<times> 16 word) list"
  | ProcessR string string bool
  | NetworkR NetWork string
  | UidR "(32 word \<times> 32 word) list" string string
  | InTypeR "Type list" string string
  | InUserR "string list" string string
  | InNameR "string list" string string
  | MatchR string
  | LogicR string string RuleType "'r Rule list" bool bool
  | RuleSetR string string nat bool bool

record 'r rule_env =
  e_GeodataMode :: bool
  e_InitGeoIP :: bool
  e_InitGeoSite :: bool
  e_ipLoader :: ip_loader
  e_siteLoader :: site_loader
  e_walk :: orders
  e_regexp :: "'r regexp"
  e_Country :: "net_IP \<Rightarrow> string"
  e_IsFakeBroadcastIP :: "Addr \<Rightarrow> bool"
  e_GOOS :: string
  e_net :: net_text

section \<open>common/utils/range.go\<close>

definition NewRange :: "'a::linorder \<Rightarrow> 'a \<Rightarrow> 'a \<times> 'a" where
  "NewRange start end' = (if start > end' then (end', start) else (start, end'))"

definition Range_Contains :: "'a::linorder \<times> 'a \<Rightarrow> 'a \<Rightarrow> bool" where
  "Range_Contains r t \<longleftrightarrow> t \<ge> fst r \<and> t \<le> snd r"

definition LeftContains :: "'a::linorder \<times> 'a \<Rightarrow> 'a \<Rightarrow> bool" where
  "LeftContains r t \<longleftrightarrow> t \<ge> fst r \<and> t < snd r"

definition RightContains :: "'a::linorder \<times> 'a \<Rightarrow> 'a \<Rightarrow> bool" where
  "RightContains r t \<longleftrightarrow> t > fst r \<and> t \<le> snd r"

section \<open>Names\<close>

definition Domain_Match :: "string \<Rightarrow> string \<Rightarrow> Metadata \<Rightarrow> bool \<times> string" where
  "Domain_Match domain adapter m = (RuleHost m = domain, adapter)"

definition NewDomain :: "string \<Rightarrow> string \<Rightarrow> 'r Rule" where
  "NewDomain domain adapter = DomainR (ToLower domain) adapter"

definition DomainSuffix_Match :: "string \<Rightarrow> string \<Rightarrow> Metadata \<Rightarrow> bool \<times> string" where
  "DomainSuffix_Match suf adapter m =
     (let domain = RuleHost m in (HasSuffix domain (CHR ''.'' # suf) \<or> domain = suf, adapter))"

definition NewDomainSuffix :: "string \<Rightarrow> string \<Rightarrow> 'r Rule" where
  "NewDomainSuffix suf adapter = DomainSuffixR (ToLower suf) adapter"

definition DomainKeyword_Match :: "string \<Rightarrow> string \<Rightarrow> Metadata \<Rightarrow> bool \<times> string" where
  "DomainKeyword_Match keyword adapter m = (Contains (RuleHost m) keyword, adapter)"

definition NewDomainKeyword :: "string \<Rightarrow> string \<Rightarrow> 'r Rule" where
  "NewDomainKeyword keyword adapter = DomainKeywordR (ToLower keyword) adapter"

definition GEOSITE_Match :: "'r rule_env \<Rightarrow> string \<Rightarrow> 'r DomainMatcher \<Rightarrow> Metadata \<Rightarrow> (bool \<times> string) run" where
  "GEOSITE_Match E adapter matcher m =
     (let domain = RuleHost m
      in if length domain = 0 then Ret (False, [])
         else run_of (map_option (\<lambda>b. (b, adapter)) (ApplyDomain (e_regexp E) matcher domain)))"

definition NewGEOSITE :: "'r rule_env \<Rightarrow> string \<Rightarrow> string \<Rightarrow> (rule_error + 'r Rule) run" where
  "NewGEOSITE E country adapter =
     (if \<not> e_InitGeoSite E then Ret (Inl GeoInit)
      else run_bind (run_of (LoadGeoSiteMatcher (e_regexp E) (e_walk E) (e_siteLoader E) country))
        (\<lambda>r. case r of
           Inl e \<Rightarrow> Ret (Inl (GeoErr e))
         | Inr (matcher, n) \<Rightarrow> Ret (Inr (GeoSiteR country adapter matcher n))))"

section \<open>Addresses\<close>

text \<open>The predicates of \<^verbatim>\<open>netip.Addr\<close>.\<close>

fun IsPrivate :: "Addr \<Rightarrow> bool" where
  "IsPrivate (V4 w) \<longleftrightarrow> drop_bit 24 w = 10 \<or> drop_bit 20 w = 0xAC1 \<or> drop_bit 16 w = 0xC0A8"
| "IsPrivate (V6 w) \<longleftrightarrow> drop_bit 121 w = 0x7E"
| "IsPrivate AddrZero = False"

fun IsUnspecified :: "Addr \<Rightarrow> bool" where
  "IsUnspecified (V4 w) \<longleftrightarrow> w = 0"
| "IsUnspecified (V6 w) \<longleftrightarrow> w = 0"
| "IsUnspecified AddrZero = False"

fun IsLoopback :: "Addr \<Rightarrow> bool" where
  "IsLoopback (V4 w) \<longleftrightarrow> drop_bit 24 w = 127"
| "IsLoopback (V6 w) \<longleftrightarrow> w = 1"
| "IsLoopback AddrZero = False"

fun IsMulticast :: "Addr \<Rightarrow> bool" where
  "IsMulticast (V4 w) \<longleftrightarrow> drop_bit 28 w = 0xE"
| "IsMulticast (V6 w) \<longleftrightarrow> drop_bit 120 w = 0xFF"
| "IsMulticast AddrZero = False"

fun IsLinkLocalUnicast :: "Addr \<Rightarrow> bool" where
  "IsLinkLocalUnicast (V4 w) \<longleftrightarrow> drop_bit 16 w = 0xA9FE"
| "IsLinkLocalUnicast (V6 w) \<longleftrightarrow> drop_bit 118 w = 0x3FA"
| "IsLinkLocalUnicast AddrZero = False"

definition GEOIP_Match ::
    "'r rule_env \<Rightarrow> string \<Rightarrow> string \<Rightarrow> GeoIPMatcher option \<Rightarrow> Metadata \<Rightarrow> (bool \<times> string) run" where
  "GEOIP_Match E country adapter matcher m =
     (let ip = m_DstIP m
      in if \<not> addr_IsValid ip then Ret (False, [])
         else if EqualFold country ''LAN'' then
           Ret (IsPrivate ip \<or> IsUnspecified ip \<or> IsLoopback ip \<or> IsMulticast ip \<or> IsLinkLocalUnicast ip \<or>
                e_IsFakeBroadcastIP E ip, adapter)
         else if \<not> e_GeodataMode E then Ret (EqualFold (e_Country E (AsSlice ip)) country, adapter)
         else (case matcher of
                 None \<Rightarrow> Panic
               | Some g \<Rightarrow> run_of (map_option (\<lambda>b. (b, adapter)) (GeoIP_Match g (AsSlice ip)))))"

text \<open>The matcher is built from the records of the loader; a matcher found in the container was built
  from the same records (\<open>container_same\<close> below), so the container is not passed on here.\<close>

definition NewGEOIP :: "'r rule_env \<Rightarrow> string \<Rightarrow> string \<Rightarrow> bool \<Rightarrow> (rule_error + 'r Rule) run" where
  "NewGEOIP E country adapter noResolveIP =
     (if \<not> e_InitGeoIP E then Ret (Inl GeoInit)
      else if \<not> e_GeodataMode E \<or> EqualFold country ''LAN''
      then Ret (Inr (GeoIPR country adapter noResolveIP None 0))
      else run_bind (run_of (LoadGeoIPMatcher (e_ipLoader E) country []))
        (\<lambda>r. case r of
           Inl e \<Rightarrow> Ret (Inl (GeoErr e))
         | Inr ((c, g), n) \<Rightarrow> Ret (Inr (GeoIPR country adapter noResolveIP (Some g) n))))"

definition IPCIDR_Match :: "Prefix \<Rightarrow> string \<Rightarrow> bool \<Rightarrow> Metadata \<Rightarrow> bool \<times> string" where
  "IPCIDR_Match ipnet adapter isSourceIP m =
     (let ip = (if isSourceIP then m_SrcIP m else m_DstIP m)
      in (addr_IsValid ip \<and> pfx_Contains ipnet ip, adapter))"

definition NewIPCIDR :: "'r rule_env \<Rightarrow> string \<Rightarrow> string \<Rightarrow> bool \<Rightarrow> bool \<Rightarrow> rule_error + 'r Rule" where
  "NewIPCIDR E s adapter isSourceIP noResolveIP =
     (case ParsePrefix (e_net E) s of
        None \<Rightarrow> Inl ErrPayload
      | Some ipnet \<Rightarrow> Inr (IPCIDRR ipnet adapter isSourceIP noResolveIP))"

text \<open>The loop compares the last \<open>bits / 8\<close> bytes, from \<open>i = bits / 8\<close> down to 1; then the byte
  before them. An index below 0 panics.\<close>

fun suffixLoop :: "net_IP \<Rightarrow> net_IP \<Rightarrow> nat \<Rightarrow> bool run" where
  "suffixLoop ip mip 0 = Ret True"
| "suffixLoop ip mip (Suc i) =
     (if length mip < Suc i then Panic
      else if ip ! (length mip - Suc i) \<noteq> mip ! (length mip - Suc i) then Ret False
      else suffixLoop ip mip i)"

definition shl8 :: "8 word \<Rightarrow> nat \<Rightarrow> 8 word" where "shl8 b n = push_bit n b"

definition IPSuffix_Match :: "net_IP \<Rightarrow> int \<Rightarrow> string \<Rightarrow> bool \<Rightarrow> Metadata \<Rightarrow> (bool \<times> string) run" where
  "IPSuffix_Match ipBytes bits adapter isSourceIP m =
     (let mIPBytes = AsSlice (if isSourceIP then m_SrcIP m else m_DstIP m);
          size' = length mIPBytes;
          b = nat bits
      in if length ipBytes \<noteq> size' then Ret (False, [])
         else run_bind (suffixLoop ipBytes mIPBytes (b div 8))
           (\<lambda>eq. if \<not> eq then Ret (False, [])
                 else if size' < b div 8 + 1 then Panic
                 else if shl8 (ipBytes ! (size' - b div 8 - 1)) (8 - b mod 8) \<noteq>
                         shl8 (mIPBytes ! (size' - b div 8 - 1)) (8 - b mod 8)
                 then Ret (False, []) else Ret (True, adapter)))"

definition NewIPSuffix :: "'r rule_env \<Rightarrow> string \<Rightarrow> string \<Rightarrow> bool \<Rightarrow> bool \<Rightarrow> rule_error + 'r Rule" where
  "NewIPSuffix E payload adapter isSrc noResolveIP =
     (case ParsePrefix (e_net E) payload of
        None \<Rightarrow> Inl ErrPayload
      | Some ipnet \<Rightarrow> Inr (IPSuffixR (AsSlice (pfx_Addr ipnet)) (pfx_Bits ipnet) payload adapter isSrc noResolveIP))"

section \<open>Ports and users\<close>

fun parseRanges :: "string list \<Rightarrow> rule_error + ('w::len word \<times> 'w word) list" where
  "parseRanges [] = Inr []"
| "parseRanges (p # ps) =
     (if p = [] then parseRanges ps
      else let sub = Split (CHR ''-'') p
           in if length sub > 2 then Inl ErrPayload
              else case ParseUint LENGTH('w) (Trim ''[ ]'' (sub ! 0)) of
                None \<Rightarrow> Inl ErrPayload
              | Some start \<Rightarrow>
                  (case (if length sub = 1 then Some start else ParseUint LENGTH('w) (Trim ''[ ]'' (sub ! 1))) of
                     None \<Rightarrow> Inl ErrPayload
                   | Some end' \<Rightarrow>
                       (case parseRanges ps of
                          Inl e \<Rightarrow> Inl e
                        | Inr rs \<Rightarrow> Inr (NewRange (of_nat start) (of_nat end') # rs))))"

definition NewPort :: "string \<Rightarrow> string \<Rightarrow> RuleType \<Rightarrow> rule_error + 'r Rule" where
  "NewPort port adapter ruleType =
     (let ports = Split (CHR ''/'') port
      in if length ports > 28 then Inl TooManyPorts
         else case parseRanges ports of
           Inl e \<Rightarrow> Inl e
         | Inr portRange \<Rightarrow>
             if length portRange = 0 then Inl ErrPayload else Inr (PortR adapter port ruleType portRange))"

definition matchPortReal :: "(16 word \<times> 16 word) list \<Rightarrow> string \<Rightarrow> bool" where
  "matchPortReal portList portRef =
     (let port = Atoi_val portRef in list_ex (\<lambda>pr. Range_Contains pr (word_of_int port)) portList)"

definition Port_Match :: "string \<Rightarrow> RuleType \<Rightarrow> (16 word \<times> 16 word) list \<Rightarrow> Metadata \<Rightarrow> bool \<times> string" where
  "Port_Match adapter ruleType portList m =
     (let targetPort = (case ruleType of RT_InPort \<Rightarrow> m_InPort m | RT_SrcPort \<Rightarrow> m_SrcPort m | _ \<Rightarrow> m_DstPort m)
      in (matchPortReal portList targetPort, adapter))"

definition NewUid :: "'r rule_env \<Rightarrow> string \<Rightarrow> string \<Rightarrow> rule_error + 'r Rule" where
  "NewUid E oUid adapter =
     (if \<not> (e_GOOS E = ''linux'' \<or> e_GOOS E = ''android'') then Inl UnsupportedPlatform
      else case parseRanges (Split (CHR ''/'') oUid) of
        Inl e \<Rightarrow> Inl e
      | Inr uidRange \<Rightarrow> if length uidRange = 0 then Inl ErrPayload else Inr (UidR uidRange oUid adapter))"

definition Uid_Match :: "(32 word \<times> 32 word) list \<Rightarrow> string \<Rightarrow> Metadata \<Rightarrow> bool \<times> string" where
  "Uid_Match uids adapter m =
     (if m_Uid m \<noteq> 0 \<and> list_ex (\<lambda>uid. Range_Contains uid (m_Uid m)) uids then (True, adapter) else (False, []))"

section \<open>Processes, networks and inbounds\<close>

definition Process_Match :: "string \<Rightarrow> string \<Rightarrow> bool \<Rightarrow> Metadata \<Rightarrow> bool \<times> string" where
  "Process_Match adapter process nameOnly m =
     (if nameOnly then (EqualFold (m_Process m) process, adapter)
      else (EqualFold (m_ProcessPath m) process, adapter))"

definition NewProcess :: "string \<Rightarrow> string \<Rightarrow> bool \<Rightarrow> 'r Rule" where
  "NewProcess process adapter nameOnly = ProcessR adapter process nameOnly"

definition NewNetworkType :: "string \<Rightarrow> string \<Rightarrow> rule_error + 'r Rule" where
  "NewNetworkType network adapter =
     (if ToUpper network = ''TCP'' then Inr (NetworkR TCP adapter)
      else if ToUpper network = ''UDP'' then Inr (NetworkR UDP adapter)
      else Inl UnsupportedNetwork)"

definition NetworkType_Match :: "NetWork \<Rightarrow> string \<Rightarrow> Metadata \<Rightarrow> bool \<times> string" where
  "NetworkType_Match network adapter m = (network = m_NetWork m, adapter)"

fun parseInTypes :: "string list \<Rightarrow> rule_error + Type list" where
  "parseInTypes [] = Inr []"
| "parseInTypes (tp # tps) =
     (let utp = ToUpper tp
      in if utp = ''SOCKS'' then
           (case parseInTypes tps of Inl e \<Rightarrow> Inl e | Inr res \<Rightarrow> Inr (SOCKS4 # SOCKS5 # res))
         else case ParseType utp of
           None \<Rightarrow> Inl (UnknownInType utp)
         | Some r \<Rightarrow> (case parseInTypes tps of Inl e \<Rightarrow> Inl e | Inr res \<Rightarrow> Inr (r # res)))"

definition InType_Match :: "Type list \<Rightarrow> string \<Rightarrow> Metadata \<Rightarrow> bool \<times> string" where
  "InType_Match types adapter m = (if list_ex (\<lambda>tp. m_Type m = tp) types then (True, adapter) else (False, []))"

definition NewInType :: "string \<Rightarrow> string \<Rightarrow> rule_error + 'r Rule" where
  "NewInType iTypes adapter =
     (case parseInTypes (Split (CHR ''/'') iTypes) of
        Inl e \<Rightarrow> Inl e
      | Inr tps \<Rightarrow> Inr (InTypeR tps adapter (ToUpper iTypes)))"

definition InUser_Match :: "string list \<Rightarrow> string \<Rightarrow> Metadata \<Rightarrow> bool \<times> string" where
  "InUser_Match users adapter m = (if list_ex (\<lambda>u. m_InUser m = u) users then (True, adapter) else (False, []))"

definition NewInUser :: "string \<Rightarrow> string \<Rightarrow> 'r Rule" where
  "NewInUser iUsers adapter = InUserR (Split (CHR ''/'') iUsers) adapter iUsers"

definition InName_Match :: "string list \<Rightarrow> string \<Rightarrow> Metadata \<Rightarrow> bool \<times> string" where
  "InName_Match names adapter m = (if list_ex (\<lambda>n. m_InName m = n) names then (True, adapter) else (False, []))"

definition NewInName :: "string \<Rightarrow> string \<Rightarrow> 'r Rule" where
  "NewInName iNames adapter = InNameR (Split (CHR ''/'') iNames) adapter iNames"

definition HasNoResolve :: "string list \<Rightarrow> bool" where
  "HasNoResolve params = list_ex (\<lambda>p. p = ''no-resolve'') params"

section \<open>The methods of a rule\<close>

fun RuleType_of :: "'r Rule \<Rightarrow> RuleType" where
  "RuleType_of (DomainR _ _) = RT_Domain"
| "RuleType_of (DomainSuffixR _ _) = RT_DomainSuffix"
| "RuleType_of (DomainKeywordR _ _) = RT_DomainKeyword"
| "RuleType_of (GeoSiteR _ _ _ _) = RT_GEOSITE"
| "RuleType_of (GeoIPR _ _ _ _ _) = RT_GEOIP"
| "RuleType_of (IPCIDRR _ _ isSourceIP _) = (if isSourceIP then RT_SrcIPCIDR else RT_IPCIDR)"
| "RuleType_of (IPSuffixR _ _ _ _ isSourceIP _) = (if isSourceIP then RT_SrcIPSuffix else RT_IPSuffix)"
| "RuleType_of (PortR _ _ ruleType _) = ruleType"
| "RuleType_of (ProcessR _ _ nameOnly) = (if nameOnly then RT_Process else RT_ProcessPath)"
| "RuleType_of (NetworkR _ _) = RT_Network"
| "RuleType_of (UidR _ _ _) = RT_Uid"
| "RuleType_of (InTypeR _ _ _) = RT_InType"
| "RuleType_of (InUserR _ _ _) = RT_InUser"
| "RuleType_of (InNameR _ _ _) = RT_InName"
| "RuleType_of (MatchR _) = RT_MATCH"
| "RuleType_of (LogicR _ _ ruleType _ _ _) = ruleType"
| "RuleType_of (RuleSetR _ _ _ _ _) = RT_RuleSet"

fun Adapter :: "'r Rule \<Rightarrow> string" where
  "Adapter (DomainR _ a) = a"
| "Adapter (DomainSuffixR _ a) = a"
| "Adapter (DomainKeywordR _ a) = a"
| "Adapter (GeoSiteR _ a _ _) = a"
| "Adapter (GeoIPR _ a _ _ _) = a"
| "Adapter (IPCIDRR _ a _ _) = a"
| "Adapter (IPSuffixR _ _ _ a _ _) = a"
| "Adapter (PortR a _ _ _) = a"
| "Adapter (ProcessR a _ _) = a"
| "Adapter (NetworkR _ a) = a"
| "Adapter (UidR _ _ a) = a"
| "Adapter (InTypeR _ a _) = a"
| "Adapter (InUserR _ a _) = a"
| "Adapter (InNameR _ a _) = a"
| "Adapter (MatchR a) = a"
| "Adapter (LogicR _ a _ _ _ _) = a"
| "Adapter (RuleSetR _ a _ _ _) = a"

text \<open>The rules that depend on nothing but the connection and the surroundings.\<close>

fun leaf_Match :: "'r rule_env \<Rightarrow> 'r Rule \<Rightarrow> Metadata \<Rightarrow> (bool \<times> string) run" where
  "leaf_Match E (DomainR d a) m = Ret (Domain_Match d a m)"
| "leaf_Match E (DomainSuffixR d a) m = Ret (DomainSuffix_Match d a m)"
| "leaf_Match E (DomainKeywordR d a) m = Ret (DomainKeyword_Match d a m)"
| "leaf_Match E (GeoSiteR _ a g _) m = GEOSITE_Match E a g m"
| "leaf_Match E (GeoIPR c a _ g _) m = GEOIP_Match E c a g m"
| "leaf_Match E (IPCIDRR n a s _) m = Ret (IPCIDR_Match n a s m)"
| "leaf_Match E (IPSuffixR ip b _ a s _) m = IPSuffix_Match ip b a s m"
| "leaf_Match E (PortR a _ rt l) m = Ret (Port_Match a rt l m)"
| "leaf_Match E (ProcessR a p n) m = Ret (Process_Match a p n m)"
| "leaf_Match E (NetworkR n a) m = Ret (NetworkType_Match n a m)"
| "leaf_Match E (UidR us _ a) m = Ret (Uid_Match us a m)"
| "leaf_Match E (InTypeR ts a _) m = Ret (InType_Match ts a m)"
| "leaf_Match E (InUserR us a _) m = Ret (InUser_Match us a m)"
| "leaf_Match E (InNameR ns a _) m = Ret (InName_Match ns a m)"
| "leaf_Match E (MatchR a) m = Ret (True, a)"
| "leaf_Match E _ m = Ret (False, [])"

section \<open>Ports\<close>

lemma Atoi_decimal:
  assumes "n < 2 ^ 63"
  shows "Atoi_val (decimal n) = int n"
proof -
  obtain c s where s: "decimal n = c # s" "is_digit c" "list_all is_digit (c # s)" "digits_val (c # s) = n"
    using decimal_digits [of n] by (cases "decimal n") auto
  have "c \<noteq> CHR ''-''" "c \<noteq> CHR ''+''" using s(2) by (auto simp: is_digit_def)
  moreover have "clamp64 (int n) = int n" using assms by (simp add: clamp64_def)
  ultimately show ?thesis using s by (simp add: Atoi_val_def)
qed

text \<open>The two ends of a part of a port (or user) list; \<open>None\<close> when it is not a number or a range.\<close>

definition part_bounds :: "nat \<Rightarrow> string \<Rightarrow> (nat \<times> nat) option" where
  "part_bounds bits p =
     (case Split (CHR ''-'') p of
        [a] \<Rightarrow> map_option (\<lambda>n. (n, n)) (ParseUint bits (Trim ''[ ]'' a))
      | [a, b] \<Rightarrow> do { x \<leftarrow> ParseUint bits (Trim ''[ ]'' a); y \<leftarrow> ParseUint bits (Trim ''[ ]'' b); Some (x, y) }
      | _ \<Rightarrow> None)"

definition parts_of :: "string \<Rightarrow> string list" where
  "parts_of s = filter (\<lambda>p. p \<noteq> []) (Split (CHR ''/'') s)"

lemma Split_ne [simp]: "Split c s \<noteq> []"
  by (cases s) (auto split: list.splits)

definition word_range :: "nat \<times> nat \<Rightarrow> 'w::len word \<times> 'w word" where
  "word_range ab = NewRange (of_nat (fst ab)) (of_nat (snd ab))"

lemma parseRanges_step:
  "p \<noteq> [] \<Longrightarrow> parseRanges (p # ps) =
     (case part_bounds LENGTH('w) p of
        None \<Rightarrow> Inl ErrPayload
      | Some ab \<Rightarrow>
          (case parseRanges ps of Inl e \<Rightarrow> Inl e | Inr rs \<Rightarrow> Inr ((word_range ab :: 'w::len word \<times> 'w word) # rs)))"
  by (cases "Split (CHR ''-'') p" rule: list.exhaust [case_product list.exhaust])
    (auto simp: part_bounds_def word_range_def bind_eq_None_conv split: list.split option.split sum.split)

lemma parseRanges_eq:
  "(parseRanges ps :: rule_error + ('w::len word \<times> 'w word) list) =
     (if \<exists>p \<in> set ps. p \<noteq> [] \<and> part_bounds LENGTH('w) p = None then Inl ErrPayload
      else Inr (map (\<lambda>p. word_range (the (part_bounds LENGTH('w) p))) (filter (\<lambda>p. p \<noteq> []) ps)))"
proof (induction ps)
  case (Cons p ps)
  show ?case
  proof (cases "p = []")
    case False
    then show ?thesis unfolding parseRanges_step [OF False] Cons by (auto split: option.split)
  qed (auto simp: Cons)
qed simp

lemma NewPort_eq:
  "(NewPort port adapter ruleType :: rule_error + 'r Rule) =
     (if length (Split (CHR ''/'') port) > 28 then Inl TooManyPorts
      else if parts_of port = [] \<or> (\<exists>p \<in> set (parts_of port). part_bounds 16 p = None) then Inl ErrPayload
      else Inr (PortR adapter port ruleType (map (\<lambda>p. word_range (the (part_bounds 16 p))) (parts_of port))))"
  unfolding NewPort_def Let_def parseRanges_eq by (auto simp: parts_of_def)

text \<open>A list of ports is refused exactly when it has more than 28 parts, or a part that is not empty
  and neither a number below 65536 nor a range of two, or only empty parts.\<close>

theorem port_rule_errors:
  "(NewPort port adapter ruleType :: rule_error + 'r Rule) =
     (if length (Split (CHR ''/'') port) > 28 then Inl TooManyPorts
      else if parts_of port = [] \<or> (\<exists>p \<in> set (parts_of port). part_bounds 16 p = None) then Inl ErrPayload
      else Inr (PortR adapter port ruleType (map (\<lambda>p. word_range (the (part_bounds 16 p))) (parts_of port))))"
  by (rule NewPort_eq)

lemma part_bounds_less:
  "part_bounds bits p = Some (a, b) \<Longrightarrow> a < 2 ^ bits \<and> b < 2 ^ bits"
  by (auto simp: part_bounds_def ParseUint_def bind_eq_Some_conv split: list.splits if_splits)

lemma range_contains_nat:
  assumes "a < 2 ^ LENGTH('w)" "b < 2 ^ LENGTH('w)" "n < 2 ^ LENGTH('w)"
  shows "Range_Contains (word_range (a, b) :: 'w::len word \<times> 'w word) (of_nat n) \<longleftrightarrow> min a b \<le> n \<and> n \<le> max a b"
proof -
  have le: "(of_nat x :: 'w word) \<le> of_nat y \<longleftrightarrow> x \<le> y" if "x < 2 ^ LENGTH('w)" "y < 2 ^ LENGTH('w)" for x y
    using that by (simp add: word_le_nat_alt unat_of_nat)
  then have less: "(of_nat x :: 'w word) < of_nat y \<longleftrightarrow> x < y" if "x < 2 ^ LENGTH('w)" "y < 2 ^ LENGTH('w)" for x y
    using that by (metis linorder_not_le)
  show ?thesis
    using assms by (auto simp: word_range_def NewRange_def Range_Contains_def less le)
qed

definition rule_port :: "RuleType \<Rightarrow> Metadata \<Rightarrow> string" where
  "rule_port ruleType m = (if ruleType = RT_InPort then m_InPort m else if ruleType = RT_SrcPort then m_SrcPort m else m_DstPort m)"

lemma Port_Match_eq: "Port_Match adapter ruleType l m = (matchPortReal l (rule_port ruleType m), adapter)"
  by (cases ruleType) (simp_all add: Port_Match_def rule_port_def)

text \<open>C6: a port rule that is accepted matches a connection exactly when the port it looks at lies, ends
  included, in one of the ranges written in the rule, in whichever order the two ends are given.\<close>

theorem port_rule_matches:
  assumes r: "NewPort port adapter ruleType = Inr r" and n: "n < 65536" "rule_port ruleType m = decimal n"
  shows "leaf_Match E r m =
    Ret (\<exists>p \<in> set (parts_of port). \<exists>a b. part_bounds 16 p = Some (a, b) \<and> min a b \<le> n \<and> n \<le> max a b, adapter)"
proof -
  let ?f = "\<lambda>p. word_range (the (part_bounds 16 p)) :: 16 word \<times> 16 word"
  from r have b: "\<forall>p \<in> set (parts_of port). part_bounds 16 p \<noteq> None"
    and req: "r = PortR adapter port ruleType (map ?f (parts_of port))"
    by (auto simp: NewPort_eq split: if_splits)
  have "Range_Contains (?f p) (word_of_int (Atoi_val (decimal n))) \<longleftrightarrow>
      (\<exists>a b. part_bounds 16 p = Some (a, b) \<and> min a b \<le> n \<and> n \<le> max a b)" if "p \<in> set (parts_of port)" for p
  proof -
    from b that obtain x y where xy: "part_bounds 16 p = Some (x, y)" by fastforce
    with part_bounds_less [OF xy] n range_contains_nat [of x y n, where 'w = 16] show ?thesis
      by (simp add: Atoi_decimal)
  qed
  then have "list_ex (\<lambda>pr. Range_Contains pr (word_of_int (Atoi_val (decimal n)))) (map ?f (parts_of port)) \<longleftrightarrow>
      (\<exists>p \<in> set (parts_of port). \<exists>a b. part_bounds 16 p = Some (a, b) \<and> min a b \<le> n \<and> n \<le> max a b)"
    by (simp add: list_ex_iff)
  with n(2) show ?thesis
    by (simp add: req Port_Match_eq matchPortReal_def)
qed

section \<open>Address suffixes\<close>

lemma nth_bytes_of: "i < n \<Longrightarrow> bytes_of n w ! i = ucast (drop_bit (8 * (n - 1 - i)) w)"
  by (simp add: bytes_of_def)

lemma byte_eq_iff:
  fixes w v :: "'a::len word"
  shows "(ucast (drop_bit k w) :: 8 word) = ucast (drop_bit k v) \<longleftrightarrow> (\<forall>j < 8. bit w (k + j) = bit v (k + j))"
  by (auto simp: bit_eq_iff bit_simps)

lemma take_bit_word_eq_iff:
  fixes w v :: "'a::len word"
  shows "take_bit n w = take_bit n v \<longleftrightarrow> (\<forall>j < n. bit w j = bit v j)"
  by (auto simp: bit_eq_iff bit_simps dest: bit_imp_le_length)

lemma all_less_add: "(\<forall>j < m + r. P j) \<longleftrightarrow> (\<forall>j < m. P j) \<and> (\<forall>j < r. P (m + j))" for m r :: nat
proof -
  have "j < m + r \<longleftrightarrow> j < m \<or> (\<exists>k < r. j = m + k)" for j
    by (cases "j < m") (auto intro: exI [of _ "j - m"])
  then show ?thesis by blast
qed

lemma suffixLoop_bytes:
  fixes w v :: "'a::len word"
  shows "i \<le> n \<Longrightarrow> suffixLoop (bytes_of n w) (bytes_of n v) i = Ret (take_bit (8 * i) w = take_bit (8 * i) v)"
proof (induction i)
  case (Suc i)
  have "n - 1 - (n - Suc i) = i" using Suc.prems by simp
  then have b: "bytes_of n u ! (n - Suc i) = ucast (drop_bit (8 * i) u)" for u :: "'a word"
    using Suc.prems by (simp add: nth_bytes_of)
  have "(\<forall>j < 8 * Suc i. P j) \<longleftrightarrow> (\<forall>j < 8. P (8 * i + j)) \<and> (\<forall>j < 8 * i. P j)" for P :: "nat \<Rightarrow> bool"
    using all_less_add [of "8 * i" 8 P] by (auto simp: add.commute)
  then have "take_bit (8 * Suc i) w = take_bit (8 * Suc i) v \<longleftrightarrow>
      (ucast (drop_bit (8 * i) w) :: 8 word) = ucast (drop_bit (8 * i) v) \<and> take_bit (8 * i) w = take_bit (8 * i) v"
    unfolding take_bit_word_eq_iff byte_eq_iff .
  with Suc b show ?case by simp
qed simp

lemma last_byte_eq_iff:
  fixes w v :: "'a::len word"
  assumes "r < 8"
  shows "shl8 (ucast (drop_bit k w)) (8 - r) = shl8 (ucast (drop_bit k v)) (8 - r) \<longleftrightarrow>
    (\<forall>j < r. bit w (k + j) = bit v (k + j))"
proof -
  have "(\<forall>m < 8. 8 - r \<le> m \<longrightarrow> bit w (k + (m - (8 - r))) = bit v (k + (m - (8 - r)))) \<longleftrightarrow>
      (\<forall>j < r. bit w (k + j) = bit v (k + j))"
  proof (rule iffI; intro allI impI)
    fix j
    assume a: "\<forall>m < 8. 8 - r \<le> m \<longrightarrow> bit w (k + (m - (8 - r))) = bit v (k + (m - (8 - r)))" and j: "j < r"
    have "bit w (k + (j + (8 - r) - (8 - r))) = bit v (k + (j + (8 - r) - (8 - r)))"
      using a j assms by (intro a [rule_format]) auto
    then show "bit w (k + j) = bit v (k + j)" by simp
  next
    fix m
    assume "\<forall>j < r. bit w (k + j) = bit v (k + j)" "m < 8" "8 - r \<le> m"
    moreover from this(2,3) have "m - (8 - r) < r" using assms by simp
    ultimately show "bit w (k + (m - (8 - r))) = bit v (k + (m - (8 - r)))" by blast
  qed
  then show ?thesis by (auto simp: shl8_def bit_eq_iff bit_simps)
qed

lemma suffix_bytes:
  fixes w v :: "'a::len word"
  assumes "b \<le> 8 * n"
  shows "run_bind (suffixLoop (bytes_of n w) (bytes_of n v) (b div 8))
      (\<lambda>eq. if \<not> eq then Ret (False, [])
            else if n < b div 8 + 1 then Panic
            else if shl8 (bytes_of n w ! (n - b div 8 - 1)) (8 - b mod 8) \<noteq>
                    shl8 (bytes_of n v ! (n - b div 8 - 1)) (8 - b mod 8)
            then Ret (False, []) else Ret (True, a)) =
    (if take_bit b w \<noteq> take_bit b v then Ret (False, []) else if b = 8 * n then Panic else Ret (True, a))"
proof -
  let ?q = "b div 8" and ?r = "b mod 8"
  have q: "?q \<le> n" "b = 8 * ?q + ?r" "?r < 8" using assms by (auto simp: div_le_mono)
  show ?thesis
  proof (cases "b = 8 * n")
    case True
    then show ?thesis using suffixLoop_bytes [of n n w v] by simp
  next
    case False
    then have lt: "?q < n" using assms q by auto
    have n1: "n - 1 - (n - ?q - 1) = ?q" using lt by simp
    have byte: "bytes_of n u ! (n - ?q - 1) = ucast (drop_bit (8 * ?q) u)" for u :: "'a word"
      using lt by (subst nth_bytes_of) (simp_all add: n1)
    have "(\<forall>j < b. P j) \<longleftrightarrow> (\<forall>j < 8 * ?q. P j) \<and> (\<forall>j < ?r. P (8 * ?q + j))" for P :: "nat \<Rightarrow> bool"
      using all_less_add [of "8 * ?q" ?r P] q(2) by simp
    then have "take_bit b w = take_bit b v \<longleftrightarrow> take_bit (8 * ?q) w = take_bit (8 * ?q) v \<and>
        shl8 (ucast (drop_bit (8 * ?q) w)) (8 - ?r) = shl8 (ucast (drop_bit (8 * ?q) v)) (8 - ?r)"
      unfolding take_bit_word_eq_iff last_byte_eq_iff [OF q(3)] .
    then show ?thesis
      using suffixLoop_bytes [OF q(1), of w v] lt False by (simp only: byte) auto
  qed
qed

lemma IPSuffix_bytes:
  fixes w v :: "'a::len word"
  assumes "AsSlice (if isSourceIP then m_SrcIP m else m_DstIP m) = bytes_of n v" "nat b \<le> 8 * n"
  shows "IPSuffix_Match (bytes_of n w) b a isSourceIP m =
    (if take_bit (nat b) w \<noteq> take_bit (nat b) v then Ret (False, [])
     else if nat b = 8 * n then Panic else Ret (True, a))"
  unfolding IPSuffix_Match_def Let_def assms(1) length_bytes_of suffix_bytes [OF assms(2), symmetric]
  by (simp only: simp_thms if_False)

fun same_suffix :: "nat \<Rightarrow> Addr \<Rightarrow> Addr \<Rightarrow> bool" where
  "same_suffix b (V4 w) (V4 v) \<longleftrightarrow> take_bit b w = take_bit b v"
| "same_suffix b (V6 w) (V6 v) \<longleftrightarrow> take_bit b w = take_bit b v"
| "same_suffix b _ _ = False"

text \<open>C21: an IP-SUFFIX rule matches exactly the addresses of the family of its own whose last bits are
  those of the rule; a rule for all bits of an address does not match that address but indexes
  before its first byte.\<close>

theorem ip_suffix_rule:
  assumes r: "NewIPSuffix E payload adapter isSrc nr = Inr r"
    and p: "ParsePrefix (e_net E) payload = Some p" "pfx_IsValid p"
  shows "leaf_Match E r m =
    (let ip = (if isSrc then m_SrcIP m else m_DstIP m)
     in if \<not> same_suffix (nat (pfx_Bits p)) (pfx_Addr p) ip then Ret (False, [])
        else if nat (pfx_Bits p) = BitLen (pfx_Addr p) then Panic else Ret (True, adapter))"
proof -
  let ?ip = "if isSrc then m_SrcIP m else m_DstIP m" and ?b = "nat (pfx_Bits p)"
  have req: "r = IPSuffixR (AsSlice (pfx_Addr p)) (pfx_Bits p) payload adapter isSrc nr"
    using r p by (simp add: NewIPSuffix_def)
  have b: "?b \<le> BitLen (pfx_Addr p)" using p(2) by (auto simp: pfx_IsValid_def nat_le_iff)
  consider (v4) w v where "pfx_Addr p = V4 w" "?ip = V4 v" | (v6) w v where "pfx_Addr p = V6 w" "?ip = V6 v"
    | (diff) "length (AsSlice (pfx_Addr p)) \<noteq> length (AsSlice ?ip)"
    using p(2) by (cases "pfx_Addr p"; cases ?ip) (auto simp: pfx_IsValid_def)
  then show ?thesis
  proof cases
    case v4
    with b IPSuffix_bytes [of isSrc m 4 v "pfx_Bits p" w adapter] show ?thesis
      by (simp add: req)
  next
    case v6
    with b IPSuffix_bytes [of isSrc m 16 v "pfx_Bits p" w adapter] show ?thesis
      by (simp add: req)
  next
    case diff
    then have "\<not> same_suffix ?b (pfx_Addr p) ?ip" by (cases "pfx_Addr p"; cases ?ip) auto
    with diff show ?thesis by (simp add: req IPSuffix_Match_def Let_def)
  qed
qed

section \<open>Surroundings for examples\<close>

definition example_env :: "string rule_env" where
  "example_env = \<lparr>e_GeodataMode = False, e_InitGeoIP = True, e_InitGeoSite = True, e_ipLoader = (\<lambda>_. Inr []),
     e_siteLoader = (\<lambda>_. Inr []), e_walk = witness_orders, e_regexp = witness_regexp, e_Country = (\<lambda>_. []),
     e_IsFakeBroadcastIP = (\<lambda>_. False), e_GOOS = ''linux'',
     e_net = \<lparr>addr_String = (\<lambda>_. []), ParseAddr = (\<lambda>_. None), prefix_String = (\<lambda>_. []),
       ParsePrefix = (\<lambda>s. if s = ''10.0.0.9/4'' then Some \<lparr>pfx_Addr = V4 0x0A000009, pfx_Bits = 4\<rparr>
         else if s = ''10.0.0.9/32'' then Some \<lparr>pfx_Addr = V4 0x0A000009, pfx_Bits = 32\<rparr> else None)\<rparr>\<rparr>"

definition example_metadata :: Metadata where
  "example_metadata = \<lparr>m_NetWork = TCP, m_Type = HTTP, m_SrcIP = AddrZero, m_DstIP = V4 0x0A000009,
     m_SrcPort = ''1234'', m_DstPort = ''443'', m_InIP = AddrZero, m_InPort = ''7890'', m_InName = [],
     m_InUser = [], m_Host = ''a.b'', m_DNSMode = DNSNormal, m_Uid = 0, m_Process = [], m_ProcessPath = [],
     m_SpecialProxy = [], m_SpecialRules = [], m_RemoteDst = [], m_SniffHost = []\<rparr>"

lemma port_rule_matches_witness:
  "\<exists>r. NewPort ''[ 80]/1024-1000/'' ''DIRECT'' RT_DstPort = Inr r \<and>
     leaf_Match example_env r (example_metadata\<lparr>m_DstPort := decimal 1010\<rparr>) = Ret (True, ''DIRECT'')"
proof -
  have p: "parts_of ''[ 80]/1024-1000/'' = [''[ 80]'', ''1024-1000'']"
    by code_simp
  have b: "part_bounds 16 ''[ 80]'' = Some (80, 80)" "part_bounds 16 ''1024-1000'' = Some (1024, 1000)"
    by (simp_all add: part_bounds_def ParseUint_def digits_val_def is_digit_def Trim_def)
  have "NewPort ''[ 80]/1024-1000/'' ''DIRECT'' RT_DstPort = Inr (PortR ''DIRECT'' ''[ 80]/1024-1000/'' RT_DstPort
      (map (\<lambda>p. word_range (the (part_bounds 16 p))) (parts_of ''[ 80]/1024-1000/'')) :: string Rule)"
    unfolding NewPort_eq p by (simp add: b)
  note r = this and m = port_rule_matches [OF this, of 1010 "example_metadata\<lparr>m_DstPort := decimal 1010\<rparr>" example_env]
  have "leaf_Match example_env (PortR ''DIRECT'' ''[ 80]/1024-1000/'' RT_DstPort
      (map (\<lambda>p. word_range (the (part_bounds 16 p))) (parts_of ''[ 80]/1024-1000/''))) (example_metadata\<lparr>m_DstPort := decimal 1010\<rparr>) =
      Ret (True, ''DIRECT'')"
    by (subst m) (simp_all add: rule_port_def p b)
  with r show ?thesis by blast
qed

lemma ip_suffix_rule_witness:
  "\<exists>r. NewIPSuffix example_env ''10.0.0.9/32'' ''P'' False False = Inr r \<and>
     leaf_Match example_env r example_metadata = Panic"
proof -
  let ?p = "\<lparr>pfx_Addr = V4 0x0A000009, pfx_Bits = 32\<rparr>"
  have p: "ParsePrefix (e_net example_env) ''10.0.0.9/32'' = Some ?p" "pfx_IsValid ?p"
    by (simp_all add: example_env_def pfx_IsValid_def)
  obtain r where r: "(NewIPSuffix example_env ''10.0.0.9/32'' ''P'' False False :: rule_error + string Rule) = Inr r"
    by (simp add: NewIPSuffix_def p(1))
  have "leaf_Match example_env r example_metadata = Panic"
    unfolding ip_suffix_rule [OF r p] by (simp add: example_metadata_def)
  with r show ?thesis by blast
qed

section \<open>The container of GeoIP matchers\<close>

text \<open>A container whose matchers were built from what the loader returns for their countries.\<close>

definition container_of :: "ip_loader \<Rightarrow> GeoIPMatcher list \<Rightarrow> bool" where
  "container_of load c \<longleftrightarrow> (\<forall>g \<in> set c. \<exists>recs. load (gm_countryCode g) = Inr recs \<and>
     Init \<lparr>gm_countryCode = gm_countryCode g, gm_reverseMatch = gm_reverseMatch g,
            gm_ip4 = [], gm_prefix4 = [], gm_ip6 = [], gm_prefix6 = []\<rparr> recs = Some g)"

lemma container_same:
  assumes c: "container_of load c" and l: "LoadGeoIPMatcher load country c = Some (Inr ((c', g), n))"
  shows "container_of load c'" "\<exists>c1. LoadGeoIPMatcher load country [] = Some (Inr ((c1, g), n))"
proof -
  obtain neg cc where s: "splitNot country = (neg, cc)" by fastforce
  let ?cc = "ToLower cc"
  let ?init = "Init \<lparr>gm_countryCode = ?cc, gm_reverseMatch = neg, gm_ip4 = [], gm_prefix4 = [], gm_ip6 = [], gm_prefix6 = []\<rparr>"
  let ?geo = "\<lambda>recs. \<lparr>g_CountryCode = ?cc, g_Cidr = recs, g_ReverseMatch = neg\<rparr>"
  from l s obtain recs where recs: "country \<noteq> []" "load ?cc = Inr recs" "n = length recs"
    "Add (?geo recs) c = Some (c', g)"
    by (auto simp: LoadGeoIPMatcher_def Let_def NewGeoIPMatcher_def bind_eq_Some_conv split: if_splits sum.splits)
  have init: "?init recs = Some g \<and> (c' = c \<or> c' = c @ [g])"
  proof (cases "if length ?cc > 0 then find (same_code (?geo recs)) c else None")
    case None
    with recs(4) show ?thesis by (auto simp: Add_def bind_eq_Some_conv split: if_splits)
  next
    case (Some m)
    with recs(4) have m: "c' = c" "g = m" "find (same_code (?geo recs)) c = Some m" by (auto simp: Add_def split: if_splits)
    then have "m \<in> set c" "gm_countryCode m = ?cc" "gm_reverseMatch m = neg"
      by (auto simp: find_Some_iff same_code_def)
    with c recs(2) m(1,2) show ?thesis by (auto simp: container_of_def)
  qed
  then have g: "gm_countryCode g = ?cc" "gm_reverseMatch g = neg"
    by (auto simp: Init_def foldl_addCidr split: if_splits)
  show "container_of load c'"
    using init c recs(2) by (auto simp: container_of_def g)
  show "\<exists>c1. LoadGeoIPMatcher load country [] = Some (Inr ((c1, g), n))"
    using recs init s by (auto simp: LoadGeoIPMatcher_def Let_def NewGeoIPMatcher_def Add_def)
qed

end
