(* ===== verification/RuleLogic.thy ===== *)
theory RuleLogic imports Rules DomainSet IpCidrTrie begin

text \<open>
  \<^verbatim>\<open>rules/parser.go\<close>, \<^verbatim>\<open>rules/logic/logic.go\<close>, \<^verbatim>\<open>rules/provider/*.go\<close> and \<^verbatim>\<open>common/collections/stack.go\<close>:
  from the text of a rule to the rule, the rules made of rules, rule providers, and the evaluation of
  any rule on a connection.

  A rule provider is an object several rules point to and an update replaces its contents, so a rule
  set holds its position in the list \<open>w_providers\<close>. The sub-rules are those of the configuration, which
  every SUB-RULE rule shares. A call through a name (a sub-rule, a provider) uses up one unit of a
  bound; \<open>NoFuel\<close> is what is left when the bound is used up, and a panic is \<open>Panic\<close>.
\<close>

section \<open>common/collections/stack.go\<close>

type_synonym 'a stack = "'a list"

definition NewStack :: "'a stack" where "NewStack = []"

definition stack_Len :: "'a stack \<Rightarrow> nat" where "stack_Len s = length s"

fun Peek :: "'a stack \<Rightarrow> 'a option" where
  "Peek [] = None"
| "Peek (v # s) = Some v"

fun Pop :: "'a stack \<Rightarrow> 'a option \<times> 'a stack" where
  "Pop [] = (None, [])"
| "Pop (v # s) = (Some v, s)"

definition Push :: "'a \<Rightarrow> 'a stack \<Rightarrow> 'a stack" where "Push v s = v # s"

section \<open>Rule providers\<close>

datatype RuleBehavior = B_Domain | B_IPCIDR | B_Classical
datatype RuleFormat = YamlRule | TextRule

text \<open>The strategies, with the fields of their structs: the rules (or the set, the trie), the count and
  what is needed to match.\<close>

datatype 'r strategy =
    ClassicalS "'r Rule list" nat bool bool
  | DomainS nat "unit DomainTrie option" "DomainSet option"
  | IPCidrS nat bool "IpCidrTrie option"

record 'r provider =
  p_name :: string
  p_behavior :: RuleBehavior
  p_format :: RuleFormat
  p_strategy :: "'r strategy"

type_synonym 'r sub_rules = "(string \<times> 'r Rule list) list"

record 'r world =
  w_sub :: "'r sub_rules"
  w_registry :: "(string \<times> nat) list"
  w_providers :: "'r provider list"
  w_bitmap :: rank_select
  w_ParseCIDR :: "string \<Rightarrow> IPNet option"

definition sub_lookup :: "'r sub_rules \<Rightarrow> string \<Rightarrow> 'r Rule list" where
  "sub_lookup m name = (case map_of m name of None \<Rightarrow> [] | Some rs \<Rightarrow> rs)"

fun strategy_Count :: "'r strategy \<Rightarrow> nat" where
  "strategy_Count (ClassicalS _ n _ _) = n"
| "strategy_Count (DomainS n _ _) = n"
| "strategy_Count (IPCidrS n _ _) = n"

fun strategy_ShouldResolveIP :: "'r strategy \<Rightarrow> bool" where
  "strategy_ShouldResolveIP (ClassicalS _ _ ip _) = ip"
| "strategy_ShouldResolveIP (DomainS _ _ _) = False"
| "strategy_ShouldResolveIP (IPCidrS _ ip _) = ip"

fun strategy_ShouldFindProcess :: "'r strategy \<Rightarrow> bool" where
  "strategy_ShouldFindProcess (ClassicalS _ _ _ pr) = pr"
| "strategy_ShouldFindProcess _ = False"

definition getProvider :: "'r world \<Rightarrow> nat \<Rightarrow> 'r provider option" where
  "getProvider W i = idx (w_providers W) i"

section \<open>What a rule needs\<close>

fun ShouldResolveIP :: "'r world \<Rightarrow> 'r Rule \<Rightarrow> bool" where
  "ShouldResolveIP W (GeoIPR _ _ noResolveIP _ _) = (\<not> noResolveIP)"
| "ShouldResolveIP W (IPCIDRR _ _ _ noResolveIP) = (\<not> noResolveIP)"
| "ShouldResolveIP W (IPSuffixR _ _ _ _ _ noResolveIP) = (\<not> noResolveIP)"
| "ShouldResolveIP W (LogicR _ _ _ _ needIP _) = needIP"
| "ShouldResolveIP W (RuleSetR _ _ i noResolveIP _) =
     (\<not> noResolveIP \<and> (case getProvider W i of None \<Rightarrow> False | Some p \<Rightarrow> strategy_ShouldResolveIP (p_strategy p)))"
| "ShouldResolveIP W _ = False"

fun ShouldFindProcess :: "'r world \<Rightarrow> 'r Rule \<Rightarrow> bool" where
  "ShouldFindProcess W (ProcessR _ _ _) = True"
| "ShouldFindProcess W (UidR _ _ _) = True"
| "ShouldFindProcess W (LogicR _ _ _ _ _ needProcess) = needProcess"
| "ShouldFindProcess W (RuleSetR _ _ i _ findProcess) =
     (findProcess \<or> (case getProvider W i of None \<Rightarrow> False | Some p \<Rightarrow> strategy_ShouldFindProcess (p_strategy p)))"
| "ShouldFindProcess W _ = False"

fun Payload :: "'r rule_env \<Rightarrow> 'r world \<Rightarrow> 'r Rule \<Rightarrow> string" where
  "Payload E W (DomainR d _) = d"
| "Payload E W (DomainSuffixR d _) = d"
| "Payload E W (DomainKeywordR d _) = d"
| "Payload E W (GeoSiteR c _ _ _) = c"
| "Payload E W (GeoIPR c _ _ _ _) = c"
| "Payload E W (IPCIDRR n _ _ _) = prefix_String (e_net E) n"
| "Payload E W (IPSuffixR _ _ p _ _ _) = p"
| "Payload E W (PortR _ p _ _) = p"
| "Payload E W (ProcessR _ p _) = p"
| "Payload E W (NetworkR n _) = NetWork_String n"
| "Payload E W (UidR _ o' _) = o'"
| "Payload E W (InTypeR _ _ p) = p"
| "Payload E W (InUserR _ _ p) = p"
| "Payload E W (InNameR _ _ p) = p"
| "Payload E W (MatchR _) = []"
| "Payload E W (LogicR p _ _ _ _ _) = p"
| "Payload E W (RuleSetR _ _ i _ _) = (case getProvider W i of None \<Rightarrow> [] | Some p \<Rightarrow> p_name p)"

section \<open>The payload of a logic rule\<close>

record Range =
  rg_start :: nat
  rg_end :: nat
  rg_index :: nat

definition containRange :: "Range \<Rightarrow> nat \<Rightarrow> nat \<Rightarrow> bool" where
  "containRange r preStart preEnd \<longleftrightarrow> preStart < rg_start r \<and> preEnd > rg_end r"

fun formatLoop ::
    "nat \<Rightarrow> string \<Rightarrow> nat \<Rightarrow> Range stack \<Rightarrow> Range list \<Rightarrow> rule_error + Range stack \<times> Range list" where
  "formatLoop i [] num stk subRanges = Inr (stk, subRanges)"
| "formatLoop i (c # cs) num stk subRanges =
     (if c = CHR ''('' then
        formatLoop (i + 1) cs (num + 1) (Push \<lparr>rg_start = i, rg_end = 0, rg_index = num\<rparr> stk) subRanges
      else if c = CHR '')'' then
        (case Pop stk of
           (None, _) \<Rightarrow> Inl MissingOpen
         | (Some sr, stk') \<Rightarrow> formatLoop (i + 1) cs num stk' (subRanges @ [sr\<lparr>rg_end := i\<rparr>]))
      else formatLoop (i + 1) cs num stk subRanges)"

definition format :: "string \<Rightarrow> rule_error + Range list" where
  "format payload =
     (case formatLoop 0 payload 0 NewStack [] of
        Inl e \<Rightarrow> Inl e
      | Inr (stk, subRanges) \<Rightarrow>
          if stack_Len stk \<noteq> 0 then Inl MissingClose
          else Inr (foldl (\<lambda>sortResult sr. sortResult[rg_index sr := sr])
            (replicate (length subRanges) \<lparr>rg_start = 0, rg_end = 0, rg_index = 0\<rparr>) subRanges))"

fun subRangeLoop :: "nat \<Rightarrow> Range list \<Rightarrow> Range list \<Rightarrow> Range list" where
  "subRangeLoop payloadLen [] subRuleRange = subRuleRange"
| "subRangeLoop payloadLen (rr # rrs) subRuleRange =
     (if rg_start rr = 0 \<and> rg_end rr + 1 = payloadLen then subRangeLoop payloadLen rrs subRuleRange
      else if list_ex (\<lambda>r. containRange rr (rg_start r) (rg_end r)) subRuleRange
      then subRangeLoop payloadLen rrs subRuleRange
      else subRangeLoop payloadLen rrs (subRuleRange @ [rr]))"

definition findSubRuleRange :: "string \<Rightarrow> Range list \<Rightarrow> Range list" where
  "findSubRuleRange payload ruleRanges = subRangeLoop (length payload) ruleRanges []"

text \<open>\<^verbatim>\<open>ParseRuleFunc\<close>: type, payload, target, parameters, sub-rules.\<close>

type_synonym 'r parser =
  "string \<Rightarrow> string \<Rightarrow> string \<Rightarrow> string list \<Rightarrow> 'r sub_rules \<Rightarrow> (rule_error + 'r Rule) run"

definition payloadToRule :: "'r parser \<Rightarrow> string \<Rightarrow> (rule_error + 'r Rule) run" where
  "payloadToRule parse subPayload =
     (case Split2 (CHR '','') subPayload of
        [tp, payload] \<Rightarrow>
          if tp = ''MATCH'' \<or> tp = ''SUB-RULE'' then Ret (Inl (UnsupportedRule tp))
          else if tp = ''NOT'' \<or> tp = ''OR'' \<or> tp = ''AND'' then parse tp payload [] [] []
          else let param = Split (CHR '','') payload in parse tp (hd param) [] (tl param) []
      | _ \<Rightarrow> Ret (Inl (LogicFormat subPayload)))"

fun mapRules :: "('a \<Rightarrow> (rule_error + 'b) run) \<Rightarrow> 'a list \<Rightarrow> (rule_error + 'b list) run" where
  "mapRules f [] = Ret (Inr [])"
| "mapRules f (x # xs) = run_bind (f x) (\<lambda>r. case r of
     Inl e \<Rightarrow> Ret (Inl e)
   | Inr y \<Rightarrow> run_bind (mapRules f xs) (\<lambda>rs. case rs of Inl e \<Rightarrow> Ret (Inl e) | Inr ys \<Rightarrow> Ret (Inr (y # ys))))"

text \<open>The regular expression \<^verbatim>\<open>\(.*\)\<close>: an opening bracket and a closing one after it on the same line.\<close>

fun bracketed :: "bool \<Rightarrow> string \<Rightarrow> bool" where
  "bracketed opened [] = False"
| "bracketed opened (c # cs) =
     (if c = CHR ''('' then bracketed True cs
      else if c = CHR '')'' \<and> opened then True
      else if c = CHR 0x0A then bracketed False cs
      else bracketed opened cs)"

definition between :: "string \<Rightarrow> Range \<Rightarrow> string" where
  "between payload r = take (rg_end r - (rg_start r + 1)) (drop (rg_start r + 1) payload)"

definition parsePayload :: "'r parser \<Rightarrow> string \<Rightarrow> (rule_error + 'r Rule list) run" where
  "parsePayload parse payload =
     (if bracketed False payload then
        (case format payload of
           Inl e \<Rightarrow> Ret (Inl e)
         | Inr subAllRanges \<Rightarrow>
             mapRules (\<lambda>subRange. payloadToRule parse (between payload subRange))
               (findSubRuleRange payload subAllRanges))
      else Ret (Inl PayloadFormat))"

section \<open>Logic rules\<close>

definition withRules ::
    "(rule_error + 'r Rule list) run \<Rightarrow> ('r Rule list \<Rightarrow> rule_error + 'r Rule) \<Rightarrow> (rule_error + 'r Rule) run" where
  "withRules r f = run_bind r (\<lambda>s. case s of Inl e \<Rightarrow> Ret (Inl e) | Inr rules \<Rightarrow> Ret (f rules))"

definition NewSubRule :: "'r world \<Rightarrow> string \<Rightarrow> string \<Rightarrow> 'r sub_rules \<Rightarrow> 'r parser \<Rightarrow> (rule_error + 'r Rule) run" where
  "NewSubRule W payload adapter subRules parse =
     withRules (parsePayload parse (''('' @ payload @ '')''))
       (\<lambda>rules. if length rules \<noteq> 1 then Inl NotOneRule
          else Inr (LogicR payload adapter RT_SubRules rules
            (list_ex (ShouldResolveIP W) (sub_lookup subRules adapter))
            (list_ex (ShouldFindProcess W) (sub_lookup subRules adapter))))"

definition NewNOT :: "'r rule_env \<Rightarrow> 'r world \<Rightarrow> string \<Rightarrow> string \<Rightarrow> 'r parser \<Rightarrow> (rule_error + 'r Rule) run" where
  "NewNOT E W payload adapter parse =
     withRules (parsePayload parse payload)
       (\<lambda>rules. if length rules \<noteq> 1 then Inl NotOneRule
          else Inr (LogicR
            (''(!('' @ RuleType_String (RuleType_of (rules ! 0)) @ '','' @ Payload E W (rules ! 0) @ ''))'')
            adapter RT_NOT rules (ShouldResolveIP W (rules ! 0)) (ShouldFindProcess W (rules ! 0))))"

definition rule_text :: "'r rule_env \<Rightarrow> 'r world \<Rightarrow> 'r Rule \<Rightarrow> string" where
  "rule_text E W r = ''('' @ RuleType_String (RuleType_of r) @ '','' @ Payload E W r @ '')''"

definition NewOR :: "'r rule_env \<Rightarrow> 'r world \<Rightarrow> string \<Rightarrow> string \<Rightarrow> 'r parser \<Rightarrow> (rule_error + 'r Rule) run" where
  "NewOR E W payload adapter parse =
     withRules (parsePayload parse payload)
       (\<lambda>rules. Inr (LogicR (''('' @ Join '' || '' (map (rule_text E W) rules) @ '')'') adapter RT_OR rules
          (list_ex (ShouldResolveIP W) rules) (list_ex (ShouldFindProcess W) rules)))"

definition NewAND :: "'r rule_env \<Rightarrow> 'r world \<Rightarrow> string \<Rightarrow> string \<Rightarrow> 'r parser \<Rightarrow> (rule_error + 'r Rule) run" where
  "NewAND E W payload adapter parse =
     withRules (parsePayload parse payload)
       (\<lambda>rules. Inr (LogicR (''('' @ Join '' && '' (map (rule_text E W) rules) @ '')'') adapter RT_AND rules
          (list_ex (ShouldResolveIP W) rules) (list_ex (ShouldFindProcess W) rules)))"

definition NewRuleSet :: "'r world \<Rightarrow> string \<Rightarrow> string \<Rightarrow> bool \<Rightarrow> rule_error + 'r Rule" where
  "NewRuleSet W ruleProviderName adapter noResolveIP =
     (case map_of (w_registry W) ruleProviderName of
        None \<Rightarrow> Inl (RuleSetNotFound ruleProviderName)
      | Some rp \<Rightarrow> Inr (RuleSetR ruleProviderName adapter rp noResolveIP False))"

section \<open>The parts of a payload are shorter than it\<close>

lemma formatLoop_ranges:
  "formatLoop i s num stk sub = Inr (stk', sub') \<Longrightarrow>
     (\<forall>r \<in> set stk. rg_start r < i) \<Longrightarrow> (\<forall>r \<in> set sub. rg_start r < rg_end r \<and> rg_end r < i) \<Longrightarrow>
     (\<forall>r \<in> set sub'. rg_start r < rg_end r \<and> rg_end r < i + length s)"
proof (induction i s num stk sub rule: formatLoop.induct)
  case (2 i c cs num stk sub)
  consider "c = CHR ''(''" | sr stk1 where "c = CHR '')''" "stk = sr # stk1" | "c \<noteq> CHR ''(''" "c \<noteq> CHR '')''"
    using "2.prems"(1) by (cases stk) (auto split: if_splits)
  then show ?case
  proof cases
    case 1
    with 2(1) [OF 1] "2.prems" show ?thesis by (force simp: Push_def)
  next
    case 2
    then have e: "formatLoop (i + 1) cs num stk1 (sub @ [sr\<lparr>rg_end := i\<rparr>]) = Inr (stk', sub')"
      using "2.prems"(1) by simp
    have "\<forall>r \<in> set stk1. rg_start r < i + 1" "\<forall>r \<in> set (sub @ [sr\<lparr>rg_end := i\<rparr>]). rg_start r < rg_end r \<and> rg_end r < i + 1"
      using 2 "2.prems"(2,3) by auto
    from "2.IH"(2) [OF _ _ _ _ e this] 2 show ?thesis by auto
  next
    case 3
    with "2.IH"(3) "2.prems" show ?thesis by force
  qed
qed simp

lemma foldl_update_set:
  "set (foldl (\<lambda>xs y. xs[f y := y]) xs ys) \<subseteq> set xs \<union> set ys"
proof (induction ys arbitrary: xs)
  case (Cons y ys)
  have "set (xs[f y := y]) \<subseteq> insert y (set xs)" by (rule set_update_subset_insert)
  with Cons [of "xs[f y := y]"] show ?case by auto
qed simp

lemma format_ranges:
  assumes "format payload = Inr rs" "r \<in> set rs"
  shows "between payload r = [] \<or> rg_start r < rg_end r \<and> rg_end r < length payload"
proof -
  from assms(1) obtain sub where sub: "formatLoop 0 payload 0 NewStack [] = Inr ([], sub)"
    "rs = foldl (\<lambda>xs sr. xs[rg_index sr := sr])
       (replicate (length sub) \<lparr>rg_start = 0, rg_end = 0, rg_index = 0\<rparr>) sub"
    by (auto simp: format_def stack_Len_def split: sum.splits if_splits)
  have "r = \<lparr>rg_start = 0, rg_end = 0, rg_index = 0\<rparr> \<or> r \<in> set sub"
    using assms(2) foldl_update_set unfolding sub(2) by (fastforce split: if_splits)
  then show ?thesis
    using formatLoop_ranges [OF sub(1)] by (auto simp: NewStack_def between_def)
qed

lemma subRangeLoop_set: "set (subRangeLoop n rs acc) \<subseteq> set rs \<union> set acc"
  by (induction n rs acc rule: subRangeLoop.induct) auto

lemma length_between:
  assumes "format payload = Inr rs" "r \<in> set (findSubRuleRange payload rs)"
  shows "between payload r = [] \<or> length (between payload r) + 2 \<le> length payload"
proof -
  have "r \<in> set rs" using assms(2) subRangeLoop_set by (fastforce simp: findSubRuleRange_def)
  from format_ranges [OF assms(1) this] show ?thesis by (auto simp: between_def)
qed

lemma Split2_length: "Split2 c s = [a, b] \<Longrightarrow> length a + length b + 1 = length s"
proof (induction s arbitrary: a)
  case (Cons x s)
  show ?case
  proof (cases "x = c")
    case False
    with Cons.prems obtain a' where "Split2 c s = [a', b]" "a = x # a'"
      by (auto split: list.splits)
    with Cons.IH show ?thesis by simp
  qed (use Cons.prems in auto)
qed simp

lemma hd_Split_length: "length (hd (Split c s)) \<le> length s"
  by (induction s) (auto split: list.splits)

lemma payloadToRule_cong:
  assumes "s = s'" "\<And>tp p ps. length p < length s' \<Longrightarrow> parse tp p [] ps [] = parse' tp p [] ps []"
  shows "payloadToRule parse s = payloadToRule parse' s'"
proof (cases "\<exists>tp p. Split2 (CHR '','') s' = [tp, p]")
  case True
  then obtain tp p where sp: "Split2 (CHR '','') s' = [tp, p]" by blast
  have "length p < length s'" "length (hd (Split (CHR '','') p)) < length s'"
    using Split2_length [OF sp] hd_Split_length [of "CHR '',''" p] by simp_all
  with assms sp show ?thesis by (simp add: payloadToRule_def Let_def)
next
  case False
  with assms(1) show ?thesis by (auto simp: payloadToRule_def split: list.splits)
qed

lemma mapRules_cong [fundef_cong]:
  "xs = ys \<Longrightarrow> (\<And>x. x \<in> set ys \<Longrightarrow> f x = g x) \<Longrightarrow> mapRules f xs = mapRules g ys"
  by (induction xs arbitrary: ys) auto

lemma parsePayload_cong:
  assumes "s = s'" "\<And>tp p ps. length p + 3 \<le> length s' \<Longrightarrow> parse tp p [] ps [] = parse' tp p [] ps []"
  shows "parsePayload parse s = parsePayload parse' s'"
proof (cases "format s'")
  case (Inr rs)
  have "payloadToRule parse (between s' r) = payloadToRule parse' (between s' r)"
    if "r \<in> set (findSubRuleRange s' rs)" for r
    using length_between [OF Inr that] by (intro payloadToRule_cong refl assms(2)) auto
  then show ?thesis
    using assms(1) Inr by (auto simp: parsePayload_def intro!: mapRules_cong)
qed (simp add: parsePayload_def assms(1))

lemma NewSubRule_cong [fundef_cong]:
  assumes "W = W'" "s = s'" "ad = ad'" "sub = sub'"
    "\<And>tp p ps. length p < length s' \<Longrightarrow> parse tp p [] ps [] = parse' tp p [] ps []"
  shows "NewSubRule W s ad sub parse = NewSubRule W' s' ad' sub' parse'"
  unfolding NewSubRule_def assms(1-4) using assms(5)
  by (subst parsePayload_cong [of _ "''('' @ s' @ '')''" parse parse']) auto

lemma logic_cong:
  assumes "s = s'" "\<And>tp p ps. length p < length s' \<Longrightarrow> parse tp p [] ps [] = parse' tp p [] ps []"
  shows "parsePayload parse s = parsePayload parse' s'"
  using assms by (intro parsePayload_cong) auto

lemma NewNOT_cong [fundef_cong]:
  assumes "E = E'" "W = W'" "s = s'" "ad = ad'"
    "\<And>tp p ps. length p < length s' \<Longrightarrow> parse tp p [] ps [] = parse' tp p [] ps []"
  shows "NewNOT E W s ad parse = NewNOT E' W' s' ad' parse'"
  unfolding NewNOT_def assms(1-4) using assms(5) by (subst logic_cong [of s' s' parse parse']) auto

lemma NewOR_cong [fundef_cong]:
  assumes "E = E'" "W = W'" "s = s'" "ad = ad'"
    "\<And>tp p ps. length p < length s' \<Longrightarrow> parse tp p [] ps [] = parse' tp p [] ps []"
  shows "NewOR E W s ad parse = NewOR E' W' s' ad' parse'"
  unfolding NewOR_def assms(1-4) using assms(5) by (subst logic_cong [of s' s' parse parse']) auto

lemma NewAND_cong [fundef_cong]:
  assumes "E = E'" "W = W'" "s = s'" "ad = ad'"
    "\<And>tp p ps. length p < length s' \<Longrightarrow> parse tp p [] ps [] = parse' tp p [] ps []"
  shows "NewAND E W s ad parse = NewAND E' W' s' ad' parse'"
  unfolding NewAND_def assms(1-4) using assms(5) by (subst logic_cong [of s' s' parse parse']) auto

section \<open>rules/parser.go\<close>

definition simpleRule ::
    "'r rule_env \<Rightarrow> 'r world \<Rightarrow> string \<Rightarrow> string \<Rightarrow> string \<Rightarrow> string list \<Rightarrow> (rule_error + 'r Rule) run" where
  "simpleRule E W tp payload target params =
     (if tp = ''DOMAIN'' then Ret (Inr (NewDomain payload target))
      else if tp = ''DOMAIN-SUFFIX'' then Ret (Inr (NewDomainSuffix payload target))
      else if tp = ''DOMAIN-KEYWORD'' then Ret (Inr (NewDomainKeyword payload target))
      else if tp = ''GEOSITE'' then NewGEOSITE E payload target
      else if tp = ''GEOIP'' then NewGEOIP E payload target (HasNoResolve params)
      else if tp = ''IP-CIDR'' \<or> tp = ''IP-CIDR6'' then Ret (NewIPCIDR E payload target False (HasNoResolve params))
      else if tp = ''SRC-IP-CIDR'' then Ret (NewIPCIDR E payload target True True)
      else if tp = ''IP-SUFFIX'' then Ret (NewIPSuffix E payload target False (HasNoResolve params))
      else if tp = ''SRC-IP-SUFFIX'' then Ret (NewIPSuffix E payload target True True)
      else if tp = ''SRC-PORT'' then Ret (NewPort payload target RT_SrcPort)
      else if tp = ''DST-PORT'' then Ret (NewPort payload target RT_DstPort)
      else if tp = ''IN-PORT'' then Ret (NewPort payload target RT_InPort)
      else if tp = ''PROCESS-NAME'' then Ret (Inr (NewProcess payload target True))
      else if tp = ''PROCESS-PATH'' then Ret (Inr (NewProcess payload target False))
      else if tp = ''NETWORK'' then Ret (NewNetworkType payload target)
      else if tp = ''UID'' then Ret (NewUid E payload target)
      else if tp = ''IN-TYPE'' then Ret (NewInType payload target)
      else if tp = ''IN-USER'' then Ret (Inr (NewInUser payload target))
      else if tp = ''IN-NAME'' then Ret (Inr (NewInName payload target))
      else if tp = ''RULE-SET'' then Ret (NewRuleSet W payload target (HasNoResolve params))
      else if tp = ''MATCH'' then Ret (Inr (MatchR target))
      else Ret (Inl (UnsupportedRule tp)))"

function ParseRule :: "'r rule_env \<Rightarrow> 'r world \<Rightarrow> 'r parser" where
  "ParseRule E W tp payload target params subRules =
     (if tp = ''SUB-RULE'' then NewSubRule W payload target subRules (ParseRule E W)
      else if tp = ''AND'' then NewAND E W payload target (ParseRule E W)
      else if tp = ''OR'' then NewOR E W payload target (ParseRule E W)
      else if tp = ''NOT'' then NewNOT E W payload target (ParseRule E W)
      else simpleRule E W tp payload target params)"
  by pat_completeness auto

termination
  by (relation "measure (\<lambda>(E, W, tp, payload, _). length payload)") auto

declare ParseRule.simps [simp del]

section \<open>What is parsed is well formed\<close>

definition rule_type_names :: "(string \<times> RuleType) list" where
  "rule_type_names =
     [(''DOMAIN'', RT_Domain), (''DOMAIN-SUFFIX'', RT_DomainSuffix), (''DOMAIN-KEYWORD'', RT_DomainKeyword),
      (''GEOSITE'', RT_GEOSITE), (''GEOIP'', RT_GEOIP), (''IP-CIDR'', RT_IPCIDR), (''IP-CIDR6'', RT_IPCIDR),
      (''SRC-IP-CIDR'', RT_SrcIPCIDR), (''IP-SUFFIX'', RT_IPSuffix), (''SRC-IP-SUFFIX'', RT_SrcIPSuffix),
      (''SRC-PORT'', RT_SrcPort), (''DST-PORT'', RT_DstPort), (''IN-PORT'', RT_InPort),
      (''PROCESS-NAME'', RT_Process), (''PROCESS-PATH'', RT_ProcessPath), (''NETWORK'', RT_Network),
      (''UID'', RT_Uid), (''IN-TYPE'', RT_InType), (''IN-USER'', RT_InUser), (''IN-NAME'', RT_InName),
      (''SUB-RULE'', RT_SubRules), (''AND'', RT_AND), (''OR'', RT_OR), (''NOT'', RT_NOT),
      (''RULE-SET'', RT_RuleSet), (''MATCH'', RT_MATCH)]"

text \<open>A well-formed rule: a logic rule is one of the four kinds, NOT and SUB-RULE have one rule, no rule
  below a logic rule is a SUB-RULE or a MATCH, and the provider of a rule set exists.\<close>

fun wf_rule :: "nat \<Rightarrow> 'r Rule \<Rightarrow> bool" where
  "wf_rule n (LogicR _ _ t rs _ _) \<longleftrightarrow>
     (t = RT_SubRules \<or> t = RT_NOT \<or> t = RT_AND \<or> t = RT_OR) \<and>
     (t = RT_SubRules \<or> t = RT_NOT \<longrightarrow> length rs = 1) \<and>
     (\<forall>r \<in> set rs. wf_rule n r \<and> RuleType_of r \<noteq> RT_SubRules \<and> RuleType_of r \<noteq> RT_MATCH)"
| "wf_rule n (RuleSetR _ _ i _ _) \<longleftrightarrow> i < n"
| "wf_rule n (PortR _ _ t _) \<longleftrightarrow> t = RT_SrcPort \<or> t = RT_DstPort \<or> t = RT_InPort"
| "wf_rule n _ = True"

definition world_ok :: "'r world \<Rightarrow> bool" where
  "world_ok W \<longleftrightarrow> (\<forall>(name, i) \<in> set (w_registry W). i < length (w_providers W))"

lemma run_case_Inr:
  "run_bind r (\<lambda>s. case s of Inl e \<Rightarrow> Ret (Inl (g e)) | Inr x \<Rightarrow> f x) = Ret (Inr y) \<longleftrightarrow>
     (\<exists>x. r = Ret (Inr x) \<and> f x = Ret (Inr y))"
proof (cases r)
  case (Ret a)
  then show ?thesis by (cases a) auto
qed auto

lemma mapRules_all:
  "mapRules f xs = Ret (Inr ys) \<Longrightarrow> (\<And>x y. x \<in> set xs \<Longrightarrow> f x = Ret (Inr y) \<Longrightarrow> P y) \<Longrightarrow> \<forall>y \<in> set ys. P y"
proof (induction xs arbitrary: ys)
  case (Cons x xs)
  from Cons.prems(1) obtain y zs where "f x = Ret (Inr y)" "mapRules f xs = Ret (Inr zs)" "ys = y # zs"
    by (auto simp: run_case_Inr)
  with Cons show ?case by auto
qed simp

lemma payloadToRule_all:
  assumes "payloadToRule parse s = Ret (Inr r)"
    "\<And>tp p ps. length p < length s \<Longrightarrow> tp \<noteq> ''MATCH'' \<Longrightarrow> tp \<noteq> ''SUB-RULE'' \<Longrightarrow>
       parse tp p [] ps [] = Ret (Inr r) \<Longrightarrow> P r"
  shows "P r"
proof -
  from assms(1) obtain tp p where sp: "Split2 (CHR '','') s = [tp, p]" "tp \<noteq> ''MATCH''" "tp \<noteq> ''SUB-RULE''"
    by (auto simp: payloadToRule_def split: list.splits if_splits)
  have "length p < length s" "length (hd (Split (CHR '','') p)) < length s"
    using Split2_length [OF sp(1)] hd_Split_length [of "CHR '',''" p] by simp_all
  with assms sp show ?thesis by (auto simp: payloadToRule_def Let_def split: if_splits)
qed

lemma parsePayload_all:
  assumes "parsePayload parse s = Ret (Inr rs)"
    "\<And>tp p ps r. length p + 3 \<le> length s \<Longrightarrow> tp \<noteq> ''MATCH'' \<Longrightarrow> tp \<noteq> ''SUB-RULE'' \<Longrightarrow>
       parse tp p [] ps [] = Ret (Inr r) \<Longrightarrow> P r"
  shows "\<forall>r \<in> set rs. P r"
proof -
  from assms(1) obtain all where f: "format s = Inr all"
    "mapRules (\<lambda>r. payloadToRule parse (between s r)) (findSubRuleRange s all) = Ret (Inr rs)"
    by (auto simp: parsePayload_def split: if_splits sum.splits)
  show ?thesis
  proof (rule mapRules_all [OF f(2)])
    fix x y
    assume x: "x \<in> set (findSubRuleRange s all)" and y: "payloadToRule parse (between s x) = Ret (Inr y)"
    show "P y"
    proof (rule payloadToRule_all [OF y])
      fix tp p ps
      assume a: "length p < length (between s x)" "tp \<noteq> ''MATCH''" "tp \<noteq> ''SUB-RULE''" "parse tp p [] ps [] = Ret (Inr y)"
      have "length p + 3 \<le> length s" using length_between [OF f(1) x] a(1) by auto
      from this a(2-4) show "P y" by (rule assms(2))
    qed
  qed
qed

lemma withRules_Inr:
  "withRules r f = Ret (Inr y) \<longleftrightarrow> (\<exists>rules. r = Ret (Inr rules) \<and> f rules = Inr y)"
proof (cases r)
  case (Ret a)
  then show ?thesis by (cases a) (auto simp: withRules_def)
qed (auto simp: withRules_def)

definition new_ok :: "nat \<Rightarrow> RuleType \<Rightarrow> string \<Rightarrow> 'r Rule \<Rightarrow> bool" where
  "new_ok n t a r \<longleftrightarrow> wf_rule n r \<and> RuleType_of r = t \<and> Adapter r = a"

lemma new_ok_plain:
  "new_ok n RT_Domain a (NewDomain p a)" "new_ok n RT_DomainSuffix a (NewDomainSuffix p a)"
  "new_ok n RT_DomainKeyword a (NewDomainKeyword p a)" "new_ok n RT_Process a (NewProcess p a True)"
  "new_ok n RT_ProcessPath a (NewProcess p a False)" "new_ok n RT_InUser a (NewInUser p a)"
  "new_ok n RT_InName a (NewInName p a)" "new_ok n RT_MATCH a (MatchR a)"
  by (simp_all add: new_ok_def NewDomain_def NewDomainSuffix_def NewDomainKeyword_def NewProcess_def
      NewInUser_def NewInName_def)

lemma new_ok_sum:
  "NewIPCIDR E p a src nr = Inr r \<Longrightarrow> new_ok n (if src then RT_SrcIPCIDR else RT_IPCIDR) a r"
  "NewIPSuffix E p a src nr = Inr r \<Longrightarrow> new_ok n (if src then RT_SrcIPSuffix else RT_IPSuffix) a r"
  "NewPort p a t = Inr r \<Longrightarrow> t = RT_SrcPort \<or> t = RT_DstPort \<or> t = RT_InPort \<Longrightarrow> new_ok n t a r"
  "NewNetworkType p a = Inr r \<Longrightarrow> new_ok n RT_Network a r"
  "NewUid E p a = Inr r \<Longrightarrow> new_ok n RT_Uid a r" "NewInType p a = Inr r \<Longrightarrow> new_ok n RT_InType a r"
  by (auto simp: new_ok_def NewIPCIDR_def NewIPSuffix_def NewPort_eq NewNetworkType_def NewUid_def NewInType_def
      split: if_splits option.splits sum.splits)

lemma new_ok_run:
  "NewGEOSITE E p a = Ret (Inr r) \<Longrightarrow> new_ok n RT_GEOSITE a r"
  "NewGEOIP E p a nr = Ret (Inr r) \<Longrightarrow> new_ok n RT_GEOIP a r"
  by (auto simp: new_ok_def NewGEOSITE_def NewGEOIP_def run_case_Inr split: if_splits)

lemma new_ok_set: "world_ok W \<Longrightarrow> NewRuleSet W p a nr = Inr r \<Longrightarrow> new_ok (length (w_providers W)) RT_RuleSet a r"
  by (auto simp: new_ok_def NewRuleSet_def world_ok_def dest!: map_of_SomeD split: option.splits)

lemmas new_ok_cidr = new_ok_sum(1) [of _ _ _ False, simplified] new_ok_sum(1) [of _ _ _ True, simplified]
  new_ok_sum(2) [of _ _ _ False, simplified] new_ok_sum(2) [of _ _ _ True, simplified]

lemma if_eqE: "(if b then x else y) = z \<Longrightarrow> (b \<Longrightarrow> x = z \<Longrightarrow> Q) \<Longrightarrow> (\<not> b \<Longrightarrow> y = z \<Longrightarrow> Q) \<Longrightarrow> Q"
  by (cases b) auto

lemma simpleRule_ok:
  assumes "world_ok W" "simpleRule E W tp payload target params = Ret (Inr r)"
  shows "\<exists>t. map_of rule_type_names tp = Some t \<and> new_ok (length (w_providers W)) t target r"
  using assms(2) unfolding simpleRule_def run.inject
  by (elim if_eqE disjE; (simp only: run.inject sum.inject sum.distinct)?;
      simp add: rule_type_names_def new_ok_plain;
      auto intro: new_ok_cidr new_ok_sum(3-6) new_ok_run new_ok_set [OF assms(1)] simp: new_ok_plain)

lemma simpleRule_wf:
  assumes "world_ok W" "simpleRule E W tp payload target params = Ret (Inr r)"
  shows "wf_rule (length (w_providers W)) r \<and> map_of rule_type_names tp = Some (RuleType_of r) \<and> Adapter r = target"
  using simpleRule_ok [OF assms] by (auto simp: new_ok_def)

lemma ParseRule_kinds:
  "ParseRule E W ''SUB-RULE'' p t ps s = NewSubRule W p t s (ParseRule E W)"
  "ParseRule E W ''AND'' p t ps s = NewAND E W p t (ParseRule E W)"
  "ParseRule E W ''OR'' p t ps s = NewOR E W p t (ParseRule E W)"
  "ParseRule E W ''NOT'' p t ps s = NewNOT E W p t (ParseRule E W)"
  "tp \<noteq> ''SUB-RULE'' \<Longrightarrow> tp \<noteq> ''AND'' \<Longrightarrow> tp \<noteq> ''OR'' \<Longrightarrow> tp \<noteq> ''NOT'' \<Longrightarrow>
     ParseRule E W tp p t ps s = simpleRule E W tp p t ps"
  by (simp_all add: ParseRule.simps)

lemma ParseRule_wf:
  "ParseRule E W tp payload target params subRules = Ret (Inr r) \<Longrightarrow> world_ok W \<Longrightarrow>
     wf_rule (length (w_providers W)) r \<and> map_of rule_type_names tp = Some (RuleType_of r) \<and> Adapter r = target"
proof (induction "length payload" arbitrary: tp payload target params subRules r rule: less_induct)
  case less
  let ?wf = "\<lambda>r. wf_rule (length (w_providers W)) r \<and> RuleType_of r \<noteq> RT_SubRules \<and> RuleType_of r \<noteq> RT_MATCH"
  have sub: "\<forall>r \<in> set rs. ?wf r" if "parsePayload (ParseRule E W) s = Ret (Inr rs)" "length s \<le> length payload + 2" for s rs
  proof (rule parsePayload_all [OF that(1)])
    fix tp' p ps r'
    assume a: "length p + 3 \<le> length s" "tp' \<noteq> ''MATCH''" "tp' \<noteq> ''SUB-RULE''" "ParseRule E W tp' p [] ps [] = Ret (Inr r')"
    have "length p < length payload" using a(1) that(2) by simp
    from less.hyps [OF this a(4) less.prems(2)] a(2,3) show "?wf r'"
      by (auto simp: rule_type_names_def split: if_splits)
  qed
  consider "tp = ''SUB-RULE''" | "tp = ''AND''" | "tp = ''OR''" | "tp = ''NOT''"
    | "tp \<noteq> ''SUB-RULE''" "tp \<noteq> ''AND''" "tp \<noteq> ''OR''" "tp \<noteq> ''NOT''" by blast
  then show ?case
  proof cases
    case 1
    with less.prems obtain rs where "parsePayload (ParseRule E W) (''('' @ payload @ '')'') = Ret (Inr rs)"
      "length rs = 1" "\<exists>ip pr. r = LogicR payload target RT_SubRules rs ip pr"
      by (auto simp: ParseRule_kinds NewSubRule_def withRules_Inr split: if_splits)
    with sub [OF this(1)] 1 show ?thesis by (auto simp: rule_type_names_def)
  next
    case 2
    with less.prems obtain rs where "parsePayload (ParseRule E W) payload = Ret (Inr rs)"
      "\<exists>p ip pr. r = LogicR p target RT_AND rs ip pr"
      by (auto simp: ParseRule_kinds NewAND_def withRules_Inr)
    with sub [OF this(1)] 2 show ?thesis by (auto simp: rule_type_names_def)
  next
    case 3
    with less.prems obtain rs where "parsePayload (ParseRule E W) payload = Ret (Inr rs)"
      "\<exists>p ip pr. r = LogicR p target RT_OR rs ip pr"
      by (auto simp: ParseRule_kinds NewOR_def withRules_Inr)
    with sub [OF this(1)] 3 show ?thesis by (auto simp: rule_type_names_def)
  next
    case 4
    with less.prems obtain rs where "parsePayload (ParseRule E W) payload = Ret (Inr rs)"
      "length rs = 1" "\<exists>p ip pr. r = LogicR p target RT_NOT rs ip pr"
      by (auto simp: ParseRule_kinds NewNOT_def withRules_Inr split: if_splits)
    with sub [OF this(1)] 4 show ?thesis by (auto simp: rule_type_names_def)
  next
    case 5
    with less.prems simpleRule_wf show ?thesis by (simp add: ParseRule_kinds)
  qed
qed

text \<open>C23: a text that parses to a rule gives a rule of the type its first field names and with the proxy
  it was given, in which every logic rule has the number of rules its kind needs, no SUB-RULE and no
  MATCH lies below a logic rule, and every rule set has its provider.\<close>

theorem parse_rule_wf:
  assumes "ParseRule E W tp payload target params subRules = Ret (Inr r)" "world_ok W"
  shows "wf_rule (length (w_providers W)) r \<and> map_of rule_type_names tp = Some (RuleType_of r) \<and> Adapter r = target"
  by (rule ParseRule_wf [OF assms])

section \<open>Surroundings for examples\<close>

definition example_world :: "string world" where
  "example_world = \<lparr>w_sub = [], w_registry = [], w_providers = [], w_bitmap = bitmap_pkg, w_ParseCIDR = (\<lambda>_. None)\<rparr>"

lemma parse_rule_wf_witness:
  "\<exists>r. ParseRule example_env example_world ''NOT'' ''((DOMAIN,a.b))'' ''P'' [] [] = Ret (Inr r) \<and>
     wf_rule 0 r \<and> RuleType_of r = RT_NOT \<and> Adapter r = ''P''"
proof -
  let ?r = "LogicR ''(!(Domain,a.b))'' ''P'' RT_NOT [DomainR ''a.b'' []] False False :: string Rule"
  have p: "ParseRule example_env example_world ''NOT'' ''((DOMAIN,a.b))'' ''P'' [] [] = Ret (Inr ?r)"
    by code_simp
  have "world_ok example_world" by (simp add: world_ok_def example_world_def)
  with parse_rule_wf [OF p] p show ?thesis by (auto simp: example_world_def)
qed

end
