(* ===== verification/RuleProvider.thy ===== *)
theory RuleProvider imports RuleLogic begin

text \<open>
  \<^verbatim>\<open>rules/provider/*.go\<close>: the three strategies a rule provider keeps its rules in, and the reading of
  the file or download that fills one. The YAML library is a parameter: it reads a text into the
  two fields of \<^verbatim>\<open>RulePayload\<close>, which keep what they held where the text does not set them.
\<close>

section \<open>Strategies\<close>

definition newStrategy :: "RuleBehavior \<Rightarrow> 'r strategy" where
  "newStrategy behavior =
     (case behavior of
        B_Domain \<Rightarrow> DomainS 0 None None
      | B_IPCIDR \<Rightarrow> IPCidrS 0 False None
      | B_Classical \<Rightarrow> ClassicalS [] 0 False False)"

fun strategy_Reset :: "'r strategy \<Rightarrow> 'r strategy" where
  "strategy_Reset (ClassicalS _ _ _ _) = ClassicalS [] 0 False False"
| "strategy_Reset (DomainS _ _ _) = DomainS 0 (Some New) None"
| "strategy_Reset (IPCidrS _ _ _) = IPCidrS 0 False (Some NewIpCidrTrie)"

definition ruleParse :: "string \<Rightarrow> string \<times> string \<times> string list" where
  "ruleParse ruleRaw =
     (case Split (CHR '','') ruleRaw of
        [] \<Rightarrow> ([], [], [])
      | [p] \<Rightarrow> ([], p, [])
      | [tp, p] \<Rightarrow> (tp, p, [])
      | tp # p # params \<Rightarrow> (tp, p, params))"

text \<open>The parser a classical strategy is made with.\<close>

definition classical_parse ::
    "'r parser \<Rightarrow> string \<Rightarrow> string \<Rightarrow> string \<Rightarrow> string list \<Rightarrow> (rule_error + 'r Rule) run" where
  "classical_parse parse tp payload target params =
     (if tp = ''MATCH'' \<or> tp = ''SUB-RULE'' then Ret (Inl RuleSetUnsupported)
      else parse tp payload target params [])"

definition classical_Insert ::
    "'r world \<Rightarrow> 'r parser \<Rightarrow> string \<Rightarrow> 'r Rule list \<Rightarrow> nat \<Rightarrow> bool \<Rightarrow> bool \<Rightarrow> 'r strategy run" where
  "classical_Insert W parse rule rules cnt ip process =
     (let (ruleType, rule, params) = ruleParse rule;
          process = (if ruleType = ''PROCESS-NAME'' then True else process)
      in run_bind (classical_parse parse ruleType rule [] params) (\<lambda>r. Ret (case r of
           Inl _ \<Rightarrow> ClassicalS rules cnt ip process
         | Inr r \<Rightarrow> ClassicalS (rules @ [r]) (cnt + 1) (if ShouldResolveIP W r then True else ip)
             (if ShouldFindProcess W r then True else process))))"

definition domain_Insert ::
    "string \<Rightarrow> nat \<Rightarrow> unit DomainTrie option \<Rightarrow> DomainSet option \<Rightarrow> 'r strategy run" where
  "domain_Insert rule cnt domainTrie domainSet =
     (case domainTrie of
        None \<Rightarrow> Panic
      | Some t \<Rightarrow> Ret (case Insert rule () t of
            Inl _ \<Rightarrow> DomainS cnt domainTrie domainSet
          | Inr t' \<Rightarrow> DomainS (cnt + 1) (Some t') domainSet))"

definition ipcidr_Insert :: "'r world \<Rightarrow> string \<Rightarrow> nat \<Rightarrow> bool \<Rightarrow> IpCidrTrie option \<Rightarrow> 'r strategy run" where
  "ipcidr_Insert W rule cnt ip trie =
     (case trie of
        None \<Rightarrow> Panic
      | Some t \<Rightarrow> run_bind (run_of (AddIpCidrForString (w_ParseCIDR W) rule t)) (\<lambda>r. Ret (case r of
            Inl _ \<Rightarrow> IPCidrS cnt ip trie
          | Inr t' \<Rightarrow> IPCidrS (cnt + 1) True (Some t'))))"

fun strategy_Insert :: "'r world \<Rightarrow> 'r parser \<Rightarrow> string \<Rightarrow> 'r strategy \<Rightarrow> 'r strategy run" where
  "strategy_Insert W parse rule (ClassicalS rules cnt ip process) =
     classical_Insert W parse rule rules cnt ip process"
| "strategy_Insert W parse rule (DomainS cnt t s) = domain_Insert rule cnt t s"
| "strategy_Insert W parse rule (IPCidrS cnt ip t) = ipcidr_Insert W rule cnt ip t"

fun strategy_FinishInsert :: "'r strategy \<Rightarrow> 'r strategy run" where
  "strategy_FinishInsert (DomainS cnt t s) =
     (case t of
        None \<Rightarrow> Panic
      | Some t \<Rightarrow> run_bind (run_of (NewDomainSet t)) (\<lambda>s. Ret (DomainS cnt None s)))"
| "strategy_FinishInsert s = Ret s"

section \<open>Reading\<close>

record RulePayload =
  rp_Payload :: "string list"
  rp_Rules :: "string list"

datatype provider_error = ErrNoPayload | UnsupportedBehavior string | UnsupportedFormat string | UnsupportedVehicle string

text \<open>\<^verbatim>\<open>yaml.Unmarshal\<close> into a structure: whether it failed, and the structure afterwards.\<close>

type_synonym yaml = "string \<Rightarrow> RulePayload \<Rightarrow> bool \<times> RulePayload"

definition nextLine :: "string \<Rightarrow> string \<times> string" where
  "nextLine buf =
     (case IndexByte (CHR 0x0A) buf of
        Some i \<Rightarrow> (take (i + 1) buf, drop (i + 1) buf)
      | None \<Rightarrow> (buf, []))"

text \<open>The rule a line holds, if any, and the buffer, its length and the structure after the line.\<close>

definition textLine :: "string \<Rightarrow> string" where
  "textLine line =
     (let str = TrimSpace line
      in if length str = 0 \<or> str ! 0 = CHR ''#'' \<or> HasPrefix str ''//'' then [] else str)"

definition yamlLine ::
    "yaml \<Rightarrow> string \<Rightarrow> string \<Rightarrow> int \<Rightarrow> RulePayload \<Rightarrow> string \<times> string \<times> int \<times> RulePayload" where
  "yamlLine Y line firstLineBuffer firstLineLength schema =
     (let trimLine = TrimSpace line
      in if length trimLine = 0 \<or> trimLine ! 0 = CHR ''#'' then ([], firstLineBuffer, firstLineLength, schema)
         else let firstLineBuffer = firstLineBuffer @ line
              in if firstLineLength = 0 then
                   let firstLineLength = length firstLineBuffer;
                       (err, schema) = Y (firstLineBuffer @ ''  - '' @ [CHR 0x27, CHR 0x27]) schema
                   in if \<not> err \<and> (0 < length (rp_Rules schema) \<or> 0 < length (rp_Payload schema))
                      then ([], firstLineBuffer, int firstLineLength, schema)
                      else ([], [], 0, schema)
                 else
                   let (err, schema) = Y firstLineBuffer schema;
                       firstLineBuffer = take (nat firstLineLength) firstLineBuffer
                   in if err then ([], firstLineBuffer, firstLineLength, schema)
                      else let str = (if 0 < length (rp_Rules schema) then rp_Rules schema ! 0 else []);
                               str = (if 0 < length (rp_Payload schema) then rp_Payload schema ! 0 else str)
                           in (str, firstLineBuffer, firstLineLength, schema))"

lemma IndexByte_less: "IndexByte c s = Some i \<Longrightarrow> i < length s"
  by (induction s arbitrary: i) (auto split: if_splits)

lemma nextLine_shorter: "buf \<noteq> [] \<Longrightarrow> length (snd (nextLine buf)) < length buf"
  by (auto simp: nextLine_def split: option.split dest: IndexByte_less)

lemma run_bind_cong [fundef_cong]:
  "r = r' \<Longrightarrow> (\<And>a. r' = Ret a \<Longrightarrow> f a = g a) \<Longrightarrow> run_bind r f = run_bind r' g"
  by (cases r') auto

function rulesLoop ::
    "(string \<Rightarrow> 's \<Rightarrow> 's run) \<Rightarrow> ('s \<Rightarrow> 's run) \<Rightarrow> yaml \<Rightarrow> RuleFormat \<Rightarrow> string \<Rightarrow> string \<Rightarrow> int \<Rightarrow>
     RulePayload \<Rightarrow> 's \<Rightarrow> (provider_error + 's) run" where
  "rulesLoop ins fin Y fmt buf firstLineBuffer firstLineLength schema s =
     (if buf = [] then run_bind (fin s) (\<lambda>s. Ret (Inr s))
      else if CHR 0x0A \<notin> set buf \<and> firstLineLength = 0 then Ret (Inl ErrNoPayload)
      else let (line, rest) = nextLine buf;
               (str, firstLineBuffer, firstLineLength, schema) =
                 (case fmt of
                    TextRule \<Rightarrow> (textLine line, firstLineBuffer, -1, schema)
                  | YamlRule \<Rightarrow> yamlLine Y line firstLineBuffer firstLineLength schema)
           in if str = [] then rulesLoop ins fin Y fmt rest firstLineBuffer firstLineLength schema s
              else run_bind (ins str s)
                (\<lambda>s. rulesLoop ins fin Y fmt rest firstLineBuffer firstLineLength schema s))"
  by pat_completeness auto

termination
  by (relation "measure (\<lambda>(_, _, _, _, buf, _). length buf)") (auto dest: nextLine_shorter simp: prod_eq_iff)

declare rulesLoop.simps [simp del]

definition rulesParse ::
    "'r world \<Rightarrow> 'r parser \<Rightarrow> yaml \<Rightarrow> string \<Rightarrow> 'r strategy \<Rightarrow> RuleFormat \<Rightarrow> (provider_error + 'r strategy) run" where
  "rulesParse W parse Y buf strategy fmt =
     rulesLoop (strategy_Insert W parse) strategy_FinishInsert Y fmt buf [] 0
       \<lparr>rp_Payload = [], rp_Rules = []\<rparr> (strategy_Reset strategy)"

section \<open>Providers\<close>

datatype vehicle = FileVehicle string | HTTPVehicle string string

record ruleProviderSchema =
  sc_Type :: string
  sc_Behavior :: string
  sc_Path :: string
  sc_URL :: string
  sc_Format :: string
  sc_Interval :: int

text \<open>From the decoded schema to the provider, its update interval in nanoseconds and its vehicle;
  \<open>resolve\<close> is the resolution of paths against the home directory.\<close>

definition NewRuleSetProvider :: "string \<Rightarrow> RuleBehavior \<Rightarrow> RuleFormat \<Rightarrow> 'r provider" where
  "NewRuleSetProvider name behavior fmt =
     \<lparr>p_name = name, p_behavior = behavior, p_format = fmt, p_strategy = newStrategy behavior\<rparr>"

definition ParseRuleProvider ::
    "(string \<Rightarrow> string) \<Rightarrow> string \<Rightarrow> ruleProviderSchema \<Rightarrow> provider_error + 'r provider \<times> 64 word \<times> vehicle" where
  "ParseRuleProvider resolve name schema =
     (case (if sc_Behavior schema = ''domain'' then Some B_Domain
            else if sc_Behavior schema = ''ipcidr'' then Some B_IPCIDR
            else if sc_Behavior schema = ''classical'' then Some B_Classical else None) of
        None \<Rightarrow> Inl (UnsupportedBehavior (sc_Behavior schema))
      | Some behavior \<Rightarrow>
        (case (if sc_Format schema = [] \<or> sc_Format schema = ''yaml'' then Some YamlRule
               else if sc_Format schema = ''text'' then Some TextRule else None) of
           None \<Rightarrow> Inl (UnsupportedFormat (sc_Format schema))
         | Some fmt \<Rightarrow>
           let path = resolve (sc_Path schema)
           in case (if sc_Type schema = ''file'' then Some (FileVehicle path)
                    else if sc_Type schema = ''http'' then Some (HTTPVehicle (sc_URL schema) path) else None) of
             None \<Rightarrow> Inl (UnsupportedVehicle (sc_Type schema))
           | Some vehicle \<Rightarrow>
               Inr (NewRuleSetProvider name behavior fmt, word_of_int (sc_Interval schema) * 1000000000, vehicle)))"

definition OnUpdate :: "'r strategy \<Rightarrow> 'r provider \<Rightarrow> 'r provider" where
  "OnUpdate strategy rp = rp\<lparr>p_strategy := strategy\<rparr>"

text \<open>The provider of a position is replaced when its contents are loaded; a name is registered with a
  new position, and rules that were made before keep the old one.\<close>

definition updateProvider :: "nat \<Rightarrow> 'r strategy \<Rightarrow> 'r world \<Rightarrow> 'r world" where
  "updateProvider i strategy W =
     W\<lparr>w_providers := (w_providers W)[i := OnUpdate strategy (w_providers W ! i)]\<rparr>"

definition SetRuleProvider :: "'r provider \<Rightarrow> 'r world \<Rightarrow> 'r world" where
  "SetRuleProvider rp W =
     W\<lparr>w_registry := map_put (p_name rp) (length (w_providers W)) (w_registry W), w_providers := w_providers W @ [rp]\<rparr>"

section \<open>What filling a strategy gives\<close>

fun inserts :: "(string \<Rightarrow> 's \<Rightarrow> 's run) \<Rightarrow> string list \<Rightarrow> 's \<Rightarrow> 's run" where
  "inserts ins [] s = Ret s"
| "inserts ins (x # xs) s = run_bind (ins x s) (inserts ins xs)"

text \<open>What \<^verbatim>\<open>rulesParse\<close> hands to \<^verbatim>\<open>Insert\<close>, one after the other: the same loop on a strategy that only keeps what it is given.\<close>

definition rulesRead :: "yaml \<Rightarrow> RuleFormat \<Rightarrow> string \<Rightarrow> (provider_error + string list) run" where
  "rulesRead Y fmt buf =
     rulesLoop (\<lambda>x xs. Ret (xs @ [x])) Ret Y fmt buf [] 0 \<lparr>rp_Payload = [], rp_Rules = []\<rparr> []"

lemma rulesLoop_reads:
  "rulesLoop ins fin Y fmt buf flb fll sc s = Ret (Inr s') \<Longrightarrow>
     \<exists>ls s0. (\<forall>acc. rulesLoop (\<lambda>x xs. Ret (xs @ [x])) Ret Y fmt buf flb fll sc acc = Ret (Inr (acc @ ls))) \<and>
       inserts ins ls s = Ret s0 \<and> fin s0 = Ret s'"
proof (induction "length buf" arbitrary: s buf flb fll sc rule: less_induct)
  case less
  show ?case
  proof (cases "buf = []")
    case True
    with less.prems show ?thesis
      by (intro exI [of _ "[]"]) (auto simp: rulesLoop.simps run_bind_Ret)
  next
    case False
    obtain line rest where l: "nextLine buf = (line, rest)" by fastforce
    obtain str flb' fll' sc' where p: "(case fmt of
        TextRule \<Rightarrow> (textLine line, flb, -1, sc) | YamlRule \<Rightarrow> yamlLine Y line flb fll sc) = (str, flb', fll', sc')"
      by (metis prod_cases4)
    have r: "length rest < length buf" using nextLine_shorter [OF False] l by simp
    note IH = less.hyps [OF r]
    have go: "\<not> (CHR 0x0A \<notin> set buf \<and> fll = 0)"
      using less.prems False by (subst (asm) rulesLoop.simps) (auto split: if_splits)
    have step: "rulesLoop i f Y fmt buf flb fll sc x =
        (if str = [] then rulesLoop i f Y fmt rest flb' fll' sc' x
         else run_bind (i str x) (rulesLoop i f Y fmt rest flb' fll' sc'))" for i f and x :: 'z
      using False go l p by (subst rulesLoop.simps) (auto simp: Let_def)
    show ?thesis
    proof (cases "str = []")
      case True
      with IH [of flb' fll' sc' s] less.prems show ?thesis by (simp add: step)
    next
      case False
      with less.prems obtain s1 where s1: "ins str s = Ret s1" "rulesLoop ins fin Y fmt rest flb' fll' sc' s1 = Ret (Inr s')"
        by (auto simp: run_bind_Ret step)
      from IH [OF s1(2)] obtain ls s0 where
        "\<And>acc. rulesLoop (\<lambda>x xs. Ret (xs @ [x])) Ret Y fmt rest flb' fll' sc' acc = Ret (Inr (acc @ ls))"
        "inserts ins ls s1 = Ret s0" "fin s0 = Ret s'" by blast
      with False s1(1) show ?thesis by (intro exI [of _ "str # ls"] exI [of _ s0]) (simp add: step)
    qed
  qed
qed

text \<open>The contract of the interface \<^verbatim>\<open>ruleStrategy\<close> with \<^verbatim>\<open>rulesParse\<close>, its client: \<open>holds xs s\<close> says that
  \<open>s\<close> was made by inserting \<open>xs\<close> after a reset, \<open>filled xs s\<close> that it was finished.\<close>

locale rule_strategy =
  fixes ins :: "string \<Rightarrow> 's \<Rightarrow> 's run" and fin :: "'s \<Rightarrow> 's run" and start :: 's
    and holds :: "string list \<Rightarrow> 's \<Rightarrow> bool" and filled :: "string list \<Rightarrow> 's \<Rightarrow> bool"
  assumes holds_start: "holds [] start"
    and holds_ins: "holds xs s \<Longrightarrow> ins x s = Ret s' \<Longrightarrow> holds (xs @ [x]) s'"
    and holds_fin: "holds xs s \<Longrightarrow> fin s = Ret s' \<Longrightarrow> filled xs s'"
begin

lemma holds_inserts: "holds xs s \<Longrightarrow> inserts ins ls s = Ret s0 \<Longrightarrow> holds (xs @ ls) s0"
proof (induction ls arbitrary: xs s)
  case (Cons l ls)
  then obtain s1 where "ins l s = Ret s1" "inserts ins ls s1 = Ret s0" by (auto simp: run_bind_Ret)
  with Cons.IH [OF holds_ins [OF Cons.prems(1)]] show ?case by fastforce
qed simp

lemma filled_parse:
  assumes "rulesLoop ins fin Y fmt buf [] 0 \<lparr>rp_Payload = [], rp_Rules = []\<rparr> start = Ret (Inr s')"
  shows "\<exists>ls. rulesRead Y fmt buf = Ret (Inr ls) \<and> filled ls s'"
proof -
  from rulesLoop_reads [OF assms] obtain ls s0 where
    "\<And>acc. rulesLoop (\<lambda>x xs. Ret (xs @ [x])) Ret Y fmt buf [] 0 \<lparr>rp_Payload = [], rp_Rules = []\<rparr> acc = Ret (Inr (acc @ ls))"
    "inserts ins ls start = Ret s0" "fin s0 = Ret s'" by blast
  moreover from this(2) have "holds ls s0" using holds_inserts [OF holds_start] by fastforce
  ultimately show ?thesis using holds_fin [of ls s0] by (auto simp: rulesRead_def)
qed

end

definition classical_rules :: "'r parser \<Rightarrow> string list \<Rightarrow> 'r Rule list" where
  "classical_rules parse xs = concat (map (\<lambda>x. let (tp, p, ps) = ruleParse x
     in case classical_parse parse tp p [] ps of Ret (Inr r) \<Rightarrow> [r] | _ \<Rightarrow> []) xs)"

definition classical_holds :: "'r world \<Rightarrow> 'r parser \<Rightarrow> string list \<Rightarrow> 'r strategy \<Rightarrow> bool" where
  "classical_holds W parse xs s \<longleftrightarrow> (let rs = classical_rules parse xs in
     s = ClassicalS rs (length rs) (list_ex (ShouldResolveIP W) rs)
       (list_ex (ShouldFindProcess W) rs \<or> list_ex (\<lambda>x. fst (ruleParse x) = ''PROCESS-NAME'') xs))"

interpretation classical: rule_strategy "strategy_Insert W parse" strategy_FinishInsert
    "strategy_Reset (newStrategy B_Classical)" "classical_holds W parse" "classical_holds W parse"
  for W :: "'r world" and parse
proof
  show "classical_holds W parse [] (strategy_Reset (newStrategy B_Classical))"
    by (simp add: classical_holds_def classical_rules_def newStrategy_def)
next
  fix xs s x s'
  assume h: "classical_holds W parse xs s" and i: "strategy_Insert W parse x s = Ret s'"
  obtain tp p ps where x: "ruleParse x = (tp, p, ps)" by (metis prod_cases3)
  have snoc: "classical_rules parse (xs @ [x]) = classical_rules parse xs @
      (case classical_parse parse tp p [] ps of Ret (Inr r) \<Rightarrow> [r] | _ \<Rightarrow> [])"
    by (simp add: classical_rules_def x)
  from h i x obtain r where r: "classical_parse parse tp p [] ps = Ret r"
    by (auto simp: classical_holds_def classical_Insert_def Let_def elim: run_bind.elims)
  show "classical_holds W parse (xs @ [x]) s'"
    using h i x r by (cases r) (auto simp: classical_holds_def classical_Insert_def Let_def snoc)
next
  fix xs s s'
  assume "classical_holds W parse xs s" "strategy_FinishInsert s = Ret s'"
  then show "classical_holds W parse xs s'" by (auto simp: classical_holds_def Let_def)
qed

fun domain_trie_of :: "string list \<Rightarrow> nat \<times> unit DomainTrie \<Rightarrow> nat \<times> unit DomainTrie" where
  "domain_trie_of [] nt = nt"
| "domain_trie_of (x # xs) (n, t) =
     domain_trie_of xs (case Insert x () t of Inl _ \<Rightarrow> (n, t) | Inr t' \<Rightarrow> (n + 1, t'))"

lemma domain_trie_snoc:
  "domain_trie_of (xs @ [x]) nt =
     (case domain_trie_of xs nt of (n, t) \<Rightarrow> case Insert x () t of Inl _ \<Rightarrow> (n, t) | Inr t' \<Rightarrow> (n + 1, t'))"
  by (induction xs nt rule: domain_trie_of.induct) (auto split: prod.split)

interpretation domain: rule_strategy "strategy_Insert W parse" strategy_FinishInsert
    "strategy_Reset (newStrategy B_Domain) :: 'r strategy"
    "\<lambda>xs s. \<exists>n t. domain_trie_of xs (0, New) = (n, t) \<and> s = DomainS n (Some t) None"
    "\<lambda>xs s. \<exists>n t S. domain_trie_of xs (0, New) = (n, t) \<and> NewDomainSet t = Some S \<and> s = DomainS n None S"
  for W :: "'r world" and parse
proof
  fix xs s x and s' :: "'r strategy"
  assume "\<exists>n t. domain_trie_of xs (0, New) = (n, t) \<and> s = DomainS n (Some t) None"
    and "strategy_Insert W parse x s = Ret s'"
  then show "\<exists>n t. domain_trie_of (xs @ [x]) (0, New) = (n, t) \<and> s' = DomainS n (Some t) None"
    by (auto simp: domain_trie_snoc domain_Insert_def split: sum.splits)
next
  fix xs and s s' :: "'r strategy"
  assume "\<exists>n t. domain_trie_of xs (0, New) = (n, t) \<and> s = DomainS n (Some t) None" "strategy_FinishInsert s = Ret s'"
  then obtain n t where t: "domain_trie_of xs (0, New) = (n, t)" "strategy_FinishInsert (DomainS n (Some t) None) = Ret s'" by blast
  then obtain S where "NewDomainSet t = Some S" by (cases "NewDomainSet t") auto
  with t show "\<exists>n t S. domain_trie_of xs (0, New) = (n, t) \<and> NewDomainSet t = Some S \<and> s' = DomainS n None S" by auto
qed (simp add: newStrategy_def)

definition cidr_holds :: "'r world \<Rightarrow> string list \<Rightarrow> nat \<Rightarrow> IpCidrTrie \<Rightarrow> bool" where
  "cidr_holds W xs n t \<longleftrightarrow> n = length (List.map_filter (w_ParseCIDR W) xs) \<and>
     addNets (List.map_filter (w_ParseCIDR W) xs) NewIpCidrTrie = Some t"

lemma map_filter_snoc: "List.map_filter f (xs @ [x]) = List.map_filter f xs @ (case f x of None \<Rightarrow> [] | Some y \<Rightarrow> [y])"
  by (induction xs) (auto simp: map_filter_simps split: option.split)

interpretation ipcidr: rule_strategy "strategy_Insert W parse" strategy_FinishInsert
    "strategy_Reset (newStrategy B_IPCIDR) :: 'r strategy"
    "\<lambda>xs s. \<exists>n t. cidr_holds W xs n t \<and> s = IPCidrS n (0 < n) (Some t)"
    "\<lambda>xs s. \<exists>n t. cidr_holds W xs n t \<and> s = IPCidrS n (0 < n) (Some t)"
  for W :: "'r world" and parse
proof
  fix xs s x and s' :: "'r strategy"
  assume "\<exists>n t. cidr_holds W xs n t \<and> s = IPCidrS n (0 < n) (Some t)"
    and i: "strategy_Insert W parse x s = Ret s'"
  then obtain n t where s: "cidr_holds W xs n t" "s = IPCidrS n (0 < n) (Some t)" by blast
  show "\<exists>n t. cidr_holds W (xs @ [x]) n t \<and> s' = IPCidrS n (0 < n) (Some t)"
  proof (cases "w_ParseCIDR W x")
    case None
    with s i show ?thesis by (auto simp: cidr_holds_def map_filter_snoc ipcidr_Insert_def AddIpCidrForString_def)
  next
    case (Some c)
    with s i show ?thesis
      by (cases "AddIpCidr c t")
        (auto simp: cidr_holds_def map_filter_snoc addNets_append ipcidr_Insert_def AddIpCidrForString_def)
  qed
qed (auto simp: newStrategy_def cidr_holds_def map_filter_simps)

text \<open>What a provider holds after the lines \<open>ls\<close> were put into it. A line of a classical provider is accepted when it
  parses to a rule, one of a domain provider when it is a valid domain, one of an ipcidr provider when it is a network.
  The set of a domain provider is the one made of the trie of exactly the accepted names.\<close>

fun strategy_holds :: "'r world \<Rightarrow> 'r parser \<Rightarrow> string list \<Rightarrow> 'r strategy \<Rightarrow> bool" where
  "strategy_holds W parse ls (ClassicalS rs n ip process) \<longleftrightarrow>
     rs = classical_rules parse ls \<and> n = length rs \<and> ip = list_ex (ShouldResolveIP W) rs \<and>
     process = (list_ex (ShouldFindProcess W) rs \<or> list_ex (\<lambda>x. fst (ruleParse x) = ''PROCESS-NAME'') ls)"
| "strategy_holds W parse ls (DomainS n t S) \<longleftrightarrow>
     (let accepted = filter (\<lambda>x. ValidAndSplitDomain x \<noteq> None) ls
      in n = length accepted \<and> t = None \<and> NewDomainSet (insert_all (map (\<lambda>x. (x, ())) accepted) New) = Some S)"
| "strategy_holds W parse ls (IPCidrS n ip t) \<longleftrightarrow>
     (let accepted = List.map_filter (w_ParseCIDR W) ls
      in n = length accepted \<and> ip = (0 < n) \<and>
         (\<exists>T. t = Some T \<and> addNets accepted NewIpCidrTrie = Some T \<and>
           ((\<forall>c \<in> set accepted. net_ok c) \<longrightarrow> (\<forall>q. IsContain q T \<longleftrightarrow> (\<exists>c \<in> set accepted. net_has c q)))))"

lemma domain_holds:
  "domain_trie_of xs (n, t) = (n + length (filter (\<lambda>x. ValidAndSplitDomain x \<noteq> None) xs),
     insert_all (map (\<lambda>x. (x, ())) (filter (\<lambda>x. ValidAndSplitDomain x \<noteq> None) xs)) t)"
proof (induction xs arbitrary: n t)
  case (Cons x xs)
  show ?case
  proof (cases "ValidAndSplitDomain x")
    case None
    with Cons show ?thesis by (simp add: Insert_def)
  next
    case (Some ps)
    obtain t' where "Insert x () t = Inr t'" using Insert_entries [OF Some, of "()" t] by blast
    with Some Cons show ?thesis by simp
  qed
qed simp

definition strategy_kind :: "'r strategy \<Rightarrow> RuleBehavior" where
  "strategy_kind s = (case s of DomainS _ _ _ \<Rightarrow> B_Domain | IPCidrS _ _ _ \<Rightarrow> B_IPCIDR | ClassicalS _ _ _ _ \<Rightarrow> B_Classical)"

lemma reset_new: "strategy_Reset s = strategy_Reset (newStrategy (strategy_kind s))"
  by (cases s) (simp_all add: newStrategy_def strategy_kind_def)

section \<open>Text files\<close>

definition text_rules :: "string \<Rightarrow> string list" where
  "text_rules buf = filter (\<lambda>s. s \<noteq> []) (map textLine (Split (CHR 0x0A) buf))"

lemma IndexByte_Split:
  "Split c s = (case IndexByte c s of None \<Rightarrow> [s] | Some i \<Rightarrow> take i s # Split c (drop (i + 1) s))"
proof (induction s)
  case (Cons x s)
  show ?case
  proof (cases "x = c")
    case False
    with Cons show ?thesis by (cases "IndexByte c s") (auto split: list.splits)
  qed simp
qed simp

lemma IndexByte_at: "IndexByte c s = Some i \<Longrightarrow> s ! i = c"
  by (induction s arbitrary: i) (auto split: if_splits)

lemma IndexByte_mem: "IndexByte c s = None \<longleftrightarrow> c \<notin> set s"
  by (induction s) auto

lemma Trim_snoc:
  assumes "x \<in> set cs"
  shows "Trim cs (s @ [x]) = Trim cs s"
proof (cases "\<forall>y \<in> set s. y \<in> set cs")
  case True
  then have "dropWhile (\<lambda>c. c \<in> set cs) s = []" by simp
  with True assms show ?thesis by (auto simp: Trim_def dropWhile_append2 dest: set_dropWhileD)
next
  case False
  then obtain y where "y \<in> set s" "y \<notin> set cs" by blast
  then have "dropWhile (\<lambda>c. c \<in> set cs) (s @ [x]) = dropWhile (\<lambda>c. c \<in> set cs) s @ [x]"
    by (simp add: dropWhile_append1)
  with assms show ?thesis by (simp add: Trim_def)
qed

lemma TrimSpace_newline: "TrimSpace (s @ [CHR 0x0A]) = TrimSpace s"
  unfolding TrimSpace_def by (rule Trim_snoc) simp

lemma textLine_newline: "textLine (s @ [CHR 0x0A]) = textLine s"
  by (simp add: textLine_def TrimSpace_newline)

lemma textLine_Nil: "textLine [] = []"
  by (simp add: textLine_def TrimSpace_def Trim_def)

lemma text_rules_nextLine:
  "buf \<noteq> [] \<Longrightarrow> nextLine buf = (line, rest) \<Longrightarrow> text_rules buf = (if textLine line = [] then [] else [textLine line]) @ text_rules rest"
proof (cases "IndexByte (CHR 0x0A) buf")
  case None
  assume "nextLine buf = (line, rest)"
  moreover have "Split (CHR 0x0A) buf = [buf]" using None IndexByte_Split [of "CHR 0x0A" buf] by simp
  ultimately show ?thesis using None by (auto simp: nextLine_def text_rules_def textLine_Nil)
next
  case (Some i)
  assume "nextLine buf = (line, rest)"
  moreover have "take (i + 1) buf = take i buf @ [CHR 0x0A]"
    using IndexByte_less [OF Some] IndexByte_at [OF Some] by (simp add: take_Suc_conv_app_nth)
  moreover have "Split (CHR 0x0A) buf = take i buf # Split (CHR 0x0A) (drop (i + 1) buf)"
    using Some IndexByte_Split [of "CHR 0x0A" buf] by simp
  ultimately show ?thesis
    using Some by (auto simp: nextLine_def text_rules_def textLine_newline)
qed

lemma text_loop:
  "fll \<noteq> 0 \<or> buf = [] \<or> CHR 0x0A \<in> set buf \<Longrightarrow>
     rulesLoop ins fin Y TextRule buf flb fll sc s =
       run_bind (inserts ins (text_rules buf) s) (\<lambda>s. run_bind (fin s) (\<lambda>s. Ret (Inr s)))"
proof (induction "length buf" arbitrary: buf fll s rule: less_induct)
  case less
  show ?case
  proof (cases "buf = []")
    case True
    then show ?thesis by (simp add: rulesLoop.simps text_rules_def textLine_Nil)
  next
    case False
    obtain line rest where l: "nextLine buf = (line, rest)" by fastforce
    have r: "length rest < length buf" using nextLine_shorter [OF False] l by simp
    note IH = less.hyps [OF r, of "-1"]
    show ?thesis
      using False less.prems l IH
      by (subst rulesLoop.simps) (cases "ins (textLine line) s", auto simp: text_rules_nextLine)
  qed
qed

text \<open>Reading a text file inserts exactly its lines, in their order, without the white space at
  their ends, the empty ones and those that begin with \<^verbatim>\<open>#\<close> or \<^verbatim>\<open>//\<close>; but a file that is one line
  without a line feed is refused, whatever the line holds.\<close>

theorem text_provider_rules:
  "rulesParse W parse Y buf strategy TextRule =
     (if buf \<noteq> [] \<and> CHR 0x0A \<notin> set buf then Ret (Inl ErrNoPayload)
      else run_bind (inserts (strategy_Insert W parse) (text_rules buf) (strategy_Reset strategy))
        (\<lambda>s. run_bind (strategy_FinishInsert s) (\<lambda>s. Ret (Inr s))))"
proof (cases "buf \<noteq> [] \<and> CHR 0x0A \<notin> set buf")
  case True
  then show ?thesis by (simp add: rulesParse_def rulesLoop.simps)
next
  case False
  then show ?thesis by (auto simp: rulesParse_def text_loop)
qed

lemma text_read: "rulesRead Y TextRule buf = Ret (Inr ls) \<Longrightarrow> ls = text_rules buf"
proof -
  assume r: "rulesRead Y TextRule buf = Ret (Inr ls)"
  have ins: "inserts (\<lambda>x xs. Ret (xs @ [x])) xs acc = Ret (acc @ xs)" for xs acc :: "string list"
    by (induction xs arbitrary: acc) simp_all
  show ?thesis
  proof (cases "buf \<noteq> [] \<and> CHR 0x0A \<notin> set buf")
    case True
    with r show ?thesis by (simp add: rulesRead_def rulesLoop.simps)
  next
    case False
    then have "rulesRead Y TextRule buf = Ret (Inr (text_rules buf))"
      by (auto simp: rulesRead_def text_loop ins)
    with r show ?thesis by simp
  qed
qed

text \<open>C13: whatever was in a strategy before, what a successful load leaves in it depends on the lines that are read
  only, \<open>ls\<close>, for a text file those of \<open>text_rules\<close>. The strategy has the kind it had; its count is the number of accepted
  lines; its contents are those of exactly the accepted lines, in a classical provider in their order; it asks
  for the resolution of names exactly when one of its rules does, or, for networks, when there is one; and it asks for the
  process exactly when one of its rules does or a line begins with \<^verbatim>\<open>PROCESS-NAME\<close>.\<close>

theorem provider_load_invariant:
  assumes "rulesParse W parse Y buf strategy fmt = Ret (Inr s)"
  shows "\<exists>ls. rulesRead Y fmt buf = Ret (Inr ls) \<and> (fmt = TextRule \<longrightarrow> ls = text_rules buf) \<and>
    strategy_kind s = strategy_kind strategy \<and> strategy_holds W parse ls s"
proof -
  note l = assms [unfolded rulesParse_def reset_new [of strategy]]
  have "\<exists>ls. rulesRead Y fmt buf = Ret (Inr ls) \<and> strategy_kind s = strategy_kind strategy \<and> strategy_holds W parse ls s"
  proof (cases "strategy_kind strategy")
    case B_Classical
    with classical.filled_parse l obtain ls where ls: "rulesRead Y fmt buf = Ret (Inr ls)" "classical_holds W parse ls s" by metis
    with B_Classical show ?thesis by (auto simp: classical_holds_def Let_def strategy_kind_def)
  next
    case B_Domain
    with domain.filled_parse [of W parse Y fmt buf s] l obtain ls n t S where ls: "rulesRead Y fmt buf = Ret (Inr ls)"
      "domain_trie_of ls (0, New) = (n, t)" "NewDomainSet t = Some S" "s = DomainS n None S" by auto
    with B_Domain show ?thesis by (auto simp: domain_holds Let_def strategy_kind_def)
  next
    case B_IPCIDR
    with ipcidr.filled_parse [of W parse Y fmt buf s] l obtain ls n t where ls: "rulesRead Y fmt buf = Ret (Inr ls)"
      "cidr_holds W ls n t" "s = IPCidrS n (0 < n) (Some t)" by auto
    moreover from ls(2) have "IsContain q t \<longleftrightarrow> (\<exists>c \<in> set (List.map_filter (w_ParseCIDR W) ls). net_has c q)"
      if "\<forall>c \<in> set (List.map_filter (w_ParseCIDR W) ls). net_ok c" for q
      using addNets_contains [OF trie_ok_New that] new_contains by (auto simp: cidr_holds_def)
    ultimately show ?thesis using B_IPCIDR by (auto simp: cidr_holds_def Let_def strategy_kind_def)
  qed
  moreover have "ls = text_rules buf" if "rulesRead Y TextRule buf = Ret (Inr ls)" for ls
    using that by (rule text_read)
  ultimately show ?thesis by (cases fmt) auto
qed

lemma provider_load_invariant_witness:
  "\<exists>s. rulesParse example_world (ParseRule example_env example_world) (\<lambda>_ p. (True, p))
       (''DOMAIN,a.b'' @ [CHR 0x0A] @ ''# x'') (newStrategy B_Classical) TextRule = Ret (Inr s) \<and>
     strategy_holds example_world (ParseRule example_env example_world) [''DOMAIN,a.b''] s \<and> strategy_Count s = 1"
proof -
  let ?buf = "''DOMAIN,a.b'' @ [CHR 0x0A] @ ''# x''"
  have t: "text_rules ?buf = [''DOMAIN,a.b'']" by code_simp
  have r: "strategy_Reset (newStrategy B_Classical) = (ClassicalS [] 0 False False :: string strategy)"
    by (simp add: newStrategy_def)
  have i: "inserts (strategy_Insert example_world (ParseRule example_env example_world)) [''DOMAIN,a.b'']
      (ClassicalS [] 0 False False) = Ret (ClassicalS [DomainR ''a.b'' []] 1 False False)"
    by code_simp
  have "rulesParse example_world (ParseRule example_env example_world) (\<lambda>_ p. (True, p)) ?buf
      (newStrategy B_Classical) TextRule = Ret (Inr (ClassicalS [DomainR ''a.b'' []] 1 False False))"
    unfolding rulesParse_def r by (subst text_loop, simp, unfold t i, simp)
  note l = this and ok = provider_load_invariant [OF this]
  from ok t have "strategy_holds example_world (ParseRule example_env example_world) [''DOMAIN,a.b'']
      (ClassicalS [DomainR ''a.b'' []] 1 False False)" by metis
  with l show ?thesis by (intro exI conjI) (assumption, assumption, simp)
qed

end
