(* ===== verification/RuleMatch.thy ===== *)
theory RuleMatch imports RuleProvider begin

text \<open>
  The evaluation of rules: \<^verbatim>\<open>Logic.Match\<close> and \<^verbatim>\<open>matchSubRules\<close> of \<^verbatim>\<open>rules/logic/logic.go\<close>, and the \<^verbatim>\<open>Match\<close>
  methods of \<^verbatim>\<open>rules/provider\<close>.

  Inside a rule the recursion follows the rule. Through the name of a list of sub-rules or the pointer
  to a provider it can come back to where it was, so these two calls take one unit each of a bound
  \<open>n\<close>; a result that is not \<open>NoFuel\<close> does not depend on the bound (\<open>Match_more_fuel\<close>).
\<close>

section \<open>Matching\<close>

fun any_run :: "('a \<Rightarrow> bool run) \<Rightarrow> 'a list \<Rightarrow> bool run" where
  "any_run f [] = Ret False"
| "any_run f (x # xs) = run_bind (f x) (\<lambda>b. if b then Ret True else any_run f xs)"

fun all_run :: "('a \<Rightarrow> bool run) \<Rightarrow> 'a list \<Rightarrow> bool run" where
  "all_run f [] = Ret True"
| "all_run f (x # xs) = run_bind (f x) (\<lambda>b. if \<not> b then Ret False else all_run f xs)"

lemma any_run_cong [fundef_cong]: "xs = ys \<Longrightarrow> (\<And>x. x \<in> set ys \<Longrightarrow> f x = g x) \<Longrightarrow> any_run f xs = any_run g ys"
  by (induction xs arbitrary: ys) (auto cong: if_cong)

lemma all_run_cong [fundef_cong]: "xs = ys \<Longrightarrow> (\<And>x. x \<in> set ys \<Longrightarrow> f x = g x) \<Longrightarrow> all_run f xs = all_run g ys"
  by (induction xs arbitrary: ys) (auto cong: if_cong)

definition fst_run :: "('a \<times> 'b) run \<Rightarrow> 'a run" where
  "fst_run r = run_bind r (\<lambda>x. Ret (fst x))"

text \<open>\<open>sub\<close> and \<open>prov\<close> are the calls through a name and through a provider.\<close>

fun evalRule ::
    "'r rule_env \<Rightarrow> (string \<Rightarrow> Metadata \<Rightarrow> (bool \<times> string) run) \<Rightarrow> (nat \<Rightarrow> Metadata \<Rightarrow> bool run) \<Rightarrow>
     'r Rule \<Rightarrow> Metadata \<Rightarrow> (bool \<times> string) run" where
  "evalRule E sub prov (LogicR payload adapter ruleType rules _ _) m =
     (case ruleType of
        RT_SubRules \<Rightarrow>
          (case rules of
             [] \<Rightarrow> Panic
           | r # _ \<Rightarrow> run_bind (fst_run (evalRule E sub prov r m)) (\<lambda>b. if b then sub adapter m else Ret (False, [])))
      | RT_NOT \<Rightarrow>
          (case rules of
             [] \<Rightarrow> Panic
           | r # _ \<Rightarrow> run_bind (fst_run (evalRule E sub prov r m)) (\<lambda>b. if \<not> b then Ret (True, adapter) else Ret (False, [])))
      | RT_OR \<Rightarrow>
          run_bind (any_run (\<lambda>r. fst_run (evalRule E sub prov r m)) rules)
            (\<lambda>b. if b then Ret (True, adapter) else Ret (False, []))
      | RT_AND \<Rightarrow>
          run_bind (all_run (\<lambda>r. fst_run (evalRule E sub prov r m)) rules)
            (\<lambda>b. if \<not> b then Ret (False, adapter) else Ret (True, adapter))
      | _ \<Rightarrow> Ret (False, []))"
| "evalRule E sub prov (RuleSetR _ adapter i _ _) m = run_bind (prov i m) (\<lambda>b. Ret (b, adapter))"
| "evalRule E sub prov r m = leaf_Match E r m"

text \<open>The loop of \<^verbatim>\<open>matchSubRules\<close>: for a rule that is itself a SUB-RULE it calls itself and drops
  what that call returns.\<close>

fun subLoop ::
    "('r Rule \<Rightarrow> (bool \<times> string) run) \<Rightarrow> (string \<Rightarrow> (bool \<times> string) run) \<Rightarrow> 'r Rule list \<Rightarrow>
     (bool \<times> string) run" where
  "subLoop match again [] = Ret (False, [])"
| "subLoop match again (rule # rules) = run_bind (match rule) (\<lambda>(b, a).
     if b then
       (if RuleType_of rule = RT_SubRules
        then run_bind (again (Adapter rule)) (\<lambda>_. subLoop match again rules)
        else Ret (b, a))
     else subLoop match again rules)"

definition domain_Match_set :: "'r world \<Rightarrow> DomainSet option \<Rightarrow> Metadata \<Rightarrow> bool run" where
  "domain_Match_set W domainSet m =
     (case domainSet of None \<Rightarrow> Ret False | Some s \<Rightarrow> run_of (Has (w_bitmap W) (Some s) (RuleHost m)))"

definition ipcidr_Match :: "IpCidrTrie option \<Rightarrow> Metadata \<Rightarrow> bool run" where
  "ipcidr_Match trie m = (case trie of None \<Rightarrow> Ret False | Some t \<Rightarrow> Ret (IsContain (AsSlice (m_DstIP m)) t))"

definition classical_Match :: "('r Rule \<Rightarrow> (bool \<times> string) run) \<Rightarrow> 'r Rule list \<Rightarrow> bool run" where
  "classical_Match match rules = any_run (\<lambda>r. fst_run (match r)) rules"

fun matchSubRules :: "'r rule_env \<Rightarrow> 'r world \<Rightarrow> nat \<Rightarrow> string \<Rightarrow> Metadata \<Rightarrow> (bool \<times> string) run"
  and provider_Match :: "'r rule_env \<Rightarrow> 'r world \<Rightarrow> nat \<Rightarrow> nat \<Rightarrow> Metadata \<Rightarrow> bool run" where
  "matchSubRules E W 0 name m = NoFuel"
| "matchSubRules E W (Suc n) name m =
     subLoop (\<lambda>r. evalRule E (matchSubRules E W n) (provider_Match E W n) r m)
       (\<lambda>name. matchSubRules E W n name m) (sub_lookup (w_sub W) name)"
| "provider_Match E W 0 i m = NoFuel"
| "provider_Match E W (Suc n) i m =
     (case getProvider W i of
        None \<Rightarrow> Panic
      | Some p \<Rightarrow>
          (case p_strategy p of
             ClassicalS rules _ _ _ \<Rightarrow>
               classical_Match (\<lambda>r. evalRule E (matchSubRules E W n) (provider_Match E W n) r m) rules
           | DomainS _ _ s \<Rightarrow> domain_Match_set W s m
           | IPCidrS _ _ t \<Rightarrow> ipcidr_Match t m))"

definition Match :: "'r rule_env \<Rightarrow> 'r world \<Rightarrow> nat \<Rightarrow> 'r Rule \<Rightarrow> Metadata \<Rightarrow> (bool \<times> string) run" where
  "Match E W n r m = evalRule E (matchSubRules E W n) (provider_Match E W n) r m"

section \<open>The bound\<close>

definition le_run :: "'a run \<Rightarrow> 'a run \<Rightarrow> bool" where
  "le_run r s \<longleftrightarrow> r = NoFuel \<or> r = s"

lemma le_run_refl [simp, intro]: "le_run r r" "le_run NoFuel r"
  by (simp_all add: le_run_def)

lemma le_run_bind: "le_run r s \<Longrightarrow> (\<And>a. le_run (f a) (g a)) \<Longrightarrow> le_run (run_bind r f) (run_bind s g)"
proof (cases r)
  case (Ret a)
  assume "le_run r s" and f: "\<And>a. le_run (f a) (g a)"
  with Ret have "s = Ret a" by (simp add: le_run_def)
  with Ret f [of a] show ?thesis by simp
qed (auto simp: le_run_def)

lemma le_run_any: "(\<And>x. x \<in> set xs \<Longrightarrow> le_run (f x) (g x)) \<Longrightarrow> le_run (any_run f xs) (any_run g xs)"
  by (induction xs) (auto intro!: le_run_bind)

lemma le_run_all: "(\<And>x. x \<in> set xs \<Longrightarrow> le_run (f x) (g x)) \<Longrightarrow> le_run (all_run f xs) (all_run g xs)"
  by (induction xs) (auto intro!: le_run_bind)

lemma evalRule_mono:
  assumes "\<And>s. le_run (sub s m) (sub' s m)" "\<And>i. le_run (prov i m) (prov' i m)"
  shows "le_run (evalRule E sub prov r m) (evalRule E sub' prov' r m)"
proof (induction r)
  case (LogicR payload adapter ruleType rules needIP needProcess)
  then have "le_run (fst_run (evalRule E sub prov r m)) (fst_run (evalRule E sub' prov' r m))" if "r \<in> set rules" for r
    using that by (auto simp: fst_run_def intro!: le_run_bind)
  then show ?case
    by (cases ruleType; cases rules)
      (auto intro!: le_run_bind assms le_run_any le_run_all)
qed (auto intro!: le_run_bind assms)

lemma subLoop_mono:
  "(\<And>r. le_run (f r) (f' r)) \<Longrightarrow> (\<And>s. le_run (g s) (g' s)) \<Longrightarrow> le_run (subLoop f g rs) (subLoop f' g' rs)"
  by (induction rs) (auto intro!: le_run_bind)

lemma jump_mono:
  "le_run (matchSubRules E W n name m) (matchSubRules E W (Suc n) name m) \<and>
   le_run (provider_Match E W n i m) (provider_Match E W (Suc n) i m)"
proof (induction n arbitrary: name i)
  case (Suc n)
  have ev: "le_run (evalRule E (matchSubRules E W n) (provider_Match E W n) r m)
      (evalRule E (matchSubRules E W (Suc n)) (provider_Match E W (Suc n)) r m)" for r
    by (rule evalRule_mono) (use Suc in blast)+
  have "le_run (matchSubRules E W (Suc n) name m) (matchSubRules E W (Suc (Suc n)) name m)"
    unfolding matchSubRules.simps(2) [of E W "Suc n" name m] matchSubRules.simps(2) [of E W n name m]
    by (rule subLoop_mono) (use ev Suc in blast)+
  moreover have "le_run (provider_Match E W (Suc n) i m) (provider_Match E W (Suc (Suc n)) i m)"
    unfolding provider_Match.simps(2) [of E W "Suc n" i m] provider_Match.simps(2) [of E W n i m]
    using ev by (auto split: option.split strategy.split simp: classical_Match_def fst_run_def
      intro!: le_run_any le_run_bind)
  ultimately show ?case ..
qed simp

lemma Match_more_fuel:
  assumes "Match E W n r m \<noteq> NoFuel"
  shows "Match E W (n + k) r m = Match E W n r m"
proof (induction k)
  case (Suc k)
  have "le_run (Match E W (n + k) r m) (Match E W (Suc (n + k)) r m)"
    unfolding Match_def using jump_mono by (intro evalRule_mono) blast+
  with Suc assms show ?case by (simp add: le_run_def)
qed simp

end
