(* ===== verification/ConfigRules.thy ===== *)
theory ConfigRules imports RuleMatch begin

text \<open>
  The rules of a configuration: \<^verbatim>\<open>parseRules\<close>, \<^verbatim>\<open>parseSubRules\<close>, \<^verbatim>\<open>verifySubRule\<close> and
  \<^verbatim>\<open>verifySubRuleCircularReferences\<close> of \<^verbatim>\<open>config/config.go\<close> and \<^verbatim>\<open>trimArr\<close> of \<^verbatim>\<open>config/utils.go\<close>.

  Maps the code walks over are association lists in the order of the walk, which Go leaves open. The
  main result is that rules whose sub-rules passed \<^verbatim>\<open>verifySubRule\<close> are evaluated in bounded
  depth.
\<close>

section \<open>Lines to rules\<close>

definition trimArr :: "string list \<Rightarrow> string list" where
  "trimArr arr = map (Trim '' '') arr"

datatype config_error =
    FormatInvalid string nat string
  | ProxyNotFound string nat string string
  | TargetNotFound string nat string string
  | RuleInvalid string nat string rule_error
  | SubRuleNameEmpty
  | SubRuleNotFound nat string string
  | CircularReferences "string list"

text \<open>Payload, target and parameters of the parts of a line. The slice of the parts between the first and
  the last panics when there is only one.\<close>

definition splitRule :: "string \<Rightarrow> string list \<Rightarrow> (string \<times> string \<times> string list) option run" where
  "splitRule ruleName rule =
     (let l = length rule
      in if ruleName = ''NOT'' \<or> ruleName = ''OR'' \<or> ruleName = ''AND'' \<or> ruleName = ''SUB-RULE'' then
           (if l - 1 < 1 then Panic
            else Ret (Some (Join '','' (take (l - 2) (drop 1 rule)), rule ! (l - 1), [])))
         else if l < 2 then Ret None
         else let rule = (if l < 4 then rule @ replicate (4 - l) [] else rule);
                  l = (if ruleName = ''MATCH'' then 2 else l);
                  (l, payload) = (if l \<ge> 3 then (3, rule ! 1) else (l, []))
              in Ret (Some (payload, rule ! (l - 1), drop l rule)))"

definition parseLine ::
    "'r rule_env \<Rightarrow> 'r world \<Rightarrow> string list \<Rightarrow> 'r sub_rules \<Rightarrow> string \<Rightarrow> nat \<Rightarrow> string \<Rightarrow>
     (config_error + 'r Rule) run" where
  "parseLine E W proxies subRules fmt i line =
     (let rule = trimArr (Split (CHR '','') line); ruleName = ToUpper (hd rule)
      in run_bind (splitRule ruleName rule) (\<lambda>s. case s of
           None \<Rightarrow> Ret (Inl (FormatInvalid fmt i line))
         | Some (payload, target, params) \<Rightarrow>
             if target \<notin> set proxies \<and> ruleName \<noteq> ''SUB-RULE'' then Ret (Inl (ProxyNotFound fmt i line target))
             else if target \<notin> set proxies \<and> map_of subRules target = None
             then Ret (Inl (TargetNotFound fmt i line target))
             else run_bind (ParseRule E W ruleName payload target (trimArr params) subRules) (\<lambda>r. Ret (case r of
                  Inl e \<Rightarrow> Inl (RuleInvalid fmt i line e)
                | Inr parsed \<Rightarrow> Inr parsed))))"

fun parseRulesLoop ::
    "(nat \<Rightarrow> string \<Rightarrow> (config_error + 'r Rule) run) \<Rightarrow> nat \<Rightarrow> string list \<Rightarrow> 'r Rule list \<Rightarrow>
     (config_error + 'r Rule list) run" where
  "parseRulesLoop parse i [] rules = Ret (Inr rules)"
| "parseRulesLoop parse i (line # lines) rules = run_bind (parse i line) (\<lambda>r. case r of
     Inl e \<Rightarrow> Ret (Inl e)
   | Inr parsed \<Rightarrow> parseRulesLoop parse (i + 1) lines (rules @ [parsed]))"

definition parseRules ::
    "'r rule_env \<Rightarrow> 'r world \<Rightarrow> string list \<Rightarrow> string list \<Rightarrow> 'r sub_rules \<Rightarrow> string \<Rightarrow>
     (config_error + 'r Rule list) run" where
  "parseRules E W rulesConfig proxies subRules fmt =
     parseRulesLoop (parseLine E W proxies subRules fmt) 0 rulesConfig []"

section \<open>Sub-rules\<close>

text \<open>\<open>dom_sub\<close> are the names of the map.\<close>

definition dom_sub :: "'r sub_rules \<Rightarrow> string set" where
  "dom_sub subRules = fst ` set subRules"

lemma finite_dom_sub [simp]: "finite (dom_sub subRules)"
  by (simp add: dom_sub_def)

lemma map_of_dom_sub: "map_of subRules n \<noteq> None \<longleftrightarrow> n \<in> dom_sub subRules"
  by (simp add: dom_sub_def map_of_eq_None_iff)

function verifySubRuleCircularReferences ::
      "'r sub_rules \<Rightarrow> string \<Rightarrow> string list \<Rightarrow> config_error option"
  and verifyLoop :: "'r sub_rules \<Rightarrow> string \<Rightarrow> string list \<Rightarrow> nat \<Rightarrow> 'r Rule list \<Rightarrow> config_error option" where
  "verifySubRuleCircularReferences subRules n arr =
     verifyLoop subRules n (arr @ [n]) 0 (sub_lookup subRules n)"
| "verifyLoop subRules n arr i [] = None"
| "verifyLoop subRules n arr i (rule # rules) =
     (if RuleType_of rule = RT_SubRules then
        (if map_of subRules (Adapter rule) = None then Some (SubRuleNotFound i n (Adapter rule))
         else if list_ex (\<lambda>c. Adapter rule = c) arr then Some (CircularReferences (arr @ [Adapter rule]))
         else case verifySubRuleCircularReferences subRules (Adapter rule) arr of
                Some e \<Rightarrow> Some e
              | None \<Rightarrow> verifyLoop subRules n arr (i + 1) rules)
      else verifyLoop subRules n arr (i + 1) rules)"
  by pat_completeness auto

termination
proof (relation "measures [\<lambda>x. case x of Inl (sub, n, arr) \<Rightarrow> card (dom_sub sub - set (arr @ [n]))
      | Inr (sub, n, arr, i, rules) \<Rightarrow> card (dom_sub sub - set arr),
    \<lambda>x. case x of Inl (sub, n, arr) \<Rightarrow> Suc (length (sub_lookup sub n)) | Inr (sub, n, arr, i, rules) \<Rightarrow> length rules]")
  fix subRules :: "'r sub_rules" and n arr i rule rules
  assume a: "map_of subRules (Adapter rule) \<noteq> None" "\<not> list_ex (\<lambda>c. Adapter rule = c) arr"
  then have "dom_sub subRules - set (arr @ [Adapter rule]) \<subset> dom_sub subRules - set arr"
    using map_of_dom_sub [of subRules "Adapter rule"] by (auto simp: list_ex_iff)
  then have "card (dom_sub subRules - set (arr @ [Adapter rule])) < card (dom_sub subRules - set arr)"
    by (intro psubset_card_mono) simp_all
  then show "(Inl (subRules, Adapter rule, arr), Inr (subRules, n, arr, i, rule # rules)) \<in> measures
     [\<lambda>x. case x of Inl (sub, n, arr) \<Rightarrow> card (dom_sub sub - set (arr @ [n]))
      | Inr (sub, n, arr, i, rules) \<Rightarrow> card (dom_sub sub - set arr),
    \<lambda>x. case x of Inl (sub, n, arr) \<Rightarrow> Suc (length (sub_lookup sub n)) | Inr (sub, n, arr, i, rules) \<Rightarrow> length rules]"
    by simp
qed auto

declare verifySubRuleCircularReferences.simps [simp del]

fun verifyNames :: "'r sub_rules \<Rightarrow> string list \<Rightarrow> config_error option" where
  "verifyNames subRules [] = None"
| "verifyNames subRules (name # names) =
     (case verifySubRuleCircularReferences subRules name [] of
        Some e \<Rightarrow> Some e
      | None \<Rightarrow> verifyNames subRules names)"

definition verifySubRule :: "'r sub_rules \<Rightarrow> config_error option" where
  "verifySubRule subRules = verifyNames subRules (map fst subRules)"

fun subRulesLoop ::
    "(string \<Rightarrow> string list \<Rightarrow> 'r sub_rules \<Rightarrow> (config_error + 'r Rule list) run) \<Rightarrow> (string \<times> string list) list \<Rightarrow>
     'r sub_rules \<Rightarrow> (config_error + 'r sub_rules) run" where
  "subRulesLoop parse [] subRules = Ret (Inr subRules)"
| "subRulesLoop parse ((name, rawRules) # raw) subRules =
     (if length name = 0 then Ret (Inl SubRuleNameEmpty)
      else run_bind (parse name rawRules subRules) (\<lambda>r. case r of
        Inl e \<Rightarrow> Ret (Inl e)
      | Inr rules \<Rightarrow> subRulesLoop parse raw (map_put name rules subRules)))"

definition parseSubRules ::
    "'r rule_env \<Rightarrow> 'r world \<Rightarrow> (string \<times> string list) list \<Rightarrow> string list \<Rightarrow>
     (config_error + 'r sub_rules) run" where
  "parseSubRules E W raw proxies =
     run_bind (subRulesLoop (\<lambda>name rawRules subRules.
         parseRules E W rawRules proxies subRules (''sub-rules['' @ name @ '']'')) raw [])
       (\<lambda>r. Ret (case r of
          Inl e \<Rightarrow> Inl e
        | Inr subRules \<Rightarrow> (case verifySubRule subRules of Some e \<Rightarrow> Inl e | None \<Rightarrow> Inr subRules)))"

section \<open>Evaluation ends\<close>

lemma run_bind_NoFuel: "run_bind r f = NoFuel \<longleftrightarrow> r = NoFuel \<or> (\<exists>a. r = Ret a \<and> f a = NoFuel)"
  by (cases r) auto

lemma run_of_NoFuel [simp]: "run_of x \<noteq> NoFuel"
  by (cases x) auto

lemma fst_run_NoFuel: "fst_run r = NoFuel \<longleftrightarrow> r = NoFuel"
  by (simp add: fst_run_def run_bind_NoFuel)

lemma any_run_NoFuel: "(\<And>x. x \<in> set xs \<Longrightarrow> f x \<noteq> NoFuel) \<Longrightarrow> any_run f xs \<noteq> NoFuel"
  by (induction xs) (auto simp: run_bind_NoFuel)

lemma all_run_NoFuel: "(\<And>x. x \<in> set xs \<Longrightarrow> f x \<noteq> NoFuel) \<Longrightarrow> all_run f xs \<noteq> NoFuel"
  by (induction xs) (auto simp: run_bind_NoFuel)

lemma suffixLoop_NoFuel [simp]: "suffixLoop a b k \<noteq> NoFuel"
  by (induction a b k rule: suffixLoop.induct) (auto split: option.splits)

lemma leaf_Match_NoFuel: "leaf_Match E r m \<noteq> NoFuel"
  by (cases r) (auto simp: GEOSITE_Match_def GEOIP_Match_def IPSuffix_Match_def run_bind_NoFuel Let_def
      split: option.splits)

text \<open>The providers a rule looks into.\<close>

fun set_refs :: "'r Rule \<Rightarrow> nat list" where
  "set_refs (LogicR _ _ _ rules _ _) = concat (map set_refs rules)"
| "set_refs (RuleSetR _ _ i _ _) = [i]"
| "set_refs _ = []"

lemma set_refs_wf: "wf_rule n r \<Longrightarrow> j \<in> set (set_refs r) \<Longrightarrow> j < n"
  by (induction r) auto

lemma evalRule_NoFuel:
  "wf_rule n r \<Longrightarrow> (RuleType_of r = RT_SubRules \<Longrightarrow> sub (Adapter r) m \<noteq> NoFuel) \<Longrightarrow>
     (\<And>i. i \<in> set (set_refs r) \<Longrightarrow> prov i m \<noteq> NoFuel) \<Longrightarrow> evalRule E sub prov r m \<noteq> NoFuel"
proof (induction r)
  case (LogicR payload adapter ruleType rules needIP needProcess)
  then have "fst_run (evalRule E sub prov r m) \<noteq> NoFuel" if "r \<in> set rules" for r
    using that by (auto simp: fst_run_NoFuel)
  with LogicR show ?case
    by (cases ruleType; cases rules) (auto simp: run_bind_NoFuel intro!: any_run_NoFuel all_run_NoFuel)
qed (simp_all add: run_bind_NoFuel leaf_Match_NoFuel del: leaf_Match.simps)

fun strategy_rules :: "'r strategy \<Rightarrow> 'r Rule list" where
  "strategy_rules (ClassicalS rules _ _ _) = rules"
| "strategy_rules _ = []"

text \<open>No classical provider leads back to itself through its rule sets: \<open>layer\<close> falls along them. Nothing
  in the code looks for such a cycle.\<close>

definition providers_layered :: "(nat \<Rightarrow> nat) \<Rightarrow> 'r world \<Rightarrow> bool" where
  "providers_layered layer W \<longleftrightarrow> list_all (\<lambda>i. list_all
     (\<lambda>r. wf_rule (length (w_providers W)) r \<and> RuleType_of r \<noteq> RT_SubRules \<and> list_all (\<lambda>j. layer j < layer i) (set_refs r))
     (strategy_rules (p_strategy (w_providers W ! i)))) [0..<length (w_providers W)]"

lemma provider_Match_NoFuel:
  "providers_layered layer W \<Longrightarrow> layer i < n \<Longrightarrow> provider_Match E W n i m \<noteq> NoFuel"
proof (induction n arbitrary: i)
  case (Suc n)
  show ?case
  proof (cases "getProvider W i")
    case (Some p)
    then have p: "i < length (w_providers W)" "p = w_providers W ! i" by (simp_all add: getProvider_def idx_Some_iff)
    have "evalRule E (matchSubRules E W n) (provider_Match E W n) r m \<noteq> NoFuel" if "r \<in> set (strategy_rules (p_strategy p))" for r
    proof (rule evalRule_NoFuel)
      have r: "wf_rule (length (w_providers W)) r \<and> RuleType_of r \<noteq> RT_SubRules \<and> (\<forall>j \<in> set (set_refs r). layer j < layer i)"
        using Suc.prems(1) p that by (simp add: providers_layered_def list_all_iff)
      then show "wf_rule (length (w_providers W)) r" ..
      from r show "RuleType_of r = RT_SubRules \<Longrightarrow> matchSubRules E W n (Adapter r) m \<noteq> NoFuel" by simp
      fix j
      assume "j \<in> set (set_refs r)"
      with r Suc.prems(2) have "layer j < n" by auto
      with Suc.IH Suc.prems(1) show "provider_Match E W n j m \<noteq> NoFuel" by blast
    qed
    with Some show ?thesis
      by (auto simp: provider_Match.simps(2) [of E W n i m] classical_Match_def fst_run_NoFuel domain_Match_set_def
          ipcidr_Match_def intro!: any_run_NoFuel split: strategy.split option.split)
  qed (simp add: provider_Match.simps(2) [of E W n i m])
qed simp

text \<open>What passing the check says of the rules of a list.\<close>

lemma verifyLoop_None:
  "verifyLoop subRules n arr i rules = None \<Longrightarrow> r \<in> set rules \<Longrightarrow> RuleType_of r = RT_SubRules \<Longrightarrow>
     Adapter r \<in> dom_sub subRules \<and> Adapter r \<notin> set arr \<and> verifySubRuleCircularReferences subRules (Adapter r) arr = None"
proof (induction rules arbitrary: i)
  case (Cons rule rules)
  then show ?case
    using map_of_dom_sub [of subRules "Adapter rule"] by (auto simp: list_ex_iff split: if_splits option.splits)
qed simp

definition sub_wf :: "'r world \<Rightarrow> bool" where
  "sub_wf W \<longleftrightarrow> list_all (\<lambda>(_, rs). list_all (wf_rule (length (w_providers W))) rs) (w_sub W)"

lemma sub_wf_lookup: "sub_wf W \<Longrightarrow> r \<in> set (sub_lookup (w_sub W) name) \<Longrightarrow> wf_rule (length (w_providers W)) r"
  by (cases "map_of (w_sub W) name") (auto simp: sub_wf_def sub_lookup_def list_all_iff dest!: map_of_SomeD)

lemma subLoop_NoFuel:
  "(\<And>r. r \<in> set rules \<Longrightarrow> match r \<noteq> NoFuel \<and> (RuleType_of r = RT_SubRules \<longrightarrow> again (Adapter r) \<noteq> NoFuel)) \<Longrightarrow>
     subLoop match again rules \<noteq> NoFuel"
  by (induction rules) (auto simp: run_bind_NoFuel)

lemma matchSubRules_NoFuel:
  assumes "sub_wf W" "providers_layered layer W" "\<And>i. i < length (w_providers W) \<Longrightarrow> layer i < R"
  shows "verifySubRuleCircularReferences (w_sub W) name arr = None \<Longrightarrow>
    card (dom_sub (w_sub W) - set (arr @ [name])) + R < n \<Longrightarrow> matchSubRules E W n name m \<noteq> NoFuel"
proof (induction n arbitrary: name arr)
  case (Suc n)
  show ?case
    unfolding matchSubRules.simps(2) [of E W n name m]
  proof (rule subLoop_NoFuel)
    fix r
    assume r: "r \<in> set (sub_lookup (w_sub W) name)"
    have wf: "wf_rule (length (w_providers W)) r" by (rule sub_wf_lookup [OF assms(1) r])
    have v: "verifyLoop (w_sub W) name (arr @ [name]) 0 (sub_lookup (w_sub W) name) = None"
      using Suc.prems(1) by (simp add: verifySubRuleCircularReferences.simps [of "w_sub W" name arr])
    have sub: "matchSubRules E W n (Adapter r) m \<noteq> NoFuel" if t: "RuleType_of r = RT_SubRules"
    proof -
      from verifyLoop_None [OF v r t] have a: "Adapter r \<in> dom_sub (w_sub W)" "Adapter r \<notin> set (arr @ [name])"
        "verifySubRuleCircularReferences (w_sub W) (Adapter r) (arr @ [name]) = None" by blast+
      then have "dom_sub (w_sub W) - set ((arr @ [name]) @ [Adapter r]) \<subset> dom_sub (w_sub W) - set (arr @ [name])" by auto
      then have "card (dom_sub (w_sub W) - set ((arr @ [name]) @ [Adapter r])) < card (dom_sub (w_sub W) - set (arr @ [name]))"
        by (intro psubset_card_mono) simp_all
      with Suc.prems(2) have "card (dom_sub (w_sub W) - set ((arr @ [name]) @ [Adapter r])) + R < n" by linarith
      from Suc.IH [OF a(3) this] show ?thesis .
    qed
    have "provider_Match E W n j m \<noteq> NoFuel" if "j \<in> set (set_refs r)" for j
    proof -
      have "j < length (w_providers W)" using set_refs_wf [OF wf that] .
      from assms(3) [OF this] Suc.prems(2) show ?thesis by (intro provider_Match_NoFuel [OF assms(2)]) linarith
    qed
    with evalRule_NoFuel [OF wf, of "matchSubRules E W n" m "provider_Match E W n" E] sub show "evalRule E (matchSubRules E W n) (provider_Match E W n) r m \<noteq> NoFuel \<and>
      (RuleType_of r = RT_SubRules \<longrightarrow> matchSubRules E W n (Adapter r) m \<noteq> NoFuel)"
      by blast
  qed
qed simp

lemma verifyNames_None:
  "verifyNames subRules names = None \<Longrightarrow> name \<in> set names \<Longrightarrow> verifySubRuleCircularReferences subRules name [] = None"
  by (induction names) (auto split: option.splits)

lemma Match_NoFuel:
  assumes "verifySubRule (w_sub W) = None" "sub_wf W" "wf_rule (length (w_providers W)) r"
    "providers_layered layer W" "\<And>i. i < length (w_providers W) \<Longrightarrow> layer i < R"
    and n: "length (w_sub W) + R < n"
  shows "Match E W n r m \<noteq> NoFuel"
  unfolding Match_def
proof (rule evalRule_NoFuel [OF assms(3)])
  show "matchSubRules E W n (Adapter r) m \<noteq> NoFuel"
  proof (cases "Adapter r \<in> dom_sub (w_sub W)")
    case True
    with assms(1) have v: "verifySubRuleCircularReferences (w_sub W) (Adapter r) [] = None"
      using verifyNames_None [of "w_sub W" "map fst (w_sub W)" "Adapter r"]
      by (simp add: verifySubRule_def dom_sub_def)
    have "card (dom_sub (w_sub W) - set ([] @ [Adapter r])) \<le> card (dom_sub (w_sub W))" by (intro card_mono) auto
    also have "\<dots> \<le> length (w_sub W)" unfolding dom_sub_def by (metis card_length length_map list.set_map)
    finally have c: "card (dom_sub (w_sub W) - set ([] @ [Adapter r])) + R < n" using n by simp
    show ?thesis by (rule matchSubRules_NoFuel [OF assms(2,4) assms(5) v c])
  next
    case False
    then have "sub_lookup (w_sub W) (Adapter r) = []"
      using map_of_dom_sub [of "w_sub W" "Adapter r"] by (simp add: sub_lookup_def)
    with n show ?thesis by (cases n) simp_all
  qed
  fix i
  assume "i \<in> set (set_refs r)"
  from assms(5) [OF set_refs_wf [OF assms(3) this]] n show "provider_Match E W n i m \<noteq> NoFuel"
    by (intro provider_Match_NoFuel [OF assms(4)]) linarith
qed

section \<open>What a configuration gives\<close>

text \<open>A rule made from a line: it is well formed and its target is a proxy or, for a SUB-RULE, possibly
  the name of a list that was already there.\<close>

definition line_ok :: "nat \<Rightarrow> string list \<Rightarrow> 'r sub_rules \<Rightarrow> 'r Rule \<Rightarrow> bool" where
  "line_ok n proxies subRules r \<longleftrightarrow> wf_rule n r \<and>
     (Adapter r \<in> set proxies \<or> RuleType_of r = RT_SubRules \<and> Adapter r \<in> dom_sub subRules)"

lemma run_map_sum:
  "run_bind r (\<lambda>s. Ret (case s of Inl e \<Rightarrow> Inl (g e) | Inr x \<Rightarrow> Inr x)) = Ret (Inr y) \<longleftrightarrow> r = Ret (Inr y)"
  by (cases r) (auto split: sum.split)

lemma parseLine_ok:
  assumes "parseLine E W proxies subRules fmt i line = Ret (Inr r)" "world_ok W"
  shows "line_ok (length (w_providers W)) proxies subRules r"
proof -
  let ?rule = "trimArr (Split (CHR '','') line)"
  let ?rn = "ToUpper (hd ?rule)"
  from assms(1) obtain s where s: "splitRule ?rn ?rule = Ret s" "(case s of
           None \<Rightarrow> Ret (Inl (FormatInvalid fmt i line))
         | Some (payload, target, params) \<Rightarrow>
             if target \<notin> set proxies \<and> ?rn \<noteq> ''SUB-RULE'' then Ret (Inl (ProxyNotFound fmt i line target))
             else if target \<notin> set proxies \<and> map_of subRules target = None
             then Ret (Inl (TargetNotFound fmt i line target))
             else run_bind (ParseRule E W ?rn payload target (trimArr params) subRules) (\<lambda>r. Ret (case r of
                  Inl e \<Rightarrow> Inl (RuleInvalid fmt i line e)
                | Inr parsed \<Rightarrow> Inr parsed))) = Ret (Inr r)"
    unfolding parseLine_def Let_def run_bind_Ret by blast
  from s(2) obtain payload target params where "s = Some (payload, target, params)"
    by (cases s) auto
  with s(2) have p: "ParseRule E W ?rn payload target (trimArr params) subRules = Ret (Inr r)"
      "target \<in> set proxies \<or> ?rn = ''SUB-RULE'' \<and> map_of subRules target \<noteq> None"
    by (auto simp: run_map_sum split: if_splits)
  from ParseRule_wf [OF p(1) assms(2)] p(2) show ?thesis
    using map_of_dom_sub [of subRules target] by (auto simp: line_ok_def rule_type_names_def)
qed

lemma parseRulesLoop_all:
  "parseRulesLoop parse i lines rules = Ret (Inr rules') \<Longrightarrow>
     (\<And>i line r. parse i line = Ret (Inr r) \<Longrightarrow> P r) \<Longrightarrow> \<forall>r \<in> set rules. P r \<Longrightarrow> \<forall>r \<in> set rules'. P r"
proof (induction parse i lines rules rule: parseRulesLoop.induct)
  case (2 parse i line lines rules)
  from "2.prems"(1) obtain r where "parse i line = Ret (Inr r)"
      "parseRulesLoop parse (i + 1) lines (rules @ [r]) = Ret (Inr rules')"
    by (auto simp: run_case_Inr [where g = "\<lambda>e. e"])
  with 2 show ?case by simp
qed simp

lemma parseRules_ok:
  assumes "parseRules E W lines proxies subRules fmt = Ret (Inr rules)" "world_ok W" "r \<in> set rules"
  shows "line_ok (length (w_providers W)) proxies subRules r"
proof -
  have "\<forall>r \<in> set rules. line_ok (length (w_providers W)) proxies subRules r"
    using assms(1) unfolding parseRules_def
    by (rule parseRulesLoop_all) (use assms(2) in \<open>auto intro: parseLine_ok\<close>)
  with assms(3) show ?thesis by blast
qed

text \<open>The same of all the lists of sub-rules, with the final map.\<close>

definition subs_ok :: "nat \<Rightarrow> string list \<Rightarrow> 'r sub_rules \<Rightarrow> bool" where
  "subs_ok n proxies subRules \<longleftrightarrow> (\<forall>(_, rs) \<in> set subRules. \<forall>r \<in> set rs. line_ok n proxies subRules r)"

lemma set_map_put: "x \<in> set (map_put k v m) \<Longrightarrow> x = (k, v) \<or> x \<in> set m"
  by (induction k v m rule: map_put.induct) (auto split: if_splits)

lemma dom_sub_put: "dom_sub (map_put k v m) = insert k (dom_sub m)"
  unfolding dom_sub_def by (rule keys_put)

lemma subRulesLoop_ok:
  "subRulesLoop parse raw subRules = Ret (Inr subRules') \<Longrightarrow>
     (\<And>name lines sub rules r. parse name lines sub = Ret (Inr rules) \<Longrightarrow> r \<in> set rules \<Longrightarrow> line_ok n proxies sub r) \<Longrightarrow>
     subs_ok n proxies subRules \<Longrightarrow> subs_ok n proxies subRules'"
proof (induction parse raw subRules rule: subRulesLoop.induct)
  case (2 parse name lines raw subRules)
  from "2.prems"(1) obtain rules where r: "length name \<noteq> 0" "parse name lines subRules = Ret (Inr rules)"
      "subRulesLoop parse raw (map_put name rules subRules) = Ret (Inr subRules')"
    by (auto simp: run_case_Inr [where g = "\<lambda>e. e"] split: if_splits)
  have "line_ok n proxies subRules r" if "r \<in> set rules" for r using "2.prems"(2) [OF r(2) that] .
  with "2.prems"(3) have "subs_ok n proxies (map_put name rules subRules)"
    by (fastforce simp: subs_ok_def line_ok_def dom_sub_put dest!: set_map_put)
  from "2.IH" [OF r(1) _ _ r(3) "2.prems"(2) this] r(2) show ?case by simp
qed simp

lemma parseSubRules_ok:
  assumes "parseSubRules E W raw proxies = Ret (Inr subRules)" "world_ok W"
  shows "subs_ok (length (w_providers W)) proxies subRules \<and> verifySubRule subRules = None"
proof -
  from assms(1) obtain sub where s: "subRulesLoop (\<lambda>name rawRules subRules.
         parseRules E W rawRules proxies subRules (''sub-rules['' @ name @ '']'')) raw [] = Ret (Inr sub)"
      "verifySubRule sub = None" "sub = subRules"
    unfolding parseSubRules_def run_bind_Ret
    by (elim exE conjE, rename_tac a, case_tac a) (simp_all split: option.splits)
  have "subs_ok (length (w_providers W)) proxies sub"
    by (rule subRulesLoop_ok [OF s(1)]) (use parseRules_ok [OF _ assms(2)] in \<open>auto simp: subs_ok_def\<close>)
  with s show ?thesis by simp
qed

lemma subs_ok_sub_wf:
  "subs_ok (length (w_providers W)) proxies sub \<Longrightarrow> sub_wf (W\<lparr>w_sub := sub\<rparr>)"
  by (auto simp: subs_ok_def sub_wf_def line_ok_def list_all_iff)

lemma providers_layered_sub [simp]: "providers_layered layer (W\<lparr>w_sub := sub\<rparr>) = providers_layered layer W"
  by (simp add: providers_layered_def)

text \<open>C4: the evaluation of a rule of an accepted configuration ends: \<open>verifySubRule\<close> lets no chain of
  sub-rules come back to a list it passed, so once the bound exceeds the number of lists and the depth
  of the rule sets (provided that these do not refer to each other in a cycle) it is not reached.\<close>

theorem configured_rules_return:
  assumes "parseSubRules E W raw proxies = Ret (Inr sub)" "world_ok W"
    "parseRules E W lines proxies sub fmt = Ret (Inr rules)" "r \<in> set rules"
    "providers_layered layer W" "\<And>i. i < length (w_providers W) \<Longrightarrow> layer i < R"
    "length sub + R < n"
  shows "Match E (W\<lparr>w_sub := sub\<rparr>) n r m \<noteq> NoFuel"
proof (rule Match_NoFuel [where layer = layer and R = R])
  note s = parseSubRules_ok [OF assms(1,2)]
  from s show "verifySubRule (w_sub (W\<lparr>w_sub := sub\<rparr>)) = None" by simp
  from s show "sub_wf (W\<lparr>w_sub := sub\<rparr>)" by (blast intro: subs_ok_sub_wf)
  from parseRules_ok [OF assms(3,2,4)] show "wf_rule (length (w_providers (W\<lparr>w_sub := sub\<rparr>))) r"
    by (simp add: line_ok_def)
qed (use assms in simp_all)

section \<open>What a match returns\<close>

lemma leaf_Match_adapter: "leaf_Match E r m = Ret (True, a) \<Longrightarrow> a = Adapter r"
  by (cases r) (auto simp: Domain_Match_def DomainSuffix_Match_def DomainKeyword_Match_def GEOSITE_Match_def
      GEOIP_Match_def IPCIDR_Match_def IPSuffix_Match_def Port_Match_def Process_Match_def NetworkType_Match_def
      Uid_Match_def InType_Match_def InUser_Match_def InName_Match_def Let_def run_bind_Ret
      split: if_splits option.splits elim!: run_of.elims)

lemma evalRule_adapter:
  "evalRule E sub prov r m = Ret (True, a) \<Longrightarrow> wf_rule n r \<Longrightarrow> RuleType_of r \<noteq> RT_SubRules \<Longrightarrow> a = Adapter r"
proof (cases r)
  case (LogicR payload adapter ruleType rules needIP needProcess)
  assume e: "evalRule E sub prov r m = Ret (True, a)" "wf_rule n r" "RuleType_of r \<noteq> RT_SubRules"
  then consider "ruleType = RT_NOT" | "ruleType = RT_OR" | "ruleType = RT_AND" using LogicR by auto
  then show ?thesis
    using e(1) LogicR by cases (auto simp: run_bind_Ret split: if_splits list.splits)
qed (auto simp: run_bind_Ret simp del: leaf_Match.simps dest: leaf_Match_adapter)

text \<open>The rule that decides in a list of sub-rules: the first that matches and is not a SUB-RULE.\<close>

definition sub_result :: "('r Rule \<Rightarrow> (bool \<times> string) run) \<Rightarrow> 'r Rule list \<Rightarrow> bool \<times> string" where
  "sub_result match rules =
     (case find (\<lambda>r. RuleType_of r \<noteq> RT_SubRules \<and> fst_run (match r) = Ret True) rules of
        None \<Rightarrow> (False, [])
      | Some r \<Rightarrow> (True, Adapter r))"

lemma find_member: "find P xs = Some x \<Longrightarrow> x \<in> set xs \<and> P x"
  by (induction xs) (auto split: if_splits)

lemma fst_run_Ret: "fst_run r = Ret b \<longleftrightarrow> (\<exists>a. r = Ret (b, a))"
  by (cases r) (auto simp: fst_run_def)

lemma subLoop_result:
  "subLoop match again rules = Ret res \<Longrightarrow>
     (\<And>r a. r \<in> set rules \<Longrightarrow> match r = Ret (True, a) \<Longrightarrow> RuleType_of r \<noteq> RT_SubRules \<Longrightarrow> a = Adapter r) \<Longrightarrow>
     res = sub_result match rules"
proof (induction rules)
  case (Cons rule rules)
  from Cons.prems(1) obtain b a where m: "match rule = Ret (b, a)"
    by (cases "match rule") auto
  have tl: "subLoop match again rules = Ret res \<Longrightarrow> res = sub_result match rules"
    using Cons.IH Cons.prems(2) by simp
  show ?case
  proof (cases "b \<and> RuleType_of rule \<noteq> RT_SubRules")
    case True
    with Cons.prems(2) [of rule a] m have "a = Adapter rule" by simp
    with True Cons.prems(1) m show ?thesis by (auto simp: sub_result_def fst_run_Ret)
  next
    case False
    then have "sub_result match (rule # rules) = sub_result match rules"
      using m by (auto simp: sub_result_def fst_run_Ret)
    with False Cons.prems(1) m tl show ?thesis by (auto simp: run_bind_Ret split: if_splits)
  qed
qed (simp add: sub_result_def)

lemma matchSubRules_result:
  assumes "matchSubRules E W n name m = Ret res" "sub_wf W"
  shows "\<exists>k. n = Suc k \<and> res = sub_result (\<lambda>r. Match E W k r m) (sub_lookup (w_sub W) name)"
proof (cases n)
  case (Suc k)
  with assms(1) have "subLoop (\<lambda>r. Match E W k r m) (\<lambda>name. matchSubRules E W k name m) (sub_lookup (w_sub W) name) = Ret res"
    by (simp add: matchSubRules.simps(2) [of E W k name m] Match_def)
  then have "res = sub_result (\<lambda>r. Match E W k r m) (sub_lookup (w_sub W) name)"
    by (rule subLoop_result) (auto simp: Match_def intro: evalRule_adapter sub_wf_lookup [OF assms(2)])
  with Suc show ?thesis by simp
qed (use assms in simp)

text \<open>C14: what a list of sub-rules decides never depends on the lists its SUB-RULE rules lead to: it is the
  first rule of the list itself, other than a SUB-RULE, that matches.\<close>

theorem nested_sub_rule_ignored:
  assumes "matchSubRules E W (Suc n) name m = Ret res" "sub_wf W"
  shows "res = sub_result (\<lambda>r. Match E W n r m) (sub_lookup (w_sub W) name)"
  using matchSubRules_result [OF assms] by simp

text \<open>C25: a match of a rule of an accepted configuration names one of the proxies it was given.\<close>

theorem configured_match_known:
  assumes "parseSubRules E W raw proxies = Ret (Inr sub)" "world_ok W"
    "parseRules E W lines proxies sub fmt = Ret (Inr rules)" "r \<in> set rules"
    "Match E (W\<lparr>w_sub := sub\<rparr>) n r m = Ret (True, a)"
  shows "a \<in> set proxies"
proof -
  let ?n = "length (w_providers W)" and ?W = "W\<lparr>w_sub := sub\<rparr>"
  note s = parseSubRules_ok [OF assms(1,2)] and r = parseRules_ok [OF assms(3,2,4)]
  have plain: "a \<in> set proxies"
    if "Match E ?W k r' m = Ret (True, a)" "line_ok ?n proxies sub r'" "RuleType_of r' \<noteq> RT_SubRules" for k r'
    using evalRule_adapter [of E _ _ r' m a ?n] that by (auto simp: Match_def line_ok_def)
  show ?thesis
  proof (cases "RuleType_of r = RT_SubRules")
    case True
    with r obtain p ad rs ip pr where lr: "r = LogicR p ad RT_SubRules rs ip pr"
      by (cases r) (auto simp: line_ok_def split: if_splits)
    with assms(5) have "matchSubRules E ?W n ad m = Ret (True, a)"
      by (auto simp: Match_def run_bind_Ret split: list.splits if_splits)
    from matchSubRules_result [OF this] s obtain k where
      k: "(True, a) = sub_result (\<lambda>r. Match E ?W k r m) (sub_lookup sub ad)"
      by (auto intro: subs_ok_sub_wf)
    then obtain r' where r': "r' \<in> set (sub_lookup sub ad)" "RuleType_of r' \<noteq> RT_SubRules"
      "fst_run (Match E ?W k r' m) = Ret True" "a = Adapter r'"
      by (auto simp: sub_result_def dest: find_member split: option.splits)
    moreover have "line_ok ?n proxies sub r'"
      using s r'(1) by (cases "map_of sub ad") (auto simp: sub_lookup_def subs_ok_def dest!: map_of_SomeD)
    ultimately show ?thesis by (auto simp: line_ok_def)
  qed (use plain [OF assms(5) r] in blast)
qed

section \<open>An example\<close>

definition example_raw :: "(string \<times> string list) list" where
  "example_raw = [(''t'', [''NETWORK,tcp,Q'']), (''s'', [''SUB-RULE,(NETWORK,tcp),t'', '' network , tcp , P''])]"

definition example_sub :: "string sub_rules" where
  "example_sub = [(''t'', [NetworkR TCP ''Q'']),
     (''s'', [LogicR ''(NETWORK,tcp)'' ''t'' RT_SubRules [NetworkR TCP []] False False, NetworkR TCP ''P''])]"

definition example_rule :: "string Rule" where
  "example_rule = LogicR ''(NETWORK,tcp)'' ''s'' RT_SubRules [NetworkR TCP []] False False"

lemma example_subs: "parseSubRules example_env example_world example_raw [''P'', ''Q''] = Ret (Inr example_sub)"
  by code_simp

lemma example_rules:
  "parseRules example_env example_world [''SUB-RULE,(NETWORK,tcp),s''] [''P'', ''Q''] example_sub ''rules'' =
     Ret (Inr [example_rule])"
  by code_simp

lemma example_world_ok: "world_ok example_world" "providers_layered layer example_world"
  "length (w_providers example_world) = 0"
  by (simp_all add: world_ok_def example_world_def providers_layered_def)

lemma example_match:
  "Match example_env (example_world\<lparr>w_sub := example_sub\<rparr>) 3 example_rule (example_metadata\<lparr>m_NetWork := TCP\<rparr>) = Ret (True, ''P'')"
  by code_simp

lemma configured_rules_return_witness:
  "Match example_env (example_world\<lparr>w_sub := example_sub\<rparr>) 3 example_rule example_metadata \<noteq> NoFuel"
  by (rule configured_rules_return [OF example_subs example_world_ok(1) example_rules _ example_world_ok(2), where R = 0])
    (simp_all add: example_sub_def example_world_ok)

lemma configured_match_known_witness:
  "''P'' \<in> set [''P'', ''Q'']"
  by (rule configured_match_known [OF example_subs example_world_ok(1) example_rules _ example_match]) simp

lemma nested_sub_rule_ignored_witness:
  "sub_result (\<lambda>r. Match example_env (example_world\<lparr>w_sub := example_sub\<rparr>) 2 r (example_metadata\<lparr>m_NetWork := TCP\<rparr>))
     (sub_lookup example_sub ''s'') = (True, ''P'') \<and>
   Match example_env (example_world\<lparr>w_sub := example_sub\<rparr>) 2 (sub_lookup example_sub ''s'' ! 0)
     (example_metadata\<lparr>m_NetWork := TCP\<rparr>) = Ret (True, ''Q'')"
proof -
  let ?W = "example_world\<lparr>w_sub := example_sub\<rparr>" and ?m = "example_metadata\<lparr>m_NetWork := TCP\<rparr>"
  have s: "matchSubRules example_env ?W (Suc 2) ''s'' ?m = Ret (True, ''P'')" by code_simp
  have "sub_wf ?W" by code_simp
  from nested_sub_rule_ignored [OF s this] have "sub_result (\<lambda>r. Match example_env ?W 2 r ?m) (sub_lookup example_sub ''s'') = (True, ''P'')"
    by simp
  moreover have "Match example_env ?W 2 (sub_lookup example_sub ''s'' ! 0) ?m = Ret (True, ''Q'')" by code_simp
  ultimately show ?thesis ..
qed

text \<open>Whether the lists are accepted depends on the order of the walk over the map; a line that holds
  nothing but the name of a logic rule makes \<open>parseRules\<close> panic.\<close>

lemma sub_rules_depend_on_order:
  "\<exists>sub. parseSubRules example_env example_world example_raw [''P'', ''Q''] = Ret (Inr sub)"
  "parseSubRules example_env example_world (rev example_raw) [''P'', ''Q''] =
     Ret (Inl (TargetNotFound ''sub-rules[s]'' 0 ''SUB-RULE,(NETWORK,tcp),t'' ''t''))"
  by (simp add: example_subs, code_simp)

lemma bare_logic_name_panics:
  "name \<in> {''NOT'', ''OR'', ''AND'', ''SUB-RULE''} \<Longrightarrow> parseRules E W (name # lines) proxies subRules fmt = Panic"
proof -
  assume n: "name \<in> {''NOT'', ''OR'', ''AND'', ''SUB-RULE''}"
  have "Split (CHR '','') name = [name] \<and> trimArr [name] = [name] \<and> ToUpper name = name"
    using n by (elim insertE emptyE; simp only:; code_simp)
  with n have "parseLine E W proxies subRules fmt 0 name = Panic"
    by (auto simp: parseLine_def splitRule_def)
  then show ?thesis by (simp add: parseRules_def)
qed

end
