(* ===== verification/LogicPayload.thy ===== *)
theory LogicPayload imports RuleLogic "HOL-Library.Multiset" begin

text \<open>
  What \<^verbatim>\<open>format\<close> and \<^verbatim>\<open>findSubRuleRange\<close> of \<^verbatim>\<open>rules/logic/logic.go\<close> make of the payload of a logic rule:
  \<^verbatim>\<open>format\<close> accepts exactly the texts with balanced brackets, and of a bracketed list of bracketed parts
  the ranges that are kept are the parts.
\<close>

section \<open>Balanced texts\<close>

inductive balanced :: "string \<Rightarrow> bool" where
  empty [intro]: "balanced []"
| other [intro]: "c \<noteq> CHR ''('' \<Longrightarrow> c \<noteq> CHR '')'' \<Longrightarrow> balanced s \<Longrightarrow> balanced (c # s)"
| group [intro]: "balanced s \<Longrightarrow> balanced t \<Longrightarrow> balanced (CHR ''('' # s @ CHR '')'' # t)"

inductive_cases balanced_otherE: "balanced (c # s)"

text \<open>The ranges of a balanced text in the order they are closed (\<open>rs\<close>) and opened (\<open>ss\<close>).\<close>

definition ranges_of :: "nat \<Rightarrow> nat \<Rightarrow> string \<Rightarrow> Range list \<Rightarrow> Range list \<Rightarrow> bool" where
  "ranges_of i num s rs ss \<longleftrightarrow>
     (\<forall>rest stk sub. formatLoop i (s @ rest) num stk sub = formatLoop (i + length s) rest (num + length ss) stk (sub @ rs)) \<and>
     mset rs = mset ss \<and> map rg_index ss = [num..<num + length ss] \<and>
     (\<forall>r \<in> set ss. i \<le> rg_start r \<and> rg_start r < rg_end r \<and> rg_end r < i + length s)"

lemma ranges_of_empty: "ranges_of i num [] [] []"
  by (simp add: ranges_of_def)

lemma ranges_of_other:
  "c \<noteq> CHR ''('' \<Longrightarrow> c \<noteq> CHR '')'' \<Longrightarrow> ranges_of (i + 1) num s rs ss \<Longrightarrow> ranges_of i num (c # s) rs ss"
  by (auto simp: ranges_of_def)

lemma ranges_of_append:
  assumes "ranges_of i num s rs ss" "ranges_of (i + length s) (num + length ss) t rs' ss'"
  shows "ranges_of i num (s @ t) (rs @ rs') (ss @ ss')"
  using assms upt_add_eq_append [of num "num + length ss" "length ss'"]
  by (fastforce simp: ranges_of_def add.assoc)

lemma ranges_of_group:
  assumes "ranges_of (i + 1) (num + 1) s rs ss"
  shows "ranges_of i num (CHR ''('' # s @ [CHR '')''])
    (rs @ [\<lparr>rg_start = i, rg_end = i + length s + 1, rg_index = num\<rparr>])
    (\<lparr>rg_start = i, rg_end = i + length s + 1, rg_index = num\<rparr> # ss)"
  using assms by (fastforce simp: ranges_of_def Push_def upt_rec [of num] less_Suc_eq)

lemma balanced_ranges: "balanced s \<Longrightarrow> \<exists>rs ss. ranges_of i num s rs ss"
proof (induction s arbitrary: i num rule: balanced.induct)
  case empty
  then show ?case using ranges_of_empty by blast
next
  case (other c s)
  then show ?case using ranges_of_other by blast
next
  case (group s t)
  from group.IH(1) [of "i + 1" "num + 1"] obtain rs ss where s: "ranges_of (i + 1) (num + 1) s rs ss" by blast
  from group.IH(2) obtain rs' ss' where t: "ranges_of (i + length (CHR ''('' # s @ [CHR '')''])) (num + length
      (\<lparr>rg_start = i, rg_end = i + length s + 1, rg_index = num\<rparr> # ss)) t rs' ss'" by blast
  from ranges_of_append [OF ranges_of_group [OF s] t] show ?case by auto
qed

section \<open>Sorting\<close>

lemma foldl_update_nth:
  "distinct (map f ys) \<Longrightarrow> \<forall>y \<in> set ys. f y < length xs \<Longrightarrow>
     length (foldl (\<lambda>xs y. xs[f y := y]) xs ys) = length xs \<and>
     (\<forall>y \<in> set ys. foldl (\<lambda>xs y. xs[f y := y]) xs ys ! f y = y) \<and>
     (\<forall>k. k \<notin> f ` set ys \<longrightarrow> foldl (\<lambda>xs y. xs[f y := y]) xs ys ! k = xs ! k)"
proof (induction ys arbitrary: xs)
  case (Cons y ys)
  have "distinct (map f ys)" "\<forall>z \<in> set ys. f z < length (xs[f y := y])" "f y \<notin> f ` set ys"
    using Cons.prems by auto
  note IH = Cons.IH [OF this(1,2)]
  then have "foldl (\<lambda>xs y. xs[f y := y]) (xs[f y := y]) ys ! f y = y"
    using \<open>f y \<notin> f ` set ys\<close> Cons.prems(2) by simp
  with IH show ?case by (auto simp: nth_list_update)
qed simp

lemma foldl_update_sort:
  assumes "mset rs = mset ss" "map f ss = [0..<length ss]"
  shows "foldl (\<lambda>xs y. xs[f y := y]) (replicate (length rs) z) rs = ss"
proof -
  let ?g = "foldl (\<lambda>xs y. xs[f y := y]) (replicate (length rs) z) rs"
  have len: "length rs = length ss" and set: "set rs = set ss"
    using assms(1) by (metis size_mset, metis set_mset_mset)
  have "mset (map f rs) = mset (map f ss)" using assms(1) by simp
  then have d: "distinct (map f rs)" using assms(2) by (metis distinct_upt mset_eq_imp_distinct_iff)
  have nth: "f (ss ! k) = k" if "k < length ss" for k
    using that assms(2) by (metis add.left_neutral nth_map nth_upt)
  have b: "\<forall>y \<in> set rs. f y < length (replicate (length rs) z)"
    using set len nth by (fastforce simp: in_set_conv_nth)
  note g = foldl_update_nth [OF d b]
  show ?thesis
  proof (rule nth_equalityI)
    show "length ?g = length ss" using g len by simp
    fix k
    assume "k < length ?g"
    then have k: "k < length ss" using g len by simp
    then have "?g ! f (ss ! k) = ss ! k" using g set by simp
    with nth [OF k] show "?g ! k = ss ! k" by simp
  qed
qed

lemma format_ranges_of:
  assumes "ranges_of 0 0 s rs ss"
  shows "format s = Inr ss"
proof -
  have "formatLoop 0 (s @ []) 0 [] [] = formatLoop (0 + length s) [] (0 + length ss) [] ([] @ rs)"
    using assms unfolding ranges_of_def by blast
  then have "formatLoop 0 s 0 NewStack [] = Inr ([], rs)" by (simp add: NewStack_def)
  then show ?thesis
    using assms foldl_update_sort [of rs ss rg_index] by (simp add: format_def stack_Len_def ranges_of_def)
qed

section \<open>Brackets\<close>

lemma formatLoop_balanced:
  "formatLoop i s num stk sub = Inr ([], sub') \<Longrightarrow>
     \<exists>b bs. length bs = length stk \<and> balanced b \<and> list_all balanced bs \<and> s = b @ concat (map (\<lambda>b. CHR '')'' # b) bs)"
proof (induction i s num stk sub rule: formatLoop.induct)
  case (1 i num stk subRanges)
  then show ?case by (auto intro!: exI [of _ "[]"])
next
  case (2 i c cs num stk sub)
  consider "c = CHR ''(''" | sr stk1 where "c = CHR '')''" "stk = sr # stk1" | "c \<noteq> CHR ''(''" "c \<noteq> CHR '')''"
    using "2.prems" by (cases stk) (auto split: if_splits)
  then show ?case
  proof cases
    case 1
    with 2 obtain b bs where l: "length bs = Suc (length stk)" "balanced b" "list_all balanced bs"
        "cs = b @ concat (map (\<lambda>b. CHR '')'' # b) bs)"
      by (fastforce simp: Push_def)
    then obtain b' bs' where "bs = b' # bs'" "length bs' = length stk" "balanced b" "balanced b'" "list_all balanced bs'"
        "cs = b @ CHR '')'' # b' @ concat (map (\<lambda>b. CHR '')'' # b) bs')"
      by (cases bs) auto
    with 1 have "length bs' = length stk \<and> balanced (CHR ''('' # b @ CHR '')'' # b') \<and> list_all balanced bs' \<and>
        c # cs = (CHR ''('' # b @ CHR '')'' # b') @ concat (map (\<lambda>b. CHR '')'' # b) bs')" by auto
    then show ?thesis by blast
  next
    case 2
    with "2.IH"(2) "2.prems" obtain b bs where "length bs = length stk1" "balanced b" "list_all balanced bs"
        "cs = b @ concat (map (\<lambda>b. CHR '')'' # b) bs)" by auto
    with 2 show ?thesis by (intro exI [of _ "[]"] exI [of _ "b # bs"]) auto
  next
    case 3
    with 2 obtain b bs where "length bs = length stk" "balanced b" "list_all balanced bs"
        "cs = b @ concat (map (\<lambda>b. CHR '')'' # b) bs)" by auto
    with 3 show ?thesis by (intro exI [of _ "c # b"] exI [of _ bs]) auto
  qed
qed

lemma format_ok_iff: "(\<exists>rs. format s = Inr rs) \<longleftrightarrow> balanced s"
proof
  assume "\<exists>rs. format s = Inr rs"
  then obtain sub where "formatLoop 0 s 0 NewStack [] = Inr ([], sub)"
    by (auto simp: format_def stack_Len_def split: sum.splits if_splits)
  from formatLoop_balanced [OF this] show "balanced s" by (auto simp: NewStack_def)
next
  assume "balanced s"
  with balanced_ranges [of s 0 0] format_ranges_of show "\<exists>rs. format s = Inr rs" by blast
qed

text \<open>The brackets of a logic rule's payload are accepted exactly when they are balanced.\<close>

theorem format_accepts_balanced: "(\<exists>rs. format s = Inr rs) \<longleftrightarrow> balanced s"
  by (rule format_ok_iff)

section \<open>The parts of a list\<close>

definition wrap :: "string \<Rightarrow> string" where
  "wrap p = CHR ''('' # p @ [CHR '')'']"

definition head_range :: "nat \<Rightarrow> nat \<Rightarrow> string \<Rightarrow> Range" where
  "head_range i num p = \<lparr>rg_start = i, rg_end = i + length p + 1, rg_index = num\<rparr>"

lemma subRangeLoop_append: "subRangeLoop n (xs @ ys) acc = subRangeLoop n ys (subRangeLoop n xs acc)"
  by (induction n xs acc rule: subRangeLoop.induct) simp_all

lemma subRangeLoop_inner:
  "\<forall>r \<in> set ss. rg_start r \<noteq> 0 \<and> (\<exists>a \<in> set acc. containRange r (rg_start a) (rg_end a)) \<Longrightarrow> subRangeLoop n ss acc = acc"
  by (induction ss) (auto simp: list_ex_iff)

text \<open>One part after the start of the text is kept, what is inside it is not.\<close>

lemma part_ranges:
  assumes "balanced p"
  shows "\<exists>rs ss. ranges_of i num (wrap p) rs ss \<and>
    (0 < i \<longrightarrow> (\<forall>n acc. (\<forall>a \<in> set acc. rg_end a < i) \<longrightarrow> subRangeLoop n ss acc = acc @ [head_range i num p]))"
proof -
  from balanced_ranges [OF assms] obtain rs ss where s: "ranges_of (i + 1) (num + 1) p rs ss" by blast
  let ?h = "head_range i num p"
  have r: "ranges_of i num (wrap p) (rs @ [?h]) (?h # ss)"
    using ranges_of_group [OF s] by (simp add: wrap_def head_range_def)
  have "subRangeLoop n (?h # ss) acc = acc @ [?h]" if "0 < i" "\<forall>a \<in> set acc. rg_end a < i" for n acc
  proof -
    have "\<not> list_ex (\<lambda>r. containRange ?h (rg_start r) (rg_end r)) acc"
      using that by (fastforce simp: list_ex_iff containRange_def head_range_def)
    moreover have "\<forall>r \<in> set ss. rg_start r \<noteq> 0 \<and> containRange r (rg_start ?h) (rg_end ?h)"
      using s by (fastforce simp: ranges_of_def containRange_def head_range_def)
    ultimately show ?thesis
      using that(1) subRangeLoop_inner [of ss "acc @ [?h]" n] by (simp add: head_range_def)
  qed
  with r show ?thesis by blast
qed

lemma between_part: "length pre = i \<Longrightarrow> between (pre @ wrap p @ post) (head_range i num p) = p"
  by (simp add: between_def head_range_def wrap_def)

lemma plain_ranges: "list_all (\<lambda>c. c \<noteq> CHR ''('' \<and> c \<noteq> CHR '')'') s \<Longrightarrow> ranges_of i num s [] []"
  by (induction s arbitrary: i) (auto intro: ranges_of_empty ranges_of_other)

definition kept :: "nat \<Rightarrow> Range list \<Rightarrow> Range list \<Rightarrow> bool" where
  "kept i ss hs \<longleftrightarrow> (0 < i \<longrightarrow> (\<forall>n acc. (\<forall>a \<in> set acc. rg_end a < i) \<longrightarrow> subRangeLoop n ss acc = acc @ hs))"

lemma kept_append:
  assumes "kept i ss hs" "kept j ss' hs'" "i \<le> j" "\<forall>h \<in> set hs. rg_end h < j"
  shows "kept i (ss @ ss') (hs @ hs')"
  unfolding kept_def
proof (intro impI allI)
  fix n and acc :: "Range list"
  assume i: "0 < i" and acc: "\<forall>a \<in> set acc. rg_end a < i"
  with assms(3,4) have "0 < j" "\<forall>a \<in> set (acc @ hs). rg_end a < j" by auto
  with assms(2) have "subRangeLoop n ss' (acc @ hs) = (acc @ hs) @ hs'" unfolding kept_def by blast
  moreover have "subRangeLoop n ss acc = acc @ hs" using assms(1) i acc unfolding kept_def by blast
  ultimately show "subRangeLoop n (ss @ ss') acc = acc @ hs @ hs'" by (simp add: subRangeLoop_append)
qed

lemma list_ranges:
  "list_all (\<lambda>c. c \<noteq> CHR ''('' \<and> c \<noteq> CHR '')'') sep \<Longrightarrow> list_all balanced ps \<Longrightarrow> \<exists>rs ss hs. ranges_of i num (Join sep (map wrap ps)) rs ss \<and> kept i ss hs \<and>
    (\<forall>pre post. length pre = i \<longrightarrow> map (between (pre @ Join sep (map wrap ps) @ post)) hs = ps)"
proof (induction sep "map wrap ps" arbitrary: ps i num rule: Join.induct)
  case (1 sep)
  then show ?case using ranges_of_empty by (fastforce simp: kept_def)
next
  case (2 sep x)
  then obtain p where p: "ps = [p]" "balanced p" by auto
  from part_ranges [OF p(2), of i num] obtain rs ss where "ranges_of i num (wrap p) rs ss" "kept i ss [head_range i num p]"
    unfolding kept_def by blast
  then show ?case using between_part p by fastforce
next
  case (3 sep x y ys)
  then obtain p q qs where p: "ps = p # q # qs" "balanced p" "list_all balanced (q # qs)" "x = wrap p" "y # ys = map wrap (q # qs)"
    by (cases ps; cases "tl ps") auto
  let ?j = "i + length (wrap p) + length sep" and ?rest = "Join sep (map wrap (q # qs))"
  from part_ranges [OF p(2), of i num] obtain rs ss where a: "ranges_of i num (wrap p) rs ss" "kept i ss [head_range i num p]"
    unfolding kept_def by blast
  from 3(1) [OF p(5) 3(3) p(3), of ?j "num + length ss"] obtain rs' ss' hs where b: "ranges_of ?j (num + length ss) ?rest rs' ss'"
      "kept ?j ss' hs" "\<forall>pre post. length pre = ?j \<longrightarrow> map (between (pre @ ?rest @ post)) hs = q # qs"
    by (elim exE conjE) (rule that)
  have "ranges_of i num (wrap p @ sep @ ?rest) (rs @ [] @ rs') (ss @ [] @ ss')"
    using a(1) b(1) by (intro ranges_of_append) (simp_all add: add.assoc plain_ranges [OF 3(3)])
  moreover have "kept i (ss @ ss') ([head_range i num p] @ hs)"
    using a(2) b(2) by (rule kept_append) (simp_all add: head_range_def wrap_def)
  moreover have "map (between (pre @ (wrap p @ sep @ ?rest) @ post)) ([head_range i num p] @ hs) = ps" if "length pre = i" for pre post
    using between_part [OF that, of p "sep @ ?rest @ post" num] b(3) [rule_format, of "pre @ wrap p @ sep" post] that p(1) by simp
  moreover have "Join sep (map wrap ps) = wrap p @ sep @ ?rest" using p(1) by simp
  ultimately show ?case by (metis append_Nil)
qed

lemma set_Join: "set (Join sep xs) \<subseteq> set sep \<union> \<Union> (set ` set xs)"
  by (induction sep xs rule: Join.induct) auto

lemma bracketed_True: "CHR 0x0A \<notin> set s \<Longrightarrow> CHR '')'' \<in> set s \<Longrightarrow> bracketed True s"
  by (induction s) auto

text \<open>C22: the payload of a logic rule written as a bracketed list of bracketed parts is read as exactly
  these parts, whatever lists the parts contain themselves.\<close>

theorem logic_payload_parts:
  assumes "list_all balanced ps" "list_all (\<lambda>p. CHR 0x0A \<notin> set p) ps"
  shows "parsePayload parse (''('' @ Join '','' (map (\<lambda>p. ''('' @ p @ '')'') ps) @ '')'') =
    mapRules (payloadToRule parse) ps"
proof -
  let ?body = "Join '','' (map wrap ps)"
  have w: "(\<lambda>p. ''('' @ p @ '')'') = wrap" by (auto simp: wrap_def)
  from list_ranges [of "'',''" ps 1 1] assms(1) obtain rs ss hs where r: "ranges_of 1 1 ?body rs ss" "kept 1 ss hs"
      "\<forall>pre post. length pre = 1 \<longrightarrow> map (between (pre @ ?body @ post)) hs = ps" by auto
  let ?h = "head_range 0 0 ?body"
  have "ranges_of 0 0 (wrap ?body) (rs @ [?h]) (?h # ss)"
    using ranges_of_group [of 0 0 ?body rs ss] r(1) by (simp add: wrap_def head_range_def)
  then have f: "format (wrap ?body) = Inr (?h # ss)" by (rule format_ranges_of)
  have "findSubRuleRange (wrap ?body) (?h # ss) = hs"
    using r(2) by (simp add: findSubRuleRange_def head_range_def wrap_def kept_def)
  moreover have "map (between (wrap ?body)) hs = ps"
    using r(3) [rule_format, of "''(''" "'')''"] by (simp add: wrap_def)
  moreover have "mapRules (\<lambda>r. payloadToRule parse (between s r)) hs = mapRules (payloadToRule parse) (map (between s) hs)" for s
    by (induction hs) simp_all
  moreover have "CHR 0x0A \<notin> set ?body"
  proof
    assume "CHR 0x0A \<in> set ?body"
    with set_Join [of "'',''" "map wrap ps"] have "CHR 0x0A \<in> set '','' \<or> (\<exists>p \<in> set ps. CHR 0x0A \<in> set (wrap p))" by auto
    with assms(2) show False by (auto simp: wrap_def list_all_iff)
  qed
  then have "bracketed False (wrap ?body)" using bracketed_True [of "?body @ '')''"] by (simp add: wrap_def)
  ultimately have g: "parsePayload parse (wrap ?body) = mapRules (payloadToRule parse) ps"
    using f by (simp add: parsePayload_def)
  have w2: "''('' @ ?body @ '')'' = wrap ?body" by (simp add: wrap_def)
  show ?thesis unfolding w w2 by (rule g)
qed

lemma logic_payload_parts_witness:
  "parsePayload (ParseRule example_env example_world) ''((DOMAIN,a),(NOT,((NETWORK,tcp))))'' =
     mapRules (payloadToRule (ParseRule example_env example_world)) [''DOMAIN,a'', ''NOT,((NETWORK,tcp))'']"
proof -
  have "balanced ''DOMAIN,a''" "balanced ''NOT,((NETWORK,tcp))''"
    unfolding format_ok_iff [symmetric] by (intro exI; code_simp)+
  then show ?thesis
    using logic_payload_parts [of "[''DOMAIN,a'', ''NOT,((NETWORK,tcp))'']" "ParseRule example_env example_world"] by simp
qed

end
