(* ===== verification/RuleNeeds.thy ===== *)
theory RuleNeeds imports RuleProvider begin

text \<open>
  What a rule asks for before it is matched: the flags \<^verbatim>\<open>needIP\<close> and \<^verbatim>\<open>needProcess\<close> that
  \<^verbatim>\<open>rules/logic/logic.go\<close> computes when it makes a rule, against what the rules below it ask for.
\<close>

section \<open>When the rule is made\<close>

text \<open>The rules of a rule that look at the connection.\<close>

fun atoms :: "'r Rule \<Rightarrow> 'r Rule list" where
  "atoms (LogicR _ _ t rules _ _) = concat (map atoms rules)"
| "atoms r = [r]"

definition flags_exact :: "'r world \<Rightarrow> 'r Rule \<Rightarrow> bool" where
  "flags_exact W r \<longleftrightarrow>
     (ShouldResolveIP W r \<longleftrightarrow> list_ex (ShouldResolveIP W) (atoms r)) \<and>
     (ShouldFindProcess W r \<longleftrightarrow> list_ex (ShouldFindProcess W) (atoms r))"

lemma list_ex_atoms:
  "list_all (flags_exact W) rs \<Longrightarrow>
     list_ex (ShouldResolveIP W) (concat (map atoms rs)) = list_ex (ShouldResolveIP W) rs \<and>
     list_ex (ShouldFindProcess W) (concat (map atoms rs)) = list_ex (ShouldFindProcess W) rs"
  by (induction rs) (simp_all add: flags_exact_def)

fun is_logic :: "'r Rule \<Rightarrow> bool" where
  "is_logic (LogicR _ _ _ _ _ _) = True"
| "is_logic _ = False"

lemma flags_exact_atom: "\<not> is_logic r \<Longrightarrow> flags_exact W r"
  by (cases r) (simp_all add: flags_exact_def)

lemma simpleRule_atom: "simpleRule E W tp payload target params = Ret (Inr r) \<Longrightarrow> \<not> is_logic r"
  unfolding simpleRule_def run.inject
  by (elim if_eqE disjE; (simp only: run.inject sum.inject sum.distinct)?;
      auto simp: NewDomain_def NewDomainSuffix_def NewDomainKeyword_def NewProcess_def NewInUser_def NewInName_def
        NewIPCIDR_def NewIPSuffix_def NewPort_eq NewNetworkType_def NewUid_def NewInType_def NewGEOSITE_def
        NewGEOIP_def NewRuleSet_def run_case_Inr split: if_splits option.splits sum.splits)

lemma ParseRule_flags:
  "ParseRule E W tp payload target params subRules = Ret (Inr r) \<Longrightarrow> tp \<noteq> ''SUB-RULE'' \<Longrightarrow> flags_exact W r"
proof (induction "length payload" arbitrary: tp payload target params subRules r rule: less_induct)
  case less
  have sub: "list_all (flags_exact W) rs" if "parsePayload (ParseRule E W) payload = Ret (Inr rs)" for rs
    unfolding list_all_iff
    by (rule parsePayload_all [OF that]) (rule less.hyps, auto)
  consider "tp = ''AND''" | "tp = ''OR''" | "tp = ''NOT''" | "tp \<noteq> ''AND''" "tp \<noteq> ''OR''" "tp \<noteq> ''NOT''" by blast
  then show ?case
  proof cases
    case 1
    with less.prems obtain rs p where "parsePayload (ParseRule E W) payload = Ret (Inr rs)"
      "r = LogicR p target RT_AND rs (list_ex (ShouldResolveIP W) rs) (list_ex (ShouldFindProcess W) rs)"
      by (auto simp: ParseRule_kinds NewAND_def withRules_Inr)
    with list_ex_atoms [OF sub [OF this(1)]] show ?thesis by (simp add: flags_exact_def)
  next
    case 2
    with less.prems obtain rs p where "parsePayload (ParseRule E W) payload = Ret (Inr rs)"
      "r = LogicR p target RT_OR rs (list_ex (ShouldResolveIP W) rs) (list_ex (ShouldFindProcess W) rs)"
      by (auto simp: ParseRule_kinds NewOR_def withRules_Inr)
    with list_ex_atoms [OF sub [OF this(1)]] show ?thesis by (simp add: flags_exact_def)
  next
    case 3
    with less.prems obtain rs p where rs: "parsePayload (ParseRule E W) payload = Ret (Inr rs)" "length rs = 1"
      "r = LogicR p target RT_NOT rs (ShouldResolveIP W (rs ! 0)) (ShouldFindProcess W (rs ! 0))"
      by (auto simp: ParseRule_kinds NewNOT_def withRules_Inr split: if_splits)
    then obtain x where "rs = [x]" by (auto simp: length_Suc_conv)
    with list_ex_atoms [OF sub [OF rs(1)]] rs show ?thesis by (simp add: flags_exact_def)
  next
    case 4
    with less.prems have "simpleRule E W tp payload target params = Ret (Inr r)" by (simp add: ParseRule_kinds)
    from simpleRule_atom [OF this] show ?thesis by (rule flags_exact_atom)
  qed
qed

text \<open>C24: when a rule other than a SUB-RULE is made, it asks for the destination's address, or for the
  process, exactly when one of the rules it is made of does.\<close>

theorem parsed_rule_needs:
  assumes "ParseRule E W tp payload target params subRules = Ret (Inr r)" "tp \<noteq> ''SUB-RULE''"
  shows "(ShouldResolveIP W r \<longleftrightarrow> (\<exists>l \<in> set (atoms r). ShouldResolveIP W l)) \<and>
    (ShouldFindProcess W r \<longleftrightarrow> (\<exists>l \<in> set (atoms r). ShouldFindProcess W l))"
  using ParseRule_flags [OF assms] by (simp add: flags_exact_def list_ex_iff)

lemma parsed_rule_needs_witness:
  "\<exists>r. ParseRule example_env example_world ''AND'' ''((NOT,((PROCESS-NAME,x))),(DOMAIN,a.b))'' ''P'' [] [] = Ret (Inr r) \<and>
     ShouldFindProcess example_world r \<and> \<not> ShouldResolveIP example_world r"
proof -
  let ?r = "LogicR ''((NOT,(!(Process,x))) && (Domain,a.b))'' ''P'' RT_AND
    [LogicR ''(!(Process,x))'' [] RT_NOT [ProcessR [] ''x'' True] False True, DomainR ''a.b'' []] False True :: string Rule"
  have p: "ParseRule example_env example_world ''AND'' ''((NOT,((PROCESS-NAME,x))),(DOMAIN,a.b))'' ''P'' [] [] = Ret (Inr ?r)"
    by code_simp
  from parsed_rule_needs [OF p] have "ShouldFindProcess example_world ?r" "\<not> ShouldResolveIP example_world ?r" by simp_all
  with p show ?thesis by blast
qed

section \<open>When the providers change\<close>

text \<open>The rules are made before the providers are loaded, and the flags are not computed again: a logic
  rule over the rule set of an address provider never asks for the address, although the rule set does.\<close>

definition unloaded_world :: "string world" where
  "unloaded_world = SetRuleProvider (NewRuleSetProvider ''ips'' B_IPCIDR TextRule) example_world"

definition loaded_world :: "string world" where
  "loaded_world = updateProvider 0 (IPCidrS 1 True (Some NewIpCidrTrie)) unloaded_world"

lemma logic_flags_go_stale:
  "\<exists>r. ParseRule example_env unloaded_world ''AND'' ''((RULE-SET,ips),(NETWORK,tcp))'' ''P'' [] [] = Ret (Inr r) \<and>
     \<not> ShouldResolveIP loaded_world r \<and> list_ex (ShouldResolveIP loaded_world) (atoms r)"
proof -
  let ?r = "LogicR ''((RuleSet,ips) && (Network,tcp))'' ''P'' RT_AND
    [RuleSetR ''ips'' [] 0 False False, NetworkR TCP []] False False :: string Rule"
  have "ParseRule example_env unloaded_world ''AND'' ''((RULE-SET,ips),(NETWORK,tcp))'' ''P'' [] [] = Ret (Inr ?r)"
    by code_simp
  moreover have "list_ex (ShouldResolveIP loaded_world) (atoms ?r)"
    by (simp add: loaded_world_def unloaded_world_def updateProvider_def SetRuleProvider_def OnUpdate_def
        getProvider_def example_world_def)
  moreover have "\<not> ShouldResolveIP loaded_world ?r" by simp
  ultimately show ?thesis by blast
qed

end
