(* ===== verification/ProxyGroups.thy ===== *)
theory ProxyGroups imports Rules "HOL-Library.Multiset" begin

text \<open>
  \<^verbatim>\<open>proxyGroupsDagSort\<close> of \<^verbatim>\<open>config/utils.go\<close>: the proxy groups of a configuration are put in an order in
  which every group comes after the groups it is made of, or a loop among them is reported.

  The graph is a map from names to nodes the code reaches through pointers; here a nd is looked up
  and put back where the code changes a field. The order of a walk over the map, which Go leaves
  open, is the parameter \<open>walk\<close>, and the reflective decoder of \<^verbatim>\<open>common/structure\<close> is the
  parameter \<open>decode\<close>: it fills an option from a mapping or fails.
\<close>

section \<open>Data\<close>

record GroupCommonOption =
  o_Name :: string
  o_Type :: string
  o_Proxies :: "string list"
  o_Use :: "string list"
  o_URL :: string
  o_Interval :: int
  o_Lazy :: bool
  o_DisableUDP :: bool
  o_Filter :: string
  o_ExcludeFilter :: string
  o_ExcludeType :: string
  o_Interface :: string
  o_RoutingMark :: int

definition zero_option :: GroupCommonOption where
  "zero_option = \<lparr>o_Name = [], o_Type = [], o_Proxies = [], o_Use = [], o_URL = [], o_Interval = 0, o_Lazy = False,
     o_DisableUDP = False, o_Filter = [], o_ExcludeFilter = [], o_ExcludeType = [], o_Interface = [], o_RoutingMark = 0\<rparr>"

type_synonym 'm decoder = "'m \<Rightarrow> GroupCommonOption \<Rightarrow> string option \<times> GroupCommonOption"

record 'm graphNode =
  indegree :: int
  topo :: int
  gn_data :: "'m option"
  outdegree :: int
  gn_option :: "GroupCommonOption option"
  gn_from :: "string list"

type_synonym 'm graph = "(string \<times> 'm graphNode) list"

datatype dag_error = GroupDecode string string | DuplicateGroup string | LoopDetected "string list"

section \<open>Step 1.1: the graph\<close>

fun addEdges :: "string list \<Rightarrow> 'm graph \<Rightarrow> 'm graph" where
  "addEdges [] graph = graph"
| "addEdges (proxy # proxies) graph =
     (case map_of graph proxy of
        Some nd \<Rightarrow> addEdges proxies (map_put proxy (nd\<lparr>indegree := indegree nd + 1\<rparr>) graph)
      | None \<Rightarrow> addEdges proxies (map_put proxy
          \<lparr>indegree = 1, topo = -1, gn_data = None, outdegree = 0, gn_option = None, gn_from = []\<rparr> graph))"

fun buildGraph :: "'m decoder \<Rightarrow> 'm list \<Rightarrow> 'm graph \<Rightarrow> dag_error + 'm graph" where
  "buildGraph decode [] graph = Inr graph"
| "buildGraph decode (mapping # groups) graph =
     (let (err, option) = decode mapping zero_option; groupName = o_Name option
      in case err of
           Some e \<Rightarrow> Inl (GroupDecode groupName e)
         | None \<Rightarrow>
           (case map_of graph groupName of
              Some nd \<Rightarrow>
                if \<not> Option.is_none (gn_data nd) then Inl (DuplicateGroup groupName)
                else buildGraph decode groups (addEdges (o_Proxies option)
                  (map_put groupName (nd\<lparr>gn_data := Some mapping, gn_option := Some option\<rparr>) graph))
            | None \<Rightarrow> buildGraph decode groups (addEdges (o_Proxies option)
                (map_put groupName \<lparr>indegree = 0, topo = -1, gn_data = Some mapping, outdegree = 0,
                   gn_option = Some option, gn_from = []\<rparr> graph))))"

section \<open>Step 1.2: the topological sort\<close>

text \<open>The loops over the neighbours of a node that is taken away: a degree is decremented, and a
  neighbour without edges left joins the queue. \<open>deg\<close> and \<open>dec\<close> read and decrement the degree;
  a name that is not in the graph is a nil pointer.\<close>

fun decEach ::
    "('m graphNode \<Rightarrow> int) \<Rightarrow> ('m graphNode \<Rightarrow> 'm graphNode) \<Rightarrow> string list \<Rightarrow> 'm graph \<Rightarrow> string list \<Rightarrow>
     ('m graph \<times> string list) option" where
  "decEach deg dec [] graph queue = Some (graph, queue)"
| "decEach deg dec (name # names) graph queue =
     (case map_of graph name of
        None \<Rightarrow> None
      | Some child \<Rightarrow>
          let child = dec child
          in decEach deg dec names (map_put name child graph) (if deg child = 0 then queue @ [name] else queue))"

abbreviation decIn :: "'m graphNode \<Rightarrow> 'm graphNode" where
  "decIn nd \<equiv> nd\<lparr>indegree := indegree nd - 1\<rparr>"

abbreviation decOut :: "'m graphNode \<Rightarrow> 'm graphNode" where
  "decOut nd \<equiv> nd\<lparr>outdegree := outdegree nd - 1\<rparr>"

definition initialQueue :: "(string list \<Rightarrow> string list) \<Rightarrow> ('m graphNode \<Rightarrow> int) \<Rightarrow> 'm graph \<Rightarrow> string list" where
  "initialQueue walk deg graph =
     filter (\<lambda>name. case map_of graph name of None \<Rightarrow> False | Some nd \<Rightarrow> deg nd = 0) (walk (map fst graph))"

lemma length_put_mem: "map_of m k \<noteq> None \<Longrightarrow> length (map_put k v m) = length m"
  by (induction k v m rule: map_put.induct) auto

lemma decEach_length: "decEach deg dec names graph queue = Some (graph', queue') \<Longrightarrow> length graph' = length graph"
  by (induction deg dec names graph queue rule: decEach.induct)
    (auto simp: Let_def length_put_mem split: option.splits)

lemma decEach_dom: "decEach deg dec names graph queue = Some (graph', queue') \<Longrightarrow> dom (map_of graph') = dom (map_of graph)"
  by (induction deg dec names graph queue rule: decEach.induct)
    (auto simp: Let_def split: option.splits)

lemma length_del: "map_of m k = Some v \<Longrightarrow> length (map_del k m) < length m"
  by (induction m) (auto simp: map_del_def less_Suc_eq_le length_filter_le split: if_splits)

lemma decEach_del:
  assumes "decEach deg dec names graph queue = Some (graph', queue')" "map_of graph name = Some nd"
  shows "length (map_del name graph') < length graph"
proof -
  have "map_of graph' name \<noteq> None" using decEach_dom [OF assms(1)] assms(2) by (metis domIff option.distinct(1))
  then obtain v where "map_of graph' name = Some v" by blast
  from length_del [OF this] decEach_length [OF assms(1)] show ?thesis by simp
qed

text \<open>\<open>cfg\<close> is \<^verbatim>\<open>groupsConfig\<close>, \<open>i\<close> the variable \<^verbatim>\<open>index\<close>. A node has its option and its data from the same
  mapping, or neither.\<close>

function topoLoop :: "string list \<Rightarrow> 'm graph \<Rightarrow> 'm list \<Rightarrow> nat \<Rightarrow> ('m graph \<times> 'm list) run" where
  "topoLoop [] graph cfg i = Ret (graph, cfg)"
| "topoLoop (name # queue) graph cfg i =
     (case map_of graph name of
        None \<Rightarrow> Panic
      | Some nd \<Rightarrow>
        (case (gn_option nd, gn_data nd) of
           (Some option, Some mapping) \<Rightarrow>
             if length cfg < i + 1 then Panic
             else let cfg = cfg[length cfg - (i + 1) := mapping]
                  in if length (o_Proxies option) = 0 then topoLoop queue (map_del name graph) cfg (i + 1)
                     else (case decEach indegree decIn (o_Proxies option) graph queue of
                             None \<Rightarrow> Panic
                           | Some (graph', queue') \<Rightarrow> topoLoop queue' (map_del name graph') cfg (i + 1))
         | _ \<Rightarrow> topoLoop queue (map_del name graph) cfg i))"
  by pat_completeness auto

termination
  by (relation "measure (\<lambda>(_, graph, _, _). length graph)") (auto intro: length_del decEach_del)

declare topoLoop.simps(2) [simp del]

section \<open>Step 2: the loop\<close>

fun linkNode :: "string \<Rightarrow> string list \<Rightarrow> 'm graph \<Rightarrow> 'm graph option" where
  "linkNode name [] graph = Some graph"
| "linkNode name (proxy # proxies) graph =
     (case map_of graph name of
        None \<Rightarrow> None
      | Some nd \<Rightarrow>
          let graph = map_put name (nd\<lparr>outdegree := outdegree nd + 1\<rparr>) graph
          in case map_of graph proxy of
               None \<Rightarrow> None
             | Some child \<Rightarrow> linkNode name proxies (map_put proxy (child\<lparr>gn_from := gn_from child @ [name]\<rparr>) graph))"

fun linkAll :: "string list \<Rightarrow> 'm graph \<Rightarrow> 'm graph option" where
  "linkAll [] graph = Some graph"
| "linkAll (name # names) graph =
     (case map_of graph name of
        None \<Rightarrow> None
      | Some nd \<Rightarrow>
        (case gn_option nd of
           None \<Rightarrow> linkAll names graph
         | Some option \<Rightarrow>
             if length (o_Proxies option) = 0 then linkAll names graph
             else (case linkNode name (o_Proxies option) graph of
                     None \<Rightarrow> None
                   | Some graph' \<Rightarrow> linkAll names graph')))"

function peelLoop :: "string list \<Rightarrow> 'm graph \<Rightarrow> 'm graph run" where
  "peelLoop [] graph = Ret graph"
| "peelLoop (name # queue) graph =
     (case map_of graph name of
        None \<Rightarrow> Panic
      | Some nd \<Rightarrow>
        (case decEach outdegree decOut (gn_from nd) graph queue of
           None \<Rightarrow> Panic
         | Some (graph', queue') \<Rightarrow> peelLoop queue' (map_del name graph')))"
  by pat_completeness auto

termination
  by (relation "measure (\<lambda>(_, graph). length graph)") (auto intro: decEach_del)

declare peelLoop.simps(2) [simp del]

definition proxyGroupsDagSort ::
    "(string list \<Rightarrow> string list) \<Rightarrow> 'm decoder \<Rightarrow> 'm list \<Rightarrow> (dag_error + 'm list) run" where
  "proxyGroupsDagSort walk decode groupsConfig =
     (case buildGraph decode groupsConfig [] of
        Inl e \<Rightarrow> Ret (Inl e)
      | Inr graph \<Rightarrow>
          run_bind (topoLoop (initialQueue walk indegree graph) graph groupsConfig 0) (\<lambda>(graph, cfg).
            if length graph = 0 then Ret (Inr cfg)
            else case linkAll (walk (map fst graph)) graph of
                   None \<Rightarrow> Panic
                 | Some graph \<Rightarrow>
                     run_bind (peelLoop (initialQueue walk outdegree graph) graph)
                       (\<lambda>graph. Ret (Inl (LoopDetected (walk (map fst graph)))))))"

section \<open>Taking nodes away\<close>

lemma funpow_deg: "(\<And>n. deg (dec n) = deg n - 1) \<Longrightarrow> deg ((dec ^^ k) n) = deg n - int k"
  by (induction k) simp_all

lemma funpow_keeps: "(\<And>n. f (dec n) = f n) \<Longrightarrow> f ((dec ^^ k) n) = f n"
  by (induction k) simp_all

lemma count_pos: "0 < count_list xs x \<longleftrightarrow> x \<in> set xs"
  by (metis count_list_0_iff neq0_conv)

lemma decEach_result:
  assumes dec: "\<And>n. deg (dec n) = deg n - 1"
  shows "(\<And>v. v \<in> set ns \<Longrightarrow> \<exists>nd. map_of g v = Some nd \<and> int (count_list ns v) \<le> deg nd) \<Longrightarrow>
    \<exists>g' zs. decEach deg dec ns g q = Some (g', q @ zs) \<and>
      (\<forall>v. map_of g' v = map_option (dec ^^ count_list ns v) (map_of g v)) \<and>
      distinct zs \<and> set zs = {v \<in> set ns. \<exists>nd. map_of g v = Some nd \<and> deg nd = int (count_list ns v)}"
proof (induction ns arbitrary: g q)
  case Nil
  then show ?case by (simp add: option.map_ident)
next
  case (Cons name ns)
  from Cons.prems [of name] obtain nd where nd: "map_of g name = Some nd" "1 + int (count_list ns name) \<le> deg nd" by auto
  let ?g = "map_put name (dec nd) g" and ?q = "if deg (dec nd) = 0 then q @ [name] else q"
  have "\<exists>nd. map_of ?g v = Some nd \<and> int (count_list ns v) \<le> deg nd" if "v \<in> set ns" for v
    using Cons.prems [of v] nd that by (auto simp: dec split: if_splits)
  from Cons.IH [OF this, of ?q] obtain g' zs where IH: "decEach deg dec ns ?g ?q = Some (g', ?q @ zs)"
      "\<And>v. map_of g' v = map_option (dec ^^ count_list ns v) (map_of ?g v)" "distinct zs"
      "set zs = {v \<in> set ns. \<exists>nd. map_of ?g v = Some nd \<and> deg nd = int (count_list ns v)}" by blast
  let ?zs = "if deg nd = 1 then name # zs else zs"
  have zero: "deg (dec nd) = 0 \<longleftrightarrow> deg nd = 1" by (simp add: dec)
  have "count_list ns name = 0" if "deg nd = 1" using nd(2) that by simp
  then have notin: "name \<notin> set ns" if "deg nd = 1" using that by (simp add: count_list_0_iff)
  have "decEach deg dec (name # ns) g q = Some (g', q @ ?zs)" using IH(1) nd(1) zero by (simp add: Let_def)
  moreover have "map_of g' v = map_option (dec ^^ count_list (name # ns) v) (map_of g v)" for v
    using IH(2) [of v] nd(1) by (simp add: funpow_swap1)
  moreover have "distinct ?zs" using IH(3,4) notin by auto
  moreover have "set ?zs = {v \<in> set (name # ns). \<exists>nd. map_of g v = Some nd \<and> deg nd = int (count_list (name # ns) v)}"
  proof -
    have "v \<in> set zs \<longleftrightarrow> v \<in> set ns \<and> (\<exists>nd. map_of g v = Some nd \<and> deg nd = int (count_list (name # ns) v))" for v
      using IH(4) nd(1) by (auto simp: dec)
    then show ?thesis using notin nd by (auto simp: count_list_0_iff)
  qed
  ultimately show ?case by blast
qed

text \<open>The state of either loop: \<open>nbrs\<close> are the nodes whose degree falls when a node goes.\<close>

definition peeled :: "(string \<Rightarrow> string list) \<Rightarrow> ('m graphNode \<Rightarrow> int) \<Rightarrow> 'm graph \<Rightarrow> string list \<Rightarrow> bool" where
  "peeled nbrs deg g q \<longleftrightarrow>
     (\<forall>u \<in> dom (map_of g). set (nbrs u) \<subseteq> dom (map_of g)) \<and>
     (\<forall>v nd. map_of g v = Some nd \<longrightarrow> deg nd = (\<Sum>u \<in> dom (map_of g). int (count_list (nbrs u) v))) \<and>
     distinct q \<and> set q = {v. \<exists>nd. map_of g v = Some nd \<and> deg nd = 0}"

lemma peeled_queue:
  "peeled nbrs deg g (u # q) \<Longrightarrow> \<exists>nd. map_of g u = Some nd \<and> deg nd = 0"
  by (auto simp: peeled_def)

lemma peel_step:
  assumes p: "peeled nbrs deg g (u # q)" and dec: "\<And>n. deg (dec n) = deg n - 1"
  shows "\<exists>g' q'. decEach deg dec (nbrs u) g q = Some (g', q') \<and> peeled nbrs deg (map_del u g') q' \<and>
    (\<forall>v. map_of g' v = map_option (dec ^^ count_list (nbrs u) v) (map_of g v))"
proof -
  let ?D = "dom (map_of g)" and ?c = "\<lambda>v. count_list (nbrs u) v"
  have fin: "finite ?D" by (rule finite_dom_map_of)
  have sum: "deg nd = (\<Sum>w \<in> ?D. int (count_list (nbrs w) v))" if "map_of g v = Some nd" for v nd
    using p that unfolding peeled_def by blast
  from p have u: "u \<in> ?D" by (auto simp: peeled_def)
  have split: "(\<Sum>w \<in> ?D. int (count_list (nbrs w) v)) = int (?c v) + (\<Sum>w \<in> ?D - {u}. int (count_list (nbrs w) v))" for v
    using sum.remove [OF fin u] by simp
  have le: "int (?c v) \<le> deg nd" if "map_of g v = Some nd" for v nd
    using sum [OF that] split [of v] by (simp add: sum_nonneg)
  have "\<exists>nd. map_of g v = Some nd \<and> int (?c v) \<le> deg nd" if "v \<in> set (nbrs u)" for v
  proof -
    have "v \<in> ?D" using p u that unfolding peeled_def by blast
    with le show ?thesis by blast
  qed
  from decEach_result [where deg = deg and dec = dec, OF dec this] obtain g' zs where
    d: "decEach deg dec (nbrs u) g q = Some (g', q @ zs)"
       "\<And>v. map_of g' v = map_option (dec ^^ ?c v) (map_of g v)" "distinct zs"
       "set zs = {v \<in> set (nbrs u). \<exists>nd. map_of g v = Some nd \<and> deg nd = int (?c v)}" by blast
  have cu: "?c u = 0" using le peeled_queue [OF p] by fastforce
  then have un: "u \<notin> set (nbrs u)" by (simp add: count_list_0_iff)
  have dm: "dom (map_of (map_del u g')) = ?D - {u}" using d(2) by (auto simp: dom_def)
  have sum': "deg nd = (\<Sum>w \<in> ?D - {u}. int (count_list (nbrs w) v))" if v: "map_of (map_del u g') v = Some nd" for v nd
  proof -
    from v d(2) [of v] obtain n where "map_of g v = Some n" "nd = (dec ^^ ?c v) n"
      by (cases "map_of g v") (auto split: if_splits)
    with sum [of v n] split [of v] show ?thesis by (simp add: funpow_deg dec)
  qed
  have q: "distinct (u # q)" "set (u # q) = {v. \<exists>nd. map_of g v = Some nd \<and> deg nd = 0}"
    using p by (simp_all add: peeled_def)
  have zero: "(\<exists>nd. map_of (map_del u g') v = Some nd \<and> deg nd = 0) \<longleftrightarrow>
      v \<noteq> u \<and> (\<exists>nd. map_of g v = Some nd \<and> deg nd = int (?c v))" for v
    using d(2) [of v] by (auto simp: funpow_deg dec)
  have "v \<in> set (q @ zs) \<longleftrightarrow> v \<noteq> u \<and> (\<exists>nd. map_of g v = Some nd \<and> deg nd = int (?c v))" for v
  proof (cases "v \<in> set (nbrs u)")
    case True
    then have "0 < ?c v" by (simp add: count_pos)
    have "v \<notin> set q"
    proof
      assume "v \<in> set q"
      then obtain n where "map_of g v = Some n" "deg n = 0" using q(2) by auto
      with le [of v n] \<open>0 < ?c v\<close> show False by simp
    qed
    moreover have "v \<noteq> u" using True un by blast
    moreover have "v \<in> set zs \<longleftrightarrow> (\<exists>nd. map_of g v = Some nd \<and> deg nd = int (?c v))" using d(4) True by simp
    ultimately show ?thesis by simp
  next
    case False
    then have "?c v = 0" by (simp add: count_list_0_iff)
    then have "(\<exists>nd. map_of g v = Some nd \<and> deg nd = int (?c v)) \<longleftrightarrow> v \<in> set (u # q)" using q(2) by simp
    moreover have "v \<notin> set zs" using d(4) False by simp
    ultimately show ?thesis using q(1) by auto
  qed
  then have sq: "set (q @ zs) = {v. \<exists>nd. map_of (map_del u g') v = Some nd \<and> deg nd = 0}"
    unfolding zero by blast
  have "set q \<inter> set zs = {}"
  proof -
    have "v \<notin> set q" if "v \<in> set zs" for v
    proof
      assume "v \<in> set q"
      then have "\<exists>nd. map_of g v = Some nd \<and> deg nd = 0" using q(2) by auto
      with that d(4) show False by (auto simp: count_list_0_iff)
    qed
    then show ?thesis by blast
  qed
  then have dq: "distinct (q @ zs)" using q(1) d(3) by simp
  have "set (nbrs w) \<subseteq> ?D - {u}" if "w \<in> ?D - {u}" for w
  proof -
    have "u \<notin> set (nbrs w)"
    proof
      assume "u \<in> set (nbrs w)"
      then have "0 < int (count_list (nbrs w) u)" by (simp add: count_pos)
      moreover obtain n where n: "map_of g u = Some n" "deg n = 0" using peeled_queue [OF p] by blast
      moreover have "int (count_list (nbrs w) u) \<le> (\<Sum>w \<in> ?D. int (count_list (nbrs w) u))"
        using fin that by (intro member_le_sum) auto
      ultimately show False using sum [OF n(1)] by simp
    qed
    moreover have "set (nbrs w) \<subseteq> ?D" using p that unfolding peeled_def by blast
    ultimately show ?thesis by blast
  qed
  then have "peeled nbrs deg (map_del u g') (q @ zs)"
    unfolding peeled_def dm using sum' sq dq by blast
  with d(1,2) show ?thesis by blast
qed

lemma peeled_end:
  assumes "peeled nbrs deg g []" "v \<in> dom (map_of g)"
  shows "\<exists>u \<in> dom (map_of g). v \<in> set (nbrs u)"
proof (rule ccontr)
  assume "\<not> ?thesis"
  then have z: "(\<Sum>u \<in> dom (map_of g). int (count_list (nbrs u) v)) = 0"
    by (intro sum.neutral) (auto simp: count_list_0_iff)
  from assms(2) obtain nd where "map_of g v = Some nd" by blast
  with assms(1) z show False by (auto simp: peeled_def)
qed

section \<open>What the graph is\<close>

definition opt_of :: "'m decoder \<Rightarrow> 'm \<Rightarrow> GroupCommonOption" where
  "opt_of decode m = snd (decode m zero_option)"

definition gname :: "'m decoder \<Rightarrow> 'm \<Rightarrow> string" where
  "gname decode m = o_Name (opt_of decode m)"

definition members :: "'m decoder \<Rightarrow> 'm \<Rightarrow> string list" where
  "members decode m = o_Proxies (opt_of decode m)"

definition node_of :: "'m decoder \<Rightarrow> 'm list \<Rightarrow> string \<Rightarrow> 'm graphNode" where
  "node_of decode ms n =
     \<lparr>indegree = int (count_list (concat (map (members decode) ms)) n), topo = -1,
      gn_data = map_of (map (\<lambda>m. (gname decode m, m)) ms) n, outdegree = 0,
      gn_option = map_option (opt_of decode) (map_of (map (\<lambda>m. (gname decode m, m)) ms) n), gn_from = []\<rparr>"

definition nodes :: "'m decoder \<Rightarrow> 'm list \<Rightarrow> string set" where
  "nodes decode ms = gname decode ` set ms \<union> set (concat (map (members decode) ms))"

definition graph_of :: "'m decoder \<Rightarrow> 'm list \<Rightarrow> 'm graph \<Rightarrow> bool" where
  "graph_of decode ms g \<longleftrightarrow> distinct (map fst g) \<and>
     (\<forall>n. map_of g n = (if n \<in> nodes decode ms then Some (node_of decode ms n) else None))"

lemma addEdges_distinct: "distinct (map fst g) \<Longrightarrow> distinct (map fst (addEdges ps g))"
  by (induction ps g rule: addEdges.induct) (auto intro: distinct_put split: option.split)

lemma addEdges_lookup:
  "map_of (addEdges ps g) n =
     (case map_of g n of
        Some nd \<Rightarrow> Some (nd\<lparr>indegree := indegree nd + int (count_list ps n)\<rparr>)
      | None \<Rightarrow> if n \<in> set ps then Some \<lparr>indegree = int (count_list ps n), topo = -1, gn_data = None, outdegree = 0,
          gn_option = None, gn_from = []\<rparr> else None)"
proof (induction ps g rule: addEdges.induct)
  case (1 g)
  then show ?case by (simp split: option.split)
next
  case (2 p ps g)
  then show ?case
    by (cases "map_of g p"; cases "map_of g n") (auto simp: count_list_0_iff)
qed

lemma graph_of_Nil: "graph_of decode [] []"
  by (simp add: graph_of_def nodes_def)

lemma map_of_names: "map_of (map (\<lambda>m. (f m, m)) ms) n = None \<longleftrightarrow> n \<notin> f ` set ms"
  by (simp add: map_of_eq_None_iff image_image)

lemma graph_of_snoc:
  assumes g: "graph_of decode ms g" and new: "gname decode m \<notin> gname decode ` set ms"
  shows "graph_of decode (ms @ [m]) (addEdges (members decode m) (map_put (gname decode m)
    (case map_of g (gname decode m) of
       Some nd \<Rightarrow> nd\<lparr>gn_data := Some m, gn_option := Some (opt_of decode m)\<rparr>
     | None \<Rightarrow> \<lparr>indegree = 0, topo = -1, gn_data = Some m, outdegree = 0, gn_option = Some (opt_of decode m), gn_from = []\<rparr>) g))"
    (is "graph_of _ _ (addEdges _ ?g)")
proof -
  let ?n = "gname decode m" and ?lk = "map_of (map (\<lambda>m. (gname decode m, m)) ms)"
  have l: "?lk ?n = None" using new map_of_names [of "gname decode" ms ?n] by blast
  have lk: "map_of g n = (if n \<in> nodes decode ms then Some (node_of decode ms n) else None)" for n
    using g by (simp add: graph_of_def)
  have no: "?lk n = None" "count_list (concat (map (members decode) ms)) n = 0" if "n \<notin> nodes decode ms" for n
    using that map_of_names [of "gname decode" ms n] by (auto simp: nodes_def count_list_0_iff)
  have "map_of (addEdges (members decode m) ?g) n =
      (if n \<in> nodes decode (ms @ [m]) then Some (node_of decode (ms @ [m]) n) else None)" for n
    unfolding addEdges_lookup using lk [of n] lk [of ?n] l no [of n]
    by (auto simp: nodes_def node_of_def map_add_def split: if_splits option.splits)
  moreover have "distinct (map fst (addEdges (members decode m) ?g))"
    using g by (intro addEdges_distinct distinct_put) (simp add: graph_of_def)
  ultimately show ?thesis by (simp add: graph_of_def)
qed

definition decoded :: "'m decoder \<Rightarrow> 'm list \<Rightarrow> bool" where
  "decoded decode ms \<longleftrightarrow> list_all (\<lambda>m. fst (decode m zero_option) = None) ms \<and> distinct (map (gname decode) ms)"

lemma buildGraph_result:
  "graph_of decode ms0 g \<Longrightarrow> distinct (map (gname decode) ms0) \<Longrightarrow>
     (if list_all (\<lambda>m. fst (decode m zero_option) = None) ms \<and> distinct (map (gname decode) (ms0 @ ms))
      then \<exists>g'. buildGraph decode ms g = Inr g' \<and> graph_of decode (ms0 @ ms) g'
      else \<exists>e. buildGraph decode ms g = Inl e \<and> (\<forall>es. e \<noteq> LoopDetected es))"
proof (induction ms arbitrary: ms0 g)
  case (Cons m ms)
  obtain err option where d: "decode m zero_option = (err, option)" by fastforce
  then have o: "opt_of decode m = option" "gname decode m = o_Name option" "members decode m = o_Proxies option"
    by (simp_all add: opt_of_def gname_def members_def)
  have lk: "map_of g n = (if n \<in> nodes decode ms0 then Some (node_of decode ms0 n) else None)" for n
    using Cons.prems(1) by (simp add: graph_of_def)
  show ?case
  proof (cases err)
    case (Some e)
    with d show ?thesis by auto
  next
    case None
    show ?thesis
    proof (cases "gname decode m \<in> gname decode ` set ms0")
      case True
      then have "map_of g (o_Name option) = Some (node_of decode ms0 (o_Name option))"
        "\<not> Option.is_none (gn_data (node_of decode ms0 (o_Name option)))"
        using lk o map_of_names [of "gname decode" ms0 "o_Name option"]
        by (auto simp: nodes_def node_of_def Option.is_none_def)
      with True None d show ?thesis by auto
    next
      case False
      have dm: "gn_data nd = None" if "map_of g (o_Name option) = Some nd" for nd
        using that lk [of "o_Name option"] False o map_of_names [of "gname decode" ms0 "o_Name option"]
        by (auto simp: node_of_def split: if_splits)
      let ?g = "addEdges (members decode m) (map_put (gname decode m)
          (case map_of g (gname decode m) of
             Some nd \<Rightarrow> nd\<lparr>gn_data := Some m, gn_option := Some (opt_of decode m)\<rparr>
           | None \<Rightarrow> \<lparr>indegree = 0, topo = -1, gn_data = Some m, outdegree = 0, gn_option = Some (opt_of decode m), gn_from = []\<rparr>) g)"
      have step: "buildGraph decode (m # ms) g = buildGraph decode ms ?g"
        using None d o dm by (auto simp: Option.is_none_def split: option.split)
      have "distinct (map (gname decode) (ms0 @ [m]))" using Cons.prems(2) False by auto
      note IH = Cons.IH [OF graph_of_snoc [OF Cons.prems(1) False] this]
      have ap: "ms0 @ m # ms = (ms0 @ [m]) @ ms" by simp
      have la: "list_all (\<lambda>m. fst (decode m zero_option) = None) (m # ms) = list_all (\<lambda>m. fst (decode m zero_option) = None) ms"
        using None d by simp
      show ?thesis unfolding step ap la by (rule IH)
    qed
  qed
qed simp

lemma buildGraph_decoded: "decoded decode ms \<Longrightarrow> \<exists>g. buildGraph decode ms [] = Inr g \<and> graph_of decode ms g"
  using buildGraph_result [OF graph_of_Nil, of decode ms] by (simp add: decoded_def)

lemma buildGraph_Inr: "buildGraph decode ms [] = Inr g \<Longrightarrow> decoded decode ms \<and> graph_of decode ms g"
  using buildGraph_result [OF graph_of_Nil, of decode ms] by (auto simp: decoded_def split: if_splits)

section \<open>The order\<close>

definition lookup_group :: "'m decoder \<Rightarrow> 'm list \<Rightarrow> string \<Rightarrow> 'm option" where
  "lookup_group decode ms n = map_of (map (\<lambda>m. (gname decode m, m)) ms) n"

definition succs :: "'m decoder \<Rightarrow> 'm list \<Rightarrow> string \<Rightarrow> string list" where
  "succs decode ms u = (case lookup_group decode ms u of None \<Rightarrow> [] | Some m \<Rightarrow> members decode m)"

definition placed :: "'m decoder \<Rightarrow> 'm list \<Rightarrow> string list \<Rightarrow> 'm list" where
  "placed decode ms vs = map (\<lambda>u. the (lookup_group decode ms u)) (filter (\<lambda>u. lookup_group decode ms u \<noteq> None) vs)"

text \<open>Every name comes after all the groups it is a member of.\<close>

definition ordered :: "(string \<Rightarrow> string list) \<Rightarrow> string list \<Rightarrow> bool" where
  "ordered nbrs vs \<longleftrightarrow> (\<forall>xs v ys u. vs = xs @ v # ys \<longrightarrow> v \<in> set (nbrs u) \<longrightarrow> u \<in> set xs)"

lemma lookup_group_name:
  assumes "distinct (map (gname decode) ms)" "m \<in> set ms"
  shows "lookup_group decode ms (gname decode m) = Some m"
  using assms unfolding lookup_group_def by (simp add: map_of_eq_Some_iff distinct_map inj_on_def comp_def)

lemma lookup_group_None: "lookup_group decode ms n = None \<longleftrightarrow> n \<notin> gname decode ` set ms"
  unfolding lookup_group_def by (rule map_of_names)

lemma lookup_group_Some: "lookup_group decode ms n = Some m \<Longrightarrow> m \<in> set ms \<and> gname decode m = n"
  unfolding lookup_group_def by (auto dest!: map_of_SomeD)

lemma succs_nodes: "set (succs decode ms u) \<subseteq> nodes decode ms"
  by (cases "lookup_group decode ms u") (auto simp: succs_def nodes_def dest: lookup_group_Some)

lemma succs_group: "v \<in> set (succs decode ms u) \<Longrightarrow> u \<in> gname decode ` set ms"
  by (cases "lookup_group decode ms u") (auto simp: succs_def dest: lookup_group_Some)

lemma count_concat: "count_list (concat xss) v = sum_list (map (\<lambda>xs. count_list xs v) xss)"
  by (induction xss) simp_all

lemma members_count:
  assumes "distinct (map (gname decode) ms)"
  shows "int (count_list (concat (map (members decode) ms)) v) = (\<Sum>u \<in> nodes decode ms. int (count_list (succs decode ms u) v))"
proof -
  have l: "map (\<lambda>m. count_list (members decode m) v) ms = map (\<lambda>u. count_list (succs decode ms u) v) (map (gname decode) ms)"
    using assms by (auto simp: succs_def lookup_group_name)
  have "count_list (concat (map (members decode) ms)) v = sum_list (map (\<lambda>m. count_list (members decode m) v) ms)"
    by (simp add: count_concat comp_def)
  also have "\<dots> = (\<Sum>u \<in> set (map (gname decode) ms). count_list (succs decode ms u) v)"
    unfolding l by (rule sum_list_distinct_conv_sum_set [OF assms])
  also have "\<dots> = (\<Sum>u \<in> nodes decode ms. count_list (succs decode ms u) v)"
  proof (rule sum.mono_neutral_left)
    have "succs decode ms u = []" if "u \<notin> gname decode ` set ms" for u
      using that lookup_group_None [of decode ms u] by (simp add: succs_def)
    then show "\<forall>u \<in> nodes decode ms - set (map (gname decode) ms). count_list (succs decode ms u) v = 0" by simp
  qed (auto simp: nodes_def)
  finally show ?thesis by simp
qed

definition topo_inv :: "'m decoder \<Rightarrow> 'm list \<Rightarrow> 'm graph \<Rightarrow> string list \<Rightarrow> 'm list \<Rightarrow> nat \<Rightarrow> string list \<Rightarrow> bool" where
  "topo_inv decode ms g q cfg i vs \<longleftrightarrow>
     peeled (succs decode ms) indegree g q \<and> distinct (map fst g) \<and>
     (\<forall>v nd. map_of g v = Some nd \<longrightarrow> gn_option nd = map_option (opt_of decode) (lookup_group decode ms v) \<and>
        gn_data nd = lookup_group decode ms v \<and> outdegree nd = 0 \<and> gn_from nd = []) \<and>
     dom (map_of g) = nodes decode ms - set vs \<and> distinct vs \<and> set vs \<subseteq> nodes decode ms \<and>
     ordered (succs decode ms) vs \<and> i = length (placed decode ms vs) \<and>
     cfg = take (length ms - i) ms @ rev (placed decode ms vs)"

lemma placed_bound:
  assumes "distinct vs"
  shows "length (placed decode ms vs) \<le> length ms"
proof -
  let ?f = "filter (\<lambda>u. lookup_group decode ms u \<noteq> None) vs"
  have "set ?f \<subseteq> gname decode ` set ms" using lookup_group_None [of decode ms] by auto
  then have "card (set ?f) \<le> card (gname decode ` set ms)" by (intro card_mono) simp_all
  also have "\<dots> \<le> length ms" by (metis card_length length_map list.set_map)
  finally show ?thesis using distinct_card [of ?f] assms by (simp add: placed_def)
qed

lemma take_update: "k < length xs \<Longrightarrow> (take (Suc k) xs)[k := x] = take k xs @ [x]"
  by (simp add: take_Suc_conv_app_nth list_update_append)

lemma ordered_snoc:
  assumes "ordered nbrs vs" "\<And>w. u \<in> set (nbrs w) \<Longrightarrow> w \<in> set vs"
  shows "ordered nbrs (vs @ [u])"
  unfolding ordered_def
proof (intro allI impI)
  fix xs v ys w
  assume s: "vs @ [u] = xs @ v # ys" and w: "v \<in> set (nbrs w)"
  show "w \<in> set xs"
  proof (cases ys rule: rev_cases)
    case Nil
    with s w assms(2) show ?thesis by simp
  next
    case (snoc ys' y)
    with s have "vs = xs @ v # ys'" by simp
    with assms(1) w show ?thesis unfolding ordered_def by blast
  qed
qed

lemma decEach_distinct:
  "decEach deg dec ns g q = Some (g', q') \<Longrightarrow> distinct (map fst g) \<Longrightarrow> distinct (map fst g')"
  by (induction deg dec ns g q rule: decEach.induct) (auto simp: Let_def intro: distinct_put split: option.splits)

lemma distinct_del: "distinct (map fst m) \<Longrightarrow> distinct (map fst (map_del k m))"
  unfolding map_del_def by (rule distinct_map_filter)

lemma topo_step:
  assumes inv: "topo_inv decode ms g (u # q) cfg i vs"
  shows "\<exists>g' q' cfg' i'. topoLoop (u # q) g cfg i = topoLoop q' g' cfg' i' \<and>
    topo_inv decode ms g' q' cfg' i' (vs @ [u]) \<and> length g' < length g"
proof -
  have p: "peeled (succs decode ms) indegree g (u # q)" using inv by (simp add: topo_inv_def)
  obtain nd where nd: "map_of g u = Some nd" "indegree nd = 0" using peeled_queue [OF p] by blast
  have fld: "gn_option nd = map_option (opt_of decode) (lookup_group decode ms u)" "gn_data nd = lookup_group decode ms u"
    using inv nd(1) by (auto simp: topo_inv_def)
  have u: "u \<in> nodes decode ms" "u \<notin> set vs" using inv nd(1) by (auto simp: topo_inv_def dom_def)
  from peel_step [OF p, of decIn] obtain g' q' where s: "decEach indegree decIn (succs decode ms u) g q = Some (g', q')"
      "peeled (succs decode ms) indegree (map_del u g') q'"
      "\<And>v. map_of g' v = map_option (decIn ^^ count_list (succs decode ms u) v) (map_of g v)" by auto
  let ?vs = "vs @ [u]"
  have keep: "gn_option ((decIn ^^ k) n) = gn_option n" "gn_data ((decIn ^^ k) n) = gn_data n"
    "outdegree ((decIn ^^ k) n) = outdegree n" "gn_from ((decIn ^^ k) n) = gn_from n" for k and n :: "'a graphNode"
    by (rule funpow_keeps, simp)+
  have pre: "w \<in> set vs" if "u \<in> set (succs decode ms w)" for w
  proof (rule ccontr)
    assume "w \<notin> set vs"
    with inv succs_group [OF that] have w: "w \<in> dom (map_of g)" by (auto simp: topo_inv_def nodes_def)
    have "int (count_list (succs decode ms w) u) \<le> (\<Sum>w \<in> dom (map_of g). int (count_list (succs decode ms w) u))"
      using w by (intro member_le_sum) (auto simp: finite_dom_map_of)
    also have "\<dots> = 0" using p nd by (auto simp: peeled_def)
    finally show False using that count_pos [of "succs decode ms w" u] by simp
  qed
  have ord: "ordered (succs decode ms) ?vs"
    using inv pre by (intro ordered_snoc) (simp_all add: topo_inv_def)
  let ?i = "length (placed decode ms ?vs)" and ?cfg = "take (length ms - length (placed decode ms ?vs)) ms @ rev (placed decode ms ?vs)"
  have new: "topo_inv decode ms (map_del u g') q' ?cfg ?i ?vs"
    unfolding topo_inv_def
  proof (intro conjI allI impI)
    show "distinct (map fst (map_del u g'))"
      using inv decEach_distinct [OF s(1)] by (intro distinct_del) (simp add: topo_inv_def)
    show "dom (map_of (map_del u g')) = nodes decode ms - set ?vs"
    proof -
      have "dom (map_of g') = nodes decode ms - set vs"
        using decEach_dom [OF s(1)] inv by (simp only: topo_inv_def)
      then show ?thesis by auto
    qed
  next
    fix v n
    assume "map_of (map_del u g') v = Some n"
    then obtain n0 where n0: "map_of g v = Some n0" "n = (decIn ^^ count_list (succs decode ms u) v) n0"
      using s(3) [of v] by (cases "map_of g v") (auto split: if_splits)
    then have "gn_option n0 = map_option (opt_of decode) (lookup_group decode ms v) \<and>
      gn_data n0 = lookup_group decode ms v \<and> outdegree n0 = 0 \<and> gn_from n0 = []"
      using inv unfolding topo_inv_def by blast
    then show "gn_option n = map_option (opt_of decode) (lookup_group decode ms v)"
      "gn_data n = lookup_group decode ms v" "outdegree n = 0" "gn_from n = []"
      using keep n0(2) by simp_all
  qed (use inv s(2) ord u in \<open>auto simp: topo_inv_def\<close>)
  have len: "length (map_del u g') < length g" by (rule decEach_del [OF s(1) nd(1)])
  have d: "distinct ?vs" using inv u(2) by (simp add: topo_inv_def)
  have old: "i = length (placed decode ms vs)" "cfg = take (length ms - i) ms @ rev (placed decode ms vs)"
    using inv by (simp_all add: topo_inv_def)
  have "topoLoop (u # q) g cfg i = topoLoop q' (map_del u g') ?cfg ?i"
  proof (cases "lookup_group decode ms u")
    case None
    then have "succs decode ms u = []" "placed decode ms ?vs = placed decode ms vs" by (simp_all add: succs_def placed_def)
    moreover have "topoLoop (u # q) g cfg i = topoLoop q (map_del u g) cfg i"
      unfolding topoLoop.simps(2) using nd fld None by simp
    ultimately show ?thesis using s(1) old by simp
  next
    case (Some m)
    then have sm: "succs decode ms u = members decode m" "placed decode ms ?vs = placed decode ms vs @ [m]"
      by (simp_all add: succs_def placed_def)
    then have b: "Suc i \<le> length ms" using placed_bound [OF d, of decode ms] old by simp
    have len: "length cfg = length ms" using old b by simp
    have "topoLoop (u # q) g cfg i = topoLoop q' (map_del u g') (cfg[length cfg - Suc i := m]) (Suc i)"
      unfolding topoLoop.simps(2) using s(1) nd fld Some sm(1) b len by (auto simp: members_def Let_def)
    moreover have "cfg[length ms - Suc i := m] = ?cfg"
    proof -
      have "length ms - i = Suc (length ms - Suc i)" using b by simp
      with take_update [of "length ms - Suc i" ms m] b old sm(2) show ?thesis
        by (simp add: list_update_append1)
    qed
    moreover have "Suc i = ?i" using old sm(2) by simp
    ultimately show ?thesis using len by simp
  qed
  with new len show ?thesis by blast
qed

lemma topoLoop_result:
  "topo_inv decode ms g q cfg i vs \<Longrightarrow>
     \<exists>g' cfg' i' vs'. topoLoop q g cfg i = Ret (g', cfg') \<and> topo_inv decode ms g' [] cfg' i' vs'"
proof (induction "length g" arbitrary: g q cfg i vs rule: less_induct)
  case less
  show ?case
  proof (cases q)
    case Nil
    with less.prems show ?thesis by auto
  next
    case (Cons u q')
    with topo_step [of decode ms g u q' cfg i vs] less.prems obtain g1 q1 cfg1 i1 where
      "topoLoop q g cfg i = topoLoop q1 g1 cfg1 i1" "topo_inv decode ms g1 q1 cfg1 i1 (vs @ [u])" "length g1 < length g" by blast
    with less.hyps [of g1] show ?thesis by fastforce
  qed
qed

section \<open>The loop is found without panic\<close>

lemma linkNode_result:
  "name \<in> dom (map_of g) \<Longrightarrow> set ps \<subseteq> dom (map_of g) \<Longrightarrow> distinct (map fst g) \<Longrightarrow>
     \<exists>g'. linkNode name ps g = Some g' \<and> distinct (map fst g') \<and>
       (\<forall>v. map_of g' v = map_option (\<lambda>n. n\<lparr>outdegree := outdegree n + (if v = name then int (length ps) else 0),
          gn_from := gn_from n @ replicate (count_list ps v) name\<rparr>) (map_of g v))"
proof (induction ps arbitrary: g)
  case Nil
  then show ?case by (simp add: option.map_ident)
next
  case (Cons p ps)
  from Cons.prems(1) obtain nd where nd: "map_of g name = Some nd" by blast
  let ?g1 = "map_put name (nd\<lparr>outdegree := outdegree nd + 1\<rparr>) g"
  from Cons.prems(2) have "p \<in> dom (map_of ?g1)" by simp
  then obtain child where c: "map_of ?g1 p = Some child" by blast
  let ?g2 = "map_put p (child\<lparr>gn_from := gn_from child @ [name]\<rparr>) ?g1"
  have g2: "map_of ?g2 v = map_option (\<lambda>n. n\<lparr>outdegree := outdegree n + (if v = name then 1 else 0),
      gn_from := gn_from n @ (if v = p then [name] else [])\<rparr>) (map_of g v)" for v
    using nd c by (cases "map_of g v") (auto split: if_splits)
  then have "dom (map_of ?g2) = dom (map_of g)" by (auto simp: dom_def)
  then have "name \<in> dom (map_of ?g2)" "set ps \<subseteq> dom (map_of ?g2)" using Cons.prems by simp_all
  moreover have "distinct (map fst ?g2)" using Cons.prems(3) by (intro distinct_put)
  ultimately obtain g' where g': "linkNode name ps ?g2 = Some g'" "distinct (map fst g')"
      "\<And>v. map_of g' v = map_option (\<lambda>n. n\<lparr>outdegree := outdegree n + (if v = name then int (length ps) else 0),
          gn_from := gn_from n @ replicate (count_list ps v) name\<rparr>) (map_of ?g2 v)"
    using Cons.IH [of ?g2] by blast
  have "linkNode name (p # ps) g = Some g'" using nd c g'(1) by (simp add: Let_def)
  moreover have "map_of g' v = map_option (\<lambda>n. n\<lparr>outdegree := outdegree n + (if v = name then int (length (p # ps)) else 0),
      gn_from := gn_from n @ replicate (count_list (p # ps) v) name\<rparr>) (map_of g v)" for v
    unfolding g'(3) g2 by (cases "map_of g v") simp_all
  ultimately show ?case using g'(2) by blast
qed

definition linked :: "'m decoder \<Rightarrow> 'm list \<Rightarrow> string list \<Rightarrow> string \<Rightarrow> string list" where
  "linked decode ms names v = concat (map (\<lambda>u. replicate (count_list (succs decode ms u) v) u) names)"

lemma linkAll_result:
  "set names \<subseteq> dom (map_of g) \<Longrightarrow> distinct names \<Longrightarrow> distinct (map fst g) \<Longrightarrow>
     (\<And>v nd. map_of g v = Some nd \<Longrightarrow> gn_option nd = map_option (opt_of decode) (lookup_group decode ms v)) \<Longrightarrow>
     (\<And>u. u \<in> dom (map_of g) \<Longrightarrow> set (succs decode ms u) \<subseteq> dom (map_of g)) \<Longrightarrow>
     \<exists>g'. linkAll names g = Some g' \<and> distinct (map fst g') \<and>
       (\<forall>v. map_of g' v = map_option (\<lambda>n. n\<lparr>outdegree := outdegree n + (if v \<in> set names then int (length (succs decode ms v)) else 0),
          gn_from := gn_from n @ linked decode ms names v\<rparr>) (map_of g v))"
proof (induction names arbitrary: g)
  case Nil
  then show ?case by (simp add: option.map_ident linked_def)
next
  case (Cons u names)
  from Cons.prems(1) have u: "u \<in> dom (map_of g)" by simp
  then obtain nd where nd: "map_of g u = Some nd" by blast
  from linkNode_result [OF u Cons.prems(5) [OF u] Cons.prems(3)] obtain g1 where
    g1: "linkNode u (succs decode ms u) g = Some g1" "distinct (map fst g1)"
      "\<And>v. map_of g1 v = map_option (\<lambda>n. n\<lparr>outdegree := outdegree n + (if v = u then int (length (succs decode ms u)) else 0),
          gn_from := gn_from n @ replicate (count_list (succs decode ms u) v) u\<rparr>) (map_of g v)" by blast
  have step: "linkAll (u # names) g = linkAll names g1"
    using g1(1) nd Cons.prems(4) [OF nd]
    by (cases "lookup_group decode ms u") (auto simp: succs_def members_def split: if_splits)
  have dm: "dom (map_of g1) = dom (map_of g)" using g1(3) by (auto simp: dom_def)
  have op: "gn_option n = map_option (opt_of decode) (lookup_group decode ms v)" if "map_of g1 v = Some n" for v n
    using that g1(3) [of v] Cons.prems(4) [of v] by (cases "map_of g v") auto
  have "set names \<subseteq> dom (map_of g1)" "distinct names" using Cons.prems(1,2) dm by simp_all
  from Cons.IH [OF this g1(2) op] Cons.prems(5) dm obtain g' where
    g': "linkAll names g1 = Some g'" "distinct (map fst g')"
      "\<And>v. map_of g' v = map_option (\<lambda>n. n\<lparr>outdegree := outdegree n + (if v \<in> set names then int (length (succs decode ms v)) else 0),
          gn_from := gn_from n @ linked decode ms names v\<rparr>) (map_of g1 v)" by auto
  have "map_of g' v = map_option (\<lambda>n. n\<lparr>outdegree := outdegree n + (if v \<in> set (u # names) then int (length (succs decode ms v)) else 0),
          gn_from := gn_from n @ linked decode ms (u # names) v\<rparr>) (map_of g v)" for v
    unfolding g'(3) g1(3) using Cons.prems(2) by (cases "map_of g v") (auto simp: linked_def)
  with g' step show ?case by auto
qed

lemma linked_count:
  "distinct names \<Longrightarrow> count_list (linked decode ms names v) u = (if u \<in> set names then count_list (succs decode ms u) v else 0)"
proof (induction names)
  case (Cons w names)
  have "count_list (replicate k w) u = (if u = w then k else 0)" for k by (induction k) auto
  with Cons show ?case by (auto simp: linked_def)
qed (simp add: linked_def)

definition walk_ok :: "(string list \<Rightarrow> string list) \<Rightarrow> bool" where
  "walk_ok walk \<longleftrightarrow> (\<forall>xs. mset (walk xs) = mset xs)"

lemma walk_okD: "walk_ok walk \<Longrightarrow> set (walk xs) = set xs \<and> (distinct xs \<longrightarrow> distinct (walk xs))"
  unfolding walk_ok_def by (metis mset_eq_imp_distinct_iff mset_eq_setD)

lemma initialQueue_set:
  assumes "walk_ok walk" "distinct (map fst g)"
  shows "distinct (initialQueue walk deg g) \<and> set (initialQueue walk deg g) = {v. \<exists>nd. map_of g v = Some nd \<and> deg nd = 0}"
proof -
  have "set (walk (map fst g)) = {v. map_of g v \<noteq> None}" "distinct (walk (map fst g))"
    using walk_okD [OF assms(1), of "map fst g"] assms(2) by (auto simp: map_of_eq_None_iff)
  then show ?thesis unfolding initialQueue_def by (auto split: option.splits)
qed

lemma peelLoop_result:
  "peeled nbrs outdegree g q \<Longrightarrow> (\<And>v nd. map_of g v = Some nd \<Longrightarrow> gn_from nd = nbrs v) \<Longrightarrow> \<exists>g'. peelLoop q g = Ret g'"
proof (induction "length g" arbitrary: g q rule: less_induct)
  case less
  show ?case
  proof (cases q)
    case (Cons u q')
    from less.prems(1) Cons have p: "peeled nbrs outdegree g (u # q')" by simp
    obtain nd where nd: "map_of g u = Some nd" using peeled_queue [OF p] by blast
    from peel_step [OF p, of decOut] obtain g1 q1 where s: "decEach outdegree decOut (nbrs u) g q' = Some (g1, q1)"
      "peeled nbrs outdegree (map_del u g1) q1"
      "\<And>v. map_of g1 v = map_option (decOut ^^ count_list (nbrs u) v) (map_of g v)" by auto
    have keep: "gn_from ((decOut ^^ k) n) = gn_from n" for k and n :: "'a graphNode" by (rule funpow_keeps) simp
    have "gn_from n = nbrs v" if "map_of (map_del u g1) v = Some n" for v n
      using that s(3) [of v] less.prems(2) [of v] keep by (cases "map_of g v") (auto split: if_splits)
    from less.hyps [OF decEach_del [OF s(1) nd] s(2) this] have "\<exists>g'. peelLoop q1 (map_del u g1) = Ret g'" by blast
    with Cons nd s(1) less.prems(2) [OF nd] show ?thesis by (simp add: peelLoop.simps(2))
  qed simp
qed

lemma link_peel:
  assumes walk: "walk_ok walk" and inv: "topo_inv decode ms g [] cfg i vs"
  shows "\<exists>g' g''. linkAll (walk (map fst g)) g = Some g' \<and> peelLoop (initialQueue walk outdegree g') g' = Ret g''"
proof -
  let ?D = "dom (map_of g)" and ?names = "walk (map fst g)"
  have d: "distinct (map fst g)" and p: "peeled (succs decode ms) indegree g []" using inv by (simp_all add: topo_inv_def)
  have fld: "gn_option nd = map_option (opt_of decode) (lookup_group decode ms v)" "outdegree nd = 0" "gn_from nd = []"
    if "map_of g v = Some nd" for v nd
    using inv that unfolding topo_inv_def by blast+
  have names: "set ?names = ?D" "distinct ?names"
    using walk_okD [OF walk, of "map fst g"] d by (simp_all add: dom_map_of_conv_image_fst)
  have cl: "set (succs decode ms u) \<subseteq> ?D" if "u \<in> ?D" for u using p that by (auto simp: peeled_def)
  from linkAll_result [OF _ names(2) d fld(1) cl] names(1) obtain g' where g': "linkAll ?names g = Some g'" "distinct (map fst g')"
      "\<And>v. map_of g' v = map_option (\<lambda>n. n\<lparr>outdegree := outdegree n + (if v \<in> set ?names then int (length (succs decode ms v)) else 0),
          gn_from := gn_from n @ linked decode ms ?names v\<rparr>) (map_of g v)" by auto
  have dm: "dom (map_of g') = ?D" using g'(3) by (auto simp: dom_def)
  have node: "outdegree nd = int (length (succs decode ms v))" "gn_from nd = linked decode ms ?names v"
    if "map_of g' v = Some nd" for v nd
  proof -
    from that g'(3) [of v] obtain n where "map_of g v = Some n" "v \<in> ?D"
      "nd = n\<lparr>outdegree := outdegree n + (if v \<in> set ?names then int (length (succs decode ms v)) else 0),
          gn_from := gn_from n @ linked decode ms ?names v\<rparr>" by (cases "map_of g v") auto
    with fld names(1) show "outdegree nd = int (length (succs decode ms v))" "gn_from nd = linked decode ms ?names v" by auto
  qed
  have "peeled (linked decode ms ?names) outdegree g' (initialQueue walk outdegree g')"
    unfolding peeled_def dm
  proof (intro conjI ballI allI impI)
    fix u
    show "set (linked decode ms ?names u) \<subseteq> ?D" using names(1) by (auto simp: linked_def)
  next
    fix v nd
    assume v: "map_of g' v = Some nd"
    then have vD: "v \<in> ?D" using dm by blast
    have "(\<Sum>u \<in> ?D. int (count_list (linked decode ms ?names u) v)) = (\<Sum>u \<in> ?D. int (count_list (succs decode ms v) u))"
      using vD names by (intro sum.cong refl) (simp add: linked_count)
    also have "\<dots> = int (length (succs decode ms v))"
      using sum_count_set [OF cl [OF vD] finite_dom_map_of] by (simp flip: of_nat_sum)
    finally show "outdegree nd = (\<Sum>u \<in> ?D. int (count_list (linked decode ms ?names u) v))" using node(1) [OF v] by simp
  qed (use initialQueue_set [OF walk g'(2), of outdegree] in auto)
  from peelLoop_result [OF this node(2)] g'(1) show ?thesis by blast
qed

section \<open>The result\<close>

text \<open>The groups and what they are made of: \<open>(u, v)\<close> when \<open>v\<close> is listed by the group \<open>u\<close>.\<close>

definition member_rel :: "'m decoder \<Rightarrow> 'm list \<Rightarrow> (string \<times> string) set" where
  "member_rel decode ms = {(gname decode m, p) | m p. m \<in> set ms \<and> p \<in> set (members decode m)}"

text \<open>Every group after the groups it lists.\<close>

definition members_first :: "'m decoder \<Rightarrow> 'm list \<Rightarrow> bool" where
  "members_first decode ms \<longleftrightarrow>
     (\<forall>xs m ys. ms = xs @ m # ys \<longrightarrow>
        set (members decode m) \<inter> gname decode ` set ms \<subseteq> gname decode ` set xs)"

lemma member_rel_succs:
  assumes "distinct (map (gname decode) ms)"
  shows "(u, v) \<in> member_rel decode ms \<longleftrightarrow> v \<in> set (succs decode ms u)"
proof -
  have "v \<in> set (succs decode ms u) \<longleftrightarrow> (\<exists>m. lookup_group decode ms u = Some m \<and> v \<in> set (members decode m))"
    by (cases "lookup_group decode ms u") (simp_all add: succs_def)
  moreover have "lookup_group decode ms u = Some m \<longleftrightarrow> m \<in> set ms \<and> gname decode m = u" for m
    using lookup_group_name [OF assms] lookup_group_Some [of decode ms u m] by blast
  ultimately show ?thesis by (auto simp: member_rel_def)
qed

lemma finite_member_rel: "finite (member_rel decode ms)"
proof -
  have "member_rel decode ms = (\<Union>m \<in> set ms. (\<lambda>p. (gname decode m, p)) ` set (members decode m))"
    by (auto simp: member_rel_def)
  then show ?thesis by simp
qed

lemma ordered_acyclic:
  assumes "ordered nbrs vs" "distinct vs" "\<And>u v. (u, v) \<in> R \<Longrightarrow> v \<in> set (nbrs u) \<and> v \<in> set vs"
  shows "acyclic R"
proof -
  let ?f = "\<lambda>v. length (takeWhile (\<lambda>w. w \<noteq> v) vs)"
  have "?f u < ?f v" if "(u, v) \<in> R" for u v
  proof -
    from assms(3) [OF that] obtain xs ys where vs: "vs = xs @ v # ys" by (meson split_list)
    with assms(1,3) that have "u \<in> set xs" unfolding ordered_def by blast
    then obtain as bs where xs: "xs = as @ u # bs" "u \<notin> set as" by (metis split_list_first)
    have "takeWhile (\<lambda>w. w \<noteq> v) vs = xs" "takeWhile (\<lambda>w. w \<noteq> u) vs = as"
      using assms(2) vs xs by (auto simp: takeWhile_append intro: takeWhile_eq_all_conv [THEN iffD2])
    with xs show ?thesis by simp
  qed
  then have "R \<subseteq> measure ?f" by auto
  then show ?thesis using wf_acyclic wf_measure wf_subset by blast
qed

lemma filter_split: "filter P vs = xs @ v # ys \<Longrightarrow> \<exists>as bs. vs = as @ v # bs \<and> filter P as = xs \<and> filter P bs = ys \<and> P v"
proof (induction vs arbitrary: xs)
  case (Cons w vs)
  show ?case
  proof (cases "P w")
    case True
    with Cons show ?thesis
      by (cases xs) (fastforce intro: exI [of _ "[]"] exI [of _ "w # _"])+
  next
    case False
    with Cons.prems Cons.IH [of xs] obtain as bs where "vs = as @ v # bs" "filter P as = xs" "filter P bs = ys" "P v" by auto
    with False show ?thesis by (intro exI [of _ "w # as"] exI [of _ bs]) simp
  qed
qed simp

lemma placed_names: "map (gname decode) (placed decode ms vs) = filter (\<lambda>u. lookup_group decode ms u \<noteq> None) vs"
  by (induction vs) (auto simp: placed_def dest: lookup_group_Some)

lemma placed_members_first:
  assumes d: "distinct (map (gname decode) ms)" and o: "ordered (succs decode ms) vs" and dv: "distinct vs"
  shows "members_first decode (rev (placed decode ms vs))"
  unfolding members_first_def
proof (intro allI impI subsetI, elim IntE)
  fix xs m ys p
  assume s: "rev (placed decode ms vs) = xs @ m # ys" and p: "p \<in> set (members decode m)"
    and g: "p \<in> gname decode ` set (rev (placed decode ms vs))"
  let ?g = "gname decode" and ?P = "\<lambda>u. lookup_group decode ms u \<noteq> None"
  from s have r: "placed decode ms vs = rev ys @ m # rev xs" by (metis rev_rev_ident rev_append rev.simps(2) append.assoc append_Cons append_Nil)
  then have N: "filter ?P vs = map ?g (rev ys) @ ?g m # map ?g (rev xs)" using placed_names [of decode ms vs] by simp
  have dN: "distinct (filter ?P vs)" using dv by simp
  have m: "m \<in> set ms"
  proof -
    have "m \<in> set (placed decode ms vs)" using r by simp
    then show ?thesis by (auto simp: placed_def dest: lookup_group_Some)
  qed
  then have ps: "p \<in> set (succs decode ms (?g m))" using p lookup_group_name [OF d m] by (simp add: succs_def)
  have before: "?g m \<in> set as" if "filter ?P vs = as @ p # bs" for as bs
  proof -
    from filter_split [OF that] obtain as' bs' where v: "vs = as' @ p # bs'" "filter ?P as' = as" by blast
    with o ps have "?g m \<in> set as'" unfolding ordered_def by blast
    moreover have "?P (?g m)" using lookup_group_name [OF d m] by simp
    ultimately show ?thesis using v(2) by auto
  qed
  have "p \<notin> set (map ?g (rev ys))"
  proof
    assume "p \<in> set (map ?g (rev ys))"
    then obtain as bs where ab: "map ?g (rev ys) = as @ p # bs" by (meson split_list)
    with before [of as "bs @ ?g m # map ?g (rev xs)"] N dN show False by auto
  qed
  moreover have "p \<noteq> ?g m" using before [of "map ?g (rev ys)" "map ?g (rev xs)"] N dN by auto
  ultimately show "p \<in> ?g ` set xs" using g r by auto
qed

lemma dag_result:
  assumes walk: "walk_ok walk" and dec: "decoded decode ms"
  shows "if acyclic (member_rel decode ms)
    then \<exists>cfg. proxyGroupsDagSort walk decode ms = Ret (Inr cfg) \<and> mset cfg = mset ms \<and> members_first decode cfg
    else \<exists>es. proxyGroupsDagSort walk decode ms = Ret (Inl (LoopDetected es))"
proof -
  from buildGraph_decoded [OF dec] obtain g where b: "buildGraph decode ms [] = Inr g" "graph_of decode ms g" by blast
  have d: "distinct (map (gname decode) ms)" using dec by (simp add: decoded_def)
  have lk: "map_of g n = (if n \<in> nodes decode ms then Some (node_of decode ms n) else None)" for n
    using b(2) by (simp add: graph_of_def)
  then have dm: "dom (map_of g) = nodes decode ms" by (auto simp: dom_def)
  let ?q = "initialQueue walk indegree g"
  have "peeled (succs decode ms) indegree g ?q"
    unfolding peeled_def dm
  proof (intro conjI ballI allI impI)
    show "set (succs decode ms u) \<subseteq> nodes decode ms" for u by (rule succs_nodes)
    show "indegree nd = (\<Sum>u \<in> nodes decode ms. int (count_list (succs decode ms u) v))" if "map_of g v = Some nd" for v nd
      using that lk [of v] members_count [OF d] by (auto simp: node_of_def split: if_splits)
  next
    have "distinct (map fst g)" using b(2) by (simp add: graph_of_def)
    from initialQueue_set [OF walk this, of indegree]
    show "distinct ?q" "set ?q = {v. \<exists>nd. map_of g v = Some nd \<and> indegree nd = 0}" by blast+
  qed
  then have "topo_inv decode ms g ?q ms 0 []"
    using b(2) lk dm unfolding topo_inv_def
    by (auto simp: graph_of_def node_of_def lookup_group_def placed_def ordered_def split: if_splits)
  from topoLoop_result [OF this] obtain g' cfg i vs where t: "topoLoop ?q g ms 0 = Ret (g', cfg)"
    "topo_inv decode ms g' [] cfg i vs" by blast
  have p: "peeled (succs decode ms) indegree g' []" and dg: "dom (map_of g') = nodes decode ms - set vs" "distinct (map fst g')"
    and vs: "distinct vs" "set vs \<subseteq> nodes decode ms" "ordered (succs decode ms) vs"
    and cfg: "cfg = take (length ms - length (placed decode ms vs)) ms @ rev (placed decode ms vs)"
    using t(2) by (simp_all add: topo_inv_def)
  show ?thesis
  proof (cases "g' = []")
    case True
    then have all: "set vs = nodes decode ms" using dg(1) vs(2) by auto
    have names: "mset (map (gname decode) (placed decode ms vs)) = mset (map (gname decode) ms)"
    proof -
      have "set (filter (\<lambda>u. lookup_group decode ms u \<noteq> None) vs) = set (map (gname decode) ms)"
        using all lookup_group_None [of decode ms] by (auto simp: nodes_def)
      then show ?thesis unfolding placed_names using d vs(1) by (intro set_eq_iff_mset_eq_distinct [THEN iffD1]) simp_all
    qed
    have same: "map (\<lambda>u. the (lookup_group decode ms u)) (map (gname decode) ms') = ms'" if "set ms' \<subseteq> set ms" for ms'
      using that lookup_group_name [OF d] by (induction ms') auto
    have sub: "set (placed decode ms vs) \<subseteq> set ms" by (auto simp: placed_def dest: lookup_group_Some)
    let ?f = "\<lambda>u. the (lookup_group decode ms u)"
    have "mset (map ?f (map (gname decode) (placed decode ms vs))) = mset (map ?f (map (gname decode) ms))"
      unfolding mset_map [of ?f] names ..
    then have "mset (placed decode ms vs) = mset ms" unfolding same [OF sub] same [OF subset_refl] .
    moreover have "mset cfg = mset (placed decode ms vs)"
      using cfg calculation mset_eq_length by fastforce
    moreover have "members_first decode cfg"
      using placed_members_first [OF d vs(3,1)] cfg calculation(1) mset_eq_length by fastforce
    moreover have "acyclic (member_rel decode ms)"
      by (rule ordered_acyclic [OF vs(3,1)])
        (use member_rel_succs [OF d] all succs_nodes in blast)
    moreover have "proxyGroupsDagSort walk decode ms = Ret (Inr cfg)"
      using b(1) t(1) True by (simp add: proxyGroupsDagSort_def)
    ultimately show ?thesis by auto
  next
    case False
    then obtain v where v: "v \<in> dom (map_of g')" by (metis all_not_in_conv dom_eq_empty_conv map_of_eq_empty_iff)
    have "\<not> acyclic (member_rel decode ms)"
    proof
      assume "acyclic (member_rel decode ms)"
      with finite_member_rel have "wf (member_rel decode ms)" by (rule finite_acyclic_wf)
      from wfE_min [OF this v] obtain z where "z \<in> dom (map_of g')"
        "\<And>y. (y, z) \<in> member_rel decode ms \<Longrightarrow> y \<notin> dom (map_of g')" by blast
      with peeled_end [OF p] member_rel_succs [OF d] show False by blast
    qed
    moreover from link_peel [OF walk t(2)] obtain g1 g2 where "linkAll (walk (map fst g')) g' = Some g1"
      "peelLoop (initialQueue walk outdegree g1) g1 = Ret g2" by blast
    then have "proxyGroupsDagSort walk decode ms = Ret (Inl (LoopDetected (walk (map fst g2))))"
      using b(1) t(1) False by (simp add: proxyGroupsDagSort_def)
    ultimately show ?thesis by simp
  qed
qed

text \<open>C7: when the proxy groups are sorted, the result has the same groups, each after all the groups it
  lists; so each can be made from proxies that already exist.\<close>

theorem dag_sort_members_first:
  assumes "proxyGroupsDagSort walk decode ms = Ret (Inr cfg)" "walk_ok walk"
  shows "mset cfg = mset ms \<and> members_first decode cfg"
proof -
  obtain g where "buildGraph decode ms [] = Inr g"
    using assms(1) by (cases "buildGraph decode ms []") (auto simp: proxyGroupsDagSort_def)
  then have "decoded decode ms" using buildGraph_Inr by blast
  from dag_result [OF assms(2) this] assms(1) show ?thesis by (auto split: if_splits)
qed

text \<open>C8: of groups that can be decoded and have names of their own, a loop is reported exactly when some
  group contains itself through a chain of groups; the sort never panics and never fails otherwise.\<close>

theorem dag_sort_loop:
  assumes "walk_ok walk" "decoded decode ms"
  shows "if acyclic (member_rel decode ms) then \<exists>cfg. proxyGroupsDagSort walk decode ms = Ret (Inr cfg)
    else \<exists>es. proxyGroupsDagSort walk decode ms = Ret (Inl (LoopDetected es))"
  using dag_result [OF assms] by (auto split: if_splits)

text \<open>An example: the mappings are pairs of a name and its proxies.\<close>

definition pair_decoder :: "(string \<times> string list) decoder" where
  "pair_decoder m option = (None, option\<lparr>o_Name := fst m, o_Proxies := snd m\<rparr>)"

lemma dag_sort_members_first_witness:
  "\<exists>cfg. proxyGroupsDagSort rev pair_decoder [(''a'', [''b'', ''x'']), (''b'', [''c'']), (''c'', [''x''])] = Ret (Inr cfg) \<and>
     members_first pair_decoder cfg"
proof -
  let ?ms = "[(''a'', [''b'', ''x'']), (''b'', [''c'']), (''c'', [''x''])]"
  have s: "proxyGroupsDagSort rev pair_decoder ?ms = Ret (Inr (rev ?ms))" by code_simp
  have "walk_ok rev" by (simp add: walk_ok_def)
  from dag_sort_members_first [OF s this] s show ?thesis by blast
qed

lemma dag_sort_loop_witness:
  "\<exists>es. proxyGroupsDagSort rev pair_decoder [(''a'', [''b'']), (''b'', [''a'', ''x''])] = Ret (Inl (LoopDetected es))"
proof -
  let ?ms = "[(''a'', [''b'']), (''b'', [''a'', ''x''])]"
  have "walk_ok rev" by (simp add: walk_ok_def)
  moreover have "decoded pair_decoder ?ms" by (simp add: decoded_def pair_decoder_def gname_def opt_of_def)
  moreover have "(''a'', ''b'') \<in> member_rel pair_decoder ?ms" "(''b'', ''a'') \<in> member_rel pair_decoder ?ms"
    by (auto simp: member_rel_def pair_decoder_def gname_def opt_of_def members_def)
  then have "\<not> acyclic (member_rel pair_decoder ?ms)"
    by (meson acyclic_def trancl.intros)
  ultimately show ?thesis using dag_sort_loop [of rev pair_decoder ?ms] by simp
qed

end
