(* ===== verification/Resolver.thy ===== *)
theory Resolver imports DomainTrie Rules RuleProvider begin

text \<open>
  Names to addresses: the hosts table (\<^verbatim>\<open>component/resolver/host.go\<close>, filled by \<^verbatim>\<open>parseHosts\<close> of
  \<^verbatim>\<open>config/config.go\<close>) and the lookups of \<^verbatim>\<open>component/resolver/resolver.go\<close> on top of it.

  The DNS clients and the resolver of the operating system are parameters. \<^verbatim>\<open>Hosts.Search\<close> follows the
  domain names of the table in a loop that need not end; it takes a bound \<open>n\<close> on its rounds and is
  \<open>NoFuel\<close> when it needs more. A random choice is a parameter \<open>rnd\<close>: \<open>rnd k\<close> is the draw among \<open>k\<close>.
\<close>

section \<open>The hosts table (host.go)\<close>

record HostValue =
  hv_IsDomain :: bool
  hv_IPs :: "Addr list"
  hv_Domain :: string

definition zero_HostValue :: HostValue where
  "zero_HostValue = \<lparr>hv_IsDomain = False, hv_IPs = [], hv_Domain = []\<rparr>"

definition host_Data :: "HostValue Node \<Rightarrow> HostValue" where
  "host_Data nd = (case data nd of Some v \<Rightarrow> v | None \<Rightarrow> zero_HostValue)"

fun hostLoop :: "nat \<Rightarrow> HostValue DomainTrie \<Rightarrow> bool \<Rightarrow> HostValue \<Rightarrow> (HostValue \<times> bool) run" where
  "hostLoop 0 t isDomain v = NoFuel"
| "hostLoop (Suc n) t isDomain v =
     (if isDomain \<and> hv_IsDomain v then Ret (v, True)
      else (case Search (hv_Domain v) t of
              Some nd \<Rightarrow> hostLoop n t isDomain (host_Data nd)
            | None \<Rightarrow> Ret (v, isDomain = hv_IsDomain v)))"

definition Hosts_Search :: "nat \<Rightarrow> HostValue DomainTrie \<Rightarrow> string \<Rightarrow> bool \<Rightarrow> (HostValue option \<times> bool) run" where
  "Hosts_Search n t domain isDomain =
     (case Search domain t of
        None \<Rightarrow> Ret (None, False)
      | Some nd \<Rightarrow> run_bind (hostLoop n t isDomain (host_Data nd)) (\<lambda>(v, ok). Ret (Some v, ok)))"

datatype host_error = ValueFormat | BadAddress | EmptyList | InvalidDomain | ValueType

text \<open>A value of the configuration: a text, a list, or something else.\<close>

datatype host_any = HText string | HList "string list" | HOther

definition ToStringSlice :: "host_any \<Rightarrow> host_error + string list" where
  "ToStringSlice value = (case value of HText s \<Rightarrow> Inr [s] | HList ss \<Rightarrow> Inr ss | HOther \<Rightarrow> Inl ValueFormat)"

definition TrimDots :: "string \<Rightarrow> string" where
  "TrimDots s = (let f = dropWhile (\<lambda>c. c = CHR ''.'') in rev (f (rev (f s))))"

definition NewHostValueByIPs :: "Addr list \<Rightarrow> host_error + HostValue" where
  "NewHostValueByIPs ips =
     (if length ips = 0 then Inl EmptyList else Inr \<lparr>hv_IsDomain = False, hv_IPs = ips, hv_Domain = []\<rparr>)"

definition NewHostValueByDomain :: "string \<Rightarrow> host_error + HostValue" where
  "NewHostValueByDomain domain =
     (let domain = TrimDots domain
      in if length (Split (CHR ''.'') domain) < 2 then Inl InvalidDomain
         else Inr \<lparr>hv_IsDomain = True, hv_IPs = [], hv_Domain = domain\<rparr>)"

fun parseAddrs :: "net_text \<Rightarrow> string list \<Rightarrow> Addr list option" where
  "parseAddrs T [] = Some []"
| "parseAddrs T (s # ss) =
     (case ParseAddr T s of
        None \<Rightarrow> None
      | Some ip \<Rightarrow> map_option (\<lambda>ips. ip # ips) (parseAddrs T ss))"

definition NewHostValue :: "net_text \<Rightarrow> host_any \<Rightarrow> host_error + HostValue" where
  "NewHostValue T value =
     (case ToStringSlice value of
        Inl e \<Rightarrow> Inl e
      | Inr valueArr \<Rightarrow>
          if length valueArr > 1 then
            (case parseAddrs T valueArr of None \<Rightarrow> Inl BadAddress | Some ips \<Rightarrow> NewHostValueByIPs ips)
          else if length valueArr = 1 then
            (case ParseAddr T (valueArr ! 0) of
               Some ip \<Rightarrow> NewHostValueByIPs [ip]
             | None \<Rightarrow> NewHostValueByDomain (valueArr ! 0))
          else NewHostValueByDomain [])"

text \<open>One of a list: nothing can be drawn from the empty one.\<close>

definition draw :: "(nat \<Rightarrow> nat) \<Rightarrow> 'a list \<Rightarrow> 'a run" where
  "draw rnd xs = (if xs = [] then Panic else run_of (idx xs (rnd (length xs))))"

definition RandIP :: "(nat \<Rightarrow> nat) \<Rightarrow> HostValue \<Rightarrow> (host_error + Addr) run" where
  "RandIP rnd hv =
     (if hv_IsDomain hv then Ret (Inl ValueType) else run_bind (draw rnd (hv_IPs hv)) (\<lambda>ip. Ret (Inr ip)))"

section \<open>parseHosts (config.go)\<close>

datatype hosts_error = BadValue host_any | HostsCycle string

text \<open>The walk that looks for \<open>domain\<close> behind the new alias. It stops at the end of the chain or at \<open>domain\<close>
  itself, and goes round for ever in a loop that does not contain \<open>domain\<close>.\<close>

fun cycleLoop :: "nat \<Rightarrow> HostValue DomainTrie \<Rightarrow> string \<Rightarrow> HostValue Node option \<Rightarrow> bool run" where
  "cycleLoop 0 t domain nd = NoFuel"
| "cycleLoop (Suc n) t domain nd =
     (case nd of
        None \<Rightarrow> Ret False
      | Some m \<Rightarrow>
          if hv_IsDomain (host_Data m) then
            (if hv_Domain (host_Data m) = domain then Ret True
             else cycleLoop n t domain (Search (hv_Domain (host_Data m)) t))
          else Ret False)"

definition hosts_insert :: "string \<Rightarrow> HostValue \<Rightarrow> HostValue DomainTrie \<Rightarrow> HostValue DomainTrie" where
  "hosts_insert domain v t = (case Insert domain v t of Inl _ \<Rightarrow> t | Inr t' \<Rightarrow> t')"

text \<open>\<open>ifaces\<close>: the addresses of the interfaces that are neither loopback nor link-local, if they could be read.\<close>

fun hostsLoop :: "nat \<Rightarrow> net_text \<Rightarrow> Addr list option \<Rightarrow> (string \<times> host_any) list \<Rightarrow> HostValue DomainTrie \<Rightarrow>
    (hosts_error + HostValue DomainTrie) run" where
  "hostsLoop n T ifaces [] t = Ret (Inr t)"
| "hostsLoop n T ifaces ((domain, anyValue) # hosts) t =
     (let anyValue = (if anyValue = HText ''clash''
                      then (case ifaces of None \<Rightarrow> anyValue | Some ips \<Rightarrow> HList (map (addr_String T) ips))
                      else anyValue)
      in case NewHostValue T anyValue of
           Inl _ \<Rightarrow> Ret (Inl (BadValue anyValue))
         | Inr v \<Rightarrow>
             run_bind (if hv_IsDomain v then cycleLoop n t domain (Search (hv_Domain v) t) else Ret False)
               (\<lambda>cycle. if cycle then Ret (Inl (HostsCycle domain))
                  else hostsLoop n T ifaces hosts (hosts_insert domain v t)))"

definition localhost_value :: HostValue where
  "localhost_value = \<lparr>hv_IsDomain = False, hv_IPs = [V4 0x7F000001], hv_Domain = []\<rparr>"

definition parseHosts :: "nat \<Rightarrow> net_text \<Rightarrow> Addr list option \<Rightarrow> (string \<times> host_any) list \<Rightarrow>
    (hosts_error + HostValue DomainTrie) run" where
  "parseHosts n T ifaces hosts =
     run_bind (hostsLoop n T ifaces hosts (hosts_insert ''localhost'' localhost_value New))
       (\<lambda>r. Ret (map_sum (\<lambda>e. e) Optimize r))"

section \<open>Lookups (resolver.go)\<close>

datatype dns_error = IPNotFound | IPVersion | IPv6Disabled | DNSFailure string

text \<open>A \<^verbatim>\<open>Resolver\<close>; \<^verbatim>\<open>Invalid\<close> answers true when it can be used.\<close>

record resolver =
  r_LookupIP :: "string \<Rightarrow> dns_error + Addr list"
  r_LookupIPv4 :: "string \<Rightarrow> dns_error + Addr list"
  r_LookupIPv6 :: "string \<Rightarrow> dns_error + Addr list"
  r_Invalid :: bool

record dns_env =
  n_hosts :: "HostValue DomainTrie"
  n_rounds :: nat
  n_text :: net_text
  n_DisableIPv6 :: bool
  n_LookupNetIP :: "string \<Rightarrow> string \<Rightarrow> dns_error + Addr list"
  n_rnd :: "nat \<Rightarrow> nat"

definition usable :: "resolver option \<Rightarrow> bool" where
  "usable r = (case r of None \<Rightarrow> False | Some r \<Rightarrow> r_Invalid r)"

definition sysLookup :: "dns_env \<Rightarrow> string \<Rightarrow> string \<Rightarrow> dns_error + Addr list" where
  "sysLookup D net host =
     (case n_LookupNetIP D net host of
        Inl e \<Rightarrow> Inl e
      | Inr ips \<Rightarrow> if length ips = 0 then Inl IPNotFound else Inr ips)"

text \<open>The addresses of one family the hosts table has for the host.\<close>

definition hostsOf :: "dns_env \<Rightarrow> (Addr \<Rightarrow> bool) \<Rightarrow> string \<Rightarrow> Addr list run" where
  "hostsOf D family host =
     run_bind (Hosts_Search (n_rounds D) (n_hosts D) host False)
       (\<lambda>(nd, ok). case nd of
          Some v \<Rightarrow> Ret (if ok then filter family (hv_IPs v) else [])
        | None \<Rightarrow> Ret [])"

definition LookupIPv4WithResolver :: "dns_env \<Rightarrow> string \<Rightarrow> resolver option \<Rightarrow> (dns_error + Addr list) run" where
  "LookupIPv4WithResolver D host r =
     run_bind (hostsOf D Is4 host)
       (\<lambda>addrs. Ret
          (if length addrs > 0 then Inr addrs
           else case ParseAddr (n_text D) host of
             Some ip \<Rightarrow> if Is4 ip \<or> Is4In6 ip then Inr [ip] else Inl IPVersion
           | None \<Rightarrow>
               if usable r then r_LookupIPv4 (the r) host else sysLookup D ''ip4'' host))"

definition LookupIPv6WithResolver :: "dns_env \<Rightarrow> string \<Rightarrow> resolver option \<Rightarrow> (dns_error + Addr list) run" where
  "LookupIPv6WithResolver D host r =
     (if n_DisableIPv6 D then Ret (Inl IPv6Disabled)
      else run_bind (hostsOf D Is6 host)
       (\<lambda>addrs. Ret
          (if length addrs > 0 then Inr addrs
           else case ParseAddr (n_text D) host of
             Some ip \<Rightarrow> if Contains host '':'' then Inr [ip] else Inl IPVersion
           | None \<Rightarrow>
               if usable r then r_LookupIPv6 (the r) host else sysLookup D ''ip6'' host)))"

definition lookupBehind :: "dns_env \<Rightarrow> string \<Rightarrow> resolver option \<Rightarrow> (dns_error + Addr list) run" where
  "lookupBehind D host r =
     (if usable r then Ret (if n_DisableIPv6 D then r_LookupIPv4 (the r) host else r_LookupIP (the r) host)
      else if n_DisableIPv6 D then LookupIPv4WithResolver D host r
      else Ret (case ParseAddr (n_text D) host of
             Some ip \<Rightarrow> Inr [ip]
           | None \<Rightarrow> sysLookup D ''ip'' host))"

definition LookupIPWithResolver :: "dns_env \<Rightarrow> string \<Rightarrow> resolver option \<Rightarrow> (dns_error + Addr list) run" where
  "LookupIPWithResolver D host r =
     run_bind (Hosts_Search (n_rounds D) (n_hosts D) host False)
       (\<lambda>(nd, ok). case nd of
          Some v \<Rightarrow> if ok then Ret (Inr (hv_IPs v)) else lookupBehind D host r
        | None \<Rightarrow> lookupBehind D host r)"

definition SortationAddr :: "Addr list \<Rightarrow> Addr list \<times> Addr list" where
  "SortationAddr ips = (filter (\<lambda>v. Is4 (Unmap v)) ips, filter (\<lambda>v. \<not> Is4 (Unmap v)) ips)"

definition drawOf :: "dns_env \<Rightarrow> (dns_error + Addr list) \<Rightarrow> (dns_error + Addr) run" where
  "drawOf D r =
     (case r of
        Inl e \<Rightarrow> Ret (Inl e)
      | Inr ips \<Rightarrow> if length ips = 0 then Ret (Inl IPNotFound)
                   else run_bind (draw (n_rnd D) ips) (\<lambda>ip. Ret (Inr ip)))"

definition ResolveIPv4WithResolver :: "dns_env \<Rightarrow> string \<Rightarrow> resolver option \<Rightarrow> (dns_error + Addr) run" where
  "ResolveIPv4WithResolver D host r = run_bind (LookupIPv4WithResolver D host r) (drawOf D)"

definition ResolveIPv6WithResolver :: "dns_env \<Rightarrow> string \<Rightarrow> resolver option \<Rightarrow> (dns_error + Addr) run" where
  "ResolveIPv6WithResolver D host r = run_bind (LookupIPv6WithResolver D host r) (drawOf D)"

definition ResolveIPWithResolver :: "dns_env \<Rightarrow> string \<Rightarrow> resolver option \<Rightarrow> (dns_error + Addr) run" where
  "ResolveIPWithResolver D host r =
     run_bind (LookupIPWithResolver D host r)
       (\<lambda>res. case res of
          Inl e \<Rightarrow> Ret (Inl e)
        | Inr ips \<Rightarrow>
            if length ips = 0 then Ret (Inl IPNotFound)
            else let (ipv4s, ipv6s) = SortationAddr ips
                 in run_bind (if length ipv4s > 0 then draw (n_rnd D) ipv4s else draw (n_rnd D) ipv6s)
                      (\<lambda>ip. Ret (Inr ip)))"

text \<open>The host of a proxy server is asked of the resolver for proxies first, of the other one if that fails.\<close>

definition orElse :: "('e + 'a) run \<Rightarrow> ('e + 'a) run \<Rightarrow> ('e + 'a) run" where
  "orElse r s = run_bind r (\<lambda>res. case res of Inl _ \<Rightarrow> s | Inr ip \<Rightarrow> Ret (Inr ip))"

definition ResolveIPv4ProxyServerHost :: "dns_env \<Rightarrow> resolver option \<Rightarrow> resolver option \<Rightarrow> string \<Rightarrow> (dns_error + Addr) run" where
  "ResolveIPv4ProxyServerHost D proxyServer dflt host =
     (if proxyServer \<noteq> None
      then orElse (ResolveIPv4WithResolver D host proxyServer) (ResolveIPv4WithResolver D host dflt)
      else ResolveIPv4WithResolver D host dflt)"

definition ResolveIPv6ProxyServerHost :: "dns_env \<Rightarrow> resolver option \<Rightarrow> resolver option \<Rightarrow> string \<Rightarrow> (dns_error + Addr) run" where
  "ResolveIPv6ProxyServerHost D proxyServer dflt host =
     (if proxyServer \<noteq> None
      then orElse (ResolveIPv6WithResolver D host proxyServer) (ResolveIPv6WithResolver D host dflt)
      else ResolveIPv6WithResolver D host dflt)"

definition ResolveProxyServerHost :: "dns_env \<Rightarrow> resolver option \<Rightarrow> resolver option \<Rightarrow> string \<Rightarrow> (dns_error + Addr) run" where
  "ResolveProxyServerHost D proxyServer dflt host =
     (if proxyServer \<noteq> None
      then orElse (ResolveIPWithResolver D host proxyServer) (ResolveIPWithResolver D host dflt)
      else ResolveIPWithResolver D host dflt)"

section \<open>How far the search goes\<close>

lemma hostLoop_more: "hostLoop n t b v \<noteq> NoFuel \<Longrightarrow> hostLoop (n + k) t b v = hostLoop n t b v"
  by (induction n t b v rule: hostLoop.induct) (auto split: option.splits)

text \<open>The table is finite when a rank goes down along its names. Then the rank of a value is a bound on the
  rounds.\<close>

definition hosts_ranked :: "(HostValue \<Rightarrow> nat) \<Rightarrow> HostValue DomainTrie \<Rightarrow> bool" where
  "hosts_ranked f t \<longleftrightarrow> (\<forall>v nd. Search (hv_Domain v) t = Some nd \<longrightarrow> f (host_Data nd) < f v)"

lemma hostLoop_ends:
  "hosts_ranked f t \<Longrightarrow> f v < n \<Longrightarrow> \<exists>w ok. hostLoop n t b v = Ret (w, ok)"
proof (induction n t b v rule: hostLoop.induct)
  case (2 n t b v)
  show ?case
  proof (cases "\<not> (b \<and> hv_IsDomain v)")
    case go: True
    show ?thesis
    proof (cases "Search (hv_Domain v) t")
      case (Some nd)
      with "2.prems"(1) have "f (host_Data nd) < f v" unfolding hosts_ranked_def by blast
      with "2.prems"(2) have "f (host_Data nd) < n" by simp
      from "2.IH" [OF go Some "2.prems"(1) this] go Some show ?thesis by auto
    qed (use go in auto)
  qed auto
qed simp

lemma Hosts_Search_ends:
  assumes "hosts_ranked f t" "\<And>nd. Search domain t = Some nd \<Longrightarrow> f (host_Data nd) < n"
  shows "\<exists>v ok. Hosts_Search n t domain b = Ret (v, ok)"
proof (cases "Search domain t")
  case (Some nd)
  from hostLoop_ends [OF assms(1) assms(2) [OF Some], of b] Some show ?thesis by (auto simp: Hosts_Search_def)
next
  case None
  then show ?thesis by (auto simp: Hosts_Search_def)
qed

text \<open>What it answers: a value that is found, when the answer is positive, of the kind that was asked for.\<close>

lemma hostLoop_kind: "hostLoop n t b v = Ret (w, ok) \<Longrightarrow> ok \<longleftrightarrow> b = hv_IsDomain w"
  by (induction n t b v rule: hostLoop.induct) (auto split: option.splits if_splits)

lemma Hosts_Search_kind: "Hosts_Search n t domain b = Ret (r, True) \<Longrightarrow> \<exists>v. r = Some v \<and> hv_IsDomain v = b"
  by (auto simp: Hosts_Search_def run_bind_Ret split: option.splits dest: hostLoop_kind)

lemma hostLoop_stuck:
  assumes "Search (hv_Domain v) t = Some nd" "host_Data nd = v"
  shows "hostLoop n t False v = NoFuel"
  using assms by (induction n) auto


section \<open>Addresses\<close>

lemma draw_member: "xs \<noteq> [] \<Longrightarrow> rnd (length xs) < length xs \<Longrightarrow> \<exists>x \<in> set xs. draw rnd xs = Ret x"
  by (auto simp: draw_def idx_def)

text \<open>An address a host is resolved to is one of those the lookup gave, and an IPv4 address (or one written as
  IPv6) when the lookup gave one; an empty list is an error, and the random choice never panics.\<close>

theorem resolve_prefers_ipv4:
  assumes "LookupIPWithResolver D host r = Ret (Inr ips)" "\<And>k. 0 < k \<Longrightarrow> n_rnd D k < k"
  shows "case ResolveIPWithResolver D host r of
      Ret (Inr ip) \<Rightarrow> ip \<in> set ips \<and> (Is4 (Unmap ip) \<or> list_all (\<lambda>a. \<not> Is4 (Unmap a)) ips)
    | Ret (Inl e) \<Rightarrow> e = IPNotFound \<and> ips = [] | _ \<Rightarrow> False"
proof (cases "ips = []")
  case False
  let ?v4 = "filter (\<lambda>v. Is4 (Unmap v)) ips" and ?v6 = "filter (\<lambda>v. \<not> Is4 (Unmap v)) ips"
  show ?thesis
  proof (cases "?v4 = []")
    case True
    then have "?v6 \<noteq> []" using False by (auto simp: filter_empty_conv neq_Nil_conv)
    then obtain ip where "ip \<in> set ?v6" "draw (n_rnd D) ?v6 = Ret ip"
      using draw_member [of ?v6 "n_rnd D"] assms(2) by auto
    with True False assms(1) show ?thesis
      by (simp add: ResolveIPWithResolver_def SortationAddr_def list_all_iff filter_empty_conv)
  next
    case v4: False
    then obtain ip where "ip \<in> set ?v4" "draw (n_rnd D) ?v4 = Ret ip"
      using draw_member [of ?v4 "n_rnd D"] assms(2) by auto
    with v4 False assms(1) show ?thesis by (simp add: ResolveIPWithResolver_def SortationAddr_def)
  qed
qed (use assms(1) in \<open>simp add: ResolveIPWithResolver_def\<close>)

definition example_dns :: dns_env where
  "example_dns = \<lparr>n_hosts = New, n_rounds = 1, n_text = demo_text, n_DisableIPv6 = False,
     n_LookupNetIP = (\<lambda>net host. Inr [V6 7, V4 9]), n_rnd = (\<lambda>k. k - 1)\<rparr>"

lemma resolve_prefers_ipv4_witness:
  "\<exists>ip. ResolveIPWithResolver example_dns ''h.org'' None = Ret (Inr ip) \<and> Is4 (Unmap ip)"
proof -
  have "LookupIPWithResolver example_dns ''h.org'' None = Ret (Inr [V6 7, V4 9])" by code_simp
  from resolve_prefers_ipv4 [OF this] show ?thesis
    by (auto simp: example_dns_def split: run.splits sum.splits)
qed

section \<open>An alias for itself\<close>

lemma best_exact: "E ps = Some d \<Longrightarrow> best E ps = Some d"
  by (induction ps arbitrary: E) simp_all

lemma host_Data_value: "value_of (Some nd) = Some v \<Longrightarrow> host_Data nd = v"
  by (auto simp: value_of_def host_Data_def split: if_splits)

lemma Search_exact:
  assumes "wf_node (root t)" "ValidAndSplitDomain d = Some ds" "hd ds \<noteq> []" "entries (root t) (rev ds) = Some v"
  shows "\<exists>nd. Search d t = Some nd \<and> host_Data nd = v"
proof -
  have "value_of (Search d t) = Some v"
    using Search_best(1) [OF assms(1-3)] best_exact [where E = "entries (root t)", OF assms(4)] by simp
  then show ?thesis using host_Data_value by (cases "Search d t") (auto simp: value_of_def split: if_splits)
qed

lemma localhost_tree:
  "\<exists>t0. hosts_insert ''localhost'' localhost_value New = t0 \<and> wf_node (root t0) \<and>
     entries (root t0) = (\<lambda>q. if q = [''localhost''] then Some localhost_value else None)"
proof -
  have s: "ValidAndSplitDomain ''localhost'' = Some [''localhost'']" by code_simp
  have p: "patterns_of [''localhost''] = [[''localhost'']]" by code_simp
  obtain t0 where "Insert ''localhost'' localhost_value New = Inr t0"
    "entries (root t0) = (\<lambda>q. if q = [''localhost''] then Some localhost_value else None)"
    using Insert_entries [OF s, of localhost_value New] unfolding p entries_New by auto
  with Insert_wf [OF wf_New] show ?thesis by (auto simp: hosts_insert_def)
qed

lemma localhost_only:
  assumes "2 \<le> length ps" "E = (\<lambda>q. if q = [''localhost''] then Some v else None)"
  shows "best E ps = None"
proof -
  obtain p q qs where ps: "ps = p # q # qs" using assms(1) by (cases ps; cases "tl ps") auto
  have "best (\<lambda>r. E (x # r)) (q # qs) = None" for x
  proof -
    have "(\<lambda>r. E (x # y # r)) = (\<lambda>_. None)" for y by (simp add: assms(2))
    then show ?thesis by (simp add: assms(2) dotWildcard_def)
  qed
  then show ?thesis by (simp add: ps assms(2) dotWildcard_def)
qed

text \<open>C28: a configuration whose only host entry names a domain (a valid name of two labels or more, no address and
  no wildcard) as an alias of itself is accepted: \<^verbatim>\<open>parseHosts\<close> looks the alias up before it is inserted and finds no
  cycle. A search for an address of that domain in the table then goes round for ever, whatever the bound; a search for
  an alias of it would return.\<close>

theorem hosts_self_alias_hangs:
  assumes "ValidAndSplitDomain d = Some ds" "2 \<le> length ds" "hd ds \<noteq> []" "hd ds \<noteq> complexWildcard"
    "TrimDots d = d" "2 \<le> length (Split (CHR ''.'') d)" "ParseAddr T d = None"
  shows "\<exists>t. parseHosts (Suc k) T ifaces [(d, HText d)] = Ret (Inr t) \<and> (\<forall>n. Hosts_Search n t d False = NoFuel)"
proof -
  obtain t0 where t0: "hosts_insert ''localhost'' localhost_value New = t0" "wf_node (root t0)"
    "entries (root t0) = (\<lambda>q. if q = [''localhost''] then Some localhost_value else None)"
    using localhost_tree by blast
  define v where "v = \<lparr>hv_IsDomain = True, hv_IPs = [], hv_Domain = d\<rparr>"
  have v: "NewHostValue T (HText d) = Inr v" using assms(5-7)
    by (simp add: NewHostValue_def ToStringSlice_def NewHostValueByDomain_def v_def not_less)
  have "best (entries (root t0)) (rev ds) = None" using assms(2) by (intro localhost_only [OF _ t0(3)]) simp
  then have none: "Search d t0 = None" using Search_best(2) [OF t0(2) assms(1,3)] by simp
  obtain t1 where t1: "Insert d v t0 = Inr t1" "entries (root t1) (rev ds) = Some v"
    using Insert_entries [OF assms(1), of v t0] assms(4) by (auto simp: patterns_of_def)
  have w: "wf_node (root t1)" by (rule Insert_wf [OF t0(2) t1(1)])
  have "d \<noteq> ''clash''"
  proof
    assume "d = ''clash''"
    moreover have "ValidAndSplitDomain ''clash'' = Some [''clash'']" by code_simp
    ultimately show False using assms(1,2) by auto
  qed
  then have p: "parseHosts (Suc k) T ifaces [(d, HText d)] = Ret (Inr (Optimize t1))"
    using v none t1(1) by (simp add: parseHosts_def t0(1) v_def) (simp add: hosts_insert_def)
  have "\<exists>nd. Search d (Optimize t1) = Some nd \<and> host_Data nd = v"
    using w t1(2) by (intro Search_exact [OF _ assms(1,3)]) (simp_all add: Optimize_def wf_optimize entries_optimize)
  then obtain nd where nd: "Search d (Optimize t1) = Some nd" "host_Data nd = v" by blast
  have "hostLoop n (Optimize t1) False v = NoFuel" for n
    using nd by (intro hostLoop_stuck) (simp_all add: v_def)
  then have "Hosts_Search n (Optimize t1) d False = NoFuel" for n
    using nd by (simp add: Hosts_Search_def)
  with p show ?thesis by blast
qed

lemma hosts_self_alias_hangs_witness:
  "\<exists>t. parseHosts 1 demo_text None [(''a.org'', HText ''a.org'')] = Ret (Inr t) \<and>
     Hosts_Search 1000 t ''a.org'' False = NoFuel"
proof -
  have "ValidAndSplitDomain ''a.org'' = Some [''a'', ''org'']" "TrimDots ''a.org'' = ''a.org''"
    "length (Split (CHR ''.'') ''a.org'') = 2" "ParseAddr demo_text ''a.org'' = None" by code_simp+
  from hosts_self_alias_hangs [OF this(1) _ _ _ this(2) _ this(4), of 0 None] this(3) show ?thesis
    by (auto simp: complexWildcard_def)
qed

end
