(* ===== verification/ProxyState.thy ===== *)
theory ProxyState imports GoPrelude Metadata "HOL-Library.Word" begin

text \<open>
  \<^verbatim>\<open>adapter/adapter.go\<close>, \<^verbatim>\<open>common/queue\<close>, \<^verbatim>\<open>common/singledo\<close> and the adapter types of \<^verbatim>\<open>constant/adapters.go\<close>:
  what is remembered of a proxy's tests. What the network answers to a test is a parameter, a record of
  the results of the calls in their order. Times are nanoseconds.
\<close>

section \<open>constant/adapters.go\<close>

datatype AdapterType = AT_Direct | AT_Reject | AT_Compatible | AT_Pass | AT_Relay | AT_Selector | AT_Fallback
  | AT_URLTest | AT_LoadBalance | AT_Shadowsocks | AT_ShadowsocksR | AT_Snell | AT_Socks5 | AT_Http | AT_Vmess
  | AT_Vless | AT_Trojan | AT_Hysteria | AT_WireGuard | AT_Tuic

fun AdapterType_String :: "AdapterType \<Rightarrow> string" where
  "AdapterType_String AT_Direct = ''Direct''"
| "AdapterType_String AT_Reject = ''Reject''"
| "AdapterType_String AT_Compatible = ''Compatible''"
| "AdapterType_String AT_Pass = ''Pass''"
| "AdapterType_String AT_Shadowsocks = ''Shadowsocks''"
| "AdapterType_String AT_ShadowsocksR = ''ShadowsocksR''"
| "AdapterType_String AT_Snell = ''Snell''"
| "AdapterType_String AT_Socks5 = ''Socks5''"
| "AdapterType_String AT_Http = ''Http''"
| "AdapterType_String AT_Vmess = ''Vmess''"
| "AdapterType_String AT_Vless = ''Vless''"
| "AdapterType_String AT_Trojan = ''Trojan''"
| "AdapterType_String AT_Hysteria = ''Hysteria''"
| "AdapterType_String AT_WireGuard = ''WireGuard''"
| "AdapterType_String AT_Tuic = ''Tuic''"
| "AdapterType_String AT_Relay = ''Relay''"
| "AdapterType_String AT_Selector = ''Selector''"
| "AdapterType_String AT_Fallback = ''Fallback''"
| "AdapterType_String AT_URLTest = ''URLTest''"
| "AdapterType_String AT_LoadBalance = ''LoadBalance''"

section \<open>common/queue\<close>

type_synonym 'a queue = "'a list"

definition q_Put :: "'a list \<Rightarrow> 'a queue \<Rightarrow> 'a queue" where
  "q_Put items q = (if length items = 0 then q else q @ items)"

text \<open>\<open>zero\<close> is the zero value \<^verbatim>\<open>GetZero\<close> gives.\<close>

definition q_Pop :: "'a \<Rightarrow> 'a queue \<Rightarrow> 'a \<times> 'a queue" where
  "q_Pop zero q = (case q of [] \<Rightarrow> (zero, q) | head # items \<Rightarrow> (head, items))"

definition q_Last :: "'a \<Rightarrow> 'a queue \<Rightarrow> 'a" where
  "q_Last zero q = (if length q = 0 then zero else q ! (length q - 1))"

definition q_Copy :: "'a queue \<Rightarrow> 'a list" where "q_Copy q = [] @ q"

definition q_Len :: "'a queue \<Rightarrow> nat" where "q_Len q = length q"

definition q_New :: "'a queue" where "q_New = []"

section \<open>common/singledo\<close>

text \<open>One call after the other: the calls that run at the same time and share a result are not
  modelled. \<open>last\<close> is \<open>None\<close> for the zero time.\<close>

record 'v Single =
  sg_last :: "int option"
  sg_wait :: int
  sg_result :: "'v option"

definition NewSingle :: "int \<Rightarrow> 'v Single" where
  "NewSingle wait = \<lparr>sg_last = None, sg_wait = wait, sg_result = None\<rparr>"

definition sg_Reset :: "'v Single \<Rightarrow> 'v Single" where
  "sg_Reset s = s\<lparr>sg_last := None\<rparr>"

text \<open>The value, whether it is an old one, and the states afterwards.\<close>

definition sg_Do :: "int \<Rightarrow> ('s \<Rightarrow> 'v \<times> 's) \<Rightarrow> 'v Single \<Rightarrow> 's \<Rightarrow> 'v \<times> bool \<times> 'v Single \<times> 's" where
  "sg_Do now fn s u =
     (case (sg_last s, sg_result s) of
        (Some t, Some v) \<Rightarrow>
          if now < t + sg_wait s then (v, True, s, u)
          else (let (v, u) = fn u in (v, False, s\<lparr>sg_result := Some v, sg_last := Some now\<rparr>, u))
      | _ \<Rightarrow> (let (v, u) = fn u in (v, False, s\<lparr>sg_result := Some v, sg_last := Some now\<rparr>, u)))"

section \<open>adapter/adapter.go\<close>

record DelayHistory =
  dh_Time :: int
  dh_Delay :: "16 word"

definition zero_history :: DelayHistory where
  "zero_history = \<lparr>dh_Time = 0, dh_Delay = 0\<rparr>"

record Proxy =
  px_Name :: string
  px_Type :: AdapterType
  px_history :: "DelayHistory queue"
  px_alive :: bool

definition NewProxy :: "string \<Rightarrow> AdapterType \<Rightarrow> Proxy" where
  "NewProxy name tp = \<lparr>px_Name = name, px_Type = tp, px_history = q_New, px_alive = True\<rparr>"

definition Alive :: "Proxy \<Rightarrow> bool" where "Alive p = px_alive p"

definition Proxy_DelayHistory :: "Proxy \<Rightarrow> DelayHistory list" where
  "Proxy_DelayHistory p = q_Copy (px_history p)"

definition LastDelay :: "Proxy \<Rightarrow> 16 word" where
  "LastDelay p =
     (let m = 0xffff
      in if \<not> px_alive p then m
         else let history = q_Last zero_history (px_history p)
              in if dh_Delay history = 0 then m else dh_Delay history)"

text \<open>\<^verbatim>\<open>url.Parse\<close> is a parameter: scheme, host name and port of a URL that parses.\<close>

record parsed_url =
  u_Scheme :: string
  u_Hostname :: string
  u_Port :: string

definition urlToMetadata :: "(string \<Rightarrow> parsed_url option) \<Rightarrow> string \<Rightarrow> (string \<times> string) option" where
  "urlToMetadata parse rawURL =
     (case parse rawURL of
        None \<Rightarrow> None
      | Some u \<Rightarrow>
          if u_Port u = [] then
            (if u_Scheme u = ''https'' then Some (u_Hostname u, ''443'')
             else if u_Scheme u = ''http'' then Some (u_Hostname u, ''80'')
             else None)
          else Some (u_Hostname u, u_Port u))"

text \<open>What the calls of a test give: the connection, the request, the first and the second answer (status,
  body, whether the body could not be read in full) and the times that have passed since the start and
  since the second request was sent.\<close>

record test_env =
  te_parse :: "string \<Rightarrow> parsed_url option"
  te_dial :: "string \<times> string \<Rightarrow> bool"
  te_request :: bool
  te_answer :: "(int \<times> string \<times> bool) option"
  te_second :: "int option"
  te_unified :: bool
  te_since_start :: int
  te_since_second :: int
  te_now :: int

definition milliseconds :: "int \<Rightarrow> 16 word" where
  "milliseconds ns = word_of_int (ns div 1000000)"

text \<open>The delay and whether there was an error.\<close>

definition urlTest :: "test_env \<Rightarrow> string \<Rightarrow> 16 word \<times> bool" where
  "urlTest te url =
     (case urlToMetadata (te_parse te) url of
        None \<Rightarrow> (0, True)
      | Some addr \<Rightarrow>
        if \<not> te_dial te addr then (0, True)
        else if \<not> te_request te then (0, True)
        else (case te_answer te of
          None \<Rightarrow> (0, True)
        | Some (status, body, err) \<Rightarrow>
            if status = 403 then (0, err)
            else if \<not> Contains body ''warp=on'' \<and> \<not> Contains body ''warp=plus'' then (0, err)
            else if te_unified te then
              (case te_second te of
                 None \<Rightarrow> (milliseconds (te_since_start te), True)
               | Some status \<Rightarrow> if status = 403 then (0, False) else (milliseconds (te_since_second te), False))
            else (milliseconds (te_since_start te), err)))"

definition URLTest :: "test_env \<Rightarrow> string \<Rightarrow> Proxy \<Rightarrow> Proxy \<times> 16 word \<times> bool" where
  "URLTest te url p =
     (let (t, err) = urlTest te url;
          record' = \<lparr>dh_Time = te_now te, dh_Delay = (if \<not> err then t else 0)\<rparr>;
          history = q_Put [record'] (px_history p);
          history = (if q_Len history > 10 then snd (q_Pop zero_history history) else history)
      in (p\<lparr>px_alive := \<not> err, px_history := history\<rparr>, t, err))"

section \<open>What a test leaves\<close>

lemma q_Pop_tl: "snd (q_Pop zero q) = tl q"
  by (cases q) (simp_all add: q_Pop_def)

definition test_record :: "test_env \<Rightarrow> string \<Rightarrow> DelayHistory" where
  "test_record te url =
     \<lparr>dh_Time = te_now te, dh_Delay = (if \<not> snd (urlTest te url) then fst (urlTest te url) else 0)\<rparr>"

lemma URLTest_fields:
  "px_alive (fst (URLTest te url p)) = (\<not> snd (urlTest te url))"
  "px_history (fst (URLTest te url p)) = (if 10 \<le> length (px_history p)
     then tl (px_history p) @ [test_record te url] else px_history p @ [test_record te url])"
  by (cases "px_history p"; cases "urlTest te url";
      simp add: URLTest_def Let_def q_Put_def q_Len_def q_Pop_tl test_record_def)+

text \<open>At most ten results are kept, the last of them the latest.\<close>

lemma URLTest_history:
  "length (px_history p) \<le> 10 \<Longrightarrow> length (px_history (fst (URLTest te url p))) \<le> 10"
  "last (px_history (fst (URLTest te url p))) = test_record te url"
  by (auto simp: URLTest_fields)

lemma URLTest_LastDelay:
  "LastDelay (fst (URLTest te url p)) =
     (if snd (urlTest te url) \<or> fst (urlTest te url) = 0 then 0xffff else fst (urlTest te url))"
proof -
  have "q_Last zero_history (px_history (fst (URLTest te url p))) = test_record te url"
    by (auto simp: URLTest_fields q_Last_def nth_append)
  then show ?thesis by (simp add: LastDelay_def Let_def URLTest_fields test_record_def)
qed

text \<open>After a test that was answered by something other than the tunnel that is scanned for (a status
  403 or a body without \<^verbatim>\<open>warp=on\<close> and \<^verbatim>\<open>warp=plus\<close>) the proxy counts as alive, with the delay of one that
  is not.\<close>

theorem unwanted_answer_is_alive:
  assumes "urlToMetadata (te_parse te) url = Some addr" "te_dial te addr" "te_request te"
    "te_answer te = Some (status, body, False)"
    "status = 403 \<or> \<not> Contains body ''warp=on'' \<and> \<not> Contains body ''warp=plus''"
  shows "Alive (fst (URLTest te url p)) \<and> LastDelay (fst (URLTest te url p)) = 0xffff"
proof -
  have "urlTest te url = (0, False)" using assms by (auto simp: urlTest_def)
  then show ?thesis
    unfolding URLTest_LastDelay by (simp add: Alive_def URLTest_fields)
qed

definition example_test :: "int \<Rightarrow> string \<Rightarrow> test_env" where
  "example_test status body =
     \<lparr>te_parse = (\<lambda>_. Some \<lparr>u_Scheme = ''https'', u_Hostname = ''h'', u_Port = []\<rparr>), te_dial = (\<lambda>_. True), te_request = True,
      te_answer = Some (status, body, False), te_second = None, te_unified = False, te_since_start = 30000000,
      te_since_second = 0, te_now = 7\<rparr>"

lemma unwanted_answer_is_alive_witness:
  "Alive (fst (URLTest (example_test 403 ''warp=on'') ''https://h'' (NewProxy ''p'' AT_WireGuard)))"
proof (rule conjunct1, rule unwanted_answer_is_alive [where addr = "(''h'', ''443'')" and status = "403" and body = "''warp=on''"])
  show "urlToMetadata (te_parse (example_test 403 ''warp=on'')) ''https://h'' = Some (''h'', ''443'')"
    by (simp add: example_test_def urlToMetadata_def)
qed (simp_all add: example_test_def del: Contains.simps)

end
