(* ===== verification/Murmur3.thy ===== *)
theory Murmur3 imports GoPrelude "HOL-Library.Word" begin

text \<open>
  \<^verbatim>\<open>common/murmur3\<close>: the 32-bit MurmurHash3 of a byte slice in one call and as a digest that is written
  to in pieces. The four bytes of a block are read as a little-endian word, as on the platforms the
  code is built for.
\<close>

unbundle bit_operations_syntax

section \<open>Blocks\<close>

definition c1_32 :: "32 word" where "c1_32 = 0xcc9e2d51"
definition c2_32 :: "32 word" where "c2_32 = 0x1b873593"

definition le32 :: "8 word \<Rightarrow> 8 word \<Rightarrow> 8 word \<Rightarrow> 8 word \<Rightarrow> 32 word" where
  "le32 a b c d = ucast a OR push_bit 8 (ucast b) OR push_bit 16 (ucast c) OR push_bit 24 (ucast d)"

definition mixBlock :: "32 word \<Rightarrow> 32 word \<Rightarrow> 32 word" where
  "mixBlock h1 k1 =
     (let k1 = k1 * c1_32;
          k1 = word_rotl 15 k1;
          k1 = k1 * c2_32;
          h1 = h1 XOR k1;
          h1 = word_rotl 13 h1
      in h1 * 4 + h1 + 0xe6546b64)"

text \<open>The loop over the whole blocks: the hash after them and the bytes that are left.\<close>

fun blocks :: "32 word \<Rightarrow> 8 word list \<Rightarrow> 32 word \<times> 8 word list" where
  "blocks h1 (a # b # c # d # p) = blocks (mixBlock h1 (le32 a b c d)) p"
| "blocks h1 p = (h1, p)"

definition mixTail :: "32 word \<Rightarrow> 8 word list \<Rightarrow> 32 word" where
  "mixTail h1 tail =
     (let k1 = 0;
          l = length tail mod 4;
          k1 = (if l = 3 then k1 XOR push_bit 16 (ucast (tail ! 2)) else k1);
          k1 = (if l \<ge> 2 then k1 XOR push_bit 8 (ucast (tail ! 1)) else k1)
      in if l \<ge> 1 then h1 XOR word_rotl 15 ((k1 XOR ucast (tail ! 0)) * c1_32) * c2_32 else h1)"

definition mixFinal :: "32 word \<Rightarrow> nat \<Rightarrow> 32 word" where
  "mixFinal h1 len =
     (let h1 = h1 XOR of_nat len;
          h1 = h1 XOR drop_bit 16 h1;
          h1 = h1 * 0x85ebca6b;
          h1 = h1 XOR drop_bit 13 h1;
          h1 = h1 * 0xc2b2ae35
      in h1 XOR drop_bit 16 h1)"

definition Sum32WithSeed :: "8 word list \<Rightarrow> 32 word \<Rightarrow> 32 word" where
  "Sum32WithSeed data seed =
     (let (h1, tail) = blocks seed data in mixFinal (mixTail h1 tail) (length data))"

definition Sum32 :: "8 word list \<Rightarrow> 32 word" where
  "Sum32 data = Sum32WithSeed data 0"

section \<open>The digest\<close>

record digest32 =
  d_clen :: nat
  d_tail :: "8 word list"
  d_seed :: "32 word"
  d_h1 :: "32 word"

definition digest_Reset :: "digest32 \<Rightarrow> digest32" where
  "digest_Reset d = d\<lparr>d_clen := 0, d_tail := [], d_h1 := d_seed d\<rparr>"

definition New32WithSeed :: "32 word \<Rightarrow> digest32" where
  "New32WithSeed seed = digest_Reset \<lparr>d_clen = 0, d_tail = [], d_seed = seed, d_h1 = 0\<rparr>"

definition bmix :: "8 word list \<Rightarrow> digest32 \<Rightarrow> 8 word list \<times> digest32" where
  "bmix p d = (let (h1, tail) = blocks (d_h1 d) p in (tail, d\<lparr>d_h1 := h1\<rparr>))"

definition Write :: "8 word list \<Rightarrow> digest32 \<Rightarrow> nat \<times> digest32" where
  "Write p d =
     (let n = length p;
          d = d\<lparr>d_clen := d_clen d + n\<rparr>;
          (p, d) =
            (if 0 < length (d_tail d) then
               let nfree = 4 - length (d_tail d)
               in if nfree < length p
                  then (drop nfree p, snd (bmix (d_tail d @ take nfree p) d))
                  else (d_tail d @ p, d)
             else (p, d));
          (tail, d) = bmix p d
      in (n, d\<lparr>d_tail := tail\<rparr>))"

definition digest_Sum32 :: "digest32 \<Rightarrow> 32 word" where
  "digest_Sum32 d = mixFinal (mixTail (d_h1 d) (d_tail d)) (d_clen d)"

definition digest_Sum :: "8 word list \<Rightarrow> digest32 \<Rightarrow> 8 word list" where
  "digest_Sum b d =
     (let h = digest_Sum32 d in b @ [ucast (drop_bit 24 h), ucast (drop_bit 16 h), ucast (drop_bit 8 h), ucast h])"

section \<open>Writing in pieces\<close>

lemma blocks_append: "blocks h (xs @ ys) = (case blocks h xs of (h', t) \<Rightarrow> blocks h' (t @ ys))"
  by (induction h xs rule: blocks.induct) auto

lemma length_4: "length xs = 4 \<Longrightarrow> \<exists>a b c d. xs = [a, b, c, d]"
  by (auto simp: length_Suc_conv eval_nat_numeral)

lemma blocks_tail: "length (snd (blocks h xs)) < 4"
  by (induction h xs rule: blocks.induct) auto

text \<open>The digest after \<open>data\<close> was written to it.\<close>

definition digest_of :: "32 word \<Rightarrow> 8 word list \<Rightarrow> digest32" where
  "digest_of seed data = \<lparr>d_clen = length data, d_tail = snd (blocks seed data), d_seed = seed, d_h1 = fst (blocks seed data)\<rparr>"

lemma digest_of_Nil: "New32WithSeed seed = digest_of seed []"
  by (simp add: New32WithSeed_def digest_Reset_def digest_of_def)

lemma Write_digest_of: "Write p (digest_of seed data) = (length p, digest_of seed (data @ p))"
proof -
  obtain h t where b: "blocks seed data = (h, t)" by fastforce
  have t: "length t < 4" using blocks_tail [of seed data] b by simp
  have ap: "blocks seed (data @ p) = blocks h (t @ p)" unfolding blocks_append [of seed data p] b by simp
  show ?thesis
  proof (cases "t \<noteq> [] \<and> 4 - length t < length p")
    case True
    let ?k = "4 - length t"
    obtain h' t' where f: "blocks h (t @ take ?k p) = (h', t')" by fastforce
    have k: "?k \<le> length p" using True by linarith
    have "length (t @ take ?k p) = length t + ?k" using k by (simp only: length_append length_take min_absorb2)
    also have "\<dots> = 4" using t by linarith
    finally have "length (t @ take ?k p) = 4" .
    from length_4 [OF this] obtain a b' c d' where "t @ take ?k p = [a, b', c, d']" by blast
    with f have "t' = []" by simp
    then have "blocks h (t @ p) = blocks h' (drop ?k p)"
      using blocks_append [of h "t @ take ?k p" "drop ?k p"] f by simp
    with True b ap f show ?thesis
      by (simp add: Write_def digest_of_def bmix_def Let_def split: prod.split)
  next
    case False
    with b ap show ?thesis
      by (auto simp: Write_def digest_of_def bmix_def Let_def split: prod.split)
  qed
qed

lemma writes_digest_of:
  "foldl (\<lambda>d p. snd (Write p d)) (digest_of seed data) ps = digest_of seed (data @ concat ps)"
  by (induction ps arbitrary: data) (simp_all add: Write_digest_of)

text \<open>C26: a digest that was written to in any pieces has the hash of the concatenated bytes in one call.\<close>

theorem digest_is_sum:
  "digest_Sum32 (foldl (\<lambda>d p. snd (Write p d)) (New32WithSeed seed) ps) = Sum32WithSeed (concat ps) seed"
  unfolding digest_of_Nil writes_digest_of
  by (simp add: digest_Sum32_def digest_of_def Sum32WithSeed_def split: prod.split)

text \<open>The reference values of the hash.\<close>

lemma Sum32_known: "Sum32 [] = 0" "Sum32WithSeed [] 1 = 0x514e28b7" "Sum32WithSeed [0, 0, 0, 0] 0 = 0x2362f9de"
  by code_simp+

end
