(* ===== verification/OutboundGroup.thy ===== *)
theory OutboundGroup imports Complex_Main "HOL-Library.Multiset" ProxyState LruCache Murmur3 Rules begin

text \<open>
  \<^verbatim>\<open>adapter/outboundgroup\<close>: which proxies a group has (\<^verbatim>\<open>GetProxies\<close>) and which of them it uses: the selector,
  the fallback group, the group of the fastest proxy and the three strategies of the load balancer.

  Proxies are objects the health checks change while groups hold pointers to them, so a list of proxies
  is a list of numbers, and the proxies themselves are looked up in a store \<open>S\<close>. Providers are given as
  what their methods answer. What \<^verbatim>\<open>touch\<close> does to a provider (it restarts lazy health checks) is left out;
  regular expressions are a parameter. Indexing a slice out of its range is \<open>Panic\<close>.
\<close>

type_synonym proxies = "nat list"
type_synonym store = "nat \<Rightarrow> Proxy"

definition nth_run :: "'a list \<Rightarrow> nat \<Rightarrow> 'a run" where
  "nth_run xs i = run_of (idx xs i)"

section \<open>The members of a group: groupbase.go\<close>

record pv_view =
  pv_compatible :: bool
  pv_version :: "32 word"
  pv_proxies :: proxies

record 're group_base =
  gb_filterRegs :: "'re list"
  gb_excludeFilter :: "'re option"
  gb_excludeTypes :: "string list option"
  gb_proxies :: "proxies list"
  gb_versions :: "32 word list"

text \<open>\<open>compile\<close> is \<^verbatim>\<open>regexp2.MustCompile\<close>, which panics on a text it cannot compile.\<close>

fun compileAll :: "(string \<Rightarrow> 're option) \<Rightarrow> string list \<Rightarrow> 're list run" where
  "compileAll compile [] = Ret []"
| "compileAll compile (f # fs) =
     run_bind (run_of (compile f)) (\<lambda>r. run_bind (compileAll compile fs) (\<lambda>rs. Ret (r # rs)))"

definition NewGroupBase :: "(string \<Rightarrow> 're option) \<Rightarrow> string \<Rightarrow> string \<Rightarrow> string \<Rightarrow> nat \<Rightarrow> 're group_base run" where
  "NewGroupBase compile filter' excludeFilter excludeType providers =
     run_bind (if excludeFilter \<noteq> [] then run_bind (run_of (compile excludeFilter)) (\<lambda>r. Ret (Some r)) else Ret None)
       (\<lambda>excludeFilterReg.
        run_bind (if filter' \<noteq> [] then compileAll compile (Split (CHR 0x60) filter') else Ret [])
       (\<lambda>filterRegs. Ret
          \<lparr>gb_filterRegs = filterRegs, gb_excludeFilter = excludeFilterReg,
           gb_excludeTypes = (if excludeType \<noteq> [] then Some (Split (CHR ''|'') excludeType) else None),
           gb_proxies = replicate providers [], gb_versions = replicate providers 0\<rparr>))"

text \<open>The two nested loops that pick the proxies a filter matches, filter after filter, each name once.
  \<open>seen\<close> is \<^verbatim>\<open>proxiesSet\<close>.\<close>

fun pickOne :: "(string \<Rightarrow> bool) \<Rightarrow> store \<Rightarrow> proxies \<Rightarrow> string list \<times> proxies \<Rightarrow> string list \<times> proxies" where
  "pickOne match S [] acc = acc"
| "pickOne match S (p # ps) (seen, new) =
     (let name = px_Name (S p)
      in pickOne match S ps (if match name \<and> name \<notin> set seen then (name # seen, new @ [p]) else (seen, new)))"

definition pickMatching :: "('re \<Rightarrow> string \<Rightarrow> bool) \<Rightarrow> 're list \<Rightarrow> store \<Rightarrow> proxies \<Rightarrow> string list \<times> proxies" where
  "pickMatching match regs S proxies = foldl (\<lambda>acc reg. pickOne (match reg) S proxies acc) ([], []) regs"

fun refresh :: "('re \<Rightarrow> string \<Rightarrow> bool) \<Rightarrow> 're list \<Rightarrow> store \<Rightarrow> pv_view list \<Rightarrow> proxies list \<Rightarrow> 32 word list \<Rightarrow>
    (proxies list \<times> 32 word list) run" where
  "refresh match regs S [] pss vs = Ret (pss, vs)"
| "refresh match regs S (pd # pds) (ps # pss) (v # vs) =
     (let (ps, v) =
        (if pv_compatible pd then (pv_proxies pd, pv_version pd)
         else if v \<noteq> pv_version pd then (snd (pickMatching match regs S (pv_proxies pd)), pv_version pd)
         else (ps, v))
      in run_bind (refresh match regs S pds pss vs) (\<lambda>(pss, vs). Ret (ps # pss, v # vs)))"
| "refresh match regs S (pd # pds) pss vs = Panic"

definition reorder :: "('re \<Rightarrow> string \<Rightarrow> bool) \<Rightarrow> 're list \<Rightarrow> store \<Rightarrow> proxies \<Rightarrow> proxies" where
  "reorder match regs S proxies = snd (pickOne (\<lambda>_. True) S proxies (pickMatching match regs S proxies))"

definition excludeTypes :: "string list \<Rightarrow> store \<Rightarrow> proxies \<Rightarrow> proxies" where
  "excludeTypes tps S proxies =
     filter (\<lambda>p. \<not> list_ex (EqualFold (AdapterType_String (px_Type (S p)))) tps) proxies"

definition excludeNames :: "('re \<Rightarrow> string \<Rightarrow> bool) \<Rightarrow> 're \<Rightarrow> store \<Rightarrow> proxies \<Rightarrow> proxies" where
  "excludeNames match reg S proxies = filter (\<lambda>p. \<not> match reg (px_Name (S p))) proxies"

text \<open>\<open>compatible\<close> is the proxy \<^verbatim>\<open>COMPATIBLE\<close> of the tunnel.\<close>

definition GetProxies ::
    "('re \<Rightarrow> string \<Rightarrow> bool) \<Rightarrow> nat \<Rightarrow> store \<Rightarrow> pv_view list \<Rightarrow> 're group_base \<Rightarrow> (proxies \<times> 're group_base) run" where
  "GetProxies match compatible S providers gb =
     run_bind
       (if gb_filterRegs gb = [] then Ret (concat (map pv_proxies providers), gb)
        else run_bind (refresh match (gb_filterRegs gb) S providers (gb_proxies gb) (gb_versions gb))
          (\<lambda>(pss, vs). Ret (concat pss, gb\<lparr>gb_proxies := pss, gb_versions := vs\<rparr>)))
       (\<lambda>(proxies, gb).
          let proxies = (if length providers > 1 \<and> length (gb_filterRegs gb) > 1
                         then reorder match (gb_filterRegs gb) S proxies else proxies);
              proxies = (case gb_excludeTypes gb of None \<Rightarrow> proxies | Some tps \<Rightarrow> excludeTypes tps S proxies);
              proxies = (case gb_excludeFilter gb of None \<Rightarrow> proxies | Some reg \<Rightarrow> excludeNames match reg S proxies)
          in Ret (if proxies = [] then [compatible] else proxies, gb))"

section \<open>Failures of connections: groupbase.go\<close>

record failures =
  f_times :: int
  f_time :: int
  f_testing :: bool

definition maxFailedTimes :: int where "maxFailedTimes = 5"
definition failedTimeoutInterval :: int where "failedTimeoutInterval = 5000000000"

text \<open>The health check runs to its end before the next failure is counted; the second component says that
  it ran.\<close>

definition healthCheck :: "failures \<Rightarrow> failures \<times> bool" where
  "healthCheck f = (if f_testing f then (f, False) else (f\<lparr>f_testing := False, f_times := 0\<rparr>, True))"

definition onDialFailed :: "AdapterType \<Rightarrow> string \<Rightarrow> int \<Rightarrow> failures \<Rightarrow> failures \<times> bool" where
  "onDialFailed tp err now f =
     (if tp = AT_Direct \<or> tp = AT_Compatible \<or> tp = AT_Reject \<or> tp = AT_Pass then (f, False)
      else if Contains err ''connection refused'' then healthCheck f
      else let f = f\<lparr>f_times := f_times f + 1\<rparr>
           in if f_times f = 1 then (f\<lparr>f_time := now\<rparr>, False)
              else if now - f_time f > failedTimeoutInterval then (f\<lparr>f_times := 0\<rparr>, False)
              else if f_times f \<ge> maxFailedTimes then healthCheck f else (f, False))"

definition onDialSuccess :: "failures \<Rightarrow> failures" where
  "onDialSuccess f = (if \<not> f_testing f then f\<lparr>f_times := 0\<rparr> else f)"

section \<open>selector.go\<close>

text \<open>The selected name is the state; the proxies are those of \<^verbatim>\<open>GetProxies\<close>.\<close>

definition Selector_Set :: "store \<Rightarrow> proxies \<Rightarrow> string \<Rightarrow> string \<Rightarrow> string option" where
  "Selector_Set S proxies name selected =
     (if list_ex (\<lambda>p. px_Name (S p) = name) proxies then Some name else None)"

definition ForceSet :: "string \<Rightarrow> string \<Rightarrow> string" where "ForceSet name selected = name"

definition selectedProxy :: "store \<Rightarrow> proxies \<Rightarrow> string \<Rightarrow> nat run" where
  "selectedProxy S proxies selected =
     (case find (\<lambda>p. px_Name (S p) = selected) proxies of
        Some p \<Rightarrow> Ret p
      | None \<Rightarrow> nth_run proxies 0)"

section \<open>fallback.go\<close>

fun aliveLoop :: "store \<Rightarrow> proxies \<Rightarrow> string \<Rightarrow> nat option \<times> string" where
  "aliveLoop S [] selected = (None, selected)"
| "aliveLoop S (p # ps) selected =
     (if length selected = 0 then
        (if Alive (S p) then (Some p, selected) else aliveLoop S ps selected)
      else if px_Name (S p) = selected then
        (if Alive (S p) then (Some p, selected) else aliveLoop S ps [])
      else aliveLoop S ps selected)"

definition findAliveProxy :: "store \<Rightarrow> proxies \<Rightarrow> string \<Rightarrow> (nat \<times> string) run" where
  "findAliveProxy S proxies selected =
     (case aliveLoop S proxies selected of
        (Some p, selected) \<Rightarrow> Ret (p, selected)
      | (None, selected) \<Rightarrow> run_bind (nth_run proxies 0) (\<lambda>p. Ret (p, selected)))"

text \<open>Setting a proxy that is not alive tests it: \<open>test\<close> is the test of a proxy, which changes the store.\<close>

definition Fallback_Set ::
    "(nat \<Rightarrow> store \<Rightarrow> store) \<Rightarrow> proxies \<Rightarrow> string \<Rightarrow> store \<Rightarrow> string \<Rightarrow> (store \<times> string) option" where
  "Fallback_Set test proxies name S selected =
     (case find (\<lambda>p. px_Name (S p) = name) proxies of
        None \<Rightarrow> None
      | Some p \<Rightarrow> Some (if \<not> Alive (S p) then test p S else S, name))"

section \<open>urltest.go\<close>

record url_test =
  ut_selected :: string
  ut_tolerance :: "16 word"
  ut_fastNode :: "nat option"
  ut_fastSingle :: "nat Single"

text \<open>The loop over the proxies after the first: the fastest, its delay and whether the fast node was not
  met.\<close>

fun fastLoop :: "store \<Rightarrow> nat option \<Rightarrow> proxies \<Rightarrow> nat \<Rightarrow> 16 word \<Rightarrow> bool \<Rightarrow> nat \<times> 16 word \<times> bool" where
  "fastLoop S fastNode [] fast m fastNotExist = (fast, m, fastNotExist)"
| "fastLoop S fastNode (p # ps) fast m fastNotExist =
     (let fastNotExist = (case fastNode of
            Some f \<Rightarrow> if px_Name (S p) = px_Name (S f) then False else fastNotExist
          | None \<Rightarrow> fastNotExist)
      in if \<not> Alive (S p) then fastLoop S fastNode ps fast m fastNotExist
         else let delay = LastDelay (S p)
              in if delay < m then fastLoop S fastNode ps p delay fastNotExist
                 else fastLoop S fastNode ps fast m fastNotExist)"

definition chooseFast :: "store \<Rightarrow> 16 word \<Rightarrow> nat \<Rightarrow> proxies \<Rightarrow> nat option \<Rightarrow> nat \<times> nat option" where
  "chooseFast S tolerance p0 ps fastNode =
     (let (fast, m, fastNotExist) = fastLoop S fastNode ps p0 (LastDelay (S p0)) True;
          node' = (case fastNode of
             None \<Rightarrow> fast
           | Some f \<Rightarrow>
               if fastNotExist \<or> \<not> Alive (S f) \<or> LastDelay (S f) > LastDelay (S fast) + tolerance then fast else f)
      in (node', Some node'))"

definition fast :: "store \<Rightarrow> int \<Rightarrow> proxies \<Rightarrow> url_test \<Rightarrow> (nat \<times> url_test) run" where
  "fast S now proxies u =
     (case (if ut_selected u \<noteq> [] then find (\<lambda>p. Alive (S p) \<and> px_Name (S p) = ut_selected u) proxies else None) of
        Some p \<Rightarrow> Ret (p, u\<lparr>ut_fastNode := Some p\<rparr>)
      | None \<Rightarrow>
          (case proxies of
             [] \<Rightarrow> Panic
           | p0 # ps \<Rightarrow>
               let (elm, shared, single, fastNode) =
                 sg_Do now (chooseFast S (ut_tolerance u) p0 ps) (ut_fastSingle u) (ut_fastNode u)
               in Ret (elm, u\<lparr>ut_fastSingle := single, ut_fastNode := fastNode\<rparr>)))"

definition URLTest_Set :: "store \<Rightarrow> int \<Rightarrow> proxies \<Rightarrow> string \<Rightarrow> url_test \<Rightarrow> url_test option run" where
  "URLTest_Set S now proxies name u =
     (if list_ex (\<lambda>p. px_Name (S p) = name) proxies
      then run_bind (fast S now proxies (u\<lparr>ut_selected := name\<rparr>)) (\<lambda>(_, u). Ret (Some u))
      else Ret None)"

section \<open>loadbalance.go\<close>

subsection \<open>jumpHash\<close>

text \<open>Numbers of type \<^verbatim>\<open>float64\<close> that are at least 1 are rounded to 53 significant bits, halves to even; the
  two operations of \<^verbatim>\<open>jumpHash\<close>, a division and a product, stay in that range.\<close>

fun log2 :: "nat \<Rightarrow> nat" where
  "log2 n = (if n < 2 then 0 else Suc (log2 (n div 2)))"

declare log2.simps [simp del]

definition round_even :: "rat \<Rightarrow> int" where
  "round_even x =
     (let f = \<lfloor>x\<rfloor>; d = x - of_int f
      in if d < 1 / 2 then f else if d > 1 / 2 then f + 1 else if even f then f else f + 1)"

definition float64 :: "rat \<Rightarrow> rat" where
  "float64 x =
     (let e = log2 (nat \<lfloor>x\<rfloor>)
      in if e \<le> 52 then of_int (round_even (x * 2 ^ (52 - e))) / 2 ^ (52 - e)
         else of_int (round_even (x / 2 ^ (e - 52))) * 2 ^ (e - 52))"

text \<open>The next bucket for the key.\<close>

definition jump :: "nat \<Rightarrow> 64 word \<Rightarrow> nat" where
  "jump b key =
     nat \<lfloor>float64 (of_nat (b + 1) * float64 (2 ^ 31 / of_nat (unat (drop_bit 33 key) + 1)))\<rfloor>"

definition nextKey :: "64 word \<Rightarrow> 64 word" where
  "nextKey key = key * 2862933555777941757 + 1"

lemma round_even_ge:
  assumes "of_int m \<le> x"
  shows "m \<le> round_even x"
proof -
  have "m \<le> \<lfloor>x\<rfloor>" using assms by (simp add: le_floor_iff)
  moreover have "\<lfloor>x\<rfloor> \<le> round_even x" by (simp add: round_even_def Let_def)
  ultimately show ?thesis by (rule order_trans)
qed

lemma log2_le: "0 < n \<Longrightarrow> 2 ^ log2 n \<le> n"
proof (induction n rule: log2.induct)
  case (1 n)
  show ?case
  proof (cases "n < 2")
    case True
    with 1 show ?thesis by (simp add: log2.simps [of n])
  next
    case False
    with 1 have "2 ^ log2 (n div 2) \<le> n div 2" by simp
    with False show ?thesis by (simp add: log2.simps [of n])
  qed
qed

lemma float64_ge:
  assumes "of_nat n \<le> x" "1 \<le> n" "n \<le> 2 ^ 52"
  shows "of_nat n \<le> float64 x"
proof -
  define e where "e = log2 (nat \<lfloor>x\<rfloor>)"
  have fl: "1 \<le> nat \<lfloor>x\<rfloor>" 
  proof -
    have "(1 :: rat) \<le> of_nat n" using assms(2) by simp
    with assms(1) have "1 \<le> x" by (rule order_trans [rotated])
    then have "1 \<le> \<lfloor>x\<rfloor>" by (simp only: le_floor_iff of_int_1)
    then show ?thesis by linarith
  qed
  then have e: "2 ^ e \<le> x"
  proof -
    have "2 ^ e \<le> nat \<lfloor>x\<rfloor>" unfolding e_def using fl by (intro log2_le) linarith
    moreover have "0 \<le> \<lfloor>x\<rfloor>" using fl by linarith
    ultimately have "(2 ^ e :: int) \<le> \<lfloor>x\<rfloor>" by (simp add: le_nat_iff)
    then show ?thesis by (simp add: le_floor_iff)
  qed
  show ?thesis
  proof (cases "e \<le> 52")
    case True
    have "(of_int (int n * 2 ^ (52 - e)) :: rat) \<le> x * 2 ^ (52 - e)" using assms(1) by simp
    then have "int n * 2 ^ (52 - e) \<le> round_even (x * 2 ^ (52 - e))" by (rule round_even_ge)
    then have "(of_int (int n * 2 ^ (52 - e)) :: rat) \<le> of_int (round_even (x * 2 ^ (52 - e)))" by (simp only: of_int_le_iff)
    then show ?thesis using True by (simp add: float64_def Let_def e_def [symmetric] pos_le_divide_eq)
  next
    case False
    have "(2 ^ 52 :: rat) = 2 ^ e / 2 ^ (e - 52)" using False by (simp add: power_diff)
    also have "\<dots> \<le> x / 2 ^ (e - 52)" using e by (intro divide_right_mono) simp_all
    finally have "2 ^ 52 \<le> round_even (x / 2 ^ (e - 52))" by (intro round_even_ge) simp
    then have "(2 ^ 52 :: rat) \<le> of_int (round_even (x / 2 ^ (e - 52)))"
      by (metis of_int_le_iff of_int_numeral of_int_power)
    moreover have "(1 :: rat) \<le> 2 ^ (e - 52)" by simp
    ultimately have "(2 ^ 52 :: rat) * 1 \<le> of_int (round_even (x / 2 ^ (e - 52))) * 2 ^ (e - 52)"
      by (intro mult_mono) simp_all
    moreover have "(of_nat n :: rat) \<le> 2 ^ 52" using assms(3) by (metis of_nat_le_iff of_nat_numeral of_nat_power)
    ultimately show ?thesis using False by (simp add: float64_def Let_def e_def [symmetric])
  qed
qed

lemma jump_increases:
  assumes "b < 2 ^ 52"
  shows "b < jump b key"
proof -
  have k: "unat (drop_bit 33 key) + 1 \<le> 2 ^ 31"
  proof -
    have "unat (drop_bit 33 key) = unat key div 2 ^ 33" 
      by (simp only: unat_drop_bit_eq) (simp add: drop_bit_eq_div)
    moreover have "unat key < 2 ^ 64" using unsigned_less [of key] by simp
    ultimately show ?thesis by simp
  qed
  have "(of_nat (unat (drop_bit 33 key) + 1) :: rat) \<le> 2 ^ 31"
    using k by (metis of_nat_le_iff of_nat_numeral of_nat_power)
  moreover have "(0 :: rat) < of_nat (unat (drop_bit 33 key) + 1)" by (simp only: of_nat_0_less_iff)
  ultimately have "(of_nat 1 :: rat) \<le> 2 ^ 31 / of_nat (unat (drop_bit 33 key) + 1)"
    by (simp only: pos_le_divide_eq of_nat_1 mult_1)
  then have q: "(of_nat 1 :: rat) \<le> float64 (2 ^ 31 / of_nat (unat (drop_bit 33 key) + 1))"
    by (rule float64_ge) simp_all
  have "(of_nat (b + 1) :: rat) * 1 \<le> of_nat (b + 1) * float64 (2 ^ 31 / of_nat (unat (drop_bit 33 key) + 1))"
    using q by (intro mult_left_mono) simp_all
  then have "of_nat (b + 1) \<le> float64 (of_nat (b + 1) * float64 (2 ^ 31 / of_nat (unat (drop_bit 33 key) + 1)))"
    using assms by (intro float64_ge) simp_all
  then have "int (b + 1) \<le> \<lfloor>float64 (of_nat (b + 1) * float64 (2 ^ 31 / of_nat (unat (drop_bit 33 key) + 1)))\<rfloor>"
    by (simp add: le_floor_iff)
  then show ?thesis by (simp add: jump_def le_nat_iff [symmetric] Suc_le_eq [symmetric])
qed

text \<open>\<open>b\<close> and \<open>j\<close> are the variables of the loop.\<close>

function jumpLoop :: "64 word \<Rightarrow> 32 word \<Rightarrow> nat \<Rightarrow> nat \<Rightarrow> nat" where
  "jumpLoop key buckets b j =
     (if int j < sint buckets then jumpLoop (nextKey key) buckets j (jump j (nextKey key)) else b)"
  by pat_completeness auto

termination
proof (relation "measure (\<lambda>(_, buckets, _, j). nat (sint buckets) - j)")
  fix key :: "64 word" and buckets :: "32 word" and b j
  assume j: "int j < sint buckets"
  have "sint buckets < 2 ^ 31" using sint_lt [of buckets] by simp
  with j have "j < 2 ^ 52" by simp
  from jump_increases [OF this, of "nextKey key"] j
  show "((nextKey key, buckets, j, jump j (nextKey key)), (key, buckets, b, j)) \<in> measure (\<lambda>(_, buckets, _, j). nat (sint buckets) - j)"
    by simp
qed simp

declare jumpLoop.simps [simp del]

definition jumpHash :: "64 word \<Rightarrow> 32 word \<Rightarrow> nat" where
  "jumpHash key buckets = jumpLoop key buckets 0 0"

lemma jumpLoop_bound: "int b < sint buckets \<Longrightarrow> int (jumpLoop key buckets b j) < sint buckets"
proof (induction key buckets b j rule: jumpLoop.induct)
  case (1 key buckets b j)
  show ?case
    by (subst jumpLoop.simps) (use 1 in simp)
qed

text \<open>Keys that share a bucket share it until their next jump: one bucket more moves a key only to the new
  bucket.\<close>

lemma jumpLoop_stop: "sint n \<le> int j \<Longrightarrow> jumpLoop key n b j = b"
  by (subst jumpLoop.simps) simp

lemma jumpLoop_step:
  "int j < sint n \<Longrightarrow> jumpLoop key n b j = jumpLoop (nextKey key) n j (jump j (nextKey key))"
  by (subst jumpLoop.simps) simp

lemma sint_32_less: "sint (n :: 32 word) < 2 ^ 31"
  using sint_lt [of n] by simp

lemma jumpLoop_grow:
  "sint m = sint n + 1 \<Longrightarrow>
   int (jumpLoop key m b j) = int (jumpLoop key n b j) \<or> int (jumpLoop key m b j) = sint n"
proof (induction key n b j rule: jumpLoop.induct)
  case (1 key n b j)
  consider "int j < sint n" | "int j = sint n" | "sint n < int j" by linarith
  then show ?case
  proof cases
    case 1
    with "1.IH" "1.prems" show ?thesis by (simp add: jumpLoop_step)
  next
    case 2
    then have "j < 2 ^ 52" using sint_32_less [of n] by simp
    from jump_increases [OF this, of "nextKey key"] 2 "1.prems" show ?thesis
      by (simp add: jumpLoop_step jumpLoop_stop)
  next
    case 3
    with "1.prems" show ?thesis by (simp add: jumpLoop_stop)
  qed
qed

lemma sint_of_nat_32:
  assumes "n < 2 ^ 31"
  shows "sint (of_nat n :: 32 word) = int n"
  using assms by (simp add: signed_of_nat signed_take_bit_int_eq_self)

lemma jumpHash_less:
  assumes "0 < n" "n < 2 ^ 31"
  shows "jumpHash key (of_nat n) < n"
proof -
  show ?thesis using jumpLoop_bound [of 0 "of_nat n" key 0] assms
    by (simp add: sint_of_nat_32 jumpHash_def)
qed

text \<open>C27: adding one more proxy to a group of \<open>n\<close> moves a key of \<^verbatim>\<open>jumpHash\<close> only to the new proxy: every other
  key keeps its bucket, and the loop ends with a bucket in range. The two float operations round to the nearest
  number, halves to the even one.\<close>

theorem jump_hash_consistent:
  assumes "0 < n" "n + 1 < 2 ^ 31"
  shows "jumpHash key (of_nat n) < n \<and>
         (jumpHash key (of_nat (n + 1)) = jumpHash key (of_nat n) \<or> jumpHash key (of_nat (n + 1)) = n)"
proof -
  have s: "sint (of_nat n :: 32 word) = int n" "sint (of_nat (n + 1) :: 32 word) = int n + 1"
    using sint_of_nat_32 [of n] sint_of_nat_32 [of "n + 1"] assms(2) by (simp_all del: of_nat_Suc of_nat_add)
  have "jumpHash key (of_nat n) < n" using assms by (intro jumpHash_less) simp_all
  moreover have "int (jumpHash key (of_nat (n + 1))) = int (jumpHash key (of_nat n)) \<or>
      int (jumpHash key (of_nat (n + 1))) = int n"
    using jumpLoop_grow [of "of_nat (n + 1)" "of_nat n" key 0 0] s unfolding jumpHash_def by simp
  ultimately show ?thesis by simp
qed

subsection \<open>The key of a connection\<close>

text \<open>\<^verbatim>\<open>net.ParseIP\<close> and \<^verbatim>\<open>publicsuffix.EffectiveTLDPlusOne\<close> are parameters; so is the text format \<open>T\<close> of
  addresses. A missing metadata is \<open>None\<close>.\<close>

definition getKey :: "net_text \<Rightarrow> (string \<Rightarrow> bool) \<Rightarrow> (string \<Rightarrow> string option) \<Rightarrow> Metadata option \<Rightarrow> string" where
  "getKey T isIP etld metadata =
     (case metadata of
        None \<Rightarrow> []
      | Some m \<Rightarrow>
          (let byAddr = (if \<not> addr_IsValid (m_DstIP m) then [] else addr_String T (m_DstIP m))
           in if m_Host m \<noteq> []
              then (if isIP (m_Host m) then m_Host m
                    else case etld (m_Host m) of Some d \<Rightarrow> d | None \<Rightarrow> byAddr)
              else byAddr))"

definition getKeyWithSrcAndDst :: "net_text \<Rightarrow> (string \<Rightarrow> bool) \<Rightarrow> (string \<Rightarrow> string option) \<Rightarrow> Metadata option \<Rightarrow> string" where
  "getKeyWithSrcAndDst T isIP etld metadata =
     (let dst = getKey T isIP etld metadata;
          src = (case metadata of None \<Rightarrow> [] | Some m \<Rightarrow> addr_String T (m_SrcIP m))
      in src @ dst)"

definition hashKey :: "string \<Rightarrow> 64 word" where
  "hashKey s = ucast (Sum32 (map (\<lambda>c. of_nat (of_char c)) s))"

subsection \<open>Round robin\<close>

text \<open>The loop over \<open>i\<close>: the proxy found and \<open>i\<close> when the deferred function reads it.\<close>

fun robinLoop :: "store \<Rightarrow> proxies \<Rightarrow> nat \<Rightarrow> nat list \<Rightarrow> nat option \<times> nat" where
  "robinLoop S proxies ix [] = (None, length proxies)"
| "robinLoop S proxies ix (i # is) =
     (let proxy = proxies ! ((ix + i) mod length proxies)
      in if Alive (S proxy) then (Some proxy, i + 1) else robinLoop S proxies ix is)"

definition strategyRoundRobin :: "store \<Rightarrow> proxies \<Rightarrow> bool \<Rightarrow> nat \<Rightarrow> (nat \<times> nat) run" where
  "strategyRoundRobin S proxies touch ix =
     (let len = length proxies; (found, i) = robinLoop S proxies ix [0..<len];
          ix' = (if touch then (ix + i) mod len else ix)
      in case found of
           Some p \<Rightarrow> Ret (p, ix')
         | None \<Rightarrow> run_bind (nth_run proxies 0) (\<lambda>p. Ret (p, ix')))"

subsection \<open>Consistent hashing\<close>

fun hashLoop :: "nat \<Rightarrow> store \<Rightarrow> proxies \<Rightarrow> 64 word \<Rightarrow> nat option run" where
  "hashLoop 0 S proxies key = Ret None"
| "hashLoop (Suc retries) S proxies key =
     run_bind (nth_run proxies (jumpHash key (of_nat (length proxies))))
       (\<lambda>proxy. if Alive (S proxy) then Ret (Some proxy) else hashLoop retries S proxies (key + 1))"

definition strategyConsistentHashing :: "store \<Rightarrow> proxies \<Rightarrow> 64 word \<Rightarrow> nat run" where
  "strategyConsistentHashing S proxies key =
     run_bind (hashLoop 5 S proxies key)
       (\<lambda>found. case found of
          Some p \<Rightarrow> Ret p
        | None \<Rightarrow> (case find (\<lambda>p. Alive (S p)) proxies of
            Some p \<Rightarrow> Ret p
          | None \<Rightarrow> nth_run proxies 0))"

subsection \<open>Sticky sessions\<close>

text \<open>The cache keeps an index for each key. \<open>now\<close> is the second the cache reads, \<open>nano\<close> the readings of
  \<^verbatim>\<open>time.Now().UnixNano()\<close>, one for each draw.\<close>

type_synonym sticky = "(64 word, nat) lru_state"

definition newSticky :: "(64 word, nat) lru_heap \<Rightarrow> sticky" where
  "newSticky h = NewLru [WithAge 600, WithSize 1000] h"

definition drawIndex :: "proxies \<Rightarrow> 64 word \<Rightarrow> 64 word \<Rightarrow> nat" where
  "drawIndex proxies key nano = jumpHash (key + nano) (of_nat (length proxies))"

definition remember :: "int \<Rightarrow> 64 word \<Rightarrow> nat \<Rightarrow> sticky \<Rightarrow> sticky run" where
  "remember now key i c =
     run_bind (run_of (lru_Delete key c)) (\<lambda>c. run_of (lru_Set now key i c))"

text \<open>The loop counts from 1 to 4; the first component is the proxy it returns.\<close>

fun stickyLoop :: "nat \<Rightarrow> store \<Rightarrow> proxies \<Rightarrow> int \<Rightarrow> 64 word list \<Rightarrow> 64 word \<Rightarrow> nat \<Rightarrow> nat \<Rightarrow> sticky \<Rightarrow>
    (nat option \<times> sticky) run" where
  "stickyLoop 0 S proxies now nanos key ix nowIdx c = Ret (None, c)"
| "stickyLoop (Suc n) S proxies now nanos key ix nowIdx c =
     run_bind (nth_run proxies nowIdx)
       (\<lambda>proxy.
          if Alive (S proxy)
          then run_bind (if nowIdx \<noteq> ix then remember now key nowIdx c else Ret c)
                 (\<lambda>c. Ret (Some proxy, c))
          else stickyLoop n S proxies now (tl nanos) key ix (drawIndex proxies key (hd nanos)) c)"

definition strategyStickySessions ::
    "store \<Rightarrow> proxies \<Rightarrow> 64 word \<Rightarrow> int \<Rightarrow> 64 word \<times> 64 word list \<Rightarrow> sticky \<Rightarrow> (nat \<times> sticky) run" where
  "strategyStickySessions S proxies key now nanos c =
     run_bind (run_of (lru_Get now key c))
       (\<lambda>(c, found).
          let ix = (case found of Some i \<Rightarrow> i | None \<Rightarrow> drawIndex proxies key (fst nanos))
          in run_bind (stickyLoop 4 S proxies now (snd nanos) key ix ix c)
               (\<lambda>(hit, c). case hit of
                  Some p \<Rightarrow> Ret (p, c)
                | None \<Rightarrow> run_bind (remember now key 0 c)
                    (\<lambda>c. run_bind (nth_run proxies 0) (\<lambda>p. Ret (p, c)))))"

subsection \<open>The group\<close>

definition parseStrategy :: "string option \<Rightarrow> string" where
  "parseStrategy strategy = (case strategy of Some s \<Rightarrow> s | None \<Rightarrow> ''consistent-hashing'')"

datatype strategy = ConsistentHashing | RoundRobin nat | StickySessions sticky

definition NewLoadBalance :: "(64 word, nat) lru_heap \<Rightarrow> string \<Rightarrow> strategy option" where
  "NewLoadBalance h s =
     (if s = ''consistent-hashing'' then Some ConsistentHashing
      else if s = ''round-robin'' then Some (RoundRobin 0)
      else if s = ''sticky-sessions'' then Some (StickySessions (newSticky h))
      else None)"

section \<open>Properties\<close>

abbreviation alive_of :: "store \<Rightarrow> proxies \<Rightarrow> proxies" where
  "alive_of S ps \<equiv> filter (\<lambda>p. Alive (S p)) ps"

lemma nth_run_first [simp]: "nth_run (p # ps) 0 = Ret p"
  by (simp add: nth_run_def)

lemma nth_run_less: "i < length ps \<Longrightarrow> nth_run ps i = Ret (ps ! i)"
  by (simp add: nth_run_def idx_def)

subsection \<open>Members\<close>

lemma getproxies_nonempty:
  "GetProxies match compat_px S providers gb = Ret (ps, gb') \<Longrightarrow> ps \<noteq> []"
  by (cases "gb_filterRegs gb = []";
      cases "refresh match (gb_filterRegs gb) S providers (gb_proxies gb) (gb_versions gb)")
     (auto simp: GetProxies_def Let_def split: if_splits)

text \<open>No name is picked twice, and everything picked is a member that some filter matches.\<close>

lemma pickOne_spec:
  assumes "pickOne m S ps (seen, new) = (seen', new')" "set seen = (px_Name \<circ> S) ` set new" "distinct (map (px_Name \<circ> S) new)"
  shows "set seen' = (px_Name \<circ> S) ` set new' \<and> distinct (map (px_Name \<circ> S) new') \<and>
    set new \<subseteq> set new' \<and> set new' \<subseteq> set new \<union> {p \<in> set ps. m (px_Name (S p))}"
  using assms
proof (induction ps arbitrary: seen new)
  case (Cons p ps)
  show ?case
  proof (cases "m (px_Name (S p)) \<and> px_Name (S p) \<notin> set seen")
    case True
    then have "pickOne m S ps (px_Name (S p) # seen, new @ [p]) = (seen', new')" using Cons.prems(1) by (simp add: Let_def)
    from Cons.IH [OF this] True Cons.prems(2,3) show ?thesis by (auto simp: image_iff)
  next
    case False
    then have "pickOne m S ps (seen, new) = (seen', new')" using Cons.prems(1) by (auto simp: Let_def)
    from Cons.IH [OF this Cons.prems(2,3)] show ?thesis by auto
  qed
qed simp

lemma failed_times_below_limit:
  assumes "0 \<le> f_times f" "f_times f < maxFailedTimes" "\<not> f_testing f"
  shows "0 \<le> f_times (fst (onDialFailed tp err now f)) \<and> f_times (fst (onDialFailed tp err now f)) < maxFailedTimes"
  using assms by (auto simp: onDialFailed_def healthCheck_def maxFailedTimes_def Let_def)

subsection \<open>The fallback group\<close>

lemma aliveLoop_unselected:
  "aliveLoop S ps [] = (find (\<lambda>p. Alive (S p)) ps, [])"
  by (induction ps) auto

lemma fallback_first_alive:
  assumes "ps \<noteq> []"
  shows "findAliveProxy S ps [] = Ret (case find (\<lambda>p. Alive (S p)) ps of Some p \<Rightarrow> p | None \<Rightarrow> hd ps, [])"
  using assms by (cases ps) (auto simp: findAliveProxy_def aliveLoop_unselected split: option.splits)

lemma aliveLoop_skip:
  "sel \<noteq> [] \<Longrightarrow> \<forall>q \<in> set xs. px_Name (S q) \<noteq> sel \<Longrightarrow> aliveLoop S (xs @ ys) sel = aliveLoop S ys sel"
  by (induction xs) auto

text \<open>With a proxy selected, the fallback group uses it while it is alive. Once it is dead the selection is
  cleared, but the search goes on behind the dead proxy only: the proxies before it are not asked, and if
  none behind it is alive the first proxy of the group is used, dead or not.\<close>

theorem fallback_choice:
  assumes "px_Name (S p) = sel" "sel \<noteq> []" "\<forall>q \<in> set xs. px_Name (S q) \<noteq> sel"
  shows "findAliveProxy S (xs @ p # ys) sel =
    (if Alive (S p) then Ret (p, sel)
     else Ret (case find (\<lambda>q. Alive (S q)) ys of Some q \<Rightarrow> q | None \<Rightarrow> hd (xs @ [p]), []))"
proof -
  have "nth_run (xs @ p # ys) 0 = Ret (hd (xs @ [p]))" by (cases xs) simp_all
  then show ?thesis using assms
    by (auto simp: findAliveProxy_def aliveLoop_skip aliveLoop_unselected split: option.splits)
qed

definition example_store :: "bool list \<Rightarrow> store" where
  "example_store as i = (NewProxy (replicate (i + 1) (CHR ''A'')) AT_Vmess)\<lparr>px_alive := as ! i\<rparr>"

lemma fallback_choice_witness:
  "findAliveProxy (example_store [False, True, False]) [0, 1, 2] ''AAA'' = Ret (0, [])"
proof -
  have "findAliveProxy (example_store [False, True, False]) ([0, 1] @ 2 # []) ''AAA'' = Ret (0, [])"
    by (subst fallback_choice)
       (simp_all add: example_store_def NewProxy_def Alive_def numeral_eq_Suc)
  then show ?thesis by simp
qed

subsection \<open>Round robin\<close>

lemma robinLoop_spec:
  assumes "\<forall>i \<in> set is. i < length ps"
  shows "robinLoop S ps ix is =
    (case dropWhile (\<lambda>i. \<not> Alive (S (rotate ix ps ! i))) is of [] \<Rightarrow> (None, length ps)
     | i # _ \<Rightarrow> (Some (rotate ix ps ! i), i + 1))"
  using assms by (induction "is") (auto simp: nth_rotate Let_def)

lemma robin_pick:
  assumes "rotate ix ps = xs @ p # ys" "\<forall>q \<in> set xs. \<not> Alive (S q)" "Alive (S p)"
  shows "\<exists>ix'. strategyRoundRobin S ps True ix = Ret (p, ix') \<and> rotate ix' ps = ys @ xs @ [p]"
proof -
  have len: "length ps = length xs + Suc (length ys)" using arg_cong [OF assms(1), of length] by simp
  have upt: "[0..<length ps] = [0..<length xs] @ length xs # [Suc (length xs)..<length ps]"
    using upt_add_eq_append [of 0 "length xs" "Suc (length ys)"] by (simp add: len upt_conv_Cons del: upt_Suc)
  have "dropWhile (\<lambda>i. \<not> Alive (S (rotate ix ps ! i))) [0..<length ps] = length xs # [Suc (length xs)..<length ps]"
    unfolding upt using assms by (subst dropWhile_append2) (auto simp: nth_append)
  then have loop: "robinLoop S ps ix [0..<length ps] = (Some p, length xs + 1)"
    using assms(1) by (subst robinLoop_spec) auto
  have "rotate ((ix + (length xs + 1)) mod length ps) ps = rotate (length (xs @ [p])) (rotate ix ps)"
    by (simp add: rotate_rotate add.commute flip: rotate_conv_mod)
  also have "\<dots> = ys @ xs @ [p]" using assms(1) rotate_append [of "xs @ [p]" ys] by simp
  finally show ?thesis using loop by (simp add: strategyRoundRobin_def)
qed

lemma mset_rotate1: "mset (rotate1 xs) = mset xs"
  by (cases xs) simp_all

lemma mset_rotate: "mset (rotate n xs) = mset xs"
  by (induction n) (simp_all add: mset_rotate1)

fun robinRun :: "store \<Rightarrow> proxies \<Rightarrow> nat \<Rightarrow> nat \<Rightarrow> (proxies \<times> nat) run" where
  "robinRun S ps 0 ix = Ret ([], ix)"
| "robinRun S ps (Suc m) ix =
     run_bind (strategyRoundRobin S ps True ix)
       (\<lambda>(p, ix). run_bind (robinRun S ps m ix) (\<lambda>(qs, ix). Ret (p # qs, ix)))"

lemma robinRun_takes:
  "m \<le> length (alive_of S ps) \<Longrightarrow> \<exists>ix'. robinRun S ps m ix = Ret (take m (alive_of S (rotate ix ps)), ix')"
proof (induction m arbitrary: ix)
  case (Suc m)
  have "mset (alive_of S (rotate ix ps)) = mset (alive_of S ps)" by (simp add: mset_filter mset_rotate)
  then have n: "length (alive_of S (rotate ix ps)) = length (alive_of S ps)" by (metis size_mset)
  then obtain p fs where F: "alive_of S (rotate ix ps) = p # fs" using Suc.prems by (cases "alive_of S (rotate ix ps)") auto
  then obtain xs ys where R: "rotate ix ps = xs @ p # ys" "\<forall>q \<in> set xs. \<not> Alive (S q)" "Alive (S p)" "fs = alive_of S ys"
    by (auto simp: filter_eq_Cons_iff)
  from robin_pick [OF R(1-3)] obtain ix' where
    pick: "strategyRoundRobin S ps True ix = Ret (p, ix')" "rotate ix' ps = ys @ xs @ [p]" by blast
  have "alive_of S (rotate ix' ps) = fs @ [p]" using pick(2) R by (simp add: filter_empty_conv)
  moreover have "m \<le> length fs" using Suc.prems n F by simp
  ultimately show ?case using Suc.IH [of ix'] Suc.prems pick(1) F by auto
qed simp

text \<open>C9: round robin is fair: as many connections as the group has live proxies use every live proxy exactly
  once, wherever the index stands.\<close>

theorem round_robin_fair:
  "\<exists>qs ix'. robinRun S ps (length (alive_of S ps)) ix = Ret (qs, ix') \<and> mset qs = mset (alive_of S ps)"
proof -
  have same: "mset (alive_of S (rotate ix ps)) = mset (alive_of S ps)" by (simp add: mset_filter mset_rotate)
  then have "take (length (alive_of S ps)) (alive_of S (rotate ix ps)) = alive_of S (rotate ix ps)"
    by (metis size_mset take_all_iff order_refl)
  with same robinRun_takes [of "length (alive_of S ps)" S ps ix] show ?thesis by auto
qed

subsection \<open>Consistent hashing\<close>

lemma hashLoop_ret:
  assumes "ps \<noteq> []" "length ps < 2 ^ 31"
  shows "\<exists>found. hashLoop n S ps key = Ret found \<and> (\<forall>p. found = Some p \<longrightarrow> p \<in> set ps \<and> Alive (S p))"
proof (induction n arbitrary: key)
  case (Suc n)
  have i: "jumpHash key (of_nat (length ps)) < length ps" using assms by (intro jumpHash_less) simp_all
  then have "ps ! jumpHash key (of_nat (length ps)) \<in> set ps" by simp
  with Suc.IH [of "key + 1"] show ?case by (simp add: nth_run_less [OF i])
qed simp

text \<open>Consistent hashing always returns a member of the group, and a live one when the group has a live
  one, however few are alive.\<close>

theorem consistent_hashing_alive:
  assumes "ps \<noteq> []" "length ps < 2 ^ 31"
  shows "\<exists>p \<in> set ps. strategyConsistentHashing S ps key = Ret p \<and> (Alive (S p) \<or> alive_of S ps = [])"
proof -
  obtain found where f: "hashLoop 5 S ps key = Ret found" "\<forall>p. found = Some p \<longrightarrow> p \<in> set ps \<and> Alive (S p)"
    using hashLoop_ret [OF assms] by blast
  show ?thesis
  proof (cases found)
    case (Some p)
    with f show ?thesis by (auto simp: strategyConsistentHashing_def)
  next
    case None
    show ?thesis
    proof (cases "find (\<lambda>p. Alive (S p)) ps")
      case (Some p)
      then have "p \<in> set ps \<and> Alive (S p)" by (auto simp: find_Some_iff)
      with None Some f show ?thesis by (auto simp: strategyConsistentHashing_def)
    next
      case dead: None
      then have "alive_of S ps = []" by (auto simp: find_None_iff filter_empty_conv)
      moreover obtain q qs where "ps = q # qs" using assms(1) by (cases ps) auto
      ultimately show ?thesis using None dead f by (auto simp: strategyConsistentHashing_def)
    qed
  qed
qed

lemma consistent_hashing_alive_witness:
  "\<exists>p \<in> set [0, 1, 2]. strategyConsistentHashing (example_store [False, True, False]) [0, 1, 2] 42 = Ret p \<and>
     (Alive (example_store [False, True, False] p) \<or> alive_of (example_store [False, True, False]) [0, 1, 2] = [])"
  by (rule consistent_hashing_alive) simp_all

lemma jump_hash_consistent_witness:
  "jumpHash 42 (of_nat 57) < 57 \<and>
   (jumpHash 42 (of_nat (57 + 1)) = jumpHash 42 (of_nat 57) \<or> jumpHash 42 (of_nat (57 + 1)) = 57)"
  by (rule jump_hash_consistent) simp_all

subsection \<open>Sticky sessions\<close>

lemma lru_Get_missing:
  assumes "lru_rel c h L" "lru_Get now k (c, h) = Some ((c', h'), None)"
  shows "\<exists>s. lru_Get now' k (c', h') = Some (s, None)"
proof -
  from lru_Get_sim [OF assms(1), of now k] assms(2)
  have g: "snd (spec_get c now k L) = None" "lru_rel c' h' (fst (spec_get c now k L))" by auto
  have "find_key k (fst (spec_get c now k L)) = None"
  proof (cases "find_key k L")
    case (Some e)
    with g(1) have "fst (spec_get c now k L) = purge c now (filter (other k) L)"
      by (auto simp: spec_get_def Let_def split: if_splits)
    moreover have "set (purge c now (filter (other k) L)) \<subseteq> set (filter (other k) L)"
      by (auto simp: purge_def dest: set_dropWhileD)
    ultimately show ?thesis by (auto simp: find_key_None other_def)
  qed (simp add: spec_get_def)
  then show ?thesis using lru_Get_sim [OF g(2), of now' k] by (auto simp: spec_get_def)
qed

text \<open>C10: the session of a new key sticks to nothing. When the cache has no index for a key and the proxy drawn
  for it is alive, that proxy is used and the cache still has no index for the key, so the next connection
  of the session draws again.\<close>

theorem sticky_session_forgotten:
  assumes "lru_rel c h L" "lru_Get now key (c, h) = Some (s, None)"
    "ps \<noteq> []" "length ps < 2 ^ 31" "Alive (S (ps ! drawIndex ps key nano))"
  shows "strategyStickySessions S ps key now (nano, nanos) (c, h) = Ret (ps ! drawIndex ps key nano, s) \<and>
         (\<exists>s'. lru_Get now' key s = Some (s', None))"
proof
  have "drawIndex ps key nano < length ps"
    unfolding drawIndex_def using assms(3,4) by (intro jumpHash_less) simp_all
  then show "strategyStickySessions S ps key now (nano, nanos) (c, h) = Ret (ps ! drawIndex ps key nano, s)"
    using assms(2,5) by (simp add: strategyStickySessions_def nth_run_less numeral_eq_Suc)
  obtain c' h' where "s = (c', h')" by (cases s)
  with lru_Get_missing [OF assms(1)] assms(2) show "\<exists>s'. lru_Get now' key s = Some (s', None)" by blast
qed

definition new_sticky :: sticky where "new_sticky = newSticky empty_lru_heap"

lemma sticky_session_forgotten_witness:
  "\<exists>p s s'. strategyStickySessions (example_store [True, True]) [0, 1] 42 0 (7, []) new_sticky = Ret (p, s) \<and>
     lru_Get 1 42 s = Some (s', None)"
proof -
  have "\<exists>c h. NewLru [WithAge 600, WithSize 1000] (empty_lru_heap :: (64 word, nat) lru_heap) = (c, h) \<and> lru_rel c h []"
    by (rule NewLru_sim) (simp add: std_options)
  then obtain c h where n: "new_sticky = (c, h)" "lru_rel c h []" by (auto simp: new_sticky_def newSticky_def)
  obtain s where g: "lru_Get 0 42 (c, h) = Some (s, None)"
    using lru_Get_sim [OF n(2), of 0 42] by (auto simp: spec_get_def find_key_def)
  have d: "drawIndex [0, 1] 42 7 < length [0 :: nat, 1]" unfolding drawIndex_def by (intro jumpHash_less) simp_all
  then have "Alive (example_store [True, True] ([0, 1] ! drawIndex [0, 1] 42 7))"
    by (auto simp: example_store_def Alive_def less_Suc_eq numeral_eq_Suc)
  from sticky_session_forgotten [where S = "example_store [True, True]" and ps = "[0, 1]" and nano = 7, OF n(2) g _ _ this, of "[]" 1] show ?thesis using n(1) by auto
qed

text \<open>An index that was remembered when the group had more proxies is used as it is.\<close>

lemma sticky_session_panics:
  assumes "lru_rel c h L" "remember now key i (c, h) = Ret s" "length ps \<le> i"
  shows "strategyStickySessions S ps key now nanos s = Panic"
proof -
  obtain c1 h1 where d: "lru_Delete key (c, h) = Some (c1, h1)" "lru_rel c1 h1 (spec_delete key L)"
    using lru_Delete_sim [OF assms(1)] by blast
  with lru_set_then_get [OF d(2), of now key i] assms(2) obtain s' where "lru_Get now key s = Some (s', Some i)"
    by (auto simp: remember_def)
  with assms(3) show ?thesis
    by (cases s') (simp add: strategyStickySessions_def nth_run_def idx_def numeral_eq_Suc)
qed

subsection \<open>The group of the fastest proxy\<close>

lemma fastLoop_spec:
  assumes "fastLoop S nd ps p0 m nx = (p, m', nx')" "m = LastDelay (S p0)"
  shows "m' = LastDelay (S p) \<and> p \<in> insert p0 (set ps) \<and> m' \<le> m \<and> (\<forall>q \<in> set ps. Alive (S q) \<longrightarrow> m' \<le> LastDelay (S q))"
  using assms
proof (induction ps arbitrary: p0 m nx)
  case (Cons q ps)
  let ?nx = "case nd of Some f \<Rightarrow> if px_Name (S q) = px_Name (S f) then False else nx | None \<Rightarrow> nx"
  consider "\<not> Alive (S q)" | "Alive (S q)" "LastDelay (S q) < m" | "Alive (S q)" "m \<le> LastDelay (S q)" by fastforce
  then show ?case
  proof cases
    case 1
    with Cons.prems have "fastLoop S nd ps p0 m ?nx = (p, m', nx')" by (simp add: Let_def)
    from Cons.IH [OF this Cons.prems(2)] 1 show ?thesis by auto
  next
    case 2
    with Cons.prems have "fastLoop S nd ps q (LastDelay (S q)) ?nx = (p, m', nx')" by (simp add: Let_def)
    from Cons.IH [OF this refl] 2 show ?thesis by auto
  next
    case 3
    then have "\<not> LastDelay (S q) < m" by simp
    with 3(1) Cons.prems have "fastLoop S nd ps p0 m ?nx = (p, m', nx')" by (simp add: Let_def)
    from Cons.IH [OF this Cons.prems(2)] 3 show ?thesis by auto
  qed
qed auto

lemma LastDelay_dead: "\<not> Alive p \<Longrightarrow> LastDelay p = 0xffff"
  by (simp add: LastDelay_def Alive_def Let_def)

lemma word16_le_max: "x \<le> (0xffff :: 16 word)"
proof -
  have "unat x < 2 ^ LENGTH(16)" by (rule unsigned_less)
  then show ?thesis by (simp add: word_le_nat_alt)
qed

text \<open>The proxy the group chooses is within the tolerance of every member, as long as the tolerance added to
  the best delay does not wrap around at 16 bits.\<close>

theorem url_test_tolerance:
  assumes "r0 \<in> set (p0 # ps)" "unat (LastDelay (S r0)) + unat tolerance < 2 ^ 16"
    "chooseFast S tolerance p0 ps nd = (q, nd')"
  shows "nd' = Some q \<and> (\<forall>r \<in> set (p0 # ps). unat (LastDelay (S q)) \<le> unat (LastDelay (S r)) + unat tolerance)"
proof -
  obtain p m nx where f: "fastLoop S nd ps p0 (LastDelay (S p0)) True = (p, m, nx)" by (cases "fastLoop S nd ps p0 (LastDelay (S p0)) True")
  note spec = fastLoop_spec [OF f refl]
  have "LastDelay (S p) \<le> LastDelay (S r)" if "r \<in> set (p0 # ps)" for r
    using spec that by (cases "Alive (S r)") (auto simp: LastDelay_dead intro: word16_le_max)
  then have best: "unat (LastDelay (S p)) \<le> unat (LastDelay (S r))" if "r \<in> set (p0 # ps)" for r
    using that by (simp add: word_le_nat_alt)
  from best [OF assms(1)] assms(2) have "unat (LastDelay (S p)) + unat tolerance < 2 ^ 16" by simp
  then have sum: "unat (LastDelay (S p) + tolerance) = unat (LastDelay (S p)) + unat tolerance"
    by (simp add: unat_word_ariths)
  have "q = p \<or> LastDelay (S q) \<le> LastDelay (S p) + tolerance"
    using assms(3) f by (auto simp: chooseFast_def not_less split: option.splits if_splits)
  then have "unat (LastDelay (S q)) \<le> unat (LastDelay (S p)) + unat tolerance"
    by (auto simp: word_le_nat_alt simp flip: sum) (simp add: sum)
  then have "unat (LastDelay (S q)) \<le> unat (LastDelay (S r)) + unat tolerance" if "r \<in> set (p0 # ps)" for r
    using best [OF that] by simp
  moreover have "nd' = Some q" using assms(3) f by (auto simp: chooseFast_def Let_def)
  ultimately show ?thesis by blast
qed

text \<open>\<^verbatim>\<open>fastNotExist\<close> is only reset in the loop over the proxies after the first: when the fast node is the first
  proxy the tolerance does not protect it.\<close>

lemma url_test_first_unprotected:
  assumes "\<forall>p \<in> set ps. px_Name (S p) \<noteq> px_Name (S p0)"
  shows "fst (chooseFast S tolerance p0 ps (Some p0)) = fst (fastLoop S (Some p0) ps p0 (LastDelay (S p0)) True)"
proof -
  have *: "snd (snd (fastLoop S (Some p0) ps p m True))" for p m
    using assms by (induction ps arbitrary: p m) (auto simp: Let_def)
  show ?thesis
    using * [of p0 "LastDelay (S p0)"]
    by (cases "fastLoop S (Some p0) ps p0 (LastDelay (S p0)) True") (simp add: chooseFast_def)
qed


definition example_delays :: "16 word list \<Rightarrow> store" where
  "example_delays ds i =
     (NewProxy (replicate (i + 1) (CHR ''A'')) AT_Vmess)
       \<lparr>px_history := q_Put [\<lparr>dh_Time = 0, dh_Delay = ds ! i\<rparr>] q_New\<rparr>"

lemma url_test_tolerance_witness:
  "unat (LastDelay (example_delays [300, 280, 400] 1))
     \<le> unat (LastDelay (example_delays [300, 280, 400] 0)) + unat (50 :: 16 word) \<and>
   unat (LastDelay (example_delays [300, 280, 400] 1))
     \<le> unat (LastDelay (example_delays [300, 280, 400] 2)) + unat (50 :: 16 word)"
proof -
  let ?S = "example_delays [300, 280, 400]"
  have "chooseFast ?S 50 0 [1, 2] None = (1, Some 1)"
    by code_simp
  moreover have "LastDelay (?S 1) = 280" by code_simp
  ultimately show ?thesis using url_test_tolerance [of 1 0 "[1, 2]" ?S 50 None 1 "Some 1"] by simp
qed

end
