(* ===== verification/Tunnel.thy ===== *)
theory Tunnel imports Resolver FakeIP OutboundGroup ConfigRules begin

text \<open>
  How a connection finds its proxy: \<^verbatim>\<open>tunnel/tunnel.go\<close>, with the modes and the status of \<^verbatim>\<open>tunnel/mode.go\<close> and
  \<^verbatim>\<open>tunnel/status.go\<close>, the mode of the process search and the enhancer of \<^verbatim>\<open>dns/enhancer.go\<close> that turns fake
  addresses back into names.

  The parts of the tunnel's global state that a connection reads are the fields of \<open>tunnel_env\<close>; what it changes
  (its metadata, the caches of the enhancer) is passed along. Bounds: \<open>te_depth\<close> for a rule (see \<open>Match\<close>) and
  for the chain of groups, \<open>n_rounds\<close> for a search of the hosts table.
\<close>

section \<open>Modes\<close>

datatype TunnelMode = Global | RuleMode | Direct

fun TunnelMode_String :: "TunnelMode \<Rightarrow> string" where
  "TunnelMode_String Global = ''global''"
| "TunnelMode_String RuleMode = ''rule''"
| "TunnelMode_String Direct = ''direct''"

definition ModeMapping :: "string \<Rightarrow> TunnelMode option" where
  "ModeMapping = map_of (map (\<lambda>m. (TunnelMode_String m, m)) [Global, RuleMode, Direct])"

definition TunnelMode_Unmarshal :: "string \<Rightarrow> TunnelMode option" where
  "TunnelMode_Unmarshal tp = ModeMapping (ToLower tp)"

datatype TunnelStatus = Suspend | InnerStatus | Running

fun TunnelStatus_String :: "TunnelStatus \<Rightarrow> string" where
  "TunnelStatus_String Suspend = ''suspend''"
| "TunnelStatus_String InnerStatus = ''inner''"
| "TunnelStatus_String Running = ''running''"

definition StatusMapping :: "string \<Rightarrow> TunnelStatus option" where
  "StatusMapping = map_of (map (\<lambda>m. (TunnelStatus_String m, m)) [Suspend, InnerStatus, Running])"

definition TunnelStatus_Unmarshal :: "string \<Rightarrow> TunnelStatus option" where
  "TunnelStatus_Unmarshal tp = StatusMapping (ToLower tp)"

definition isHandle :: "TunnelStatus \<Rightarrow> Type \<Rightarrow> bool" where
  "isHandle status t \<longleftrightarrow> status = Running \<or> (status = InnerStatus \<and> t = INNER)"

text \<open>The mode of the process search is its text.\<close>

definition FindProcess_Set :: "string \<Rightarrow> string option" where
  "FindProcess_Set value =
     (let mode = ToLower value in if mode \<in> set [''always'', ''off'', ''strict''] then Some mode else None)"

definition FindProcess_Always :: "string \<Rightarrow> bool" where "FindProcess_Always m \<longleftrightarrow> m = ''always''"
definition FindProcess_Off :: "string \<Rightarrow> bool" where "FindProcess_Off m \<longleftrightarrow> m = ''off''"

section \<open>The enhancer (dns/enhancer.go)\<close>

record 's enhancer =
  en_mode :: DNSMode
  en_fakePool :: "'s Pool option"
  en_mapping :: "(Addr, string) lru_state option"

definition NewEnhancer :: "DNSMode \<Rightarrow> 's Pool option \<Rightarrow> (Addr, string) lru_heap \<Rightarrow> 's enhancer" where
  "NewEnhancer mode pool h =
     (if mode \<noteq> DNSNormal
      then \<lparr>en_mode = mode, en_fakePool = pool, en_mapping = Some (NewLru [WithSize 4096, WithStale True] h)\<rparr>
      else \<lparr>en_mode = mode, en_fakePool = None, en_mapping = None\<rparr>)"

definition FakeIPEnabled :: "'s enhancer \<Rightarrow> bool" where
  "FakeIPEnabled h \<longleftrightarrow> en_mode h = DNSFakeIP"

definition MappingEnabled :: "'s enhancer \<Rightarrow> bool" where
  "MappingEnabled h \<longleftrightarrow> en_mode h = DNSFakeIP \<or> en_mode h = DNSMapping"

definition IsExistFakeIP :: "'s store_if \<Rightarrow> Addr \<Rightarrow> 's enhancer \<Rightarrow> bool" where
  "IsExistFakeIP ops ip h =
     (if \<not> FakeIPEnabled h then False
      else case en_fakePool h of Some pool \<Rightarrow> pool_Exist ops ip pool | None \<Rightarrow> False)"

definition IsFakeIP :: "Addr \<Rightarrow> 's enhancer \<Rightarrow> bool" where
  "IsFakeIP ip h =
     (if \<not> FakeIPEnabled h then False
      else case en_fakePool h of
             Some pool \<Rightarrow> pfx_Contains (pool_IPNet pool) ip \<and> ip \<noteq> Gateway pool \<and> ip \<noteq> Broadcast pool
           | None \<Rightarrow> False)"

definition IsFakeBroadcastIP :: "Addr \<Rightarrow> 's enhancer \<Rightarrow> bool" where
  "IsFakeBroadcastIP ip h =
     (if \<not> FakeIPEnabled h then False
      else case en_fakePool h of Some pool \<Rightarrow> Broadcast pool = ip | None \<Rightarrow> False)"

definition FindHostByIP :: "'s store_if \<Rightarrow> int \<Rightarrow> Addr \<Rightarrow> 's enhancer \<Rightarrow> ('s enhancer \<times> string option) run" where
  "FindHostByIP ops now ip h =
     run_bind
       (case en_fakePool h of
          None \<Rightarrow> Ret (h, None)
        | Some pool \<Rightarrow> run_bind (run_of (LookBack ops ip pool)) (\<lambda>(pool, r). Ret (h\<lparr>en_fakePool := Some pool\<rparr>, r)))
       (\<lambda>(h, r). case r of
          Some host \<Rightarrow> Ret (h, Some host)
        | None \<Rightarrow>
            (case en_mapping h of
               None \<Rightarrow> Ret (h, None)
             | Some c \<Rightarrow> run_bind (run_of (lru_Get now ip c)) (\<lambda>(c, r). Ret (h\<lparr>en_mapping := Some c\<rparr>, r))))"

definition InsertHostByIP :: "int \<Rightarrow> Addr \<Rightarrow> string \<Rightarrow> 's enhancer \<Rightarrow> 's enhancer run" where
  "InsertHostByIP now ip host h =
     (case en_mapping h of
        None \<Rightarrow> Ret h
      | Some c \<Rightarrow> run_bind (run_of (lru_Set now ip host c)) (\<lambda>c. Ret (h\<lparr>en_mapping := Some c\<rparr>)))"

definition FlushFakeIP :: "'s store_if \<Rightarrow> 's enhancer \<Rightarrow> ('s enhancer \<times> bool) run" where
  "FlushFakeIP ops h =
     (case en_fakePool h of
        None \<Rightarrow> Ret (h, True)
      | Some pool \<Rightarrow> run_bind (run_of (pool_FlushFakeIP ops pool)) (\<lambda>(pool, ok). Ret (h\<lparr>en_fakePool := Some pool\<rparr>, ok)))"

definition StoreFakePoolState :: "'s store_if \<Rightarrow> 's enhancer \<Rightarrow> 's enhancer run" where
  "StoreFakePoolState ops h =
     (case en_fakePool h of
        None \<Rightarrow> Ret h
      | Some pool \<Rightarrow> run_bind (run_of (StoreState ops pool)) (\<lambda>pool. Ret (h\<lparr>en_fakePool := Some pool\<rparr>)))"

section \<open>The tunnel\<close>

text \<open>\<open>te_Unwrap\<close> is what \<^verbatim>\<open>Unwrap(metadata, false)\<close> answers while one connection is matched: the delays, indices and
  caches of the groups are taken as they are when it begins (\<open>OutboundGroup\<close> has their steps).\<close>

record 'r tunnel_env =
  te_rules :: "'r Rule list"
  te_rule_env :: "'r rule_env"
  te_world :: "'r world"
  te_depth :: nat
  te_proxies :: "(string \<times> nat) list"
  te_store :: store
  te_Unwrap :: "Metadata \<Rightarrow> nat \<Rightarrow> nat option"
  te_SupportUDP :: "nat \<Rightarrow> bool"
  te_mode :: TunnelMode
  te_findProcess :: string
  te_FindProcessName :: "string \<Rightarrow> Addr \<Rightarrow> int \<Rightarrow> (32 word \<times> string) option"
  te_dns :: dns_env
  te_resolver :: "resolver option"

definition te_Hosts_Search :: "'r tunnel_env \<Rightarrow> string \<Rightarrow> bool \<Rightarrow> (HostValue option \<times> bool) run" where
  "te_Hosts_Search E domain isDomain = Hosts_Search (n_rounds (te_dns E)) (n_hosts (te_dns E)) domain isDomain"

text \<open>\<^verbatim>\<open>metadata.DstIP, _ = node.RandIP()\<close>: beside an error the address is the zero one.\<close>

definition randIP_or_zero :: "'r tunnel_env \<Rightarrow> HostValue \<Rightarrow> Addr run" where
  "randIP_or_zero E v =
     run_bind (RandIP (n_rnd (te_dns E)) v) (\<lambda>r. Ret (case r of Inr ip \<Rightarrow> ip | Inl _ \<Rightarrow> AddrZero))"

definition needLookupIP :: "'s enhancer option \<Rightarrow> Metadata \<Rightarrow> bool" where
  "needLookupIP mapper m \<longleftrightarrow>
     (case mapper of None \<Rightarrow> False | Some h \<Rightarrow> MappingEnabled h) \<and> m_Host m = [] \<and> addr_IsValid (m_DstIP m)"

datatype pre_error = FakeRecordMissing Addr

definition preHandleMetadata ::
    "'s store_if \<Rightarrow> int \<Rightarrow> 'r tunnel_env \<Rightarrow> 's enhancer option \<Rightarrow> Metadata \<Rightarrow>
     ('s enhancer option \<times> (pre_error + Metadata)) run" where
  "preHandleMetadata ops now E mapper m =
     (let m = (case ParseAddr (n_text (te_dns E)) (m_Host m) of
                 Some ip \<Rightarrow> m\<lparr>m_DstIP := ip, m_Host := []\<rparr> | None \<Rightarrow> m)
      in if needLookupIP mapper m then
           (case mapper of
              None \<Rightarrow> Panic
            | Some h \<Rightarrow>
                run_bind (FindHostByIP ops now (m_DstIP m) h)
                  (\<lambda>(h, found). case found of
                     Some host \<Rightarrow>
                       let m = m\<lparr>m_Host := host, m_DNSMode := DNSMapping\<rparr>
                       in if FakeIPEnabled h
                          then Ret (Some h, Inr (m\<lparr>m_DstIP := AddrZero, m_DNSMode := DNSFakeIP\<rparr>))
                          else run_bind (te_Hosts_Search E host False)
                            (\<lambda>(nd, ok). case nd of
                               None \<Rightarrow> Ret (Some h, Inr m)
                             | Some v \<Rightarrow>
                                 if ok then run_bind (randIP_or_zero E v) (\<lambda>ip. Ret (Some h, Inr (m\<lparr>m_DstIP := ip\<rparr>)))
                                 else if hv_IsDomain v then Ret (Some h, Inr (m\<lparr>m_Host := hv_Domain v\<rparr>))
                                 else Ret (Some h, Inr m))
                   | None \<Rightarrow>
                       if IsFakeIP (m_DstIP m) h then Ret (Some h, Inl (FakeRecordMissing (m_DstIP m)))
                       else Ret (Some h, Inr m)))
         else run_bind (te_Hosts_Search E (m_Host m) True)
           (\<lambda>(nd, ok). case nd of
              Some v \<Rightarrow> Ret (mapper, Inr (if ok then m\<lparr>m_Host := hv_Domain v\<rparr> else m))
            | None \<Rightarrow> Ret (mapper, Inr m)))"

definition shouldResolveIP :: "'r world \<Rightarrow> 'r Rule \<Rightarrow> Metadata \<Rightarrow> bool" where
  "shouldResolveIP W rule m \<longleftrightarrow> ShouldResolveIP W rule \<and> m_Host m \<noteq> [] \<and> \<not> addr_IsValid (m_DstIP m)"

definition getRules :: "'r tunnel_env \<Rightarrow> Metadata \<Rightarrow> 'r Rule list" where
  "getRules E m = (case map_of (w_sub (te_world E)) (m_SpecialRules m) of Some sr \<Rightarrow> sr | None \<Rightarrow> te_rules E)"

text \<open>\<^verbatim>\<open>filepath.Base\<close> of a path with slashes.\<close>

definition Base :: "string \<Rightarrow> string" where
  "Base path =
     (if path = [] then ''.''
      else let p = rev (dropWhile (\<lambda>c. c = CHR ''/'') (rev path))
           in if p = [] then ''/'' else rev (takeWhile (\<lambda>c. c \<noteq> CHR ''/'') (rev p)))"

text \<open>The parts of the loop of \<^verbatim>\<open>match\<close>. What it carries: the metadata, \<^verbatim>\<open>resolved\<close> and \<^verbatim>\<open>processFound\<close>.\<close>

definition resolveStep :: "'r tunnel_env \<Rightarrow> 'r Rule \<Rightarrow> Metadata \<times> bool \<Rightarrow> (Metadata \<times> bool) run" where
  "resolveStep E rule s =
     (case s of (m, resolved) \<Rightarrow>
        if \<not> resolved \<and> shouldResolveIP (te_world E) rule m
        then run_bind (ResolveIPWithResolver (te_dns E) (m_Host m) (te_resolver E))
               (\<lambda>r. Ret (case r of Inl _ \<Rightarrow> m | Inr ip \<Rightarrow> m\<lparr>m_DstIP := ip\<rparr>, True))
        else Ret (m, resolved))"

definition processStep :: "'r tunnel_env \<Rightarrow> 'r Rule \<Rightarrow> Metadata \<times> bool \<Rightarrow> Metadata \<times> bool" where
  "processStep E rule s =
     (case s of (m, found) \<Rightarrow>
        if \<not> FindProcess_Off (te_findProcess E) \<and> \<not> found \<and>
           (FindProcess_Always (te_findProcess E) \<or> ShouldFindProcess (te_world E) rule)
        then (case te_FindProcessName E (NetWork_String (m_NetWork m)) (m_SrcIP m) (int (ParseUint_val 16 (m_SrcPort m))) of
                None \<Rightarrow> (m, found)
              | Some (uid, path) \<Rightarrow> (m\<lparr>m_Process := Base path, m_ProcessPath := path, m_Uid := uid\<rparr>, True))
        else (m, found))"

fun passedLoop :: "nat \<Rightarrow> 'r tunnel_env \<Rightarrow> Metadata \<Rightarrow> nat \<Rightarrow> bool run" where
  "passedLoop 0 E m p = NoFuel"
| "passedLoop (Suc n) E m p =
     (if px_Type (te_store E p) = AT_Pass then Ret True
      else (case te_Unwrap E m p of None \<Rightarrow> Ret False | Some q \<Rightarrow> passedLoop n E m q))"

fun matchLoop :: "'r tunnel_env \<Rightarrow> 'r Rule list \<Rightarrow> Metadata \<Rightarrow> bool \<Rightarrow> bool \<Rightarrow> (Metadata \<times> (nat \<times> 'r Rule) option) run" where
  "matchLoop E [] m resolved found = Ret (m, None)"
| "matchLoop E (rule # rules) m resolved found =
     run_bind (resolveStep E rule (m, resolved)) (\<lambda>(m, resolved).
       let (m, found) = processStep E rule (m, found)
       in run_bind (Match (te_rule_env E) (te_world E) (te_depth E) rule m) (\<lambda>(matched, ada).
         if matched then
           (case map_of (te_proxies E) ada of
              None \<Rightarrow> matchLoop E rules m resolved found
            | Some adapter \<Rightarrow>
                run_bind (passedLoop (te_depth E) E m adapter) (\<lambda>passed.
                  if passed then matchLoop E rules m resolved found
                  else if m_NetWork m = UDP \<and> \<not> te_SupportUDP E adapter then matchLoop E rules m resolved found
                  else Ret (m, Some (adapter, rule))))
         else matchLoop E rules m resolved found))"

definition hostsStart :: "'r tunnel_env \<Rightarrow> Metadata \<Rightarrow> (Metadata \<times> bool) run" where
  "hostsStart E m =
     run_bind (te_Hosts_Search E (m_Host m) False) (\<lambda>(nd, ok).
       case nd of
         Some v \<Rightarrow> if ok then run_bind (randIP_or_zero E v) (\<lambda>ip. Ret (m\<lparr>m_DstIP := ip\<rparr>, True)) else Ret (m, False)
       | None \<Rightarrow> Ret (m, False))"

text \<open>The proxy, if the map has it, and the rule, if one matched.\<close>

definition tunnel_match :: "'r tunnel_env \<Rightarrow> Metadata \<Rightarrow> (Metadata \<times> nat option \<times> 'r Rule option) run" where
  "tunnel_match E m =
     run_bind (hostsStart E m) (\<lambda>(m, resolved).
       run_bind (matchLoop E (getRules E m) m resolved False) (\<lambda>(m, hit).
         Ret (case hit of
                Some (adapter, rule) \<Rightarrow> (m, Some adapter, Some rule)
              | None \<Rightarrow> (m, map_of (te_proxies E) ''DIRECT'', None))))"

datatype tunnel_error = ProxyNotFound string

definition resolveMetadata ::
    "'r tunnel_env \<Rightarrow> Metadata \<Rightarrow> (tunnel_error + (Metadata \<times> nat option \<times> 'r Rule option)) run" where
  "resolveMetadata E m =
     (if m_SpecialProxy m \<noteq> [] then
        Ret (case map_of (te_proxies E) (m_SpecialProxy m) of
               None \<Rightarrow> Inl (ProxyNotFound (m_SpecialProxy m))
             | Some p \<Rightarrow> Inr (m, Some p, None))
      else case te_mode E of
             Direct \<Rightarrow> Ret (Inr (m, map_of (te_proxies E) ''DIRECT'', None))
           | Global \<Rightarrow> Ret (Inr (m, map_of (te_proxies E) ''GLOBAL'', None))
           | RuleMode \<Rightarrow> run_bind (tunnel_match E m) (\<lambda>r. Ret (Inr r)))"


text \<open>What \<^verbatim>\<open>handleTCPConn\<close> dials by: \<^verbatim>\<open>dialMetadata\<close> is the same pointer as the metadata until \<^verbatim>\<open>Pure\<close> copies it, so
  both come back.\<close>

definition dialMetadata :: "'r tunnel_env \<Rightarrow> Prefix \<Rightarrow> Metadata \<Rightarrow> (Metadata \<times> Metadata) run" where
  "dialMetadata E fakeIPRange m =
     (if length (m_Host m) > 0 then
        run_bind (te_Hosts_Search E (m_Host m) False)
          (\<lambda>(nd, ok). case nd of
             Some v \<Rightarrow>
               if ok then run_bind (randIP_or_zero E v)
                 (\<lambda>dstIp. if \<not> pfx_Contains fakeIPRange dstIp
                           then (let m = m\<lparr>m_DstIP := dstIp, m_DNSMode := DNSHosts\<rparr> in Ret (m, Pure m))
                           else Ret (m, m))
               else Ret (m, m)
           | None \<Rightarrow> Ret (m, m))
      else Ret (m, m))"

text \<open>\<^verbatim>\<open>retry\<close>: \<open>ft i\<close> is the result of attempt \<open>i\<close> and \<open>done i\<close> whether the context ended while it waited
  after it. The second component counts the attempts.\<close>

fun retryLoop :: "nat \<Rightarrow> nat \<Rightarrow> (nat \<Rightarrow> 'e + 'a) \<Rightarrow> (nat \<Rightarrow> bool) \<Rightarrow> ('e + 'a) \<times> nat" where
  "retryLoop 0 i ft ctxDone = (ft (i - 1), i)"
| "retryLoop (Suc n) i ft ctxDone =
     (case ft i of
        Inr t \<Rightarrow> (Inr t, i + 1)
      | Inl e \<Rightarrow> if ctxDone i then (Inl e, i + 1) else retryLoop n (i + 1) ft ctxDone)"

definition retry :: "(nat \<Rightarrow> 'e + 'a) \<Rightarrow> (nat \<Rightarrow> bool) \<Rightarrow> ('e + 'a) \<times> nat" where
  "retry ft ctxDone = retryLoop 10 0 ft ctxDone"

text \<open>The address \<^verbatim>\<open>handleUDPToLocal\<close> writes in an answer: \<open>from\<close> is the address it came from, if it is a UDP
  address that reads, \<open>oAddr\<close> the address that was asked and \<open>fAddr\<close> the fake one the client used.\<close>

definition answerAddr :: "Addr \<Rightarrow> Addr \<Rightarrow> Addr \<Rightarrow> Addr" where
  "answerAddr oAddr fAddr from =
     (let fromAddr = Unmap from
      in if addr_IsValid fAddr \<and> oAddr = fromAddr then Unmap fAddr else fromAddr)"

section \<open>A fake address is its name again\<close>

lemma pool_range_valid:
  assumes "\<not> addr_Less ip f" "addr_Less f l" "BitLen f = BitLen l"
  shows "addr_IsValid ip"
  using assms by (cases ip; cases f; cases l) (auto simp: addr_IsValid_def)

text \<open>A connection to the address the pool gave out for a host goes on as a connection to the name of the
  host: the metadata loses the fake address and gets the host in lower case, whatever lookups the pool served
  before.\<close>

theorem fake_ip_restores_host:
  assumes "New_memory t0 h opts = Some (Inr p0)" "pool_run (mem_ops t1) xs p0 = Some p"
    "Lookup (mem_ops t2) host p = Some (p1, ip)"
    "en = \<lparr>en_mode = DNSFakeIP, en_fakePool = Some p1, en_mapping = mapping\<rparr>"
    "m_Host m = []" "m_DstIP m = ip" "ParseAddr (n_text (te_dns E)) [] = None"
  shows "\<exists>en'. preHandleMetadata (mem_ops t2) now E (Some en) m =
      Ret (Some en', Inr (m\<lparr>m_Host := ToLower host, m_DstIP := AddrZero, m_DNSMode := DNSFakeIP\<rparr>))"
proof -
  have "\<forall>x \<in> set xs. mem.op_ok x" by (auto simp: mem.op_ok_def split: pool_op.splits)
  then have p: "mem.pool_ok p" "mem.in_range p" "p_first p = p_first p0" "p_last p = p_last p0"
    using mem.run_ok [of p0 xs t1] New_memory_ok [OF assms(1)] assms(2) by auto
  from mem.Lookup_LookBack [OF p(1,2) TrueI, where host = host and now = t2] assms(3)
  obtain p2 where 1: "LookBack (mem_ops t2) ip p1 = Some (p2, Some (ToLower host))" "\<not> addr_Less ip (p_first p)"
    by auto
  from p(1) have "addr_IsValid ip"
    by (intro pool_range_valid [OF 1(2), of "p_last p"]) (simp_all add: mem.pool_ok_def)
  then show ?thesis using assms(4-7) 1(1)
    by (auto simp: preHandleMetadata_def needLookupIP_def MappingEnabled_def FindHostByIP_def FakeIPEnabled_def Let_def)
qed

text \<open>An address of the range that the pool does not know is refused.\<close>

lemma fake_ip_missing:
  assumes "MappingEnabled en" "m_Host m = []" "addr_IsValid (m_DstIP m)" "ParseAddr (n_text (te_dns E)) [] = None"
    "FindHostByIP ops now (m_DstIP m) en = Ret (en', None)" "IsFakeIP (m_DstIP m) en'"
  shows "preHandleMetadata ops now E (Some en) m = Ret (Some en', Inl (FakeRecordMissing (m_DstIP m)))"
  using assms by (simp add: preHandleMetadata_def needLookupIP_def Let_def)

section \<open>What \<^verbatim>\<open>match\<close> finds\<close>

text \<open>A rule decides for a proxy: it matches, its proxy is known, lets nothing pass to the next rule and can carry
  the connection.\<close>

definition decides :: "'r tunnel_env \<Rightarrow> Metadata \<Rightarrow> 'r Rule \<Rightarrow> nat \<Rightarrow> bool" where
  "decides E m rule p \<longleftrightarrow>
     (\<exists>ada. Match (te_rule_env E) (te_world E) (te_depth E) rule m = Ret (True, ada) \<and> map_of (te_proxies E) ada = Some p) \<and>
     passedLoop (te_depth E) E m p = Ret False \<and> (m_NetWork m = UDP \<longrightarrow> te_SupportUDP E p)"

text \<open>The metadata a rule sees differs from the first one in the address and the process only.\<close>

definition same_target :: "Metadata \<Rightarrow> Metadata \<Rightarrow> bool" where
  "same_target m m' \<longleftrightarrow>
     m'\<lparr>m_DstIP := m_DstIP m, m_Uid := m_Uid m, m_Process := m_Process m, m_ProcessPath := m_ProcessPath m\<rparr> = m"

lemma same_target_refl: "same_target m m"
  by (simp add: same_target_def)

lemma same_target_trans: "same_target m m' \<Longrightarrow> same_target m' m'' \<Longrightarrow> same_target m m''"
  by (cases m; cases m'; cases m'') (simp add: same_target_def)

lemma same_target_upd:
  "same_target m (m\<lparr>m_DstIP := ip\<rparr>)" "same_target m (m\<lparr>m_Process := a, m_ProcessPath := b, m_Uid := u\<rparr>)"
  by (simp_all add: same_target_def)

lemma resolveStep_same:
  assumes "resolveStep E rule (m, r) = Ret (m', r')"
  shows "same_target m m'"
proof (cases "\<not> r \<and> shouldResolveIP (te_world E) rule m")
  case True
  then obtain a where "ResolveIPWithResolver (te_dns E) (m_Host m) (te_resolver E) = Ret a"
    using assms by (auto simp: resolveStep_def run_bind_Ret)
  with True assms show ?thesis by (cases a) (auto simp: resolveStep_def same_target_refl same_target_upd)
qed (use assms in \<open>auto simp: resolveStep_def same_target_refl\<close>)

lemma hostsStart_same: "hostsStart E m = Ret (m', r) \<Longrightarrow> same_target m m'"
  by (auto simp: hostsStart_def run_bind_Ret same_target_refl same_target_upd split: option.splits if_splits)

lemma processStep_same: "processStep E rule (m, f) = (m', f') \<Longrightarrow> same_target m m'"
  by (auto simp: processStep_def same_target_refl same_target_upd split: if_splits option.splits)

lemma matchLoop_result:
  "matchLoop E rules m resolved found = Ret (m', hit) \<Longrightarrow>
     same_target m m' \<and> (\<forall>p r. hit = Some (p, r) \<longrightarrow> r \<in> set rules \<and> decides E m' r p)"
proof (induction rules arbitrary: m resolved found)
  case (Cons rule rules)
  from Cons.prems obtain m1 r1 where 1: "resolveStep E rule (m, resolved) = Ret (m1, r1)"
    by (auto simp: run_bind_Ret)
  obtain m2 f2 where 2: "processStep E rule (m1, found) = (m2, f2)" by (cases "processStep E rule (m1, found)")
  have s: "same_target m m2" using same_target_trans resolveStep_same [OF 1] processStep_same [OF 2] by blast
  from Cons.prems 1 2 obtain b ada where 3: "Match (te_rule_env E) (te_world E) (te_depth E) rule m2 = Ret (b, ada)"
    by (auto simp: run_bind_Ret)
  show ?case
  proof (cases "\<exists>q. b \<and> map_of (te_proxies E) ada = Some q \<and> passedLoop (te_depth E) E m2 q = Ret False \<and>
      (m_NetWork m2 = UDP \<longrightarrow> te_SupportUDP E q)")
    case True
    with Cons.prems 1 2 3 show ?thesis using s by (auto simp: decides_def)
  next
    case False
    then have "matchLoop E rules m2 r1 f2 = Ret (m', hit)"
      using Cons.prems 1 2 3 by (auto simp: run_bind_Ret split: if_splits option.splits)
    from Cons.IH [OF this] s show ?thesis using same_target_trans by auto
  qed
qed (simp add: same_target_refl)

lemma same_target_rules: "same_target m m' \<Longrightarrow> getRules E m' = getRules E m"
  by (cases m; cases m') (simp add: same_target_def getRules_def)

text \<open>C29: when \<^verbatim>\<open>match\<close> returns a rule, the rule is one of the list for the connection and decides for the proxy on
  the metadata that comes out; without a rule the proxy is \<^verbatim>\<open>DIRECT\<close>. The target's name, ports and inbound are
  those that came in.\<close>

theorem tunnel_match_sound:
  assumes "tunnel_match E m = Ret (m', proxy, found)"
  shows "same_target m m' \<and>
    (case found of Some rule \<Rightarrow> \<exists>p. proxy = Some p \<and> rule \<in> set (getRules E m) \<and> decides E m' rule p
     | None \<Rightarrow> proxy = map_of (te_proxies E) ''DIRECT'')"
proof -
  from assms obtain m1 r1 where s: "hostsStart E m = Ret (m1, r1)"
    by (auto simp: tunnel_match_def run_bind_Ret)
  with assms obtain m2 hit where 1: "same_target m m1" "matchLoop E (getRules E m1) m1 r1 False = Ret (m2, hit)"
    "(m', proxy, found) = (case hit of Some (adapter, rule) \<Rightarrow> (m2, Some adapter, Some rule)
        | None \<Rightarrow> (m2, map_of (te_proxies E) ''DIRECT'', None))"
    using hostsStart_same [OF s] by (auto simp: tunnel_match_def run_bind_Ret)
  note r = matchLoop_result [OF 1(2)]
  then have s: "same_target m m2" using 1(1) same_target_trans by blast
  show ?thesis
  proof (cases hit)
    case (Some x)
    then obtain p r where "hit = Some (p, r)" by (cases x) auto
    with 1(3) r s same_target_rules [OF 1(1), of E] show ?thesis by auto
  qed (use 1(3) s in simp)
qed

section \<open>It ends\<close>

text \<open>What the bounds have to cover: the names of the hosts table, the chains of groups, the rules.\<close>

definition tunnel_bounded :: "(HostValue \<Rightarrow> nat) \<Rightarrow> (nat \<Rightarrow> nat) \<Rightarrow> 'r tunnel_env \<Rightarrow> bool" where
  "tunnel_bounded f g E \<longleftrightarrow>
     hosts_ranked f (n_hosts (te_dns E)) \<and>
     (\<forall>d nd. Search d (n_hosts (te_dns E)) = Some nd \<longrightarrow> f (host_Data nd) < n_rounds (te_dns E)) \<and>
     (\<forall>m p q. te_Unwrap E m p = Some q \<longrightarrow> g q < g p) \<and> (\<forall>p. g p < te_depth E)"

lemma run_of_not_NoFuel [simp]: "run_of x \<noteq> NoFuel"
  by (cases x) simp_all

lemma draw_ends [simp]: "draw rnd xs \<noteq> NoFuel"
  by (simp add: draw_def)

lemma hosts_end:
  assumes "hosts_ranked f (n_hosts D)" "\<forall>d nd. Search d (n_hosts D) = Some nd \<longrightarrow> f (host_Data nd) < n_rounds D"
  shows "Hosts_Search (n_rounds D) (n_hosts D) d b \<noteq> NoFuel"
  using Hosts_Search_ends [OF assms(1), of d "n_rounds D" b] assms(2) by (metis run.distinct(3))

lemma lookup_ends:
  assumes "\<And>d. Hosts_Search (n_rounds D) (n_hosts D) d False \<noteq> NoFuel"
  shows "ResolveIPWithResolver D host r \<noteq> NoFuel"
proof -
  have of: "hostsOf D fam host \<noteq> NoFuel" for fam
    using assms by (auto simp: hostsOf_def run_bind_NoFuel split: option.splits)
  have v4: "LookupIPv4WithResolver D host r \<noteq> NoFuel"
    using of by (auto simp: LookupIPv4WithResolver_def run_bind_NoFuel)
  have "lookupBehind D host r \<noteq> NoFuel" using v4 by (simp add: lookupBehind_def)
  then have "LookupIPWithResolver D host r \<noteq> NoFuel"
    using assms by (auto simp: LookupIPWithResolver_def run_bind_NoFuel split: option.splits if_splits)
  then show ?thesis
    by (auto simp: ResolveIPWithResolver_def SortationAddr_def run_bind_NoFuel split: sum.splits if_splits)
qed

lemma passedLoop_ends:
  "(\<forall>m p q. te_Unwrap E m p = Some q \<longrightarrow> g q < g p) \<Longrightarrow> g p < n \<Longrightarrow> passedLoop n E m p \<noteq> NoFuel"
proof (induction n arbitrary: p)
  case (Suc n)
  show ?case
  proof (cases "te_Unwrap E m p")
    case (Some q)
    with Suc.prems have "g q < g p" by blast
    with Suc.prems have "g q < n" by simp
    with Suc.IH [OF Suc.prems(1)] Some show ?thesis by simp
  qed simp
qed simp

lemma matchLoop_ends:
  assumes b: "tunnel_bounded f g E"
    and rules: "\<And>r m. r \<in> set rules \<Longrightarrow> Match (te_rule_env E) (te_world E) (te_depth E) r m \<noteq> NoFuel"
  shows "matchLoop E rules m resolved found \<noteq> NoFuel"
  using rules
proof (induction rules arbitrary: m resolved found)
  case (Cons rule rules)
  have rest: "matchLoop E rules m resolved found \<noteq> NoFuel" for m resolved found
    using Cons by simp
  have "Hosts_Search (n_rounds (te_dns E)) (n_hosts (te_dns E)) d False \<noteq> NoFuel" for d
    using b by (intro hosts_end) (auto simp: tunnel_bounded_def)
  from lookup_ends [OF this] have "resolveStep E rule (m, resolved) \<noteq> NoFuel"
    by (auto simp: resolveStep_def run_bind_NoFuel split: if_splits)
  moreover have "passedLoop (te_depth E) E m p \<noteq> NoFuel" for m p
    using b passedLoop_ends [of E g p "te_depth E" m] by (auto simp: tunnel_bounded_def)
  ultimately show ?case
    using Cons.prems rest
    by (auto simp: Let_def run_bind_NoFuel split: prod.splits option.splits if_splits)
qed simp

text \<open>C30: for the rules and the sub-rules of an accepted configuration \<^verbatim>\<open>match\<close> comes to an end for every connection,
  those of listeners with sub-rules of their own included, if no entry of the hosts table leads back to itself, the groups
  are nested to a finite depth (both are \<open>tunnel_bounded\<close>) and no rule set refers back to itself (\<open>providers_layered\<close>, which
  nothing in the code enforces): the bounds are the lengths of their chains.\<close>

theorem tunnel_match_ends:
  assumes "parseSubRules R W raw names = Ret (Inr sub)" "world_ok W"
    "parseRules R W lines names sub fmt = Ret (Inr rules)"
    "providers_layered layer W" "\<And>i. i < length (w_providers W) \<Longrightarrow> layer i < k" "length sub + k < te_depth E"
    "te_rule_env E = R" "te_world E = W\<lparr>w_sub := sub\<rparr>" "te_rules E = rules" "tunnel_bounded f g E"
  shows "tunnel_match E m \<noteq> NoFuel"
proof -
  note s = parseSubRules_ok [OF assms(1,2)]
  then have sw: "sub_wf (W\<lparr>w_sub := sub\<rparr>)" by (blast intro: subs_ok_sub_wf)
  have wf: "wf_rule (length (w_providers W)) r" if "r \<in> set (getRules E m)" for r m
  proof (cases "map_of sub (m_SpecialRules m)")
    case None
    with that assms(8,9) parseRules_ok [OF assms(3,2)] show ?thesis by (simp add: getRules_def line_ok_def)
  next
    case (Some sr)
    with that assms(8) have "r \<in> set (sub_lookup (w_sub (W\<lparr>w_sub := sub\<rparr>)) (m_SpecialRules m))"
      by (simp add: getRules_def sub_lookup_def)
    from sub_wf_lookup [OF sw this] show ?thesis by simp
  qed
  have ok: "Match (te_rule_env E) (te_world E) (te_depth E) r m \<noteq> NoFuel" if "r \<in> set (getRules E m0)" for r m m0
    unfolding assms(7,8)
  proof (rule Match_NoFuel [where layer = layer and R = k])
    from s show "verifySubRule (w_sub (W\<lparr>w_sub := sub\<rparr>)) = None" by simp
    from wf [OF that] show "wf_rule (length (w_providers (W\<lparr>w_sub := sub\<rparr>))) r" by simp
  qed (use assms(4-6) sw in \<open>simp_all\<close>)
  have hosts: "te_Hosts_Search E d b \<noteq> NoFuel" for d b
    unfolding te_Hosts_Search_def using assms(10) by (intro hosts_end) (auto simp: tunnel_bounded_def)
  have "hostsStart E m \<noteq> NoFuel"
    using hosts by (auto simp: hostsStart_def randIP_or_zero_def RandIP_def run_bind_NoFuel split: option.splits if_splits)
  moreover have "matchLoop E (getRules E m1) m1 r1 False \<noteq> NoFuel" for m1 r1
    using matchLoop_ends [OF assms(10) ok [of _ m1], of "getRules E m1"] by simp
  ultimately show ?thesis by (auto simp: tunnel_match_def run_bind_NoFuel)
qed

section \<open>A tunnel to try it on\<close>

definition example_tunnel :: "string tunnel_env" where
  "example_tunnel = \<lparr>te_rules = [example_rule], te_rule_env = example_env,
     te_world = example_world\<lparr>w_sub := example_sub\<rparr>, te_depth = 3, te_proxies = [(''P'', 0), (''DIRECT'', 1)],
     te_store = example_store [True, True], te_Unwrap = (\<lambda>m p. None), te_SupportUDP = (\<lambda>p. True),
     te_mode = RuleMode, te_findProcess = ''off'', te_FindProcessName = (\<lambda>n a p. None),
     te_dns = example_dns, te_resolver = None\<rparr>"

lemma fake_ip_restores_host_witness:
  "\<exists>p0 p1 ip en'. New_memory 0 demo_heap demo_options = Some (Inr p0) \<and>
     Lookup (mem_ops 0) ''A.org'' p0 = Some (p1, ip) \<and>
     preHandleMetadata (mem_ops 0) 0 example_tunnel
       (Some \<lparr>en_mode = DNSFakeIP, en_fakePool = Some p1, en_mapping = None\<rparr>)
       (example_metadata\<lparr>m_Host := [], m_DstIP := ip\<rparr>) =
     Ret (Some en', Inr (example_metadata\<lparr>m_Host := ''a.org'', m_DstIP := AddrZero, m_DNSMode := DNSFakeIP\<rparr>))"
proof -
  obtain p0 where p: "New_memory 0 demo_heap demo_options = Some (Inr p0)" using demo_pool by blast
  from New_memory_ok [OF p] have "mem.pool_ok p0" "mem.in_range p0" by simp_all
  from mem.Lookup_LookBack [OF this TrueI, where host = "''A.org''" and now = 0]
  obtain p1 ip where l: "Lookup (mem_ops 0) ''A.org'' p0 = Some (p1, ip)" by blast
  have t: "ParseAddr (n_text (te_dns example_tunnel)) [] = None"
    by (simp add: example_tunnel_def example_dns_def demo_text_def)
  have r: "pool_run (mem_ops 0) [] p0 = Some p0" by simp
  have "ToLower ''A.org'' = ''a.org''" by code_simp
  with fake_ip_restores_host [where now = 0 and mapping = None and m = "example_metadata\<lparr>m_Host := [], m_DstIP := ip\<rparr>", OF p r l refl _ _ t] p l
  show ?thesis by auto
qed

lemma tunnel_match_sound_witness:
  "same_target (example_metadata\<lparr>m_NetWork := TCP\<rparr>) (example_metadata\<lparr>m_NetWork := TCP\<rparr>) \<and>
   (\<exists>p. Some 0 = Some p \<and> example_rule \<in> set (getRules example_tunnel (example_metadata\<lparr>m_NetWork := TCP\<rparr>)) \<and>
     decides example_tunnel (example_metadata\<lparr>m_NetWork := TCP\<rparr>) example_rule p)"
proof -
  have "tunnel_match example_tunnel (example_metadata\<lparr>m_NetWork := TCP\<rparr>) =
      Ret (example_metadata\<lparr>m_NetWork := TCP\<rparr>, Some 0, Some example_rule)"
    by code_simp
  from tunnel_match_sound [OF this] show ?thesis by simp
qed

lemma example_hosts: "Search d (n_hosts example_dns) = None"
  using Search_best(2) [of "DomainTrie.New :: HostValue DomainTrie" d] DomainTrie.wf_New
  by (auto simp: example_dns_def Search_def entries_New split: option.splits)

lemma tunnel_match_ends_witness: "tunnel_match example_tunnel example_metadata \<noteq> NoFuel"
proof (rule tunnel_match_ends [OF example_subs example_world_ok(1) example_rules example_world_ok(2), where k = 0])
  show "tunnel_bounded (\<lambda>_. 0) (\<lambda>_. 0) example_tunnel"
    by (simp add: tunnel_bounded_def hosts_ranked_def example_tunnel_def example_hosts)
qed (simp_all add: example_tunnel_def example_sub_def example_world_ok example_metadata_def)

end
