(* ===== verification/DnsResolver.thy ===== *)
theory DnsResolver imports Tunnel "HOL-Library.Multiset" begin

text \<open>
  The DNS resolver: \<^verbatim>\<open>dns/resolver.go\<close> with the helpers of \<^verbatim>\<open>dns/util.go\<close>, the filters of \<^verbatim>\<open>dns/filters.go\<close>, the
  policies of \<^verbatim>\<open>dns/policy.go\<close> and the picker of \<^verbatim>\<open>common/picker/picker.go\<close>.

  The DNS clients are functions from a message to its answer. The message type is that of a library: a message is a
  record of the fields the code reads or writes, and what the code calls of the library is the record \<open>dns_lib\<close>. Time
  is in nanoseconds; one query reads the clock once. A call that \<^verbatim>\<open>singleflight\<close> would share with another one is
  made alone here. What goes on in the background after a query is a flag of its result: another \<open>fetch\<close> follows.
\<close>

section \<open>Messages\<close>

datatype qtype = TypeA | TypeCNAME | TypeTXT | TypeAAAA | TypeSVCB | TypeHTTPS | TypeOther "16 word"

datatype qclass = ClassINET | ClassOther "16 word"

record question =
  q_Name :: string
  q_Qtype :: qtype
  q_Qclass :: qclass

record rr_header =
  h_Name :: string
  h_Rrtype :: qtype
  h_Class :: qclass
  h_Ttl :: "32 word"

datatype rr = RR_A rr_header net_IP | RR_AAAA rr_header net_IP | RR_CNAME rr_header string | RR_Other rr_header string

fun Header :: "rr \<Rightarrow> rr_header" where
  "Header (RR_A h _) = h"
| "Header (RR_AAAA h _) = h"
| "Header (RR_CNAME h _) = h"
| "Header (RR_Other h _) = h"

fun with_header :: "rr_header \<Rightarrow> rr \<Rightarrow> rr" where
  "with_header h (RR_A _ ip) = RR_A h ip"
| "with_header h (RR_AAAA _ ip) = RR_AAAA h ip"
| "with_header h (RR_CNAME _ t) = RR_CNAME h t"
| "with_header h (RR_Other _ d) = RR_Other h d"

datatype rcode = RcodeSuccess | RcodeServerFailure | RcodeRefused | RcodeOther nat

record Msg =
  g_Id :: "16 word"
  g_Rcode :: rcode
  g_Authoritative :: bool
  g_RecursionAvailable :: bool
  g_Question :: "question list"
  g_Answer :: "rr list"
  g_Ns :: "rr list"
  g_Extra :: "rr list"
  g_rest :: string

definition zero_Msg :: Msg where
  "zero_Msg = \<lparr>g_Id = 0, g_Rcode = RcodeSuccess, g_Authoritative = False, g_RecursionAvailable = False,
     g_Question = [], g_Answer = [], g_Ns = [], g_Extra = [], g_rest = []\<rparr>"

record dns_lib =
  l_SetRcode :: "Msg \<Rightarrow> Msg \<Rightarrow> rcode \<Rightarrow> Msg"
  l_SetQuestion :: "Msg \<Rightarrow> string \<Rightarrow> qtype \<Rightarrow> Msg"
  l_Fqdn :: "string \<Rightarrow> string"
  l_Question_String :: "question \<Rightarrow> string"

text \<open>What the library promises of a reply: it keeps the sections and answers the first question of the request.\<close>

definition reply_ok :: "dns_lib \<Rightarrow> bool" where
  "reply_ok L \<longleftrightarrow> (\<forall>m r c. g_Rcode (l_SetRcode L m r c) = c \<and> g_Id (l_SetRcode L m r c) = g_Id r \<and>
     g_Answer (l_SetRcode L m r c) = g_Answer m \<and> g_Ns (l_SetRcode L m r c) = g_Ns m \<and>
     g_Extra (l_SetRcode L m r c) = g_Extra m \<and>
     (g_Question r \<noteq> [] \<longrightarrow> g_Question (l_SetRcode L m r c) = [hd (g_Question r)]))"

section \<open>Helpers (dns/util.go)\<close>

abbreviation second :: int where "second \<equiv> 1000000000"

definition Unix :: "int \<Rightarrow> int" where
  "Unix t = t div second"

definition msg_Ttl :: "Msg \<Rightarrow> 32 word option" where
  "msg_Ttl msg =
     (if length (g_Answer msg) \<noteq> 0 then Some (h_Ttl (Header (hd (g_Answer msg))))
      else if length (g_Ns msg) \<noteq> 0 then Some (h_Ttl (Header (hd (g_Ns msg))))
      else if length (g_Extra msg) \<noteq> 0 then Some (h_Ttl (Header (hd (g_Extra msg))))
      else None)"

definition acme_challenge :: "Msg \<Rightarrow> bool" where
  "acme_challenge msg =
     (case g_Question msg of [] \<Rightarrow> False | q # _ \<Rightarrow> q_Qtype q = TypeTXT \<and> HasPrefix (q_Name q) ''_acme-challenge'')"

definition putMsgToCache ::
    "int \<Rightarrow> string \<Rightarrow> Msg \<Rightarrow> (string, Msg) lru_state \<Rightarrow> (string, Msg) lru_state option" where
  "putMsgToCache t key msg c =
     (if acme_challenge msg then Some c
      else case msg_Ttl msg of
        None \<Rightarrow> Some c
      | Some ttl \<Rightarrow> SetWithExpire (Unix t) key msg (Unix (t + second * uint ttl)) c)"

definition set_ttl :: "32 word \<Rightarrow> rr \<Rightarrow> rr" where
  "set_ttl ttl r = with_header ((Header r)\<lparr>h_Ttl := ttl\<rparr>) r"

definition setMsgTTL :: "32 word \<Rightarrow> Msg \<Rightarrow> Msg" where
  "setMsgTTL ttl msg = msg\<lparr>g_Answer := map (set_ttl ttl) (g_Answer msg), g_Ns := map (set_ttl ttl) (g_Ns msg),
     g_Extra := map (set_ttl ttl) (g_Extra msg)\<rparr>"

definition isIPRequest :: "question \<Rightarrow> bool" where
  "isIPRequest q \<longleftrightarrow> q_Qclass q = ClassINET \<and> (q_Qtype q = TypeA \<or> q_Qtype q = TypeAAAA \<or> q_Qtype q = TypeCNAME)"

definition handleMsgWithEmptyAnswer :: "dns_lib \<Rightarrow> Msg \<Rightarrow> Msg" where
  "handleMsgWithEmptyAnswer L r =
     (l_SetRcode L zero_Msg r RcodeSuccess)\<lparr>g_Authoritative := True, g_RecursionAvailable := True\<rparr>"

fun answer_IP :: "rr \<Rightarrow> Addr option" where
  "answer_IP (RR_AAAA _ ip) = Some (IpToAddr ip)"
| "answer_IP (RR_A _ ip) = Some (IpToAddr ip)"
| "answer_IP _ = None"

definition msgToIP :: "Msg \<Rightarrow> Addr list" where
  "msgToIP msg = List.map_filter answer_IP (g_Answer msg)"

definition TrimRightDots :: "string \<Rightarrow> string" where
  "TrimRightDots s = rev (dropWhile (\<lambda>c. c = CHR ''.'') (rev s))"

definition msgToDomain :: "Msg \<Rightarrow> string" where
  "msgToDomain msg = (case g_Question msg of q # _ \<Rightarrow> TrimRightDots (q_Name q) | [] \<Rightarrow> [])"

section \<open>The picker (common/picker)\<close>

text \<open>The functions of a group end one after the other. The first value and the first error are kept.\<close>

record ('e, 'a) Picker =
  pk_once :: bool
  pk_result :: "'a option"
  pk_errOnce :: bool
  pk_err :: "'e option"

definition newPicker :: "('e, 'a) Picker" where
  "newPicker = \<lparr>pk_once = False, pk_result = None, pk_errOnce = False, pk_err = None\<rparr>"

definition pk_Go :: "'e + 'a \<Rightarrow> ('e, 'a) Picker \<Rightarrow> ('e, 'a) Picker" where
  "pk_Go r p =
     (case r of
        Inr ret \<Rightarrow> if pk_once p then p else p\<lparr>pk_once := True, pk_result := Some ret\<rparr>
      | Inl e \<Rightarrow> if pk_errOnce p then p else p\<lparr>pk_errOnce := True, pk_err := Some e\<rparr>)"

definition pk_Wait :: "('e + 'a) list \<Rightarrow> ('e, 'a) Picker \<Rightarrow> ('e, 'a) Picker" where
  "pk_Wait ends p = fold pk_Go ends p"

datatype msg_error = NoQuestion | BadServer | ClientError string | AllFailed "msg_error option" | IPVersionErr | NotFoundErr

type_synonym dnsClient = "Msg \<Rightarrow> msg_error + Msg"

text \<open>What one client gives to the picker.\<close>

definition askClient :: "Msg \<Rightarrow> dnsClient \<Rightarrow> msg_error + Msg" where
  "askClient m client =
     (case client m of
        Inl e \<Rightarrow> Inl e
      | Inr r \<Rightarrow> if g_Rcode r = RcodeServerFailure \<or> g_Rcode r = RcodeRefused then Inl BadServer else Inr r)"

text \<open>\<open>order\<close> is the order in which the clients end. What a client gives after the first answer, when its context
  is cancelled, is never looked at.\<close>

type_synonym order = "(msg_error + Msg) list \<Rightarrow> (msg_error + Msg) list"

definition batchExchange :: "order \<Rightarrow> dnsClient list \<Rightarrow> Msg \<Rightarrow> msg_error + Msg" where
  "batchExchange order clients m =
     (let p = pk_Wait (order (map (askClient m) clients)) newPicker
      in case pk_result p of None \<Rightarrow> Inl (AllFailed (pk_err p)) | Some msg \<Rightarrow> Inr msg)"

section \<open>Filters (dns/filters.go)\<close>

datatype ipFilter = geoipFilter string | ipnetFilter Prefix

datatype 'r domainFilter = trieFilter "unit DomainTrie" | geoSiteFilter "'r DomainMatcher list"

text \<open>The matcher of the geoip filter is loaded when it is first used; a loader gives the same list again.\<close>

definition ipFilter_Match :: "'r rule_env \<Rightarrow> ipFilter \<Rightarrow> Addr \<Rightarrow> bool run" where
  "ipFilter_Match E f ip =
     (case f of
        geoipFilter country \<Rightarrow>
          if \<not> e_GeodataMode E then Ret (\<not> EqualFold (e_Country E (AsSlice ip)) country \<and> \<not> IsPrivate ip)
          else run_bind (run_of (LoadGeoIPMatcher (e_ipLoader E) ''CN'' []))
                 (\<lambda>r. case r of
                    Inl _ \<Rightarrow> Ret False
                  | Inr ((_, g), _) \<Rightarrow> run_of (map_option Not (GeoIP_Match g (AsSlice ip))))
      | ipnetFilter n \<Rightarrow> Ret (pfx_Contains n ip))"

definition NewDomainFilter :: "string list \<Rightarrow> 'r domainFilter" where
  "NewDomainFilter domains =
     trieFilter (Optimize (fold (\<lambda>d t. case Insert d () t of Inr t' \<Rightarrow> t' | Inl _ \<Rightarrow> t) domains DomainTrie.New))"

definition domainFilter_Match :: "'r rule_env \<Rightarrow> 'r domainFilter \<Rightarrow> string \<Rightarrow> bool run" where
  "domainFilter_Match E f domain =
     (case f of
        trieFilter t \<Rightarrow> Ret (Search domain t \<noteq> None)
      | geoSiteFilter ms \<Rightarrow> any_run (\<lambda>g. run_of (ApplyDomain (e_regexp E) g domain)) ms)"

definition NewGeoSite :: "'r rule_env \<Rightarrow> string \<Rightarrow> (rule_error + 'r domainFilter) run" where
  "NewGeoSite E groupname =
     (if \<not> e_InitGeoSite E then Ret (Inl GeoInit)
      else run_bind (run_of (LoadGeoSiteMatcher (e_regexp E) (e_walk E) (e_siteLoader E) groupname))
        (\<lambda>r. case r of Inl e \<Rightarrow> Ret (Inl (GeoErr e)) | Inr (matcher, _) \<Rightarrow> Ret (Inr (geoSiteFilter [matcher]))))"

section \<open>Policies (dns/policy.go)\<close>

record Policy =
  pol_data :: "dnsClient list"

definition NewPolicy :: "dnsClient list \<Rightarrow> Policy" where
  "NewPolicy ds = \<lparr>pol_data = ds\<rparr>"

definition GetData :: "Policy \<Rightarrow> dnsClient list" where
  "GetData p = pol_data p"

definition Policy_Compare :: "Policy \<Rightarrow> Policy option \<Rightarrow> int" where
  "Policy_Compare p p2 =
     (case p2 of
        None \<Rightarrow> 1
      | Some p2 \<Rightarrow>
          let l1 = length (pol_data p); l2 = length (pol_data p2)
          in if l1 = l2 then 0 else if l1 > l2 then 1 else - 1)"

section \<open>The resolver (dns/resolver.go)\<close>

record 'r geositePolicyRecord =
  gp_matcher :: "'r domainFilter"
  gp_policy :: Policy
  gp_inversed :: bool

record 'r dns_resolver =
  rv_ipv6 :: bool
  rv_hosts :: "HostValue DomainTrie option"
  rv_main :: "dnsClient list"
  rv_fallback :: "dnsClient list option"
  rv_fallbackDomainFilters :: "'r domainFilter list"
  rv_fallbackIPFilters :: "ipFilter list"
  rv_policy :: "Policy DomainTrie option"
  rv_domainSetPolicy :: "(nat \<times> Policy) list"
  rv_geositePolicy :: "'r geositePolicyRecord list"
  rv_proxyServer :: "dnsClient list"

record 'r dns_ctx =
  dx_lib :: dns_lib
  dx_rules :: "'r rule_env"
  dx_world :: "'r world"
  dx_depth :: nat
  dx_order :: order

text \<open>\<^verbatim>\<open>matchPolicy\<close>: no client when nothing applies.\<close>

fun geositeLoop :: "'r rule_env \<Rightarrow> string \<Rightarrow> 'r geositePolicyRecord list \<Rightarrow> Policy option run" where
  "geositeLoop E domain [] = Ret None"
| "geositeLoop E domain (g # gs) =
     run_bind (domainFilter_Match E (gp_matcher g) domain)
       (\<lambda>matched. if matched \<noteq> gp_inversed g then Ret (Some (gp_policy g)) else geositeLoop E domain gs)"

definition host_metadata :: "string \<Rightarrow> Metadata" where
  "host_metadata host = \<lparr>m_NetWork = TCP, m_Type = HTTP, m_SrcIP = AddrZero, m_DstIP = AddrZero, m_SrcPort = [], m_DstPort = [],
     m_InIP = AddrZero, m_InPort = [], m_InName = [], m_InUser = [], m_Host = host, m_DNSMode = DNSNormal, m_Uid = 0,
     m_Process = [], m_ProcessPath = [], m_SpecialProxy = [], m_SpecialRules = [], m_RemoteDst = [], m_SniffHost = []\<rparr>"

fun domainSetLoop :: "'r dns_ctx \<Rightarrow> string \<Rightarrow> (nat \<times> Policy) list \<Rightarrow> Policy option run" where
  "domainSetLoop X domain [] = Ret None"
| "domainSetLoop X domain ((i, p) # ps) =
     run_bind (provider_Match (dx_rules X) (dx_world X) (dx_depth X) i (host_metadata domain))
       (\<lambda>ok. if ok then Ret (Some p) else domainSetLoop X domain ps)"

definition matchPolicy :: "'r dns_ctx \<Rightarrow> 'r dns_resolver \<Rightarrow> Msg \<Rightarrow> dnsClient list run" where
  "matchPolicy X r m =
     (case rv_policy r of
        None \<Rightarrow> Ret []
      | Some policy \<Rightarrow>
          let domain = msgToDomain m
          in if domain = [] then Ret []
             else case Search domain policy of
               Some nd \<Rightarrow> (case data nd of None \<Rightarrow> Panic | Some p \<Rightarrow> Ret (GetData p))
             | None \<Rightarrow>
                 run_bind (geositeLoop (dx_rules X) domain (rv_geositePolicy r))
                   (\<lambda>g. case g of
                      Some p \<Rightarrow> Ret (GetData p)
                    | None \<Rightarrow>
                        run_bind (domainSetLoop X domain (rv_domainSetPolicy r))
                          (\<lambda>d. Ret (case d of Some p \<Rightarrow> GetData p | None \<Rightarrow> []))))"

definition shouldOnlyQueryFallback :: "'r dns_ctx \<Rightarrow> 'r dns_resolver \<Rightarrow> Msg \<Rightarrow> bool run" where
  "shouldOnlyQueryFallback X r m =
     (if rv_fallback r = None \<or> length (rv_fallbackDomainFilters r) = 0 then Ret False
      else let domain = msgToDomain m
           in if domain = [] then Ret False
              else any_run (\<lambda>df. domainFilter_Match (dx_rules X) df domain) (rv_fallbackDomainFilters r))"

definition shouldIPFallback :: "'r dns_ctx \<Rightarrow> 'r dns_resolver \<Rightarrow> Addr \<Rightarrow> bool run" where
  "shouldIPFallback X r ip = any_run (\<lambda>f. ipFilter_Match (dx_rules X) f ip) (rv_fallbackIPFilters r)"

definition fallbackClients :: "'r dns_resolver \<Rightarrow> dnsClient list" where
  "fallbackClients r = (case rv_fallback r of None \<Rightarrow> [] | Some cs \<Rightarrow> cs)"

text \<open>Whether the answer of the main clients is used: it has an address, and its first one passes the filters.\<close>

definition mainAnswerGood :: "'r dns_ctx \<Rightarrow> 'r dns_resolver \<Rightarrow> msg_error + Msg \<Rightarrow> bool run" where
  "mainAnswerGood X r res =
     (case res of
        Inl _ \<Rightarrow> Ret False
      | Inr msg \<Rightarrow>
          (case msgToIP msg of
             [] \<Rightarrow> Ret False
           | ip # _ \<Rightarrow> run_bind (shouldIPFallback X r ip) (\<lambda>b. Ret (\<not> b))))"

definition ipExchange :: "'r dns_ctx \<Rightarrow> 'r dns_resolver \<Rightarrow> Msg \<Rightarrow> (msg_error + Msg) run" where
  "ipExchange X r m =
     run_bind (matchPolicy X r m) (\<lambda>matched.
       if length matched \<noteq> 0 then Ret (batchExchange (dx_order X) matched m)
       else run_bind (shouldOnlyQueryFallback X r m) (\<lambda>onlyFallback.
         if onlyFallback then Ret (batchExchange (dx_order X) (fallbackClients r) m)
         else let res = batchExchange (dx_order X) (rv_main r) m
              in if length (fallbackClients r) = 0 then Ret res
                 else run_bind (mainAnswerGood X r res) (\<lambda>good.
                   Ret (if good then res else batchExchange (dx_order X) (fallbackClients r) m))))"

text \<open>The function given to \<^verbatim>\<open>singleflight\<close>: ask, and put an answer into the cache.\<close>

type_synonym dns_cache = "(string, Msg) lru_state"

definition exchangeOnce :: "'r dns_ctx \<Rightarrow> 'r dns_resolver \<Rightarrow> Msg \<Rightarrow> question \<Rightarrow> (msg_error + Msg) run" where
  "exchangeOnce X r m q =
     (if isIPRequest q then ipExchange X r m
      else run_bind (matchPolicy X r m)
        (\<lambda>matched. Ret (batchExchange (dx_order X) (if length matched \<noteq> 0 then matched else rv_main r) m)))"

definition fetch ::
    "'r dns_ctx \<Rightarrow> 'r dns_resolver \<Rightarrow> int \<Rightarrow> Msg \<Rightarrow> question \<Rightarrow> dns_cache \<Rightarrow> (dns_cache \<times> (msg_error + Msg)) run" where
  "fetch X r t m q c =
     run_bind (exchangeOnce X r m q)
       (\<lambda>res. case res of
          Inl e \<Rightarrow> Ret (c, Inl e)
        | Inr msg \<Rightarrow> run_bind (run_of (putMsgToCache t (l_Question_String (dx_lib X) q) msg c)) (\<lambda>c. Ret (c, Inr msg)))"

text \<open>A failed call is made once more in the background: the first call that fails has number 0 of at most 3.\<close>

definition exchangeWithoutCache ::
    "'r dns_ctx \<Rightarrow> 'r dns_resolver \<Rightarrow> int \<Rightarrow> Msg \<Rightarrow> dns_cache \<Rightarrow> (dns_cache \<times> (msg_error + Msg) \<times> bool) run" where
  "exchangeWithoutCache X r t m c =
     (case g_Question m of
        [] \<Rightarrow> Panic
      | q # _ \<Rightarrow> run_bind (fetch X r t m q c) (\<lambda>(c, res). Ret (c, res, isl res)))"

text \<open>One instant \<open>t\<close> stands for the two readings of the clock, \<^verbatim>\<open>time.Now\<close> and \<^verbatim>\<open>time.Until\<close>. The seconds that are left
  are divided exactly; \<^verbatim>\<open>Seconds()\<close> computes them as a float64, which is truncated.\<close>

definition ExchangeContext ::
    "'r dns_ctx \<Rightarrow> 'r dns_resolver \<Rightarrow> int \<Rightarrow> Msg \<Rightarrow> dns_cache \<Rightarrow> (dns_cache \<times> (msg_error + Msg) \<times> bool) run" where
  "ExchangeContext X r t m c =
     (case g_Question m of
        [] \<Rightarrow> Ret (c, Inl NoQuestion, False)
      | q # _ \<Rightarrow>
          run_bind (run_of (GetWithExpire (Unix t) (l_Question_String (dx_lib X) q) c))
            (\<lambda>(c, hit). case hit of
               Some (cacheM, expireTime) \<Rightarrow>
                 if expireTime * second < t then Ret (c, Inr (setMsgTTL 1 cacheM), True)
                 else Ret (c, Inr (setMsgTTL (word_of_int ((expireTime * second - t) div second)) cacheM), False)
             | None \<Rightarrow> exchangeWithoutCache X r t m c))"

text \<open>The lookups. An address that is given as a host is its own answer.\<close>

definition lookupIP ::
    "net_text \<Rightarrow> 'r dns_ctx \<Rightarrow> 'r dns_resolver \<Rightarrow> int \<Rightarrow> string \<Rightarrow> qtype \<Rightarrow> dns_cache \<Rightarrow> (dns_cache \<times> (msg_error + Addr list)) run" where
  "lookupIP N X r t host dnsType c =
     (case ParseAddr N host of
        Some ip \<Rightarrow>
          Ret (c, if dnsType = TypeAAAA \<and> \<not> Is4 ip then Inr [ip]
                  else if dnsType = TypeA \<and> Is4 ip then Inr [ip]
                  else Inl IPVersionErr)
      | None \<Rightarrow>
          run_bind (ExchangeContext X r t (l_SetQuestion (dx_lib X) zero_Msg (l_Fqdn (dx_lib X) host) dnsType) c)
            (\<lambda>(c, res, _). Ret (c, case res of
               Inl e \<Rightarrow> Inl e
             | Inr msg \<Rightarrow> let ips = msgToIP msg in if length ips = 0 then Inl NotFoundErr else Inr ips)))"

text \<open>Both families are asked for at once; \<open>inTime\<close> says whether the IPv6 answer comes before the timer of
  \<^verbatim>\<open>LookupIP\<close>. The two lookups share the cache only, so they are made one after the other.\<close>

definition LookupIPPrimaryIPv4 ::
    "net_text \<Rightarrow> 'r dns_ctx \<Rightarrow> 'r dns_resolver \<Rightarrow> int \<Rightarrow> string \<Rightarrow> dns_cache \<Rightarrow> (dns_cache \<times> (msg_error + Addr list)) run" where
  "LookupIPPrimaryIPv4 N X r t host c =
     run_bind (lookupIP N X r t host TypeA c) (\<lambda>(c, v4).
       run_bind (lookupIP N X r t host TypeAAAA c) (\<lambda>(c, v6).
         Ret (c, case v4 of
            Inr ips \<Rightarrow> Inr ips
          | Inl _ \<Rightarrow> (case v6 of Inl _ \<Rightarrow> Inl NotFoundErr | Inr ips \<Rightarrow> Inr ips))))"

definition LookupIP_both ::
    "net_text \<Rightarrow> 'r dns_ctx \<Rightarrow> 'r dns_resolver \<Rightarrow> int \<Rightarrow> bool \<Rightarrow> string \<Rightarrow> dns_cache \<Rightarrow> (dns_cache \<times> (msg_error + Addr list)) run" where
  "LookupIP_both N X r t inTime host c =
     run_bind (lookupIP N X r t host TypeA c) (\<lambda>(c, v4).
       run_bind (lookupIP N X r t host TypeAAAA c) (\<lambda>(c, v6).
         let ips = (case v4 of Inr ips \<Rightarrow> ips | Inl _ \<Rightarrow> [])
         in Ret (c, if inTime
              then (case v6 of
                      Inr ipv6s \<Rightarrow> Inr (ips @ ipv6s)
                    | Inl _ \<Rightarrow> if isl v4 then Inl NotFoundErr else Inr ips)
              else Inr ips)))"

definition Resolver_Invalid :: "'r dns_resolver option \<Rightarrow> bool" where
  "Resolver_Invalid r = (case r of None \<Rightarrow> False | Some r \<Rightarrow> length (rv_main r) > 0)"

section \<open>Construction\<close>

record fallback_filter =
  ff_GeoIP :: bool
  ff_GeoIPCode :: string
  ff_IPCIDR :: "Prefix list"
  ff_Domain :: "string list"

record ('n, 'r) dns_config =
  dc_Main :: "'n list"
  dc_Fallback :: "'n list"
  dc_Default :: "'n list"
  dc_ProxyServer :: "'n list"
  dc_IPv6 :: bool
  dc_FallbackFilter :: fallback_filter
  dc_GeoSite :: "'r DomainMatcher list"
  dc_Hosts :: "HostValue DomainTrie option"
  dc_Policy :: "(string \<times> 'n list) list"
  dc_DomainSetPolicy :: "(nat \<times> 'n list) list"

text \<open>\<open>transform\<close> makes clients of name servers. The policies are walked over in the order of a list.\<close>

fun policyLoop ::
    "'r rule_env \<Rightarrow> ('n list \<Rightarrow> dnsClient list) \<Rightarrow> (string \<times> 'n list) list \<Rightarrow>
     Policy DomainTrie \<Rightarrow> 'r geositePolicyRecord list \<Rightarrow> (Policy DomainTrie \<times> 'r geositePolicyRecord list) run" where
  "policyLoop E transform [] policy gs = Ret (policy, gs)"
| "policyLoop E transform ((domain, nameserver) # ps) policy gs =
     (if HasPrefix (ToLower domain) ''geosite:'' then
        (let groupname = drop 8 domain;
             inverse = HasPrefix groupname ''!'';
             groupname = (if inverse then drop 1 groupname else groupname)
         in run_bind (NewGeoSite E groupname)
              (\<lambda>res. case res of
                 Inl _ \<Rightarrow> policyLoop E transform ps policy gs
               | Inr matcher \<Rightarrow>
                   policyLoop E transform ps policy
                     (gs @ [\<lparr>gp_matcher = matcher, gp_policy = NewPolicy (transform nameserver), gp_inversed = inverse\<rparr>])))
      else policyLoop E transform ps
             (case Insert domain (NewPolicy (transform nameserver)) policy of Inl _ \<Rightarrow> policy | Inr p \<Rightarrow> p) gs)"

definition NewResolver ::
    "'r rule_env \<Rightarrow> ('n list \<Rightarrow> dnsClient list) \<Rightarrow> ('n, 'r) dns_config \<Rightarrow> 'r dns_resolver run" where
  "NewResolver E transform config =
     run_bind
       (if length (dc_Policy config) \<noteq> 0
        then run_bind (policyLoop E transform (dc_Policy config) DomainTrie.New [])
               (\<lambda>(policy, gs). Ret (Some (Optimize policy), gs))
        else Ret (None, []))
       (\<lambda>(policy, gs). Ret \<lparr>
          rv_ipv6 = dc_IPv6 config,
          rv_hosts = dc_Hosts config,
          rv_main = transform (dc_Main config),
          rv_fallback = (if length (dc_Fallback config) \<noteq> 0 then Some (transform (dc_Fallback config)) else None),
          rv_fallbackDomainFilters =
            (if length (ff_Domain (dc_FallbackFilter config)) \<noteq> 0
             then [NewDomainFilter (ff_Domain (dc_FallbackFilter config))] else []) @
            (if length (dc_GeoSite config) \<noteq> 0 then [geoSiteFilter (dc_GeoSite config)] else []),
          rv_fallbackIPFilters =
            (if ff_GeoIP (dc_FallbackFilter config) then [geoipFilter (ff_GeoIPCode (dc_FallbackFilter config))] else []) @
            map ipnetFilter (ff_IPCIDR (dc_FallbackFilter config)),
          rv_policy = policy,
          rv_domainSetPolicy = map (\<lambda>(p, n). (p, NewPolicy (transform n))) (dc_DomainSetPolicy config),
          rv_geositePolicy = gs,
          rv_proxyServer =
            (if length (dc_ProxyServer config) \<noteq> 0 then transform (dc_ProxyServer config) else [])\<rparr>)"

definition NewProxyServerHostResolver :: "'r dns_resolver \<Rightarrow> 'r dns_resolver" where
  "NewProxyServerHostResolver old = \<lparr>
     rv_ipv6 = rv_ipv6 old, rv_hosts = rv_hosts old, rv_main = rv_proxyServer old, rv_fallback = None,
     rv_fallbackDomainFilters = [], rv_fallbackIPFilters = [], rv_policy = Some DomainTrie.New,
     rv_domainSetPolicy = [], rv_geositePolicy = [], rv_proxyServer = []\<rparr>"

section \<open>What the picker picks\<close>

lemma pk_fold:
  "pk_result (fold pk_Go rs p) =
     (if pk_once p then pk_result p
      else case List.find (\<lambda>r. \<not> isl r) rs of None \<Rightarrow> pk_result p | Some r \<Rightarrow> Some (projr r))"
  by (induction rs arbitrary: p) (auto simp: pk_Go_def split: sum.splits option.splits)

lemma pk_fold_err:
  "pk_err (fold pk_Go rs p) =
     (if pk_errOnce p then pk_err p
      else case List.find isl rs of None \<Rightarrow> pk_err p | Some r \<Rightarrow> Some (projl r))"
  by (induction rs arbitrary: p) (auto simp: pk_Go_def split: sum.splits option.splits)

definition order_ok :: "order \<Rightarrow> bool" where
  "order_ok order \<longleftrightarrow> (\<forall>rs. mset (order rs) = mset rs)"

lemma order_set: "order_ok order \<Longrightarrow> set (order rs) = set rs"
  unfolding order_ok_def by (metis set_mset_mset)

lemma batch_find:
  "batchExchange order cs m =
     (case List.find (\<lambda>r. \<not> isl r) (order (map (askClient m) cs)) of
        Some r \<Rightarrow> r
      | None \<Rightarrow> Inl (AllFailed (pk_err (fold pk_Go (order (map (askClient m) cs)) newPicker))))"
proof -
  have "List.find (\<lambda>r. \<not> isl r) rs = Some r \<Longrightarrow> Inr (projr r) = r" for rs :: "(msg_error + Msg) list" and r
    by (auto simp: find_Some_iff)
  then show ?thesis
    by (auto simp: batchExchange_def pk_Wait_def pk_fold Let_def newPicker_def split: option.splits)
qed

lemma batch_Inr:
  assumes "order_ok order" "batchExchange order cs m = Inr msg"
  shows "\<exists>cl \<in> set cs. cl m = Inr msg \<and> g_Rcode msg \<noteq> RcodeServerFailure \<and> g_Rcode msg \<noteq> RcodeRefused"
proof -
  from assms(2) have "Inr msg \<in> set (order (map (askClient m) cs))"
    by (auto simp: batch_find find_Some_iff split: option.splits dest: nth_mem)
  with order_set [OF assms(1)] obtain cl where "cl \<in> set cs" "askClient m cl = Inr msg" by auto
  then show ?thesis by (intro bexI [of _ cl]) (auto simp: askClient_def split: sum.splits if_splits)
qed

lemma batch_Inl:
  assumes "order_ok order" "batchExchange order cs m = Inl e" "cl \<in> set cs"
  shows "isl (askClient m cl)"
proof -
  have "List.find (\<lambda>r. \<not> isl r) (order (map (askClient m) cs)) = None"
  proof (rule ccontr)
    assume "List.find (\<lambda>r. \<not> isl r) (order (map (askClient m) cs)) \<noteq> None"
    then obtain r where r: "List.find (\<lambda>r. \<not> isl r) (order (map (askClient m) cs)) = Some r" by auto
    then have "\<not> isl r" by (auto simp: find_Some_iff)
    with r assms(2) show False by (simp add: batch_find)
  qed
  with order_set [OF assms(1)] assms(3) show ?thesis by (auto simp: find_None_iff)
qed

lemma batch_isl:
  assumes "order_ok order"
  shows "isl (batchExchange order cs m) \<longleftrightarrow> (\<forall>cl \<in> set cs. isl (askClient m cl))"
proof (cases "batchExchange order cs m")
  case (Inl e)
  then show ?thesis using batch_Inl [OF assms Inl] by auto
next
  case (Inr msg)
  from batch_Inr [OF assms Inr] obtain cl where "cl \<in> set cs" "askClient m cl = Inr msg"
    by (auto simp: askClient_def)
  with Inr show ?thesis by (metis sum.disc(2))
qed

lemma batch_alive:
  assumes "order_ok order" "cl \<in> set cs" "\<not> isl (askClient m cl)"
  obtains msg where "batchExchange order cs m = Inr msg"
  using batch_isl [OF assms(1), of cs m] assms(2,3) by (cases "batchExchange order cs m") auto

section \<open>The cache\<close>

lemma run_of_Ret: "run_of r = Ret a \<longleftrightarrow> r = Some a"
  by (cases r) auto

text \<open>The cache of a resolver: stale values are given out, values do not age by themselves.\<close>

definition dns_cache_ok :: "dns_cache \<Rightarrow> bool" where
  "dns_cache_ok c \<longleftrightarrow> (\<exists>L. lru_rel (fst c) (snd c) L) \<and> staleReturn (fst c) \<and> maxAge (fst c) = 0"

lemma new_dns_cache: "dns_cache_ok (NewLru [WithSize 4096, WithStale True] h)"
proof -
  obtain c h' where "NewLru [WithSize 4096, WithStale True] h = (c, h')" "lru_rel c h' []"
    using NewLru_sim [of "[WithSize 4096, WithStale True]" h] by (auto simp: WithSize_def WithStale_def)
  then show ?thesis
    by (auto simp: dns_cache_ok_def NewLru_def WithSize_def WithStale_def split: prod.splits)
qed

lemma dns_cache_size: "maxSize (fst (NewLru [WithSize 4096, WithStale True] (h :: (string, Msg) lru_heap))) = 4096"
  by (auto simp: NewLru_def WithSize_def WithStale_def split: prod.splits)

lemma find_key_spec_set:
  assumes "distinct (map e_key (spec_set c now k v x L))" "\<not> expiring c"
  shows "find_key k (spec_set c now k v x L) = Some \<lparr>e_key = k, e_value = v, e_expires = x\<rparr>"
proof -
  let ?e = "\<lparr>e_key = k, e_value = v, e_expires = x\<rparr>"
  have "?e \<in> set (spec_set c now k v x L)"
  proof (cases "find_key k L = None \<and> 0 < maxSize c \<and> maxSize c < int (length (L @ [?e]))")
    case True
    then have "tl (L @ [?e]) = tl L @ [?e]" by (cases L) auto
    with True assms(2) show ?thesis by (simp add: spec_set_def bounded_def purge_def Let_def)
  next
    case False
    with assms(2) show ?thesis by (auto simp: spec_set_def bounded_def purge_def Let_def)
  qed
  then show ?thesis using find_key_distinct [OF assms(1)] by fastforce
qed

lemma stale_set_get:
  assumes "dns_cache_ok c"
  shows "\<exists>c1. SetWithExpire now k v x c = Some c1 \<and> dns_cache_ok c1 \<and>
     (\<forall>now'. \<exists>c2. GetWithExpire now' k c1 = Some (c2, Some (v, x)) \<and> dns_cache_ok c2)"
proof -
  obtain L where L: "lru_rel (fst c) (snd c) L" "staleReturn (fst c)" "maxAge (fst c) = 0"
    using assms by (auto simp: dns_cache_ok_def)
  obtain a h where 1: "SetWithExpire now k v x c = Some (a, h)" "lru_rel a h (spec_set (fst c) now k v x L)"
    "same_cfg (fst c) a" using SetWithExpire_sim [OF L(1), of now k v x] by auto
  have cfg: "staleReturn a" "maxAge a = 0" "\<not> expiring (fst c)" "\<not> expiring a"
    using L same_cfg_eqs [OF 1(3)] by (auto simp: expiring_def)
  have f: "find_key k (spec_set (fst c) now k v x L) = Some \<lparr>e_key = k, e_value = v, e_expires = x\<rparr>"
    by (rule find_key_spec_set [OF lru_rel_distinct [OF 1(2)] cfg(3)])
  have "\<exists>c2. GetWithExpire now' k (a, h) = Some (c2, Some (v, x)) \<and> dns_cache_ok c2" for now'
  proof -
    obtain a' h' where 2: "GetWithExpire now' k (a, h) = Some ((a', h'), Some (v, x))" "same_cfg a a'"
      "\<exists>L'. lru_rel a' h' L'"
      using GetWithExpire_sim [OF 1(2), of now' k] f cfg by (auto simp: spec_get_def Let_def)
    then show ?thesis using cfg same_cfg_eqs [OF 2(2)] by (auto simp: dns_cache_ok_def)
  qed
  with 1 cfg show ?thesis by (auto simp: dns_cache_ok_def)
qed

text \<open>An entry stays in the cache while fewer other entries than the cache has room for were moved behind it.\<close>

definition kept :: "dns_cache \<Rightarrow> string \<Rightarrow> Msg \<Rightarrow> int \<Rightarrow> nat \<Rightarrow> bool" where
  "kept c k v x n \<longleftrightarrow> (\<exists>old new. lru_rel (fst c) (snd c) (old @ \<lparr>e_key = k, e_value = v, e_expires = x\<rparr> # new) \<and>
     length new \<le> n) \<and> staleReturn (fst c) \<and> maxAge (fst c) = 0"

lemma keptI:
  "lru_rel a h (old @ \<lparr>e_key = k, e_value = v, e_expires = x\<rparr> # new) \<Longrightarrow> length new \<le> n \<Longrightarrow> staleReturn a \<Longrightarrow>
     maxAge a = 0 \<Longrightarrow> kept (a, h) k v x n"
  unfolding kept_def by auto

lemma kept_mono: "kept c k v x n \<Longrightarrow> n \<le> m \<Longrightarrow> kept c k v x m"
  unfolding kept_def by (meson order_trans)

lemma kept_start:
  assumes "dns_cache_ok c"
  shows "\<exists>c1. SetWithExpire now k v x c = Some c1 \<and> kept c1 k v x 0 \<and> maxSize (fst c1) = maxSize (fst c)"
proof -
  obtain L where L: "lru_rel (fst c) (snd c) L" and cfg: "staleReturn (fst c)" "maxAge (fst c) = 0"
    using assms by (auto simp: dns_cache_ok_def)
  let ?e = "\<lparr>e_key = k, e_value = v, e_expires = x\<rparr>"
  obtain a h where 1: "SetWithExpire now k v x c = Some (a, h)" "lru_rel a h (spec_set (fst c) now k v x L)"
    "same_cfg (fst c) a" using SetWithExpire_sim [OF L(1), of now k v x] by auto
  have "\<exists>old. spec_set (fst c) now k v x L = old @ [?e]"
    using cfg by (cases L) (auto simp: spec_set_def purge_def expiring_def bounded_def Let_def)
  then obtain old where "spec_set (fst c) now k v x L = old @ ?e # []" by auto
  then show ?thesis using 1 cfg same_cfg_eqs [OF 1(3)] unfolding kept_def by fastforce
qed

lemma kept_set:
  assumes "kept c k v x n" "k' \<noteq> k" "int n + 2 \<le> maxSize (fst c)"
  shows "\<exists>c1. SetWithExpire now k' v' x' c = Some c1 \<and> kept c1 k v x (Suc n) \<and> maxSize (fst c1) = maxSize (fst c)"
proof -
  let ?e = "\<lparr>e_key = k, e_value = v, e_expires = x\<rparr>" and ?e' = "\<lparr>e_key = k', e_value = v', e_expires = x'\<rparr>"
  obtain old new where L: "lru_rel (fst c) (snd c) (old @ ?e # new)" "length new \<le> n"
    and cfg: "staleReturn (fst c)" "maxAge (fst c) = 0" using assms(1) by (auto simp: kept_def)
  let ?L = "old @ ?e # new"
  obtain a h where 1: "SetWithExpire now k' v' x' c = Some (a, h)" "lru_rel a h (spec_set (fst c) now k' v' x' ?L)"
    "same_cfg (fst c) a" using SetWithExpire_sim [OF L(1), of now k' v' x'] by auto
  have "\<exists>old' new'. spec_set (fst c) now k' v' x' ?L = old' @ ?e # new' \<and> length new' \<le> Suc n"
  proof (cases "find_key k' ?L = None")
    case True
    then have s: "spec_set (fst c) now k' v' x' ?L = bounded (fst c) (old @ ?e # new @ [?e'])"
      using cfg by (simp add: spec_set_def purge_def expiring_def Let_def)
    show ?thesis
    proof (cases old)
      case Nil
      then have "bounded (fst c) (old @ ?e # new @ [?e']) = old @ ?e # new @ [?e']"
        using assms(3) L(2) by (simp add: bounded_def)
      with s L(2) show ?thesis by fastforce
    next
      case (Cons o1 os)
      then have "bounded (fst c) (old @ ?e # new @ [?e']) \<in> {old @ ?e # new @ [?e'], os @ ?e # new @ [?e']}"
        by (simp add: bounded_def)
      with s L(2) show ?thesis by fastforce
    qed
  next
    case False
    then have "spec_set (fst c) now k' v' x' ?L = filter (other k') old @ ?e # filter (other k') new @ [?e']"
      using cfg assms(2) by (auto simp: spec_set_def purge_def expiring_def other_def Let_def)
    moreover have "length (filter (other k') new @ [?e']) \<le> Suc n"
      using le_trans [OF length_filter_le [of "other k'" new] L(2)] by simp
    ultimately show ?thesis by blast
  qed
  then show ?thesis using 1 cfg same_cfg_eqs [OF 1(3)] unfolding kept_def by fastforce
qed

lemma kept_get:
  assumes "kept c k v x n"
  shows "\<exists>c1 r. GetWithExpire now k' c = Some (c1, r) \<and> maxSize (fst c1) = maxSize (fst c) \<and>
    (k' = k \<longrightarrow> r = Some (v, x) \<and> kept c1 k v x n) \<and> (k' \<noteq> k \<longrightarrow> kept c1 k v x (if r = None then n else Suc n))"
proof -
  let ?e = "\<lparr>e_key = k, e_value = v, e_expires = x\<rparr>"
  obtain old new where L: "lru_rel (fst c) (snd c) (old @ ?e # new)" "length new \<le> n"
    and cfg: "staleReturn (fst c)" "maxAge (fst c) = 0" using assms(1) by (auto simp: kept_def)
  let ?L = "old @ ?e # new"
  obtain a h where 1: "GetWithExpire now k' c = Some ((a, h), map_option (\<lambda>e. (e_value e, e_expires e)) (snd (spec_get (fst c) now k' ?L)))"
    "same_cfg (fst c) a" "lru_rel a h (fst (spec_get (fst c) now k' ?L))"
    using GetWithExpire_sim [OF L(1), of now k'] by auto
  note cfg' = cfg same_cfg_eqs [OF 1(2)]
  show ?thesis
  proof (cases "k' = k")
    case True
    have "find_key k ?L = Some ?e" using find_key_distinct [OF lru_rel_distinct [OF L(1)], of ?e] by simp
    then have g: "spec_get (fst c) now k' ?L = (filter (other k) ?L @ [?e], Some ?e)"
      using True cfg by (simp add: spec_get_def expiring_def Let_def)
    have "kept (a, h) k v x n"
      by (rule keptI [of _ _ "filter (other k) ?L" _ _ _ "[]"]) (use 1(3) g cfg' in \<open>simp_all del: filter_append filter.simps\<close>)
    with 1(1) g cfg' True show ?thesis by simp
  next
    case False
    show ?thesis
    proof (cases "find_key k' ?L")
      case None
      then have g: "spec_get (fst c) now k' ?L = (?L, None)" by (simp add: spec_get_def)
      then have "kept (a, h) k v x n" using 1(3) L(2) cfg' unfolding kept_def by auto
      with 1(1) g cfg' False show ?thesis by simp
    next
      case (Some e')
      then have g: "spec_get (fst c) now k' ?L = (filter (other k') old @ ?e # filter (other k') new @ [e'], Some e')"
        using False cfg by (simp add: spec_get_def expiring_def other_def Let_def)
      moreover have "length (filter (other k') new @ [e']) \<le> Suc n"
        using le_trans [OF length_filter_le [of "other k'" new] L(2)] by simp
      ultimately have "kept (a, h) k v x (Suc n)" using 1(3) cfg' unfolding kept_def by fastforce
      with 1(1) g cfg' False show ?thesis by simp
    qed
  qed
qed

text \<open>What happens to the cache after an answer was put into it: queries, with any clients and at any time, and fetches in
  the background.\<close>

datatype 'r dns_event = Query "'r dns_ctx" "'r dns_resolver" int Msg | Refetch "'r dns_ctx" "'r dns_resolver" int Msg question

fun dns_events :: "'r dns_event list \<Rightarrow> dns_cache \<Rightarrow> dns_cache run" where
  "dns_events [] c = Ret c"
| "dns_events (Query X r t m # es) c = run_bind (ExchangeContext X r t m c) (\<lambda>(c, _). dns_events es c)"
| "dns_events (Refetch X r t m q # es) c = run_bind (fetch X r t m q c) (\<lambda>(c, _). dns_events es c)"

fun other_fetch :: "string \<Rightarrow> 'r dns_event \<Rightarrow> bool" where
  "other_fetch k (Query X r t m) \<longleftrightarrow> True"
| "other_fetch k (Refetch X r t m q) \<longleftrightarrow> l_Question_String (dx_lib X) q \<noteq> k"

lemma fetch_put:
  assumes "fetch X r t m q c = Ret (c1, res)"
  shows "c1 = c \<or> (\<exists>msg x. SetWithExpire (Unix t) (l_Question_String (dx_lib X) q) msg x c = Some c1)"
proof -
  obtain r1 where "(case r1 of Inl e \<Rightarrow> Ret (c, Inl e)
      | Inr msg \<Rightarrow> run_bind (run_of (putMsgToCache t (l_Question_String (dx_lib X) q) msg c)) (\<lambda>c. Ret (c, Inr msg))) = Ret (c1, res)"
    using assms by (auto simp: fetch_def run_bind_Ret)
  then show ?thesis
    by (cases r1) (auto simp: run_bind_Ret run_of_Ret putMsgToCache_def split: if_splits option.splits)
qed

lemma fetch_kept:
  assumes "kept c k v x n" "int n + 2 \<le> maxSize (fst c)" "fetch X r t m q c = Ret (c1, res)" "l_Question_String (dx_lib X) q \<noteq> k"
  shows "kept c1 k v x (Suc n) \<and> maxSize (fst c1) = maxSize (fst c)"
  using fetch_put [OF assms(3)]
proof
  assume "c1 = c"
  with kept_mono [OF assms(1), of "Suc n"] show ?thesis by simp
next
  assume "\<exists>msg y. SetWithExpire (Unix t) (l_Question_String (dx_lib X) q) msg y c = Some c1"
  then obtain msg y where "SetWithExpire (Unix t) (l_Question_String (dx_lib X) q) msg y c = Some c1" by blast
  with kept_set [OF assms(1,4,2), of "Unix t" msg y] show ?thesis by simp
qed

lemma query_kept:
  assumes "kept c k v x n" "int n + 2 \<le> maxSize (fst c)" "ExchangeContext X r t m c = Ret (c1, res)"
  shows "kept c1 k v x (Suc n) \<and> maxSize (fst c1) = maxSize (fst c)"
proof (cases "g_Question m")
  case Nil
  with assms kept_mono [OF assms(1), of "Suc n"] show ?thesis by (auto simp: ExchangeContext_def)
next
  case (Cons q qs)
  let ?k = "l_Question_String (dx_lib X) q"
  obtain c2 hit where g: "GetWithExpire (Unix t) ?k c = Some (c2, hit)" "maxSize (fst c2) = maxSize (fst c)"
    "?k = k \<Longrightarrow> hit = Some (v, x) \<and> kept c2 k v x n" "?k \<noteq> k \<Longrightarrow> kept c2 k v x (if hit = None then n else Suc n)"
    using kept_get [OF assms(1), of "Unix t" ?k] by auto
  show ?thesis
  proof (cases hit)
    case None
    with g have k: "?k \<noteq> k" "kept c2 k v x n" by auto
    from assms(3) Cons g(1) None obtain r1 where "fetch X r t m q c2 = Ret (c1, r1)"
      by (auto simp: ExchangeContext_def exchangeWithoutCache_def run_bind_Ret)
    with fetch_kept [OF k(2) _ _ k(1)] g(2) assms(2) show ?thesis by metis
  next
    case (Some p)
    with assms(3) Cons g(1) have "c1 = c2" by (auto simp: ExchangeContext_def split: if_splits prod.splits)
    moreover have "kept c2 k v x (Suc n)" using g(3,4) Some by (cases "?k = k") (auto intro: kept_mono)
    ultimately show ?thesis using g(2) by simp
  qed
qed

lemma events_kept:
  "kept c k v x n \<Longrightarrow> int n + int (length es) < maxSize (fst c) \<Longrightarrow> list_all (other_fetch k) es \<Longrightarrow>
     dns_events es c = Ret c1 \<Longrightarrow> kept c1 k v x (n + length es)"
proof (induction es arbitrary: c n)
  case (Cons e es)
  obtain c2 where c2: "kept c2 k v x (Suc n)" "maxSize (fst c2) = maxSize (fst c)" "dns_events es c2 = Ret c1"
  proof (cases e)
    case (Query X r t m)
    with Cons.prems query_kept [OF Cons.prems(1)] that show thesis by (fastforce simp: run_bind_Ret)
  next
    case (Refetch X r t m q)
    with Cons.prems fetch_kept [OF Cons.prems(1)] that show thesis by (fastforce simp: run_bind_Ret)
  qed
  from Cons.IH [OF c2(1)] c2(2,3) Cons.prems show ?case by simp
qed simp

text \<open>C33: an answer that was fetched, and is no ACME challenge and has a record, serves a later query with the same question
  from the cache, whatever clients and filters there are by then, if fewer queries and fetches came in
  between than the cache has room for entries (4096), none of them a fetch of the same question: until the time to
  live of its first record is over with the seconds that are left as the time to live of all its records, and after
  that, however late, with a time to live of one second and another fetch in the background.\<close>

theorem dns_cache_serves:
  assumes "dns_cache_ok c" "fetch X r t m q c = Ret (c1, Inr msg)"
    "\<not> acme_challenge msg" "msg_Ttl msg = Some ttl"
    "dns_events es c1 = Ret c2" "list_all (other_fetch (l_Question_String (dx_lib X) q)) es" "int (length es) < maxSize (fst c)"
    "g_Question m' = q' # qs" "l_Question_String L q' = l_Question_String (dx_lib X) q"
    "expires = Unix (t + second * uint ttl) * second"
  shows "\<exists>c3. ExchangeContext (Y\<lparr>dx_lib := L\<rparr>) r' t' m' c2 = Ret (c3,
     Inr (setMsgTTL (if expires < t' then 1 else word_of_int ((expires - t') div second)) msg), expires < t')"
proof -
  let ?k = "l_Question_String (dx_lib X) q" and ?x = "Unix (t + second * uint ttl)"
  obtain res where res: "exchangeOnce X r m q = Ret res"
    "(case res of Inl e \<Rightarrow> Ret (c, Inl e)
      | Inr msg \<Rightarrow> run_bind (run_of (putMsgToCache t ?k msg c)) (\<lambda>c. Ret (c, Inr msg)))
     = Ret (c1, Inr msg)" using assms(2) by (auto simp: fetch_def run_bind_Ret)
  then have "putMsgToCache t ?k msg c = Some c1"
    by (cases res) (auto simp: run_bind_Ret run_of_Ret)
  then have "SetWithExpire (Unix t) ?k msg ?x c = Some c1"
    using assms(3,4) by (simp add: putMsgToCache_def)
  with kept_start [OF assms(1), of "Unix t" ?k msg ?x] have "kept c1 ?k msg ?x 0" "maxSize (fst c1) = maxSize (fst c)" by auto
  with events_kept [OF this(1), of es c2] assms(5-7) have "kept c2 ?k msg ?x (length es)" by simp
  from kept_get [OF this, of "Unix t'" ?k] obtain c3 where "GetWithExpire (Unix t') ?k c2 = Some (c3, Some (msg, ?x))" by auto
  then show ?thesis using assms(8-10) by (auto simp: ExchangeContext_def)
qed

section \<open>The fallback servers\<close>

lemma any_run_False: "any_run f xs = Ret False \<Longrightarrow> x \<in> set xs \<Longrightarrow> f x = Ret False"
  by (induction xs) (auto simp: run_bind_Ret split: if_splits)

text \<open>C34: when there are fallback servers and no policy for the domain, an answer whose first address some filter
  rejects is never one of the main servers alone: one of the fallback servers gave it.\<close>

theorem dns_fallback_shields:
  assumes "order_ok (dx_order X)" "ipExchange X r m = Ret (Inr msg)" "matchPolicy X r m = Ret []"
    "rv_fallback r = Some fb" "fb \<noteq> []"
    "msgToIP msg = ip # ips" "f \<in> set (rv_fallbackIPFilters r)" "ipFilter_Match (dx_rules X) f ip = Ret True"
  shows "\<exists>cl \<in> set fb. cl m = Inr msg"
proof -
  have fb: "fallbackClients r = fb" using assms(4) by (simp add: fallbackClients_def)
  let ?main = "batchExchange (dx_order X) (rv_main r) m"
  have "any_run (\<lambda>f. ipFilter_Match (dx_rules X) f ip) (rv_fallbackIPFilters r) \<noteq> Ret False"
    using any_run_False [of "\<lambda>f. ipFilter_Match (dx_rules X) f ip" "rv_fallbackIPFilters r" f] assms(7,8) by auto
  then have "\<not> mainAnswerGood X r ?main = Ret True" if "?main = Inr msg"
    using that assms(6) by (auto simp: mainAnswerGood_def shouldIPFallback_def run_bind_Ret)
  then have "batchExchange (dx_order X) fb m = Inr msg"
    using assms(2,3,5) fb by (auto simp: ipExchange_def run_bind_Ret Let_def split: if_splits)
  from batch_Inr [OF assms(1) this] show ?thesis by blast
qed

text \<open>A query for addresses is answered whenever one of the clients it falls back to has an answer: with
  fallback servers and no policy it fails only when all of them fail.\<close>

theorem dns_fails_with_all:
  assumes "order_ok (dx_order X)" "ipExchange X r m = Ret (Inl e)" "matchPolicy X r m = Ret []"
    "rv_fallback r = Some fb" "fb \<noteq> []"
  shows "\<forall>cl \<in> set fb. isl (askClient m cl)"
proof -
  have fb: "fallbackClients r = fb" using assms(4) by (simp add: fallbackClients_def)
  have "\<not> mainAnswerGood X r (Inl e) = Ret True" by (simp add: mainAnswerGood_def)
  then have "batchExchange (dx_order X) fb m = Inl e"
    using assms(2,3,5) fb by (auto simp: ipExchange_def run_bind_Ret Let_def split: if_splits)
  with batch_isl [OF assms(1), of fb m] show ?thesis by simp
qed

section \<open>Examples\<close>

definition demo_lib :: dns_lib where
  "demo_lib = \<lparr>l_SetRcode = (\<lambda>m r c. m\<lparr>g_Id := g_Id r, g_Rcode := c, g_Question := take 1 (g_Question r)\<rparr>),
     l_SetQuestion = (\<lambda>m name t. m\<lparr>g_Question := [\<lparr>q_Name = name, q_Qtype = t, q_Qclass = ClassINET\<rparr>]\<rparr>),
     l_Fqdn = (\<lambda>s. s @ ''.''), l_Question_String = q_Name\<rparr>"

lemma demo_reply_ok: "reply_ok demo_lib"
  by (auto simp: reply_ok_def demo_lib_def take_Suc)

definition demo_rr :: "32 word \<Rightarrow> 32 word \<Rightarrow> rr" where
  "demo_rr ip ttl = RR_A \<lparr>h_Name = ''x.org.'', h_Rrtype = TypeA, h_Class = ClassINET, h_Ttl = ttl\<rparr> (AsSlice (V4 ip))"

definition demo_client :: "32 word \<Rightarrow> dnsClient" where
  "demo_client ip m = Inr (m\<lparr>g_Answer := [demo_rr ip 60]\<rparr>)"

definition dead_client :: dnsClient where
  "dead_client m = Inr (m\<lparr>g_Rcode := RcodeServerFailure\<rparr>)"

definition demo_query :: Msg where
  "demo_query = l_SetQuestion demo_lib zero_Msg ''x.org.'' TypeA"

definition demo_ctx :: "string dns_ctx" where
  "demo_ctx = \<lparr>dx_lib = demo_lib, dx_rules = te_rule_env example_tunnel, dx_world = te_world example_tunnel, dx_depth = 3, dx_order = rev\<rparr>"

definition demo_resolver :: "dnsClient list \<Rightarrow> dnsClient list \<Rightarrow> string dns_resolver" where
  "demo_resolver cs fb = \<lparr>rv_ipv6 = False, rv_hosts = None, rv_main = cs, rv_fallback = Some fb,
     rv_fallbackDomainFilters = [], rv_fallbackIPFilters = [ipnetFilter \<lparr>pfx_Addr = V4 0xF0000000, pfx_Bits = 4\<rparr>],
     rv_policy = None, rv_domainSetPolicy = [], rv_geositePolicy = [], rv_proxyServer = []\<rparr>"

lemma rev_order: "order_ok rev"
  by (simp add: order_ok_def)

lemma demo_no_policy: "matchPolicy demo_ctx (demo_resolver cs fb) m = Ret []"
  by (simp add: matchPolicy_def demo_resolver_def)

text \<open>The main server gives a forged address, so the answer of the fallback server is used.\<close>

lemma demo_shield:
  "ipExchange demo_ctx (demo_resolver [dead_client, demo_client 0xF0000001] [demo_client 0x08080808]) demo_query =
     Ret (demo_client 0x08080808 demo_query)"
  by code_simp

lemma demo_forged:
  "ipExchange demo_ctx (demo_resolver [demo_client 1] [demo_client 0xF0000001]) demo_query = Ret (demo_client 1 demo_query)"
  "ipExchange demo_ctx (demo_resolver [demo_client 0xF0000002] [demo_client 0xF0000001]) demo_query = Ret (demo_client 0xF0000001 demo_query)"
  "ipExchange demo_ctx (demo_resolver [demo_client 0xF0000002] [dead_client]) demo_query = Ret (Inl (AllFailed (Some BadServer)))"
  "ipFilter_Match (dx_rules demo_ctx) (ipnetFilter \<lparr>pfx_Addr = V4 0xF0000000, pfx_Bits = 4\<rparr>) (V4 0xF0000001) = Ret True"
  "msgToIP (demo_query\<lparr>g_Answer := [demo_rr 0xF0000001 60]\<rparr>) = [V4 0xF0000001]"
  by code_simp+

theorem dns_fallback_shields_witness:
  "\<exists>cl \<in> set [demo_client 0xF0000001]. cl demo_query = Inr (demo_query\<lparr>g_Answer := [demo_rr 0xF0000001 60]\<rparr>)"
proof (rule dns_fallback_shields)
  show "order_ok (dx_order demo_ctx)" by (simp add: demo_ctx_def rev_order)
  show "ipExchange demo_ctx (demo_resolver [demo_client 0xF0000002] [demo_client 0xF0000001]) demo_query =
    Ret (Inr (demo_query\<lparr>g_Answer := [demo_rr 0xF0000001 60]\<rparr>))"
    using demo_forged(2) by (simp add: demo_client_def)
  show "matchPolicy demo_ctx (demo_resolver [demo_client 0xF0000002] [demo_client 0xF0000001]) demo_query = Ret []"
    by (rule demo_no_policy)
  show "rv_fallback (demo_resolver [demo_client 0xF0000002] [demo_client 0xF0000001]) = Some [demo_client 0xF0000001]"
    by (simp add: demo_resolver_def)
  show "[demo_client 0xF0000001] \<noteq> []" by simp
  show "msgToIP (demo_query\<lparr>g_Answer := [demo_rr 0xF0000001 60]\<rparr>) = [V4 0xF0000001]" by (rule demo_forged(5))
  show "ipnetFilter \<lparr>pfx_Addr = V4 0xF0000000, pfx_Bits = 4\<rparr> \<in>
      set (rv_fallbackIPFilters (demo_resolver [demo_client 0xF0000002] [demo_client 0xF0000001]))"
    by (simp add: demo_resolver_def)
  show "ipFilter_Match (dx_rules demo_ctx) (ipnetFilter \<lparr>pfx_Addr = V4 0xF0000000, pfx_Bits = 4\<rparr>) (V4 0xF0000001) = Ret True"
    by (rule demo_forged(4))
qed

theorem dns_fails_with_all_witness: "isl (askClient demo_query dead_client)"
  using dns_fails_with_all [OF _ demo_forged(3) demo_no_policy, of "[dead_client]"] rev_order
  by (simp add: demo_ctx_def demo_resolver_def)

text \<open>Asked at second 100 and served again 5.5 seconds later: 54 whole seconds are left of 60.\<close>

lemma demo_fetch:
  "\<exists>c1. fetch demo_ctx (demo_resolver [demo_client 1] []) 100000000000 demo_query (hd (g_Question demo_query))
     (NewLru [WithSize 4096, WithStale True] empty_lru_heap) = Ret (c1, demo_client 1 demo_query)"
proof -
  let ?c = "NewLru [WithSize 4096, WithStale True] empty_lru_heap :: dns_cache"
  let ?m = "demo_query\<lparr>g_Answer := [demo_rr 1 60]\<rparr>"
  obtain c1 where "SetWithExpire (Unix 100000000000) ''x.org.'' ?m (Unix (100000000000 + second * uint (60 :: 32 word))) ?c = Some c1"
    using stale_set_get [OF new_dns_cache, of "Unix 100000000000" "''x.org.''" ?m] by blast
  moreover have "exchangeOnce demo_ctx (demo_resolver [demo_client 1] []) demo_query (hd (g_Question demo_query)) = Ret (Inr ?m)"
    by code_simp
  ultimately show ?thesis
    by (auto simp: fetch_def putMsgToCache_def acme_challenge_def msg_Ttl_def demo_query_def demo_lib_def demo_ctx_def
        demo_client_def demo_rr_def)
qed

theorem dns_cache_serves_witness:
  "\<exists>c1 c2 c3. fetch demo_ctx (demo_resolver [demo_client 1] []) 100000000000 demo_query (hd (g_Question demo_query))
       (NewLru [WithSize 4096, WithStale True] empty_lru_heap) = Ret (c1, demo_client 1 demo_query) \<and>
     ExchangeContext demo_ctx (demo_resolver [dead_client] []) 105500000000 demo_query c1 =
       Ret (c2, Inr (setMsgTTL 54 (demo_query\<lparr>g_Answer := [demo_rr 1 60]\<rparr>)), False) \<and>
     ExchangeContext demo_ctx (demo_resolver [dead_client] []) 200000000000 demo_query c2 =
       Ret (c3, Inr (setMsgTTL 1 (demo_query\<lparr>g_Answer := [demo_rr 1 60]\<rparr>)), True)"
proof -
  let ?r = "demo_resolver [dead_client] []"
  obtain c1 where c1: "fetch demo_ctx (demo_resolver [demo_client 1] []) 100000000000 demo_query (hd (g_Question demo_query))
     (NewLru [WithSize 4096, WithStale True] empty_lru_heap) = Ret (c1, Inr (demo_query\<lparr>g_Answer := [demo_rr 1 60]\<rparr>))"
    using demo_fetch by (auto simp: demo_client_def)
  have serve: "\<exists>c3. ExchangeContext (demo_ctx\<lparr>dx_lib := demo_lib\<rparr>) ?r t' demo_query c2 = Ret (c3,
     Inr (setMsgTTL (if (160 * second :: int) < t' then 1 else word_of_int ((160 * second - t') div second))
       (demo_query\<lparr>g_Answer := [demo_rr 1 60]\<rparr>)), (160 * second :: int) < t')"
    if "dns_events es c1 = Ret c2" "list_all (other_fetch ''x.org.'') es" "length es < 2" for es c2 t'
    by (rule dns_cache_serves [OF new_dns_cache c1, where es = es and ttl = 60 and q' = "hd (g_Question demo_query)" and qs = "[]"])
      (use that in \<open>simp_all add: dns_cache_size acme_challenge_def msg_Ttl_def demo_query_def demo_lib_def demo_ctx_def demo_rr_def Unix_def\<close>)
  have L: "demo_ctx\<lparr>dx_lib := demo_lib\<rparr> = demo_ctx" by (simp add: demo_ctx_def)
  from serve [of "[]" c1 105500000000] obtain c2 where
    c2: "ExchangeContext demo_ctx ?r 105500000000 demo_query c1 = Ret (c2, Inr (setMsgTTL 54 (demo_query\<lparr>g_Answer := [demo_rr 1 60]\<rparr>)), False)"
    by (auto simp: L)
  then have "dns_events [Query demo_ctx ?r 105500000000 demo_query] c1 = Ret c2" by simp
  from serve [OF this, of 200000000000] obtain c3 where c3:
    "ExchangeContext demo_ctx ?r 200000000000 demo_query c2 = Ret (c3, Inr (setMsgTTL 1 (demo_query\<lparr>g_Answer := [demo_rr 1 60]\<rparr>)), True)"
    by (auto simp: L)
  have "fetch demo_ctx (demo_resolver [demo_client 1] []) 100000000000 demo_query (hd (g_Question demo_query))
     (NewLru [WithSize 4096, WithStale True] empty_lru_heap) = Ret (c1, demo_client 1 demo_query)"
    using c1 by (simp add: demo_client_def)
  with c2 c3 show ?thesis by blast
qed

end
