(* ===== verification/DnsHandler.thy ===== *)
theory DnsHandler imports DnsResolver begin

text \<open>
  The DNS server: the handlers of \<^verbatim>\<open>dns/middleware.go\<close>, one wrapped around the other, and \<^verbatim>\<open>handlerWithContext\<close> of
  \<^verbatim>\<open>dns/server.go\<close>. A handler takes a request and the state of the server: the enhancer with the fake-IP pool
  and the mapping, the cache of the resolver, the type of the reply and the queries that go on in the background.
\<close>

section \<open>Handlers\<close>

record 's dns_state =
  ds_en :: "'s enhancer"
  ds_cache :: dns_cache
  ds_type :: string
  ds_background :: "Msg list"

type_synonym 's handler = "Msg \<Rightarrow> 's dns_state \<Rightarrow> ('s dns_state \<times> (msg_error + Msg)) run"

text \<open>\<^verbatim>\<open>mapping.SetWithExpire\<close>; a nil mapping panics.\<close>

definition mapIP :: "int \<Rightarrow> Addr \<Rightarrow> string \<Rightarrow> int \<Rightarrow> 's dns_state \<Rightarrow> 's dns_state run" where
  "mapIP t ip host expires s =
     (case en_mapping (ds_en s) of
        None \<Rightarrow> Panic
      | Some c \<Rightarrow> run_bind (run_of (SetWithExpire (Unix t) ip host (Unix expires) c))
          (\<lambda>c. Ret (s\<lparr>ds_en := (ds_en s)\<lparr>en_mapping := Some c\<rparr>\<rparr>)))"

definition rr_hdr :: "question \<Rightarrow> qtype \<Rightarrow> 32 word \<Rightarrow> rr_header" where
  "rr_hdr q t ttl = \<lparr>h_Name = q_Name q, h_Rrtype = t, h_Class = ClassINET, h_Ttl = ttl\<rparr>"

definition handleCName :: "question \<Rightarrow> Msg \<Rightarrow> string \<Rightarrow> Msg" where
  "handleCName q resp domain =
     resp\<lparr>g_Answer := RR_CNAME (rr_hdr q TypeCNAME 10) (domain @ ''.'') # g_Answer resp\<rparr>"

fun handleIPs :: "int \<Rightarrow> question \<Rightarrow> string \<Rightarrow> Addr list \<Rightarrow> Msg \<Rightarrow> 's dns_state \<Rightarrow> (Msg \<times> 's dns_state) run" where
  "handleIPs t q host [] msg s = Ret (msg, s)"
| "handleIPs t q host (ip # ips) msg s =
     (let record = (if Is4 ip \<and> q_Qtype q = TypeA then Some (RR_A (rr_hdr q TypeA 10) (AsSlice ip))
                    else if q_Qtype q = TypeAAAA then Some (RR_AAAA (rr_hdr q TypeAAAA 10) (bytes_of 16 (As16 ip)))
                    else None)
      in case record of
           None \<Rightarrow> handleIPs t q host ips msg s
         | Some rr \<Rightarrow>
             run_bind (if en_mapping (ds_en s) \<noteq> None then mapIP t ip host (t + second * 10) s else Ret s)
               (\<lambda>s. handleIPs t q host ips (msg\<lparr>g_Answer := g_Answer msg @ [rr]\<rparr>) s))"

definition withHosts :: "dns_lib \<Rightarrow> nat \<Rightarrow> int \<Rightarrow> HostValue DomainTrie \<Rightarrow> 's handler \<Rightarrow> 's handler" where
  "withHosts L rounds t hosts next r s =
     (case g_Question r of
        [] \<Rightarrow> Panic
      | q # qs \<Rightarrow>
          if \<not> isIPRequest q then next r s
          else let host = TrimRightDots (q_Name q)
          in run_bind (Hosts_Search rounds hosts host (q_Qtype q \<noteq> TypeA \<and> q_Qtype q \<noteq> TypeAAAA)) (\<lambda>(record, ok).
            if \<not> ok then
              (case record of
                 Some v \<Rightarrow>
                   if hv_IsDomain v then
                     run_bind (next (r\<lparr>g_Question := q\<lparr>q_Name := hv_Domain v @ ''.''\<rparr> # qs\<rparr>) s) (\<lambda>(s, res).
                       Ret (s, case res of
                         Inl e \<Rightarrow> Inl e
                       | Inr resp \<Rightarrow> Inr (handleCName q (resp\<lparr>g_Id := g_Id r, g_Question := g_Question r\<rparr>) (hv_Domain v))))
                   else next r s
               | None \<Rightarrow> next r s)
            else case record of
              None \<Rightarrow> Panic
            | Some v \<Rightarrow>
                if q_Qtype q = TypeA \<or> q_Qtype q = TypeAAAA \<or> q_Qtype q = TypeCNAME then
                  run_bind (if q_Qtype q = TypeCNAME then Ret (r, s) else handleIPs t q host (hv_IPs v) r s) (\<lambda>(msg, s).
                    let r = (if q_Qtype q = TypeCNAME then handleCName q r (hv_Domain v) else r)
                    in Ret (s\<lparr>ds_type := ''host''\<rparr>,
                         Inr ((l_SetRcode L msg r RcodeSuccess)\<lparr>g_Authoritative := True, g_RecursionAvailable := True\<rparr>)))
                else next r s))"

fun mappingLoop :: "int \<Rightarrow> string \<Rightarrow> rr list \<Rightarrow> 's dns_state \<Rightarrow> 's dns_state run" where
  "mappingLoop t host [] s = Ret s"
| "mappingLoop t host (ans # rest) s =
     (case answer_IP ans of
        None \<Rightarrow> mappingLoop t host rest s
      | Some ip \<Rightarrow> run_bind (mapIP t ip host (t + second * uint (h_Ttl (Header ans))) s) (mappingLoop t host rest))"

definition withMapping :: "int \<Rightarrow> 's handler \<Rightarrow> 's handler" where
  "withMapping t next r s =
     (case g_Question r of
        [] \<Rightarrow> Panic
      | q # _ \<Rightarrow>
          if \<not> isIPRequest q then next r s
          else run_bind (next r s) (\<lambda>(s, res).
            case res of
              Inl e \<Rightarrow> Ret (s, Inl e)
            | Inr msg \<Rightarrow>
                run_bind (mappingLoop t (TrimRightDots (q_Name q)) (g_Answer msg) s) (\<lambda>s. Ret (s, Inr msg))))"

definition dnsDefaultTTL :: "32 word" where "dnsDefaultTTL = 600"

definition withFakeIP :: "'s store_if \<Rightarrow> dns_lib \<Rightarrow> 's handler \<Rightarrow> 's handler" where
  "withFakeIP ops L next r s =
     (case g_Question r of
        [] \<Rightarrow> Panic
      | q # _ \<Rightarrow>
          (case en_fakePool (ds_en s) of
             None \<Rightarrow> Panic
           | Some fakePool \<Rightarrow>
               let host = TrimRightDots (q_Name q)
               in if ShouldSkipped host fakePool then next r s
                  else if q_Qtype q = TypeAAAA \<or> q_Qtype q = TypeSVCB \<or> q_Qtype q = TypeHTTPS
                  then Ret (s, Inr (handleMsgWithEmptyAnswer L r))
                  else if q_Qtype q \<noteq> TypeA then next r s
                  else run_bind (run_of (Lookup ops host fakePool)) (\<lambda>(fakePool, ip).
                    let msg = r\<lparr>g_Answer := [RR_A (rr_hdr q TypeA dnsDefaultTTL) (AsSlice ip)]\<rparr>;
                        msg = setMsgTTL 1 msg;
                        msg = l_SetRcode L msg r RcodeSuccess
                    in Ret (s\<lparr>ds_en := (ds_en s)\<lparr>en_fakePool := Some fakePool\<rparr>, ds_type := ''fakeip''\<rparr>,
                         Inr (msg\<lparr>g_Authoritative := True, g_RecursionAvailable := True\<rparr>)))))"

definition withResolver :: "'r dns_ctx \<Rightarrow> 'r dns_resolver \<Rightarrow> int \<Rightarrow> 's handler" where
  "withResolver X resolver t r s =
     (let s = s\<lparr>ds_type := ''raw''\<rparr>
      in case g_Question r of
           [] \<Rightarrow> Panic
         | q # _ \<Rightarrow>
             if \<not> rv_ipv6 resolver \<and> q_Qtype q = TypeAAAA then Ret (s, Inr (handleMsgWithEmptyAnswer (dx_lib X) r))
             else run_bind (ExchangeContext X resolver t r (ds_cache s)) (\<lambda>(c, res, bg).
               let s = s\<lparr>ds_cache := c, ds_background := (if bg then [r] else []) @ ds_background s\<rparr>
               in Ret (s, case res of
                    Inl e \<Rightarrow> Inl e
                  | Inr msg \<Rightarrow> Inr ((l_SetRcode (dx_lib X) msg r (g_Rcode msg))\<lparr>g_Authoritative := True\<rparr>))))"

definition compose :: "('s handler \<Rightarrow> 's handler) list \<Rightarrow> 's handler \<Rightarrow> 's handler" where
  "compose middlewares endpoint = foldr (\<lambda>middleware h. middleware h) middlewares endpoint"

definition NewHandler ::
    "'s store_if \<Rightarrow> nat \<Rightarrow> 'r dns_ctx \<Rightarrow> 'r dns_resolver \<Rightarrow> DNSMode \<Rightarrow> int \<Rightarrow> 's handler" where
  "NewHandler ops rounds X resolver mode t =
     compose
       ((case rv_hosts resolver of Some hosts \<Rightarrow> [withHosts (dx_lib X) rounds t hosts] | None \<Rightarrow> []) @
        (if mode = DNSFakeIP then [withFakeIP ops (dx_lib X)] else []) @
        (if mode \<noteq> DNSNormal then [withMapping t] else []))
       (withResolver X resolver t)"

definition handlerWithContext :: "'s handler \<Rightarrow> Msg \<Rightarrow> 's dns_state \<Rightarrow> ('s dns_state \<times> (msg_error + Msg)) run" where
  "handlerWithContext handler msg s =
     (if length (g_Question msg) = 0 then Ret (s, Inl NoQuestion) else handler msg (s\<lparr>ds_type := []\<rparr>))"

section \<open>A fake answer and the connection to it\<close>

text \<open>The pool always has an address for a host.\<close>

lemma pool_answers:
  assumes "New_memory t0 h opts = Some (Inr p0)" "pool_run (mem_ops t1) xs p0 = Some p"
  obtains p1 ip where "Lookup (mem_ops t') host p = Some (p1, ip)"
proof -
  have "\<forall>x \<in> set xs. mem.op_ok x" by (auto simp: mem.op_ok_def split: pool_op.splits)
  then have "mem.pool_ok p" "mem.in_range p"
    using mem.run_ok [of p0 xs t1] New_memory_ok [OF assms(1)] assms(2) by auto
  from mem.Lookup_LookBack [OF this TrueI, where host = host and now = t'] that show ?thesis by blast
qed

text \<open>What the hosts table makes of a query: the name that is resolved and the records in front of the reply, an alias when
  the table has one for the name; nothing when the table answers the query itself.\<close>

definition hosts_target :: "nat \<Rightarrow> 'r dns_resolver \<Rightarrow> question \<Rightarrow> (string \<times> rr list) option run" where
  "hosts_target rounds resolver q =
     (let host = TrimRightDots (q_Name q)
      in case rv_hosts resolver of
           None \<Rightarrow> Ret (Some (host, []))
         | Some hosts \<Rightarrow>
             if \<not> isIPRequest q then Ret (Some (host, []))
             else run_bind (Hosts_Search rounds hosts host (q_Qtype q \<noteq> TypeA \<and> q_Qtype q \<noteq> TypeAAAA)) (\<lambda>(record, ok). Ret
               (if ok then None
                else case record of
                  None \<Rightarrow> Some (host, [])
                | Some v \<Rightarrow> if hv_IsDomain v then Some (TrimRightDots (hv_Domain v), [RR_CNAME (rr_hdr q TypeCNAME 10) (hv_Domain v @ ''.'')])
                           else Some (host, []))))"

text \<open>The handlers behind \<^verbatim>\<open>withHosts\<close>.\<close>

definition inner_handler :: "'s store_if \<Rightarrow> 'r dns_ctx \<Rightarrow> 'r dns_resolver \<Rightarrow> DNSMode \<Rightarrow> int \<Rightarrow> 's handler" where
  "inner_handler ops X resolver mode t =
     compose ((if mode = DNSFakeIP then [withFakeIP ops (dx_lib X)] else []) @ (if mode \<noteq> DNSNormal then [withMapping t] else []))
       (withResolver X resolver t)"

lemma TrimRightDots_dot: "TrimRightDots (d @ ''.'') = TrimRightDots d"
  by (simp add: TrimRightDots_def)

lemma NewHandler_inner:
  "NewHandler ops rounds X resolver mode t =
     (case rv_hosts resolver of None \<Rightarrow> inner_handler ops X resolver mode t
      | Some hosts \<Rightarrow> withHosts (dx_lib X) rounds t hosts (inner_handler ops X resolver mode t))"
  by (cases "rv_hosts resolver") (simp_all add: NewHandler_def inner_handler_def compose_def)

lemma map_sum_Inr: "map_sum id f r = Inr y \<longleftrightarrow> (\<exists>x. r = Inr x \<and> y = f x)"
  by (cases r) auto

text \<open>They see the query with the name the table leads to; the reply gets back the question and the number of the request
  and the alias in front.\<close>

definition with_alias :: "Msg \<Rightarrow> rr list \<Rightarrow> Msg \<Rightarrow> Msg" where
  "with_alias r cn msg = (if cn = [] then msg else msg\<lparr>g_Id := g_Id r, g_Question := g_Question r, g_Answer := cn @ g_Answer msg\<rparr>)"

definition replies :: "Msg \<Rightarrow> rr list \<Rightarrow> ('s dns_state \<times> (msg_error + Msg)) run \<Rightarrow> ('s dns_state \<times> (msg_error + Msg)) run" where
  "replies r cn x = run_bind x (\<lambda>(s, res). Ret (s, map_sum id (with_alias r cn) res))"

lemma replies_Nil: "replies r [] x = x"
proof -
  have "with_alias r [] = id" by (simp add: with_alias_def fun_eq_iff)
  then show ?thesis by (cases x) (auto simp: replies_def sum.map_id0 split: prod.splits)
qed

lemma handler_through_hosts:
  assumes "hosts_target rounds resolver q = Ret (Some (name, cn))" "g_Question r = q # qs"
  shows "\<exists>q'. TrimRightDots (q_Name q') = name \<and> q_Qtype q' = q_Qtype q \<and> q_Qclass q' = q_Qclass q \<and> (cn = [] \<longrightarrow> q' = q) \<and>
    handlerWithContext (NewHandler ops rounds X resolver mode t) r s =
      replies r cn (inner_handler ops X resolver mode t (r\<lparr>g_Question := q' # qs\<rparr>) (s\<lparr>ds_type := []\<rparr>))"
proof -
  let ?host = "TrimRightDots (q_Name q)" and ?h = "inner_handler ops X resolver mode t"
  have r: "r\<lparr>g_Question := q # qs\<rparr> = r" using assms(2) by (cases r) simp
  show ?thesis
  proof (cases "name = ?host \<and> cn = [] \<and> handlerWithContext (NewHandler ops rounds X resolver mode t) r s = ?h r (s\<lparr>ds_type := []\<rparr>)")
    case True
    then show ?thesis using r by (intro exI [of _ q]) (simp add: replies_Nil)
  next
    case False
    with assms obtain hosts v where hosts: "rv_hosts resolver = Some hosts" "isIPRequest q"
      "Hosts_Search rounds hosts ?host (q_Qtype q \<noteq> TypeA \<and> q_Qtype q \<noteq> TypeAAAA) = Ret (Some v, False)" "hv_IsDomain v"
      "name = TrimRightDots (hv_Domain v)" "cn = [RR_CNAME (rr_hdr q TypeCNAME 10) (hv_Domain v @ ''.'')]"
      by (auto simp: hosts_target_def run_bind_Ret handlerWithContext_def NewHandler_inner withHosts_def Let_def
          split: option.splits if_splits)
    let ?q = "q\<lparr>q_Name := hv_Domain v @ ''.''\<rparr>"
    have e: "(\<lambda>res. case res of Inl e \<Rightarrow> Inl e
        | Inr resp \<Rightarrow> Inr (handleCName q (resp\<lparr>g_Id := g_Id r, g_Question := g_Question r\<rparr>) (hv_Domain v))) = map_sum id (with_alias r cn)"
      using hosts(6) by (auto simp: with_alias_def handleCName_def fun_eq_iff split: sum.splits)
    have "handlerWithContext (NewHandler ops rounds X resolver mode t) r s =
      replies r cn (?h (r\<lparr>g_Question := ?q # qs\<rparr>) (s\<lparr>ds_type := []\<rparr>))"
      using hosts(1-4) assms(2)
      by (simp add: handlerWithContext_def NewHandler_inner withHosts_def Let_def replies_def fun_cong [OF e, simplified])
    then show ?thesis using hosts(5,6) by (intro exI [of _ ?q]) (simp add: TrimRightDots_dot)
  qed
qed

text \<open>C1: in fake-IP mode, whatever lookups came before, take a query for the IPv4 address of a host, with or without a hosts
  table. The table may have an alias for the host, which then takes its place; it must not answer the query
  itself, and the filter of the pool must not skip the name. The reply has one address, which lives one second, behind
  the alias if there is one, under the question and the number of the request, and a connection to this address goes on as
  a connection to the name (in lower case).\<close>

theorem dns_fake_ip_connection:
  assumes "New_memory t0 h opts = Some (Inr p0)" "pool_run (mem_ops t1) xs p0 = Some p"
    "hosts_target rounds resolver q = Ret (Some (name, cn))" "g_Question r = q # qs" "q_Qtype q = TypeA"
    "\<not> ShouldSkipped name p" "reply_ok (dx_lib X)"
    "ds_en s = \<lparr>en_mode = DNSFakeIP, en_fakePool = Some p, en_mapping = mapping\<rparr>"
    "ParseAddr (n_text (te_dns E)) [] = None"
  shows "\<exists>s' msg hdr ip. handlerWithContext (NewHandler (mem_ops t') rounds X resolver DNSFakeIP t) r s = Ret (s', Inr msg) \<and>
     g_Id msg = g_Id r \<and> hd (g_Question msg) = q \<and> g_Answer msg = cn @ [RR_A hdr (AsSlice ip)] \<and> h_Ttl hdr = 1 \<and>
     (\<forall>m. \<exists>en'. preHandleMetadata (mem_ops t') now E (Some (ds_en s')) (m\<lparr>m_Host := [], m_DstIP := ip\<rparr>) =
        Ret (Some en', Inr (m\<lparr>m_Host := ToLower name, m_DstIP := AddrZero, m_DNSMode := DNSFakeIP\<rparr>)))"
proof -
  obtain q' where q': "TrimRightDots (q_Name q') = name" "q_Qtype q' = TypeA" "cn = [] \<longrightarrow> q' = q"
    "handlerWithContext (NewHandler (mem_ops t') rounds X resolver DNSFakeIP t) r s =
      replies r cn (inner_handler (mem_ops t') X resolver DNSFakeIP t (r\<lparr>g_Question := q' # qs\<rparr>) (s\<lparr>ds_type := []\<rparr>))"
    using handler_through_hosts [OF assms(3,4)] assms(5) by metis
  obtain p1 ip where l: "Lookup (mem_ops t') name p = Some (p1, ip)"
    by (rule pool_answers [OF assms(1,2)])
  let ?hdr = "(rr_hdr q' TypeA dnsDefaultTTL)\<lparr>h_Ttl := 1\<rparr>"
  let ?en = "\<lparr>en_mode = DNSFakeIP, en_fakePool = Some p1, en_mapping = mapping\<rparr>"
  have "\<exists>s' msg. inner_handler (mem_ops t') X resolver DNSFakeIP t (r\<lparr>g_Question := q' # qs\<rparr>) (s\<lparr>ds_type := []\<rparr>) = Ret (s', Inr msg) \<and>
     g_Id msg = g_Id r \<and> g_Question msg = [q'] \<and> g_Answer msg = [RR_A ?hdr (AsSlice ip)] \<and> ds_en s' = ?en"
    using assms(6-8) q'(1,2) l
    by (simp add: inner_handler_def compose_def withFakeIP_def reply_ok_def Let_def setMsgTTL_def set_ttl_def)
  then have "\<exists>s' msg. handlerWithContext (NewHandler (mem_ops t') rounds X resolver DNSFakeIP t) r s = Ret (s', Inr msg) \<and>
     g_Id msg = g_Id r \<and> hd (g_Question msg) = q \<and> g_Answer msg = cn @ [RR_A ?hdr (AsSlice ip)] \<and> ds_en s' = ?en"
    using q'(3,4) assms(4) by (cases "cn = []") (auto simp: replies_def with_alias_def)
  moreover have "\<exists>en'. preHandleMetadata (mem_ops t') now E (Some ?en) (m\<lparr>m_Host := [], m_DstIP := ip\<rparr>) =
        Ret (Some en', Inr (m\<lparr>m_Host := ToLower name, m_DstIP := AddrZero, m_DNSMode := DNSFakeIP\<rparr>))" for m
    using fake_ip_restores_host [OF assms(1,2) l refl, where m = "m\<lparr>m_Host := [], m_DstIP := ip\<rparr>" and E = E] assms(9) by simp
  moreover have "h_Ttl ?hdr = 1" by simp
  ultimately show ?thesis by metis
qed

section \<open>Aliases\<close>

lemma handleCName_Question [simp]: "g_Question (handleCName q r d) = g_Question r"
  by (simp add: handleCName_def)

text \<open>C35: a query for the alias of a host of the hosts table is answered without the alias: the reply has the answers of
  the request, which has none.\<close>

theorem dns_hosts_cname_lost:
  assumes "rv_hosts resolver = Some hosts" "g_Question r = q # qs" "q_Qtype q = TypeCNAME" "q_Qclass q = ClassINET"
    "Hosts_Search rounds hosts (TrimRightDots (q_Name q)) True = Ret (Some v, True)" "reply_ok (dx_lib X)"
  shows "\<exists>s' msg. handlerWithContext (NewHandler ops rounds X resolver mode t) r s = Ret (s', Inr msg) \<and>
     g_Rcode msg = RcodeSuccess \<and> g_Question msg = [q] \<and> g_Answer msg = g_Answer r"
  using assms
  by (simp add: handlerWithContext_def NewHandler_def compose_def withHosts_def isIPRequest_def reply_ok_def Let_def)

section \<open>The mapping\<close>

text \<open>The last entries of the mapping are those of a reply.\<close>

definition mapped :: "(Addr, string) lru_state \<Rightarrow> string \<Rightarrow> Addr set \<Rightarrow> nat \<Rightarrow> bool" where
  "mapped c host ips n \<longleftrightarrow> (\<exists>old new. lru_rel (fst c) (snd c) (old @ new) \<and> (\<forall>e \<in> set new. e_value e = host) \<and>
     ips \<subseteq> e_key ` set new \<and> length new \<le> n) \<and> staleReturn (fst c) \<and> maxAge (fst c) = 0"

lemma mapped_mono: "mapped c host ips n \<Longrightarrow> n \<le> m \<Longrightarrow> mapped c host ips m"
  unfolding mapped_def by (meson order_trans)

lemma mapped_set:
  assumes "mapped c host ips n" "int n < maxSize (fst c)"
  shows "\<exists>c'. SetWithExpire now ip host x c = Some c' \<and> mapped c' host (insert ip ips) (Suc n) \<and>
     maxSize (fst c') = maxSize (fst c)"
proof -
  obtain old new where L: "lru_rel (fst c) (snd c) (old @ new)" "\<forall>e \<in> set new. e_value e = host"
    "ips \<subseteq> e_key ` set new" "length new \<le> n" and cfg: "staleReturn (fst c)" "maxAge (fst c) = 0"
    using assms(1) by (auto simp: mapped_def)
  let ?e = "\<lparr>e_key = ip, e_value = host, e_expires = x\<rparr>"
  let ?new = "(if find_key ip (old @ new) = None then new else filter (other ip) new) @ [?e]"
  obtain a h where 1: "SetWithExpire now ip host x c = Some (a, h)" "same_cfg (fst c) a"
    "lru_rel a h (spec_set (fst c) now ip host x (old @ new))"
    using SetWithExpire_sim [OF L(1), of now ip host x] by auto
  have "\<exists>old'. spec_set (fst c) now ip host x (old @ new) = old' @ ?new"
  proof (cases "find_key ip (old @ new) = None")
    case True
    have "old = [] \<Longrightarrow> \<not> maxSize (fst c) < int (length (new @ [?e]))" using L(4) assms(2) by simp
    then have "bounded (fst c) ((old @ new) @ [?e]) = (if 0 < maxSize (fst c) \<and> maxSize (fst c) < int (length ((old @ new) @ [?e]))
        then tl old else old) @ new @ [?e]" by (cases old) (auto simp: bounded_def)
    with True cfg show ?thesis by (simp add: spec_set_def purge_def expiring_def Let_def)
  qed (use cfg in \<open>simp add: spec_set_def purge_def expiring_def Let_def del: not_None_eq\<close>)
  then obtain old' where "lru_rel a h (old' @ ?new)" using 1(3) by auto
  moreover have "\<forall>e \<in> set ?new. e_value e = host" using L(2) by auto
  moreover have "insert ip ips \<subseteq> e_key ` set ?new" using L(3) by (auto simp: other_def)
  moreover have "length ?new \<le> Suc n" using le_trans [OF length_filter_le [of "other ip" new] L(4)] L(4) by simp
  ultimately show ?thesis using 1(1,2) cfg same_cfg_eqs [OF 1(2)] unfolding mapped_def by fastforce
qed

lemma mappingLoop_mapped:
  assumes "en_mapping (ds_en s) = Some c" "mapped c host ips n" "int (n + length as) \<le> maxSize (fst c)"
  shows "\<exists>c'. mappingLoop t host as s = Ret (s\<lparr>ds_en := (ds_en s)\<lparr>en_mapping := Some c'\<rparr>\<rparr>) \<and>
     mapped c' host (ips \<union> set (List.map_filter answer_IP as)) (n + length as)"
  using assms
proof (induction as arbitrary: s c ips n)
  case Nil
  then have "s = s\<lparr>ds_en := (ds_en s)\<lparr>en_mapping := Some c\<rparr>\<rparr>" by (cases s; cases "ds_en s") simp
  with Nil show ?case by (intro exI [of _ c]) (simp add: List.map_filter_def)
next
  case (Cons a as)
  show ?case
  proof (cases "answer_IP a")
    case None
    obtain c' where c': "mappingLoop t host as s = Ret (s\<lparr>ds_en := (ds_en s)\<lparr>en_mapping := Some c'\<rparr>\<rparr>)"
      "mapped c' host (ips \<union> set (List.map_filter answer_IP as)) (n + length as)"
      using Cons.IH [OF Cons.prems(1,2)] Cons.prems(3) by auto
    with None mapped_mono [OF c'(2), of "n + length (a # as)"] show ?thesis
      by (intro exI [of _ c']) (simp add: map_filter_simps)
  next
    case (Some ip)
    from mapped_set [OF Cons.prems(2)] Cons.prems(3)
    obtain c1 where c1: "SetWithExpire (Unix t) ip host (Unix (t + second * uint (h_Ttl (Header a)))) c = Some c1"
      "mapped c1 host (insert ip ips) (Suc n)" "maxSize (fst c1) = maxSize (fst c)" by fastforce
    let ?s = "s\<lparr>ds_en := (ds_en s)\<lparr>en_mapping := Some c1\<rparr>\<rparr>"
    have "mapIP t ip host (t + second * uint (h_Ttl (Header a))) s = Ret ?s"
      using Cons.prems(1) c1(1) by (simp add: mapIP_def)
    moreover obtain c2 where "mappingLoop t host as ?s = Ret (?s\<lparr>ds_en := (ds_en ?s)\<lparr>en_mapping := Some c2\<rparr>\<rparr>)"
      "mapped c2 host (insert ip ips \<union> set (List.map_filter answer_IP as)) (Suc n + length as)"
      using Cons.IH [of ?s c1 "insert ip ips" "Suc n"] c1(2,3) Cons.prems(3) by auto
    ultimately show ?thesis using Some by (intro exI [of _ c2]) (simp add: map_filter_simps)
  qed
qed

lemma mapped_Get:
  assumes "mapped c host ips n" "ip \<in> ips"
  shows "\<exists>c'. lru_Get now ip c = Some (c', Some host)"
proof -
  obtain old new where L: "lru_rel (fst c) (snd c) (old @ new)" "\<forall>e \<in> set new. e_value e = host"
    "ips \<subseteq> e_key ` set new" and cfg: "staleReturn (fst c)" "maxAge (fst c) = 0"
    using assms(1) by (auto simp: mapped_def)
  then obtain e where e: "e \<in> set new" "e_key e = ip" using assms(2) by auto
  then have "find_key ip (old @ new) = Some e"
    using find_key_distinct [OF lru_rel_distinct [OF L(1)], of e] by simp
  then have "map_option e_value (snd (spec_get (fst c) now ip (old @ new))) = Some host"
    using cfg L(2) e(1) by (simp add: spec_get_def expiring_def Let_def)
  with lru_Get_sim [OF L(1), of now ip] show ?thesis by auto
qed

text \<open>C36: in mapping mode, take a query for addresses that the server has answered, with or without a hosts table, which
  may have an alias for the host but does not answer the query itself. Every address of the answer is then looked
  up as the name that was resolved, which is the name that was asked for or its alias, if the answer has no more records
  than the mapping has room for (4096).\<close>

theorem dns_mapping_restores_host:
  assumes "handlerWithContext (NewHandler ops rounds X resolver DNSMapping t) r s = Ret (s', Inr msg)"
    "hosts_target rounds resolver q = Ret (Some (name, cn))" "g_Question r = q # qs" "isIPRequest q" "reply_ok (dx_lib X)"
    "ds_en s = \<lparr>en_mode = DNSMapping, en_fakePool = None, en_mapping = Some c\<rparr>" "mapped c anyname {} 0"
    "int (length (g_Answer msg)) \<le> maxSize (fst c)" "ip \<in> set (msgToIP msg)"
  shows "\<exists>en. FindHostByIP ops now ip (ds_en s') = Ret (en, Some name)"
proof -
  have mode: "DNSMapping \<noteq> DNSFakeIP" "DNSMapping \<noteq> DNSNormal" by simp_all
  obtain q' where q': "TrimRightDots (q_Name q') = name" "q_Qtype q' = q_Qtype q" "q_Qclass q' = q_Qclass q"
    "handlerWithContext (NewHandler ops rounds X resolver DNSMapping t) r s =
      replies r cn (inner_handler ops X resolver DNSMapping t (r\<lparr>g_Question := q' # qs\<rparr>) (s\<lparr>ds_type := []\<rparr>))"
    using handler_through_hosts [OF assms(2,3)] by metis
  let ?r = "r\<lparr>g_Question := q' # qs\<rparr>"
  have ipr: "isIPRequest q'" using assms(4) q'(2,3) by (simp add: isIPRequest_def)
  obtain msg1 where in1: "inner_handler ops X resolver DNSMapping t ?r (s\<lparr>ds_type := []\<rparr>) = Ret (s', Inr msg1)"
    "msg = with_alias r cn msg1"
    using assms(1) unfolding q'(4) by (auto simp: replies_def run_bind_Ret map_sum_Inr split: sum.splits)
  have cn: "List.map_filter answer_IP cn = []"
    using assms(2) by (auto simp: hosts_target_def run_bind_Ret map_filter_simps Let_def split: option.splits if_splits)
  have "msgToIP msg = msgToIP msg1" "length (g_Answer msg1) \<le> length (g_Answer msg)"
    using in1(2) cn by (simp_all add: with_alias_def msgToIP_def List.map_filter_def)
  then have ip: "ip \<in> set (msgToIP msg1)" "int (length (g_Answer msg1)) \<le> maxSize (fst c)" using assms(8,9) by simp_all
  obtain s1 res where 1: "withResolver X resolver t ?r (s\<lparr>ds_type := []\<rparr>) = Ret (s1, res)"
    "(case res of Inl e \<Rightarrow> Ret (s1, Inl e)
       | Inr msg \<Rightarrow> run_bind (mappingLoop t name (g_Answer msg) s1) (\<lambda>s. Ret (s, Inr msg))) = Ret (s', Inr msg1)"
    using in1(1) ipr mode q'(1)
    by (auto simp: inner_handler_def compose_def withMapping_def run_bind_Ret)
  then have loop: "mappingLoop t name (g_Answer msg1) s1 = Ret s'"
    by (cases res) (auto simp: run_bind_Ret)
  have en: "ds_en s1 = ds_en s"
    using 1(1) by (auto simp: withResolver_def run_bind_Ret Let_def split: if_splits)
  have "mapped c name {} 0" using assms(7) unfolding mapped_def by fastforce
  then obtain c' where "mappingLoop t name (g_Answer msg1) s1 =
      Ret (s1\<lparr>ds_en := (ds_en s1)\<lparr>en_mapping := Some c'\<rparr>\<rparr>)" "mapped c' name (set (msgToIP msg1)) (length (g_Answer msg1))"
    using mappingLoop_mapped [of s1 c name "{}" 0 "g_Answer msg1" t] en assms(6) ip(2) by (auto simp: msgToIP_def)
  moreover from this(2) obtain c2 where "lru_Get now ip c' = Some (c2, Some name)"
    using mapped_Get [OF _ ip(1)] by blast
  ultimately show ?thesis using loop assms(6) en
    by (auto simp: FindHostByIP_def)
qed

section \<open>Examples\<close>

definition demo_state :: "DNSMode \<Rightarrow> 's Pool option \<Rightarrow> (Addr, string) lru_state option \<Rightarrow> 's dns_state" where
  "demo_state mode pool mapping = \<lparr>ds_en = \<lparr>en_mode = mode, en_fakePool = pool, en_mapping = mapping\<rparr>,
     ds_cache = NewLru [WithSize 4096, WithStale True] empty_lru_heap, ds_type = [], ds_background = []\<rparr>"

lemma demo_query_question: "g_Question demo_query = [\<lparr>q_Name = ''x.org.'', q_Qtype = TypeA, q_Qclass = ClassINET\<rparr>]"
  by (simp add: demo_query_def demo_lib_def)

lemma trim_demo: "TrimRightDots ''x.org.'' = ''x.org''" "ToLower ''x.org'' = ''x.org''"
  by code_simp+

theorem dns_fake_ip_connection_witness:
  "\<exists>p0 s' msg hdr ip. New_memory 0 demo_heap demo_options = Some (Inr p0) \<and>
     handlerWithContext (NewHandler (mem_ops 0) 1 demo_ctx (demo_resolver [] []) DNSFakeIP 0) demo_query
       (demo_state DNSFakeIP (Some p0) None) = Ret (s', Inr msg) \<and>
     g_Answer msg = [RR_A hdr (AsSlice ip)] \<and>
     (\<exists>en'. preHandleMetadata (mem_ops 0) 0 example_tunnel (Some (ds_en s')) (example_metadata\<lparr>m_Host := [], m_DstIP := ip\<rparr>) =
        Ret (Some en', Inr (example_metadata\<lparr>m_Host := ''x.org'', m_DstIP := AddrZero, m_DNSMode := DNSFakeIP\<rparr>)))"
proof -
  obtain p0 where p: "New_memory 0 demo_heap demo_options = Some (Inr p0)" using demo_pool by blast
  then have h: "p_host p0 = None"
    by (auto simp: New_memory_def NewPool_def demo_options_def Let_def restoreState_def mem_ops_def split: if_splits)
  have r: "pool_run (mem_ops 0) [] p0 = Some p0" by simp
  have t: "ParseAddr (n_text (te_dns example_tunnel)) [] = None"
    by (simp add: example_tunnel_def example_dns_def demo_text_def)
  have "\<exists>s' msg hdr ip. handlerWithContext (NewHandler (mem_ops 0) 1 demo_ctx (demo_resolver [] []) DNSFakeIP 0) demo_query
       (demo_state DNSFakeIP (Some p0) None) = Ret (s', Inr msg) \<and>
     g_Id msg = g_Id demo_query \<and> hd (g_Question msg) = hd (g_Question demo_query) \<and> g_Answer msg = [] @ [RR_A hdr (AsSlice ip)] \<and> h_Ttl hdr = 1 \<and>
     (\<forall>m. \<exists>en'. preHandleMetadata (mem_ops 0) 0 example_tunnel (Some (ds_en s')) (m\<lparr>m_Host := [], m_DstIP := ip\<rparr>) =
        Ret (Some en', Inr (m\<lparr>m_Host := ToLower (TrimRightDots (q_Name (hd (g_Question demo_query)))), m_DstIP := AddrZero,
          m_DNSMode := DNSFakeIP\<rparr>)))"
    by (rule dns_fake_ip_connection [OF p r, where mapping = None and qs = "[]"])
      (use h t in \<open>simp_all add: hosts_target_def demo_query_question ShouldSkipped_def demo_reply_ok demo_ctx_def demo_resolver_def demo_state_def\<close>)
  with p trim_demo show ?thesis by (simp add: demo_query_question) blast
qed

definition alias_hosts :: "HostValue DomainTrie" where
  "alias_hosts = (case Insert ''y.org'' \<lparr>hv_IsDomain = True, hv_IPs = [], hv_Domain = ''x.org''\<rparr> DomainTrie.New of
     Inr t \<Rightarrow> t | Inl _ \<Rightarrow> DomainTrie.New)"

definition alias_query :: Msg where
  "alias_query = l_SetQuestion demo_lib zero_Msg ''y.org.'' TypeCNAME"

lemma demo_ctx_reply: "reply_ok (dx_lib demo_ctx)"
  by (simp add: demo_ctx_def demo_reply_ok)

lemma alias_query_question: "g_Question alias_query = [\<lparr>q_Name = ''y.org.'', q_Qtype = TypeCNAME, q_Qclass = ClassINET\<rparr>]"
  by (simp add: alias_query_def demo_lib_def)

theorem dns_hosts_cname_lost_witness:
  "\<exists>s' msg. handlerWithContext (NewHandler (mem_ops 0) 2 demo_ctx ((demo_resolver [] [])\<lparr>rv_hosts := Some alias_hosts\<rparr>) DNSNormal 0)
       alias_query (demo_state DNSNormal None None) = Ret (s', Inr msg) \<and>
     g_Rcode msg = RcodeSuccess \<and> g_Question msg = [hd (g_Question alias_query)] \<and> g_Answer msg = g_Answer alias_query"
proof -
  have "Hosts_Search 2 alias_hosts (TrimRightDots (q_Name (hd (g_Question alias_query)))) True =
      Ret (Some \<lparr>hv_IsDomain = True, hv_IPs = [], hv_Domain = ''x.org''\<rparr>, True)"
    by code_simp
  then show ?thesis
    by (intro dns_hosts_cname_lost [where qs = "[]"])
      (simp_all add: demo_ctx_reply alias_query_question)
qed

lemma new_mapping: "mapped (NewLru [WithSize 4096, WithStale True] h) host {} 0"
  "maxSize (fst (NewLru [WithSize 4096, WithStale True] (h :: (Addr, string) lru_heap))) = 4096"
proof -
  obtain c h' where c: "NewLru [WithSize 4096, WithStale True] h = (c, h')" "lru_rel c h' []"
    using NewLru_sim [of "[WithSize 4096, WithStale True]" h] by (auto simp: WithSize_def WithStale_def)
  moreover from c(1) have "staleReturn c \<and> maxAge c = 0"
    by (auto simp: NewLru_def WithSize_def WithStale_def split: prod.splits)
  ultimately show "mapped (NewLru [WithSize 4096, WithStale True] h) host {} 0"
    by (auto simp: mapped_def)
  show "maxSize (fst (NewLru [WithSize 4096, WithStale True] (h :: (Addr, string) lru_heap))) = 4096"
    by (auto simp: NewLru_def WithSize_def WithStale_def split: prod.splits)
qed

lemma demo_exchange:
  "\<exists>c. ExchangeContext demo_ctx (demo_resolver [demo_client 1] []) 0 demo_query (NewLru [WithSize 4096, WithStale True] empty_lru_heap) =
     Ret (c, demo_client 1 demo_query, False)"
proof -
  let ?c = "NewLru [WithSize 4096, WithStale True] empty_lru_heap :: dns_cache"
  let ?m = "demo_query\<lparr>g_Answer := [demo_rr 1 60]\<rparr>"
  obtain a h where a: "?c = (a, h)" "lru_rel a h []"
    using NewLru_sim [of "[WithSize 4096, WithStale True]" empty_lru_heap] by (auto simp: WithSize_def WithStale_def)
  obtain c2 L where g: "GetWithExpire (Unix 0) ''x.org.'' ?c = Some (c2, None)" "lru_rel (fst c2) (snd c2) L"
    using GetWithExpire_sim [OF a(2), of "Unix 0" "''x.org.''"] a(1) by (fastforce simp: spec_get_def find_key_def)
  then obtain c1 where "SetWithExpire (Unix 0) ''x.org.'' ?m (Unix (0 + second * uint (60 :: 32 word))) c2 = Some c1"
    using SetWithExpire_sim [OF g(2)] by (metis prod.collapse)
  moreover have "exchangeOnce demo_ctx (demo_resolver [demo_client 1] []) demo_query (hd (g_Question demo_query)) = Ret (Inr ?m)"
    by code_simp
  ultimately show ?thesis using g(1)
    by (auto simp: ExchangeContext_def exchangeWithoutCache_def fetch_def putMsgToCache_def acme_challenge_def msg_Ttl_def
        demo_query_def demo_lib_def demo_ctx_def demo_client_def demo_rr_def)
qed

theorem dns_mapping_restores_host_witness:
  "\<exists>s' msg en. handlerWithContext (NewHandler (mem_ops 0) 1 demo_ctx (demo_resolver [demo_client 1] []) DNSMapping 0) demo_query
       (demo_state DNSMapping None (Some (NewLru [WithSize 4096, WithStale True] empty_lru_heap))) = Ret (s', Inr msg) \<and>
     FindHostByIP (mem_ops 0) 0 (V4 1) (ds_en s') = Ret (en, Some ''x.org'')"
proof -
  let ?map = "NewLru [WithSize 4096, WithStale True] empty_lru_heap :: (Addr, string) lru_state"
  let ?s = "demo_state DNSMapping None (Some ?map) :: mem_state dns_state"
  obtain c where c: "ExchangeContext demo_ctx (demo_resolver [demo_client 1] []) 0 demo_query (ds_cache ?s) =
     Ret (c, Inr (demo_query\<lparr>g_Answer := [demo_rr 1 60]\<rparr>), False)"
    using demo_exchange by (auto simp: demo_client_def demo_state_def)
  let ?s1 = "(?s\<lparr>ds_type := ''raw''\<rparr>)\<lparr>ds_cache := c, ds_background := []\<rparr>"
  have mp: "en_mapping (ds_en ?s1) = Some ?map" by (simp add: demo_state_def)
  have n: "int (0 + length [demo_rr 1 60]) \<le> maxSize (fst ?map)" by (simp add: new_mapping(2))
  obtain c' where "mappingLoop 0 ''x.org'' [demo_rr 1 60] ?s1 = Ret (?s1\<lparr>ds_en := (ds_en ?s1)\<lparr>en_mapping := Some c'\<rparr>\<rparr>)"
    using mappingLoop_mapped [OF mp new_mapping(1) n] by blast
  then obtain s' msg where h: "handlerWithContext (NewHandler (mem_ops 0) 1 demo_ctx (demo_resolver [demo_client 1] []) DNSMapping 0) demo_query
       ?s = Ret (s', Inr msg)" "msg = demo_query\<lparr>g_Answer := [demo_rr 1 60], g_Authoritative := True\<rparr>"
    using c demo_query_question trim_demo
    by (auto simp: handlerWithContext_def NewHandler_def compose_def withMapping_def withResolver_def demo_resolver_def
        isIPRequest_def demo_state_def demo_ctx_def demo_lib_def Let_def zero_Msg_def demo_query_def)
  have ip: "V4 1 \<in> set (msgToIP (demo_query\<lparr>g_Answer := [demo_rr 1 60], g_Authoritative := True\<rparr>))" by code_simp
  have "\<exists>en. FindHostByIP (mem_ops 0) 0 (V4 1) (ds_en s') = Ret (en, Some (TrimRightDots (q_Name (hd (g_Question demo_query)))))"
    by (rule dns_mapping_restores_host [OF h(1), where qs = "[]" and q = "hd (g_Question demo_query)" and c = ?map and cn = "[]"])
      (use ip h(2) new_mapping in \<open>simp_all add: hosts_target_def demo_query_question demo_reply_ok demo_ctx_def demo_resolver_def demo_state_def
         isIPRequest_def\<close>)
  with h(1) trim_demo show ?thesis by (auto simp: demo_query_question)
qed

end
