(* ===== verification/UdpSession.thy ===== *)
theory UdpSession imports Main begin

text \<open>
  The UDP packets of one client address in \<^verbatim>\<open>handleUDPConn\<close> of \<^verbatim>\<open>tunnel/tunnel.go\<close>, with the table of
  \<^verbatim>\<open>component/nat/table.go\<close>: the first packet dials and the others wait for it.

  Every packet is a process with a program counter; a step is one operation of one process on the shared table or
  on a condition variable, in any order. Of the table the two entries of one client are kept: \<open>session\<close> (under
  the key) and \<open>lockEntry\<close> (under the key with \<^verbatim>\<open>-lock\<close>), which holds the number of its condition variable. A
  packet that was handled is \<open>Done\<close>; \<open>sent\<close> lists those that were written to the remote side.
\<close>

section \<open>The steps\<close>

datatype pc = Absent | Fresh | Missed | Loaded nat | Waiting nat | Woken | Dialing nat | Dialed nat
  | Unlocking nat | Broadcasting nat | Done

record udp_state =
  session :: bool
  lockEntry :: "nat option"
  nextCond :: nat
  pcs :: "nat \<Rightarrow> pc"
  sent :: "nat list"

text \<open>Which step a packet is at is bookkeeping of the model, not a field of the code.\<close>

definition goto :: "nat \<Rightarrow> pc \<Rightarrow> udp_state \<Rightarrow> udp_state" where
  "goto g p s = s\<lparr>pcs := (pcs s)(g := p)\<rparr>"

text \<open>\<^verbatim>\<open>handle\<close>: look the session up and write the packet to it.\<close>

definition handle :: "nat \<Rightarrow> udp_state \<Rightarrow> udp_state" where
  "handle g s = (if session s then s\<lparr>sent := sent s @ [g]\<rparr> else s)"

definition wake :: "nat \<Rightarrow> udp_state \<Rightarrow> udp_state" where
  "wake c s = s\<lparr>pcs := (\<lambda>h. if pcs s h = Waiting c then Woken else pcs s h)\<rparr>"

inductive udp_step :: "udp_state \<Rightarrow> udp_state \<Rightarrow> bool" where
  arrive: "pcs s g = Absent \<Longrightarrow> udp_step s (goto g Fresh s)"
| hit: "pcs s g = Fresh \<Longrightarrow> session s \<Longrightarrow> udp_step s (goto g Done (handle g s))"
| miss: "pcs s g = Fresh \<Longrightarrow> \<not> session s \<Longrightarrow> udp_step s (goto g Missed s)"
| lock_new: "pcs s g = Missed \<Longrightarrow> lockEntry s = None \<Longrightarrow>
    udp_step s (goto g (Dialing (nextCond s)) (s\<lparr>lockEntry := Some (nextCond s), nextCond := nextCond s + 1\<rparr>))"
| lock_loaded: "pcs s g = Missed \<Longrightarrow> lockEntry s = Some c \<Longrightarrow> udp_step s (goto g (Loaded c) s)"
| wait: "pcs s g = Loaded c \<Longrightarrow> udp_step s (goto g (Waiting c) s)"
| woken: "pcs s g = Woken \<Longrightarrow> udp_step s (goto g Done (handle g s))"
| dial_fails: "pcs s g = Dialing c \<Longrightarrow> udp_step s (goto g (Unlocking c) s)"
| dial_ok: "pcs s g = Dialing c \<Longrightarrow> udp_step s (goto g (Dialed c) (s\<lparr>session := True\<rparr>))"
| dialed: "pcs s g = Dialed c \<Longrightarrow> udp_step s (goto g (Unlocking c) (handle g s))"
| unlock: "pcs s g = Unlocking c \<Longrightarrow> udp_step s (goto g (Broadcasting c) (s\<lparr>lockEntry := None\<rparr>))"
| broadcast: "pcs s g = Broadcasting c \<Longrightarrow> udp_step s (goto g Done (wake c s))"
| close: "session s \<Longrightarrow> udp_step s (s\<lparr>session := False\<rparr>)"

definition udp_init :: udp_state where
  "udp_init = \<lparr>session = False, lockEntry = None, nextCond = 0, pcs = (\<lambda>_. Absent), sent = []\<rparr>"

abbreviation udp_steps :: "udp_state \<Rightarrow> udp_state \<Rightarrow> bool" where
  "udp_steps \<equiv> udp_step\<^sup>*\<^sup>*"

inductive_cases udp_stepE: "udp_step s s'"

section \<open>One dial at a time\<close>

fun holds :: "pc \<Rightarrow> nat option" where
  "holds (Dialing c) = Some c"
| "holds (Dialed c) = Some c"
| "holds (Unlocking c) = Some c"
| "holds _ = None"

fun cond_of :: "pc \<Rightarrow> nat option" where
  "cond_of (Loaded c) = Some c"
| "cond_of (Waiting c) = Some c"
| "cond_of (Broadcasting c) = Some c"
| "cond_of p = holds p"

definition lock_held :: "udp_state \<Rightarrow> bool" where
  "lock_held s \<longleftrightarrow> (\<forall>g. holds (pcs s g) \<noteq> None \<longrightarrow> lockEntry s = holds (pcs s g))"

definition one_holder :: "udp_state \<Rightarrow> bool" where
  "one_holder s \<longleftrightarrow> (\<forall>g h. holds (pcs s g) \<noteq> None \<longrightarrow> holds (pcs s h) \<noteq> None \<longrightarrow> g = h)"

definition conds_old :: "udp_state \<Rightarrow> bool" where
  "conds_old s \<longleftrightarrow> (\<forall>g c. cond_of (pcs s g) = Some c \<longrightarrow> c < nextCond s) \<and> (\<forall>c. lockEntry s = Some c \<longrightarrow> c < nextCond s)"

lemma state_simps [simp]:
  "pcs (goto g p s) = (pcs s)(g := p)" "session (goto g p s) = session s" "lockEntry (goto g p s) = lockEntry s"
  "nextCond (goto g p s) = nextCond s" "sent (goto g p s) = sent s"
  "pcs (handle g s) = pcs s" "session (handle g s) = session s" "lockEntry (handle g s) = lockEntry s"
  "nextCond (handle g s) = nextCond s"
  "pcs (wake c s) h = (if pcs s h = Waiting c then Woken else pcs s h)" "session (wake c s) = session s"
  "lockEntry (wake c s) = lockEntry s" "nextCond (wake c s) = nextCond s"
  by (simp_all add: goto_def handle_def wake_def)

lemma holds_cond: "holds p = Some c \<Longrightarrow> cond_of p = Some c"
  by (cases p) simp_all

text \<open>A step of a process that holds the lock neither before nor after, or that keeps it.\<close>

lemma keep_holder:
  assumes "lock_held s \<and> one_holder s" "holds (pcs s g) = holds p" "pcs s' = (pcs s)(g := p)" "lockEntry s' = lockEntry s"
  shows "lock_held s' \<and> one_holder s'"
proof -
  have "holds (pcs s' h) = holds (pcs s h)" for h using assms(2,3) by simp
  with assms(1,4) show ?thesis by (simp add: lock_held_def one_holder_def)
qed

lemma lock_held_step: "udp_step s s' \<Longrightarrow> lock_held s \<and> one_holder s \<Longrightarrow> lock_held s' \<and> one_holder s'"
proof (induction rule: udp_step.induct)
  case (lock_new s g)
  then have "holds (pcs s h) = None" for h by (auto simp: lock_held_def)
  then show ?case by (simp add: lock_held_def one_holder_def)
next
  case (unlock s g c)
  then have "holds (pcs s h) = None" if "h \<noteq> g" for h using that by (force simp: one_holder_def)
  then show ?case by (simp add: lock_held_def one_holder_def)
next
  case (broadcast s g c)
  have "holds (pcs (goto g Done (wake c s)) h) = holds (pcs s h)" for h
    using broadcast by (cases "pcs s h") auto
  then show ?case using broadcast by (simp add: lock_held_def one_holder_def del: state_simps) (simp add: goto_def wake_def)
next
  case (close s)
  then show ?case by (simp add: lock_held_def one_holder_def)
next
  case (dial_fails s g c)
  then show ?case using keep_holder [of s g "Unlocking c" "goto g (Unlocking c) s"] by simp
next
  case (dial_ok s g c)
  then show ?case using keep_holder [of s g "Dialed c" "goto g (Dialed c) (s\<lparr>session := True\<rparr>)"] by simp
next
  case (dialed s g c)
  then show ?case using keep_holder [of s g "Unlocking c" "goto g (Unlocking c) (handle g s)"] by simp
qed (simp_all add: lock_held_def one_holder_def)

lemma lock_held_reach: "udp_steps udp_init s \<Longrightarrow> lock_held s \<and> one_holder s"
proof (induction rule: rtranclp_induct)
  case base
  show ?case by (simp add: udp_init_def lock_held_def one_holder_def)
next
  case (step s s')
  with lock_held_step show ?case by blast
qed

text \<open>C31: however the packets of a client are interleaved, at most one of them dials, or still has to remove the lock
  entry, at any time.\<close>

theorem udp_single_dial:
  assumes "udp_steps udp_init s" "holds (pcs s g) \<noteq> None" "holds (pcs s h) \<noteq> None"
  shows "g = h \<and> lockEntry s = holds (pcs s g)"
  using lock_held_reach [OF assms(1)] assms(2,3) by (auto simp: lock_held_def one_holder_def)

section \<open>A wake-up that is lost\<close>

lemma conds_oldD: "conds_old s \<Longrightarrow> pcs s g = p \<Longrightarrow> cond_of p = Some c \<Longrightarrow> c < nextCond s"
  by (auto simp: conds_old_def)

lemma conds_old_step:
  assumes "udp_step s s'" "conds_old s"
  shows "conds_old s'"
  using assms(1)
  by (cases rule: udp_step.cases)
     (use assms(2) in \<open>auto simp: conds_old_def less_SucI split: if_splits dest: conds_oldD [OF assms(2)]\<close>)

lemma conds_old_reach: "udp_steps udp_init s \<Longrightarrow> conds_old s"
proof (induction rule: rtranclp_induct)
  case base
  show ?case by (simp add: udp_init_def conds_old_def)
next
  case (step s s')
  with conds_old_step show ?case by blast
qed

text \<open>A packet waits for a condition that no process will ever signal.\<close>

definition orphan :: "nat \<Rightarrow> nat \<Rightarrow> udp_state \<Rightarrow> bool" where
  "orphan g c s \<longleftrightarrow> pcs s g = Waiting c \<and> lockEntry s \<noteq> Some c \<and> c < nextCond s \<and>
     (\<forall>h. holds (pcs s h) \<noteq> Some c \<and> pcs s h \<noteq> Broadcasting c)"

lemma orphanD: "orphan g c s \<Longrightarrow> pcs s h = p \<Longrightarrow> holds p \<noteq> Some c \<and> p \<noteq> Broadcasting c"
  by (auto simp: orphan_def)

lemma orphan_step:
  assumes "udp_step s s'" "orphan g c s"
  shows "orphan g c s'"
  using assms(1)
  by (cases rule: udp_step.cases)
     (use assms(2) in \<open>auto simp: orphan_def split: if_splits dest: orphanD [OF assms(2)]\<close>)

text \<open>C32: a packet that took the condition variable from the table and starts to wait after the dialling packet has
  signalled it is never woken: it stays where it is whatever else happens.\<close>

theorem udp_waiter_lost:
  assumes "udp_steps udp_init s" "pcs s g = Waiting c" "lockEntry s \<noteq> Some c" "\<forall>h. pcs s h \<noteq> Broadcasting c"
    "udp_steps s s'"
  shows "pcs s' g = Waiting c"
proof -
  have "orphan g c s"
    using assms(2-4) lock_held_reach [OF assms(1)] conds_old_reach [OF assms(1)]
    by (auto simp: orphan_def lock_held_def dest: conds_oldD)
  with assms(5) have "orphan g c s'" by (induction rule: rtranclp_induct) (auto intro: orphan_step)
  then show ?thesis by (simp add: orphan_def)
qed

section \<open>Runs\<close>

text \<open>Two packets: the first dials, the second takes the condition variable while it does, and waits only after the
  first has removed the lock and signalled.\<close>

definition late_s1 :: udp_state where "late_s1 = goto 0 Fresh udp_init"
definition late_s2 :: udp_state where "late_s2 = goto 1 Fresh late_s1"
definition late_s3 :: udp_state where "late_s3 = goto 0 Missed late_s2"
definition late_s4 :: udp_state where "late_s4 = goto 1 Missed late_s3"
definition late_s5 :: udp_state where "late_s5 = goto 0 (Dialing (nextCond late_s4)) (late_s4\<lparr>lockEntry := Some (nextCond late_s4), nextCond := nextCond late_s4 + 1\<rparr>)"
definition late_s6 :: udp_state where "late_s6 = goto 1 (Loaded 0) late_s5"
definition late_s7 :: udp_state where "late_s7 = goto 0 (Unlocking 0) late_s6"
definition late_s8 :: udp_state where "late_s8 = goto 0 (Broadcasting 0) (late_s7\<lparr>lockEntry := None\<rparr>)"
definition late_s9 :: udp_state where "late_s9 = goto 0 Done (wake 0 late_s8)"
definition late_s10 :: udp_state where "late_s10 = goto 1 (Waiting 0) late_s9"

lemmas late_pcs = udp_init_def late_s1_def late_s2_def late_s3_def late_s4_def late_s5_def late_s6_def late_s7_def late_s8_def late_s9_def late_s10_def

lemma late_run: "udp_steps udp_init late_s6" "udp_steps udp_init late_s10"
proof -
  have m1: "udp_step udp_init late_s1" unfolding late_s1_def by (rule udp_step.arrive) (simp_all add: late_pcs)
  have m2: "udp_step late_s1 late_s2" unfolding late_s2_def by (rule udp_step.arrive) (simp_all add: late_pcs)
  have m3: "udp_step late_s2 late_s3" unfolding late_s3_def by (rule udp_step.miss) (simp_all add: late_pcs)
  have m4: "udp_step late_s3 late_s4" unfolding late_s4_def by (rule udp_step.miss) (simp_all add: late_pcs)
  have m5: "udp_step late_s4 late_s5" unfolding late_s5_def by (rule udp_step.lock_new) (simp_all add: late_pcs)
  have m6: "udp_step late_s5 late_s6" unfolding late_s6_def by (rule udp_step.lock_loaded [where c = 0]) (simp_all add: late_pcs)
  have m7: "udp_step late_s6 late_s7" unfolding late_s7_def by (rule udp_step.dial_fails [where c = 0]) (simp_all add: late_pcs)
  have m8: "udp_step late_s7 late_s8" unfolding late_s8_def by (rule udp_step.unlock [where c = 0]) (simp_all add: late_pcs)
  have m9: "udp_step late_s8 late_s9" unfolding late_s9_def by (rule udp_step.broadcast [where c = 0]) (simp_all add: late_pcs)
  have m10: "udp_step late_s9 late_s10" unfolding late_s10_def by (rule udp_step.wait [where c = 0]) (simp_all add: late_pcs)
  have a1: "udp_steps udp_init late_s1" using m1 by (rule r_into_rtranclp)
  have a2: "udp_steps udp_init late_s2" using a1 m2 by (rule rtranclp.rtrancl_into_rtrancl)
  have a3: "udp_steps udp_init late_s3" using a2 m3 by (rule rtranclp.rtrancl_into_rtrancl)
  have a4: "udp_steps udp_init late_s4" using a3 m4 by (rule rtranclp.rtrancl_into_rtrancl)
  have a5: "udp_steps udp_init late_s5" using a4 m5 by (rule rtranclp.rtrancl_into_rtrancl)
  have a6: "udp_steps udp_init late_s6" using a5 m6 by (rule rtranclp.rtrancl_into_rtrancl)
  have a7: "udp_steps udp_init late_s7" using a6 m7 by (rule rtranclp.rtrancl_into_rtrancl)
  have a8: "udp_steps udp_init late_s8" using a7 m8 by (rule rtranclp.rtrancl_into_rtrancl)
  have a9: "udp_steps udp_init late_s9" using a8 m9 by (rule rtranclp.rtrancl_into_rtrancl)
  have a10: "udp_steps udp_init late_s10" using a9 m10 by (rule rtranclp.rtrancl_into_rtrancl)
  show "udp_steps udp_init late_s6" "udp_steps udp_init late_s10" by (rule a6, rule a10)
qed

lemma udp_waiter_lost_witness:
  "pcs late_s10 1 = Waiting 0 \<and> udp_steps udp_init late_s10 \<and> pcs (goto 2 Fresh late_s10) 1 = Waiting 0"
proof -
  have w: "pcs late_s10 1 = Waiting 0" "lockEntry late_s10 \<noteq> Some 0" by (simp_all add: late_pcs)
  have b: "\<forall>h. pcs late_s10 h \<noteq> Broadcasting 0" by (simp add: late_pcs)
  have "udp_steps late_s10 (goto 2 Fresh late_s10)"
    by (rule r_into_rtranclp, rule udp_step.arrive) (simp add: late_pcs)
  from udp_waiter_lost [OF late_run(2) w b this] w(1) late_run(2) show ?thesis by simp
qed

lemma udp_single_dial_witness: "lockEntry late_s6 = Some 0"
  using udp_single_dial [OF late_run(1), of 0 0] by (simp add: late_pcs)

end
