(* ===== verification/GoIO.thy ===== *)
theory GoIO imports CacheFile begin

text \<open>
  Reading from and writing to a connection: \<^verbatim>\<open>io.ReadFull\<close>, \<^verbatim>\<open>ReadByte\<close>, \<^verbatim>\<open>binary.Read\<close> and \<^verbatim>\<open>Write\<close> on a stream of
  bytes, and what it means that a reader takes back what a writer has written.

  A connection is the bytes that are still to be read, the bytes written so far and the number of writes that still
  succeed. An action gives the connection back with an error or a value; it is \<open>None\<close> when it panics.
\<close>

section \<open>Actions\<close>

datatype io_error = EOF | WriteFailed | ErrMsg string

record conn =
  c_in :: bytes
  c_out :: bytes
  c_writes :: nat

type_synonym 'a io = "conn \<Rightarrow> (conn \<times> (io_error + 'a)) option"

definition io_ret :: "'a \<Rightarrow> 'a io" where
  "io_ret a c = Some (c, Inr a)"

definition io_fail :: "io_error \<Rightarrow> 'a io" where
  "io_fail e c = Some (c, Inl e)"

definition io_panic :: "'a io" where
  "io_panic c = None"

definition io_bind :: "'a io \<Rightarrow> ('a \<Rightarrow> 'b io) \<Rightarrow> 'b io" where
  "io_bind m f c =
     (case m c of
        None \<Rightarrow> None
      | Some (c, Inl e) \<Rightarrow> Some (c, Inl e)
      | Some (c, Inr a) \<Rightarrow> f a c)"

text \<open>An action whose error is not looked at.\<close>

definition io_ignore :: "unit io \<Rightarrow> unit io" where
  "io_ignore m c = map_option (\<lambda>(c, _). (c, Inr ())) (m c)"

definition io_then :: "unit io \<Rightarrow> 'b io \<Rightarrow> 'b io" where
  "io_then m k = io_bind m (\<lambda>_. k)"

text \<open>\<^verbatim>\<open>io.ReadFull\<close> of \<open>n\<close> bytes: on a stream that ends before, what there is is gone.\<close>

definition ReadFull :: "nat \<Rightarrow> bytes io" where
  "ReadFull n c =
     (if n \<le> length (c_in c) then Some (c\<lparr>c_in := drop n (c_in c)\<rparr>, Inr (take n (c_in c)))
      else Some (c\<lparr>c_in := []\<rparr>, Inl EOF))"

definition ReadByte :: "8 word io" where
  "ReadByte = io_bind (ReadFull 1) (\<lambda>bs. io_ret (hd bs))"

definition io_Write :: "bytes \<Rightarrow> unit io" where
  "io_Write bs c =
     (case c_writes c of
        0 \<Rightarrow> Some (c, Inl WriteFailed)
      | Suc k \<Rightarrow> Some (c\<lparr>c_out := c_out c @ bs, c_writes := k\<rparr>, Inr ()))"

text \<open>\<^verbatim>\<open>binary.BigEndian\<close>.\<close>

definition u16_bytes :: "16 word \<Rightarrow> bytes" where "u16_bytes w = bytes_of 2 w"
definition u32_bytes :: "32 word \<Rightarrow> bytes" where "u32_bytes w = bytes_of 4 w"

definition Uint16 :: "bytes \<Rightarrow> 16 word" where "Uint16 bs = word_of_bytes (take 2 bs)"
definition Uint32 :: "bytes \<Rightarrow> 32 word" where "Uint32 bs = word_of_bytes (take 4 bs)"

definition ReadU16 :: "16 word io" where "ReadU16 = io_bind (ReadFull 2) (\<lambda>bs. io_ret (Uint16 bs))"
definition ReadU32 :: "32 word io" where "ReadU32 = io_bind (ReadFull 4) (\<lambda>bs. io_ret (Uint32 bs))"

lemma io_bind_simps [simp]:
  "io_bind (io_ret a) f = f a" "io_bind (io_fail e) f = io_fail e" "io_bind io_panic f = io_panic"
  by (auto simp: io_bind_def io_ret_def io_fail_def io_panic_def fun_eq_iff)

lemma io_bind_assoc: "io_bind (io_bind m f) g = io_bind m (\<lambda>a. io_bind (f a) g)"
  by (auto simp: io_bind_def fun_eq_iff split: option.splits sum.splits)

lemma u_bytes [simp]:
  "length (u16_bytes p) = 2" "length (u32_bytes q) = 4" "Uint16 (u16_bytes p) = p" "Uint32 (u32_bytes q) = q"
  "Uint16 (u16_bytes p @ bs) = p" "Uint32 (u32_bytes q @ bs) = q"
  using word_of_bytes_prefix [of 2 2 p] word_of_bytes_prefix [of 4 4 q]
  by (simp_all add: u16_bytes_def u32_bytes_def Uint16_def Uint32_def bytes_of_def)

section \<open>Readers that take back what was written\<close>

text \<open>\<open>reads m bs a\<close>: with \<open>bs\<close> in front of the stream the action \<open>m\<close> takes exactly \<open>bs\<close> and returns \<open>a\<close>.
  \<open>writes m bs\<close>: while writes succeed \<open>m\<close> appends \<open>bs\<close>, in \<open>k\<close> of them.\<close>

definition reads :: "'a io \<Rightarrow> bytes \<Rightarrow> 'a \<Rightarrow> bool" where
  "reads m bs a \<longleftrightarrow> (\<forall>c rest. c_in c = bs @ rest \<longrightarrow> m c = Some (c\<lparr>c_in := rest\<rparr>, Inr a))"

definition writes :: "unit io \<Rightarrow> nat \<Rightarrow> bytes \<Rightarrow> bool" where
  "writes m k bs \<longleftrightarrow> (\<forall>c. k \<le> c_writes c \<longrightarrow>
     m c = Some (c\<lparr>c_out := c_out c @ bs, c_writes := c_writes c - k\<rparr>, Inr ()))"

named_theorems io_rules \<open>how readers and writers compose\<close>

lemma reads_ret [io_rules]: "reads (io_ret a) [] a"
  by (simp add: reads_def io_ret_def)

lemma reads_full [io_rules]: "length bs = n \<Longrightarrow> reads (ReadFull n) bs bs"
  by (auto simp: reads_def ReadFull_def)

lemma reads_bind: "reads m bs a \<Longrightarrow> reads (f a) bs' b \<Longrightarrow> reads (io_bind m f) (bs @ bs') b"
  by (simp add: reads_def io_bind_def)

lemma reads_bind_last: "reads m bs a \<Longrightarrow> f a = io_ret b \<Longrightarrow> reads (io_bind m f) bs b"
  using reads_bind [of m bs a f "[]" b] by (simp add: reads_ret)

lemma reads_byte [io_rules]: "reads ReadByte [b] b"
  unfolding ReadByte_def by (rule reads_bind_last [OF reads_full]) simp_all

lemma reads_byte_bind: "reads (f b) bs a \<Longrightarrow> reads (io_bind ReadByte f) (b # bs) a"
  using reads_bind [OF reads_byte, of f b bs a] by simp

lemma reads_u16 [io_rules]: "reads ReadU16 (u16_bytes p) p"
  unfolding ReadU16_def by (rule reads_bind_last [OF reads_full]) simp_all

lemma reads_u32 [io_rules]: "reads ReadU32 (u32_bytes p) p"
  unfolding ReadU32_def by (rule reads_bind_last [OF reads_full]) simp_all

lemma writes_ret [io_rules]: "writes (io_ret ()) 0 []"
  by (simp add: writes_def io_ret_def)

lemma writes_Write [io_rules]: "writes (io_Write bs) (Suc 0) bs"
  by (auto simp: writes_def io_Write_def split: nat.splits)

lemma writes_then: "writes m k bs \<Longrightarrow> writes m' k' bs' \<Longrightarrow> writes (io_then m m') (k + k') (bs @ bs')"
  by (auto simp: writes_def io_then_def io_bind_def)

text \<open>\<open>talks m i o k a\<close>: the action takes \<open>i\<close>, writes \<open>o\<close> in \<open>k\<close> writes and returns \<open>a\<close>.\<close>

definition talks :: "'a io \<Rightarrow> bytes \<Rightarrow> bytes \<Rightarrow> nat \<Rightarrow> 'a \<Rightarrow> bool" where
  "talks m i out k a \<longleftrightarrow> (\<forall>c rest. c_in c = i @ rest \<and> k \<le> c_writes c \<longrightarrow>
     m c = Some (c\<lparr>c_in := rest, c_out := c_out c @ out, c_writes := c_writes c - k\<rparr>, Inr a))"

lemma talks_reads: "reads m i a \<Longrightarrow> talks m i [] 0 a"
  by (auto simp: reads_def talks_def)

lemma talks_writes: "writes m k out \<Longrightarrow> talks m [] out k ()"
  by (auto simp: writes_def talks_def)

lemma talks_ret: "talks (io_ret a) [] [] 0 a"
  by (rule talks_reads [OF reads_ret])

lemma talks_bind:
  assumes "talks m i out k a" "talks (f a) i' out' k' b"
  shows "talks (io_bind m f) (i @ i') (out @ out') (k + k') b"
  unfolding talks_def
proof (intro allI impI)
  fix c :: conn and rest assume c: "c_in c = (i @ i') @ rest \<and> k + k' \<le> c_writes c"
  let ?c = "c\<lparr>c_in := i' @ rest, c_out := c_out c @ out, c_writes := c_writes c - k\<rparr>"
  have "m c = Some (?c, Inr a)" using assms(1) c by (simp add: talks_def)
  moreover have "k' \<le> c_writes c - k" using c by linarith
  then have "f a ?c = Some (?c\<lparr>c_in := rest, c_out := c_out ?c @ out', c_writes := c_writes ?c - k'\<rparr>, Inr b)"
    using assms(2) [unfolded talks_def, rule_format, of ?c rest] c by simp
  ultimately show "io_bind m f c = Some (c\<lparr>c_in := rest, c_out := c_out c @ out @ out', c_writes := c_writes c - (k + k')\<rparr>, Inr b)"
    by (simp add: io_bind_def)
qed

lemma talks_read_bind: "reads m i a \<Longrightarrow> talks (f a) i' out k b \<Longrightarrow> talks (io_bind m f) (i @ i') out k b"
  using talks_bind [OF talks_reads, of m i a f i' out k b] by simp

lemma talks_write_then: "talks m i out k b \<Longrightarrow> talks (io_then (io_Write bs) m) i (bs @ out) (Suc k) b"
  using talks_bind [OF talks_writes [OF writes_Write], of "\<lambda>_. m" i out k b bs] by (simp add: io_then_def)

text \<open>A wire format: a writer and a reader of the values of a type.\<close>

locale wire =
  fixes ok :: "'a \<Rightarrow> bool" and enc :: "'a \<Rightarrow> bytes" and cost :: "'a \<Rightarrow> nat" and W :: "'a \<Rightarrow> unit io" and R :: "'a io"
  assumes wire_write: "ok a \<Longrightarrow> writes (W a) (cost a) (enc a)"
    and wire_read: "ok a \<Longrightarrow> reads R (enc a) a"
begin

text \<open>What one side writes the other side reads back, and leaves what follows.\<close>

lemma round_trip:
  assumes "ok a" "cost a \<le> c_writes c" "W a c = Some (c1, r)" "c_in d = drop (length (c_out c)) (c_out c1) @ rest"
  shows "R d = Some (d\<lparr>c_in := rest\<rparr>, Inr a)"
  using wire_write [OF assms(1)] wire_read [OF assms(1)] assms(2-4) by (auto simp: writes_def reads_def)

fun write_all :: "'a list \<Rightarrow> unit io" where
  "write_all [] = io_ret ()"
| "write_all (a # as) = io_then (W a) (write_all as)"

fun read_all :: "nat \<Rightarrow> 'a list io" where
  "read_all 0 = io_ret []"
| "read_all (Suc n) = io_bind R (\<lambda>a. io_bind (read_all n) (\<lambda>as. io_ret (a # as)))"

lemma write_all: "list_all ok as \<Longrightarrow> writes (write_all as) (sum_list (map cost as)) (concat (map enc as))"
  by (induction as) (auto intro: writes_ret writes_then wire_write)

lemma read_all: "list_all ok as \<Longrightarrow> reads (read_all (length as)) (concat (map enc as)) as"
  by (induction as) (auto intro!: reads_ret reads_bind wire_read intro: reads_bind_last)

text \<open>A sequence of values comes through as it was sent.\<close>

lemma stream_round_trip:
  assumes "list_all ok as" "sum_list (map cost as) \<le> c_writes c"
  shows "\<exists>c1. write_all as c = Some (c1, Inr ()) \<and>
     (\<forall>d rest. c_in d = drop (length (c_out c)) (c_out c1) @ rest \<longrightarrow>
        read_all (length as) d = Some (d\<lparr>c_in := rest\<rparr>, Inr as))"
  using write_all [OF assms(1)] read_all [OF assms(1)] assms(2) by (auto simp: writes_def reads_def)

end

end
