(* ===== verification/Socks5.thy ===== *)
theory Socks5 imports GoIO Metadata begin

text \<open>
  The SOCKS5 protocol (\<^verbatim>\<open>transport/socks5/socks5.go\<close>), the users (\<^verbatim>\<open>component/auth\<close>), and the SOCKS address as it goes
  into and comes out of the metadata (\<^verbatim>\<open>adapter/inbound/util.go\<close>, \<^verbatim>\<open>adapter/outbound/util.go\<close>).

  A SOCKS address is its bytes. The text format of IP addresses is a parameter. Where the code slices a buffer the
  slice stays inside the buffer or the definition panics.
\<close>

section \<open>Users (component/auth)\<close>

type_synonym authenticator = "string \<rightharpoonup> string"

text \<open>The last password of a user counts.\<close>

definition NewAuthenticator :: "(string \<times> string) list \<Rightarrow> authenticator option" where
  "NewAuthenticator users =
     (if length users = 0 then None else Some (fold (\<lambda>(user, pass) st. st(user \<mapsto> pass)) users (\<lambda>_. None)))"

definition Verify :: "authenticator \<Rightarrow> string \<Rightarrow> string \<Rightarrow> bool" where
  "Verify au user pass = (case au user of Some realPass \<Rightarrow> realPass = pass | None \<Rightarrow> False)"

section \<open>Addresses\<close>

definition MaxAddrLen :: nat where "MaxAddrLen = 1 + 1 + 255 + 2"
definition MaxAuthLen :: nat where "MaxAuthLen = 255"

abbreviation CmdConnect :: "8 word" where "CmdConnect \<equiv> 1"
abbreviation CmdBind :: "8 word" where "CmdBind \<equiv> 2"
abbreviation CmdUDPAssociate :: "8 word" where "CmdUDPAssociate \<equiv> 3"

abbreviation atypIPv4 :: "8 word" where "atypIPv4 \<equiv> 1"
abbreviation atypDomainName :: "8 word" where "atypDomainName \<equiv> 3"
abbreviation atypIPv6 :: "8 word" where "atypIPv6 \<equiv> 4"

definition ErrAuth :: io_error where "ErrAuth = ErrMsg ''auth failed''"
definition ErrCommandNotSupported :: io_error where "ErrCommandNotSupported = ErrMsg ''SOCKS error: 7''"
definition ErrAddressNotSupported :: io_error where "ErrAddressNotSupported = ErrMsg ''SOCKS error: 8''"

text \<open>\<^verbatim>\<open>b[i:j]\<close>.\<close>

definition slice :: "bytes \<Rightarrow> nat \<Rightarrow> nat \<Rightarrow> bytes option" where
  "slice b i j = (if i \<le> j \<and> j \<le> length b then Some (take (j - i) (drop i b)) else None)"

record socks_text =
  ip_String :: "bytes \<Rightarrow> string"
  ip_Parse :: "string \<Rightarrow> bytes option"

definition socksAddr_String :: "socks_text \<Rightarrow> bytes \<Rightarrow> string option" where
  "socksAddr_String N a =
     (let num = (\<lambda>i. do { hi \<leftarrow> idx a i; lo \<leftarrow> idx a (i + 1); Some (decimal (unat hi * 256 + unat lo)) }) in
      do {
        t \<leftarrow> idx a 0;
        if t = atypDomainName then do {
          l \<leftarrow> idx a 1;
          host \<leftarrow> slice a 2 (2 + unat l);
          port \<leftarrow> num (2 + unat l);
          Some (JoinHostPort (of_bytes host) port)
        } else if t = atypIPv4 then do {
          ip \<leftarrow> slice a 1 5; port \<leftarrow> num 5; Some (JoinHostPort (ip_String N ip) port)
        } else if t = atypIPv6 then do {
          ip \<leftarrow> slice a 1 17; port \<leftarrow> num 17; Some (JoinHostPort (ip_String N ip) port)
        } else Some (JoinHostPort [] []) })"

text \<open>The address and port of a UDP address; nil for a name. A short slice panics.\<close>

definition socksAddr_UDPAddr :: "bytes \<Rightarrow> (bytes \<times> 16 word) option option" where
  "socksAddr_UDPAddr a =
     (if length a = 0 then Some None
      else if hd a = atypIPv4 then do { ip \<leftarrow> slice a 1 5; p \<leftarrow> slice a 5 7; Some (Some (ip, Uint16 p)) }
      else if hd a = atypIPv6 then do { ip \<leftarrow> slice a 1 17; p \<leftarrow> slice a 17 19; Some (Some (ip, Uint16 p)) }
      else Some None)"

definition ReadAddr :: "nat \<Rightarrow> bytes io" where
  "ReadAddr blen =
     (if blen < MaxAddrLen then io_fail (ErrMsg ''short buffer'')
      else io_bind (ReadFull 1) (\<lambda>t.
        if hd t = atypDomainName then
          io_bind (ReadFull 1) (\<lambda>l. io_bind (ReadFull (unat (hd l) + 2)) (\<lambda>r. io_ret (t @ l @ r)))
        else if hd t = atypIPv4 then io_bind (ReadFull (4 + 2)) (\<lambda>r. io_ret (t @ r))
        else if hd t = atypIPv6 then io_bind (ReadFull (16 + 2)) (\<lambda>r. io_ret (t @ r))
        else io_fail ErrAddressNotSupported))"

definition ReadAddr0 :: "bytes io" where
  "ReadAddr0 =
     io_bind ReadByte (\<lambda>aType.
        if aType = atypDomainName then
          io_bind ReadByte (\<lambda>domainLength.
            io_bind (ReadFull (unat domainLength + 2)) (\<lambda>b. io_ret (aType # domainLength # b)))
        else if aType = atypIPv4 then io_bind (ReadFull (4 + 2)) (\<lambda>b. io_ret (aType # b))
        else if aType = atypIPv6 then io_bind (ReadFull (16 + 2)) (\<lambda>b. io_ret (aType # b))
        else io_fail ErrAddressNotSupported)"

definition SplitAddr :: "bytes \<Rightarrow> bytes option" where
  "SplitAddr b =
     (let addrLen = (case b of
          [] \<Rightarrow> None
        | t # r \<Rightarrow>
            if t = atypDomainName then (case r of [] \<Rightarrow> None | l # _ \<Rightarrow> Some (1 + 1 + unat l + 2))
            else if t = atypIPv4 then Some (1 + 4 + 2)
            else if t = atypIPv6 then Some (1 + 16 + 2)
            else None)
      in case addrLen of
           None \<Rightarrow> None
         | Some n \<Rightarrow> if length b < n then None else Some (take n b))"

definition socks_ParseAddr :: "socks_text \<Rightarrow> string \<Rightarrow> bytes option" where
  "socks_ParseAddr N s =
     (case SplitHostPort s of
        None \<Rightarrow> None
      | Some (host, port) \<Rightarrow>
          let addr = (case ip_Parse N host of
                Some ip \<Rightarrow> (case To4 ip of Some ip4 \<Rightarrow> Some (atypIPv4 # ip4) | None \<Rightarrow> Some (atypIPv6 # ip))
              | None \<Rightarrow> if length host > 255 then None
                        else Some (atypDomainName # of_nat (length host) # to_bytes host))
          in case (addr, ParseUint 16 port) of
               (Some a, Some p) \<Rightarrow> Some (a @ u16_bytes (of_nat p))
             | _ \<Rightarrow> None)"

text \<open>The default mask of a 4-byte address exists; \<^verbatim>\<open>hostip\<close> is nil when the address is neither UDP nor TCP.\<close>

definition ParseAddrToSocksAddr :: "socks_text \<Rightarrow> bytes option \<Rightarrow> nat \<Rightarrow> string \<Rightarrow> bytes option" where
  "ParseAddrToSocksAddr N hostip port text =
     (case hostip of
        None \<Rightarrow> socks_ParseAddr N text
      | Some ip \<Rightarrow>
          Some ((case To4 ip of
                   Some ip4 \<Rightarrow> atypIPv4 # ip4
                 | None \<Rightarrow> atypIPv6 # take 16 (ip @ replicate 16 0)) @ u16_bytes (of_nat port)))"

definition AddrFromStdAddrPort :: "Addr \<Rightarrow> 16 word \<Rightarrow> bytes" where
  "AddrFromStdAddrPort addr port =
     (if Is4 addr then atypIPv4 # AsSlice addr @ u16_bytes port
      else atypIPv6 # take 16 (AsSlice addr @ replicate 16 0) @ u16_bytes port)"

section \<open>UDP packets\<close>

definition DecodeUDPPacket :: "bytes \<Rightarrow> io_error + (bytes \<times> bytes)" where
  "DecodeUDPPacket packet =
     (if length packet < 5 then Inl (ErrMsg ''insufficient length of packet'')
      else if take 2 packet \<noteq> [0, 0] then Inl (ErrMsg ''reserved fields should be zero'')
      else if packet ! 2 \<noteq> 0 then Inl (ErrMsg ''discarding fragmented payload'')
      else case SplitAddr (drop 3 packet) of
        None \<Rightarrow> Inl (ErrMsg ''failed to read UDP header'')
      | Some addr \<Rightarrow> Inr (addr, drop (3 + length addr) packet))"

definition EncodeUDPPacket :: "bytes option \<Rightarrow> bytes \<Rightarrow> io_error + bytes" where
  "EncodeUDPPacket addr payload =
     (case addr of
        None \<Rightarrow> Inl (ErrMsg ''address is invalid'')
      | Some addr \<Rightarrow> Inr ([0, 0, 0] @ addr @ payload))"

section \<open>Handshakes\<close>

text \<open>The length of the password is read with \<^verbatim>\<open>rw.Read\<close> into one byte, where the other reads are \<^verbatim>\<open>io.ReadFull\<close>; here it
  is a full read of one byte, so a \<^verbatim>\<open>Read\<close> that returns no byte and no error is not modelled.\<close>

definition serverAuth :: "authenticator \<Rightarrow> unit io" where
  "serverAuth au =
     io_then (io_Write [5, 2]) (io_bind (ReadFull 2) (\<lambda>header.
       let userLen = unat (header ! 1)
       in if userLen \<le> 0 then io_then (io_ignore (io_Write [1, 1])) (io_fail ErrAuth)
          else io_bind (ReadFull userLen) (\<lambda>user. io_bind (ReadFull 1) (\<lambda>header.
            let passLen = unat (header ! 0)
            in if passLen \<le> 0 then io_then (io_ignore (io_Write [1, 1])) (io_fail ErrAuth)
               else io_bind (ReadFull passLen) (\<lambda>pass.
                 if \<not> Verify au (of_bytes user) (of_bytes pass)
                 then io_then (io_ignore (io_Write [1, 1])) (io_fail ErrAuth)
                 else io_Write [1, 0])))))"

text \<open>\<open>localAddr\<close> is what \<^verbatim>\<open>ParseAddr\<close> makes of the local address of the connection.\<close>

definition ServerHandshake :: "authenticator option \<Rightarrow> bytes option \<Rightarrow> (bytes \<times> 8 word) io" where
  "ServerHandshake auth localAddr =
     io_bind (ReadFull 2) (\<lambda>buf. io_bind (ReadFull (unat (buf ! 1))) (\<lambda>_.
       io_then (case auth of Some au \<Rightarrow> serverAuth au | None \<Rightarrow> io_Write [5, 0])
         (io_bind (ReadFull 3) (\<lambda>buf. io_bind (ReadAddr MaxAddrLen) (\<lambda>addr.
           let command = buf ! 1
           in if command = CmdConnect \<or> command = CmdUDPAssociate then
                (case localAddr of
                   None \<Rightarrow> io_fail ErrAddressNotSupported
                 | Some l \<Rightarrow> io_then (io_Write ([5, 0, 0] @ l)) (io_ret (addr, command)))
              else io_fail ErrCommandNotSupported)))))"

definition clientAuth :: "(string \<times> string) option \<Rightarrow> unit io" where
  "clientAuth user =
     (case user of
        None \<Rightarrow> io_fail ErrAuth
      | Some (name, pass) \<Rightarrow>
          io_then (io_Write ([1, of_nat (length name)] @ to_bytes name @ [of_nat (length pass)] @ to_bytes pass))
            (io_bind (ReadFull 2) (\<lambda>buf.
               if buf ! 1 \<noteq> 0 then io_fail (ErrMsg ''rejected username/password'') else io_ret ())))"

definition ClientHandshake :: "bytes \<Rightarrow> 8 word \<Rightarrow> (string \<times> string) option \<Rightarrow> bytes io" where
  "ClientHandshake addr command user =
     io_then (io_Write (if user \<noteq> None then [5, 1, 2] else [5, 1, 0]))
       (io_bind (ReadFull 2) (\<lambda>buf.
          if buf ! 0 \<noteq> 5 then io_fail (ErrMsg ''SOCKS version error'')
          else io_then
            (if buf ! 1 = 2 then clientAuth user
             else if buf ! 1 \<noteq> 0 then io_fail (ErrMsg ''SOCKS need auth'') else io_ret ())
            (io_then (io_Write ([5, command, 0] @ addr))
               (io_bind (ReadFull 3) (\<lambda>_. ReadAddr MaxAddrLen)))))"

section \<open>Well-formed addresses\<close>

definition socks_ok :: "bytes \<Rightarrow> bool" where
  "socks_ok a \<longleftrightarrow> SplitAddr a = Some a"

lemma socks_ok_iff:
  "socks_ok a \<longleftrightarrow> (\<exists>l r. a = atypDomainName # l # r \<and> length r = unat l + 2) \<or>
     (\<exists>r. a = atypIPv4 # r \<and> length r = 6) \<or> (\<exists>r. a = atypIPv6 # r \<and> length r = 18)"
proof (cases a)
  case (Cons t r)
  then show ?thesis by (cases r) (auto simp: socks_ok_def SplitAddr_def Let_def)
qed (simp add: socks_ok_def SplitAddr_def)

lemma SplitAddr_append: "socks_ok a \<Longrightarrow> SplitAddr (a @ rest) = Some a"
  by (auto simp: socks_ok_iff SplitAddr_def)

lemma SplitAddr_ok: "SplitAddr b = Some a \<Longrightarrow> socks_ok a \<and> (\<exists>rest. b = a @ rest)"
proof -
  assume a: "SplitAddr b = Some a"
  then have "a = take (length a) b"
    by (auto simp: SplitAddr_def Let_def split: list.splits if_splits)
  moreover have "socks_ok a"
    using a by (auto simp: socks_ok_iff SplitAddr_def Let_def split: list.splits if_splits)
  ultimately show ?thesis by (metis append_take_drop_id)
qed

lemma reads_ReadAddr: "socks_ok a \<Longrightarrow> reads (ReadAddr MaxAddrLen) a a"
  unfolding socks_ok_iff
  by (elim disjE exE conjE)
    (auto simp: reads_def ReadAddr_def io_bind_def ReadFull_def io_ret_def)

lemma reads_ReadAddr0: "socks_ok a \<Longrightarrow> reads ReadAddr0 a a"
  unfolding socks_ok_iff
  by (elim disjE exE conjE)
    (auto simp: reads_def ReadAddr0_def ReadByte_def io_bind_def ReadFull_def io_ret_def)

interpretation socks: wire socks_ok "\<lambda>a. a" "\<lambda>_. 1" io_Write "ReadAddr MaxAddrLen"
  by unfold_locales (auto intro: writes_Write reads_ReadAddr)

interpretation socks0: wire socks_ok "\<lambda>a. a" "\<lambda>_. 1" io_Write ReadAddr0
  by unfold_locales (auto intro: writes_Write reads_ReadAddr0)

section \<open>Client and server\<close>

definition good_user :: "string \<times> string \<Rightarrow> bool" where
  "good_user u \<longleftrightarrow> 0 < length (fst u) \<and> length (fst u) \<le> 255 \<and> 0 < length (snd u) \<and> length (snd u) \<le> 255"

definition auth_bytes :: "string \<times> string \<Rightarrow> bytes" where
  "auth_bytes u = [1, of_nat (length (fst u))] @ to_bytes (fst u) @ [of_nat (length (snd u))] @ to_bytes (snd u)"

lemma unat_len: "n \<le> 255 \<Longrightarrow> unat (of_nat n :: 8 word) = n"
  by (simp add: unat_of_nat)

lemmas io_run = io_bind_def io_then_def io_ret_def io_fail_def ReadFull_def

text \<open>\<open>w\<close> writes are left when the action starts, so that every one succeeds.\<close>

lemma Write_Suc: "c_writes c = Suc k \<Longrightarrow> io_Write bs c = Some (c\<lparr>c_out := c_out c @ bs, c_writes := k\<rparr>, Inr ())"
  by (simp add: io_Write_def)

lemma talks_serverAuth:
  assumes "good_user u" "Verify au (fst u) (snd u)"
  shows "talks (serverAuth au) (auth_bytes u) ([5, 2] @ [1, 0]) 2 ()"
  unfolding talks_def
proof (intro allI impI)
  fix c :: conn and rest assume c: "c_in c = auth_bytes u @ rest \<and> 2 \<le> c_writes c"
  then obtain k where k: "c_writes c = Suc (Suc k)" by (metis add_2_eq_Suc le_Suc_ex)
  have u: "0 < length (fst u)" "length (fst u) \<le> 255" "0 < length (snd u)" "length (snd u) \<le> 255"
    using assms(1) by (simp_all add: good_user_def)
  show "serverAuth au c = Some (c\<lparr>c_in := rest, c_out := c_out c @ [5, 2] @ [1, 0], c_writes := c_writes c - 2\<rparr>, Inr ())"
    using c k u assms(2)
    by (simp add: serverAuth_def auth_bytes_def io_run Write_Suc unat_len Let_def)
qed

lemma talks_clientAuth:
  assumes "good_user u"
  shows "talks (clientAuth (Some u)) [1, 0] (auth_bytes u) 1 ()"
  unfolding talks_def
proof (intro allI impI)
  fix c :: conn and rest assume c: "c_in c = [1, 0] @ rest \<and> 1 \<le> c_writes c"
  then obtain k where k: "c_writes c = Suc k" by (cases "c_writes c") auto
  show "clientAuth (Some u) c = Some (c\<lparr>c_in := rest, c_out := c_out c @ auth_bytes u, c_writes := c_writes c - 1\<rparr>, Inr ())"
    using c k by (simp add: clientAuth_def auth_bytes_def io_run Write_Suc split: prod.splits)
qed

text \<open>What the two sides say.\<close>

definition client_says :: "authenticator option \<Rightarrow> (string \<times> string) option \<Rightarrow> 8 word \<Rightarrow> bytes \<Rightarrow> bytes" where
  "client_says auth user command addr =
     [5, 1, if user \<noteq> None then 2 else 0] @ (if auth \<noteq> None then auth_bytes (the user) else []) @ [5, command, 0] @ addr"

definition server_says :: "authenticator option \<Rightarrow> bytes \<Rightarrow> bytes" where
  "server_says auth l = (if auth \<noteq> None then [5, 2] @ [1, 0] else [5, 0]) @ [5, 0, 0] @ l"

lemma server_request:
  assumes "socks_ok addr" "command = CmdConnect \<or> command = CmdUDPAssociate"
  shows "talks (io_bind (ReadFull 3) (\<lambda>buf. io_bind (ReadAddr MaxAddrLen) (\<lambda>addr.
           let command = buf ! 1
           in if command = CmdConnect \<or> command = CmdUDPAssociate then
                (case Some l of
                   None \<Rightarrow> io_fail ErrAddressNotSupported
                 | Some l \<Rightarrow> io_then (io_Write ([5, 0, 0] @ l)) (io_ret (addr, command)))
              else io_fail ErrCommandNotSupported)))
     ([5, command, 0] @ addr) ([5, 0, 0] @ l) 1 (addr, command)"
proof -
  have w: "talks (io_then (io_Write ([5, 0, 0] @ l)) (io_ret (addr, command))) [] (([5, 0, 0] @ l) @ []) (Suc 0) (addr, command)"
    by (rule talks_write_then [OF talks_ret])
  have "talks (io_bind (ReadFull 3) (\<lambda>buf. io_bind (ReadAddr MaxAddrLen) (\<lambda>addr.
           let command = buf ! 1
           in if command = CmdConnect \<or> command = CmdUDPAssociate then
                (case Some l of
                   None \<Rightarrow> io_fail ErrAddressNotSupported
                 | Some l \<Rightarrow> io_then (io_Write ([5, 0, 0] @ l)) (io_ret (addr, command)))
              else io_fail ErrCommandNotSupported)))
     ([5, command, 0] @ addr @ []) (([5, 0, 0] @ l) @ []) (Suc 0) (addr, command)"
    by (rule talks_read_bind [OF reads_full], simp, rule talks_read_bind [OF reads_ReadAddr [OF assms(1)]])
      (use w assms(2) in \<open>simp add: Let_def\<close>)
  then show ?thesis by simp
qed

text \<open>C37: a client and the server understand each other: when the server takes the client's name and password, or asks
  for none, then with what the client says before it the server answers, returns the address and the command of the client
  and leaves the rest of the stream, and with this answer before it the client says just that and gets the address of
  the server.\<close>

theorem socks5_handshake:
  assumes "socks_ok addr" "socks_ok l" "command = CmdConnect \<or> command = CmdUDPAssociate"
    "\<And>au. auth = Some au \<Longrightarrow> \<exists>u. user = Some u \<and> good_user u \<and> Verify au (fst u) (snd u)"
  shows "talks (ServerHandshake auth (Some l)) (client_says auth user command addr) (server_says auth l)
      (if auth \<noteq> None then 3 else 2) (addr, command) \<and>
    talks (ClientHandshake addr command user) (server_says auth l) (client_says auth user command addr)
      (if auth \<noteq> None then 3 else 2) l"
proof
  let ?auth = "case auth of Some au \<Rightarrow> serverAuth au | None \<Rightarrow> io_Write [5, 0]"
  have a: "talks ?auth (if auth \<noteq> None then auth_bytes (the user) else [])
      (if auth \<noteq> None then [5, 2] @ [1, 0] else [5, 0]) (if auth \<noteq> None then 2 else 1) ()"
  proof (cases auth)
    case None
    with talks_writes [OF writes_Write, of "[5, 0]"] show ?thesis by simp
  next
    case (Some au)
    then obtain u where "user = Some u" "good_user u" "Verify au (fst u) (snd u)" using assms(4) by blast
    with Some talks_serverAuth [of u au] show ?thesis by simp
  qed
  have "talks (ServerHandshake auth (Some l))
      ([5, 1] @ [if user \<noteq> None then 2 else 0] @ (if auth \<noteq> None then auth_bytes (the user) else []) @ [5, command, 0] @ addr)
      ((if auth \<noteq> None then [5, 2] @ [1, 0] else [5, 0]) @ [5, 0, 0] @ l) ((if auth \<noteq> None then 2 else 1) + 1) (addr, command)"
    unfolding ServerHandshake_def
    by (rule talks_read_bind [OF reads_full], simp, rule talks_read_bind [OF reads_full], simp,
        unfold io_then_def, rule talks_bind [OF a], fold io_then_def, rule server_request [OF assms(1,3)])
  then show "talks (ServerHandshake auth (Some l)) (client_says auth user command addr) (server_says auth l)
      (if auth \<noteq> None then 3 else 2) (addr, command)"
    by (simp add: client_says_def server_says_def numeral_2_eq_2 numeral_3_eq_3 split: if_splits)
next
  let ?m = "if auth \<noteq> None then 2 else 0 :: 8 word"
  let ?auth = "if ?m = 2 then clientAuth user else if ?m \<noteq> 0 then io_fail (ErrMsg ''SOCKS need auth'') else io_ret ()"
  have a: "talks ?auth (if auth \<noteq> None then [1, 0] else []) (if auth \<noteq> None then auth_bytes (the user) else [])
      (if auth \<noteq> None then 1 else 0) ()"
  proof (cases auth)
    case None
    with talks_ret show ?thesis by simp
  next
    case (Some au)
    then obtain u where "user = Some u" "good_user u" using assms(4) by blast
    with Some talks_clientAuth [of u] show ?thesis by simp
  qed
  have r: "talks (io_then (io_Write ([5, command, 0] @ addr)) (io_bind (ReadFull 3) (\<lambda>_. ReadAddr MaxAddrLen)))
      ([5, 0, 0] @ l @ []) (([5, command, 0] @ addr) @ []) (Suc 0) l"
    by (rule talks_write_then, rule talks_read_bind [OF reads_full], simp, simp,
        rule talks_reads [OF reads_ReadAddr [OF assms(2)]])
  have "talks (ClientHandshake addr command user)
      ([5, ?m] @ (if auth \<noteq> None then [1, 0] else []) @ [5, 0, 0] @ l @ [])
      ((if user \<noteq> None then [5, 1, 2] else [5, 1, 0]) @
         (if auth \<noteq> None then auth_bytes (the user) else []) @ ([5, command, 0] @ addr) @ [])
      (Suc ((if auth \<noteq> None then 1 else 0) + Suc 0)) l"
    unfolding ClientHandshake_def
    by (rule talks_write_then, rule talks_read_bind [OF reads_full], simp)
      (use talks_bind [OF a, of "\<lambda>_. io_then (io_Write ([5, command, 0] @ addr)) (io_bind (ReadFull 3) (\<lambda>_. ReadAddr MaxAddrLen))", OF r]
       in \<open>cases auth; simp add: io_then_def\<close>)
  then show "talks (ClientHandshake addr command user) (server_says auth l) (client_says auth user command addr)
      (if auth \<noteq> None then 3 else 2) l"
    by (simp add: client_says_def server_says_def numeral_2_eq_2 numeral_3_eq_3 split: if_splits)
qed

section \<open>UDP packets come back\<close>

text \<open>A UDP packet is taken apart into exactly the address and the payload it was made of, and nothing else is taken for
  a packet: what is decoded is the three zero bytes, a well-formed address and the payload.\<close>

theorem udp_packet_roundtrip:
  "DecodeUDPPacket packet = Inr (addr, payload) \<longleftrightarrow> socks_ok addr \<and> EncodeUDPPacket (Some addr) payload = Inr packet"
proof
  assume d: "DecodeUDPPacket packet = Inr (addr, payload)"
  then have s: "SplitAddr (drop 3 packet) = Some addr" "payload = drop (3 + length addr) packet"
    and z: "take 2 packet = [0, 0]" "packet ! 2 = 0" "5 \<le> length packet"
    by (auto simp: DecodeUDPPacket_def split: if_splits option.splits)
  from SplitAddr_ok [OF s(1)] obtain rest where r: "socks_ok addr" "drop 3 packet = addr @ rest" by blast
  have "take 3 packet = take 2 packet @ [packet ! 2]" using z(3) by (simp add: take_Suc_conv_app_nth numeral_3_eq_3 numeral_2_eq_2)
  then have "packet = [0, 0, 0] @ addr @ rest"
    using append_take_drop_id [of 3 packet] r(2) z by simp
  moreover from this have "drop (3 + length addr) packet = rest" by (simp add: numeral_3_eq_3)
  ultimately show "socks_ok addr \<and> EncodeUDPPacket (Some addr) payload = Inr packet"
    using s(2) r(1) by (simp add: EncodeUDPPacket_def)
next
  assume e: "socks_ok addr \<and> EncodeUDPPacket (Some addr) payload = Inr packet"
  then have p: "packet = [0, 0, 0] @ addr @ payload" by (simp add: EncodeUDPPacket_def)
  have "4 \<le> length addr" using e by (auto simp: socks_ok_iff)
  with e p SplitAddr_append [of addr payload] show "DecodeUDPPacket packet = Inr (addr, payload)"
    by (simp add: DecodeUDPPacket_def numeral_3_eq_3)
qed

section \<open>Addresses and the metadata\<close>

text \<open>\<^verbatim>\<open>parseSocksAddr\<close>. The length of a name is a byte and so are \<open>2 + target[1]\<close> and \<open>2 + target[1] + 1\<close>: they wrap
  around. \<open>None\<close> is a panic.\<close>

definition TrimRightDot :: "string \<Rightarrow> string" where
  "TrimRightDot s = rev (dropWhile (\<lambda>c. c = CHR ''.'') (rev s))"

definition port_text :: "8 word \<Rightarrow> 8 word \<Rightarrow> string" where
  "port_text hi lo = decimal (unat hi * 256 + unat lo)"

definition zero_metadata :: Metadata where
  "zero_metadata = \<lparr>m_NetWork = TCP, m_Type = HTTP, m_SrcIP = AddrZero, m_DstIP = AddrZero, m_SrcPort = [], m_DstPort = [],
     m_InIP = AddrZero, m_InPort = [], m_InName = [], m_InUser = [], m_Host = [], m_DNSMode = DNSNormal, m_Uid = 0,
     m_Process = [], m_ProcessPath = [], m_SpecialProxy = [], m_SpecialRules = [], m_RemoteDst = [], m_SniffHost = []\<rparr>"

definition parseSocksAddr :: "bytes \<Rightarrow> Metadata option" where
  "parseSocksAddr target =
     do {
       t \<leftarrow> idx target 0;
       if t = atypDomainName then do {
         l \<leftarrow> idx target 1;
         name \<leftarrow> slice target 2 (unat (2 + l));
         hi \<leftarrow> idx target (unat (2 + l));
         lo \<leftarrow> idx target (unat (2 + l + 1));
         Some (zero_metadata\<lparr>m_Host := TrimRightDot (of_bytes name), m_DstPort := port_text hi lo\<rparr>)
       } else if t = atypIPv4 then do {
         ip \<leftarrow> slice target 1 5;
         hi \<leftarrow> idx target 5;
         lo \<leftarrow> idx target 6;
         Some (zero_metadata\<lparr>m_DstIP := IpToAddr ip, m_DstPort := port_text hi lo\<rparr>)
       } else if t = atypIPv6 then do {
         ip \<leftarrow> slice target 1 17;
         hi \<leftarrow> idx target 17;
         lo \<leftarrow> idx target 18;
         Some (zero_metadata\<lparr>m_DstIP := Unmap (case AddrFromSlice ip of Some a \<Rightarrow> a | None \<Rightarrow> AddrZero), m_DstPort := port_text hi lo\<rparr>)
       } else Some zero_metadata
     }"

definition serializesSocksAddr :: "Metadata \<Rightarrow> bytes" where
  "serializesSocksAddr m =
     (let addrType = AddrType m;
          aType = of_nat addrType :: 8 word;
          port = u16_bytes (of_nat (ParseUint_val 16 (m_DstPort m)))
      in if addrType = AtypDomainName
         then [aType, of_nat (length (m_Host m))] @ to_bytes (m_Host m) @ port
         else aType # AsSlice (m_DstIP m) @ port)"

lemma socks_name_long:
  assumes "length name = n" "n \<le> 255"
  shows "parseSocksAddr ([3, of_nat n] @ to_bytes name @ [hi, lo]) =
    (if n \<le> 252 then Some (zero_metadata\<lparr>m_Host := TrimRightDot name, m_DstPort := port_text hi lo\<rparr>)
     else if n = 253 then Some (zero_metadata\<lparr>m_Host := TrimRightDot name, m_DstPort := port_text hi 3\<rparr>)
     else None)"
proof -
  let ?a = "[3, of_nat n] @ to_bytes name @ [hi, lo] :: bytes"
  have l: "length ?a = n + 4" using assms(1) by simp
  have i: "idx ?a 0 = Some 3" "idx ?a 1 = Some (of_nat n)" "idx ?a (n + 2) = Some hi" "idx ?a (n + 3) = Some lo"
    using assms(1) by (simp_all add: idx_def nth_append numeral_3_eq_3)
  have s: "slice ?a 2 (n + 2) = Some (to_bytes name)" using assms(1) by (simp add: slice_def)
  have w: "unat (2 + of_nat n :: 8 word) = (n + 2) mod 256" "unat (2 + of_nat n + 1 :: 8 word) = (n + 3) mod 256"
    using unat_of_nat [where 'a = 8, of "n + 2"] unat_of_nat [where 'a = 8, of "n + 3"] by (simp_all add: add.commute add.assoc)
  consider "n \<le> 252" | "n = 253" | "n = 254" | "n = 255" using assms(2) by linarith
  then show ?thesis
  proof cases
    case 1
    then show ?thesis using i s w by (simp add: parseSocksAddr_def)
  next
    case 2
    then show ?thesis using i s w by (simp add: parseSocksAddr_def)
  next
    case 3
    then show ?thesis using i w l by (simp add: parseSocksAddr_def slice_def)
  next
    case 4
    then show ?thesis using i w l by (simp add: parseSocksAddr_def slice_def)
  qed
qed

text \<open>C38: a SOCKS address with a name of at most 252 bytes is read as the name and its port; with 253 bytes the low
  byte of the port is replaced by 3, the type byte of the address; with 254 or 255 bytes the conversion panics.\<close>

theorem socks_name_length:
  assumes "length name = n" "n \<le> 255"
  shows "parseSocksAddr ([3, of_nat n] @ to_bytes name @ [hi, lo]) =
    (if n \<le> 252 then Some (zero_metadata\<lparr>m_Host := TrimRightDot name, m_DstPort := port_text hi lo\<rparr>)
     else if n = 253 then Some (zero_metadata\<lparr>m_Host := TrimRightDot name, m_DstPort := port_text hi 3\<rparr>)
     else None)"
  by (rule socks_name_long [OF assms])

text \<open>C39: what an outbound writes for a connection an inbound reads as a connection to the same place: the name without the
  dots at its end, or the address, and the port, as long as a name has at most 252 bytes.\<close>

theorem socks_metadata_roundtrip:
  assumes "m_Host m = [] \<longrightarrow> addr_IsValid (m_DstIP m) \<and> Unmap (m_DstIP m) = m_DstIP m" "length (m_Host m) \<le> 252"
    "m_DstPort m = decimal p" "p < 65536"
  shows "socks_ok (serializesSocksAddr m) \<and>
    parseSocksAddr (serializesSocksAddr m) = Some (zero_metadata\<lparr>
      m_Host := TrimRightDot (m_Host m), m_DstIP := (if m_Host m = [] then m_DstIP m else AddrZero), m_DstPort := m_DstPort m\<rparr>)"
proof -
  have v: "ParseUint_val 16 (m_DstPort m) = p"
    using assms(3,4) decimal_digits [of p] by (simp add: ParseUint_val_def)
  obtain hi lo where b: "u16_bytes (of_nat p) = [hi, lo]"
    using u_bytes(1) [of "of_nat p"] by (metis (no_types, opaque_lifting) One_nat_def Suc_1 length_0_conv length_Suc_conv)
  have hl: "port_text hi lo = decimal p"
  proof -
    have "hi = ucast (drop_bit 8 (of_nat p :: 16 word))" "lo = ucast (of_nat p :: 16 word)"
      using b by (simp_all add: u16_bytes_def bytes_of_def numeral_2_eq_2)
    then have "unat hi = p div 256" "unat lo = p mod 256"
      using assms(4) by (simp_all add: unsigned_ucast_eq unat_div_distrib unat_of_nat drop_bit_eq_div take_bit_eq_mod)
    then show ?thesis by (simp add: port_text_def)
  qed
  show ?thesis
  proof (cases "m_Host m = []")
    case False
    then have s: "serializesSocksAddr m = [3, of_nat (length (m_Host m))] @ to_bytes (m_Host m) @ [hi, lo]"
      using v b by (simp add: serializesSocksAddr_def AddrType_def AtypDomainName_def Let_def)
    have "socks_ok (serializesSocksAddr m)"
      using assms(2) unat_len [of "length (m_Host m)"] unfolding s socks_ok_iff by simp
    moreover have "parseSocksAddr (serializesSocksAddr m) =
        Some (zero_metadata\<lparr>m_Host := TrimRightDot (m_Host m), m_DstPort := port_text hi lo\<rparr>)"
      using socks_name_long [OF refl, of "m_Host m" hi lo] assms(2) unfolding s by simp
    ultimately show ?thesis using False hl assms(3) by (simp add: zero_metadata_def)
  next
    case True
    then have ip: "addr_IsValid (m_DstIP m)" "Unmap (m_DstIP m) = m_DstIP m" using assms(1) by simp_all
    have t: "TrimRightDot [] = []" by (simp add: TrimRightDot_def)
    show ?thesis
    proof (cases "m_DstIP m")
      case AddrZero
      with ip show ?thesis by (simp add: addr_IsValid_def)
    next
      case (V4 w)
      then have s: "serializesSocksAddr m = 1 # bytes_of 4 w @ [hi, lo]"
        using True v b by (simp add: serializesSocksAddr_def AddrType_def AtypDomainName_def AtypIPv4_def addr_IsValid_def Let_def)
      have "IpToAddr (bytes_of 4 w) = V4 w" by (simp add: IpToAddr_def AddrFromSlice_def word_of_bytes_of)
      then have "parseSocksAddr (serializesSocksAddr m) = Some (zero_metadata\<lparr>m_DstIP := V4 w, m_DstPort := port_text hi lo\<rparr>)"
        unfolding s by (simp add: parseSocksAddr_def slice_def idx_def nth_append)
      with V4 True hl assms(3) t s show ?thesis by (simp add: zero_metadata_def socks_ok_iff)
    next
      case (V6 w)
      then have s: "serializesSocksAddr m = 4 # bytes_of 16 w @ [hi, lo]"
        using True v b by (simp add: serializesSocksAddr_def AddrType_def AtypDomainName_def AtypIPv6_def addr_IsValid_def Let_def)
      have "parseSocksAddr (serializesSocksAddr m) = Some (zero_metadata\<lparr>m_DstIP := V6 w, m_DstPort := port_text hi lo\<rparr>)"
        unfolding s using ip(2) V6 by (simp add: parseSocksAddr_def slice_def idx_def nth_append AddrFromSlice_def word_of_bytes_of)
      with V6 True hl assms(3) t s show ?thesis by (simp add: zero_metadata_def socks_ok_iff)
    qed
  qed
qed

section \<open>Examples\<close>

lemma socks_name_length_witness:
  "parseSocksAddr ([3, of_nat 253] @ to_bytes (replicate 253 CHR ''a'') @ [1, 187]) =
     Some (zero_metadata\<lparr>m_Host := TrimRightDot (replicate 253 CHR ''a''), m_DstPort := port_text 1 3\<rparr>)"
  using socks_name_length [of "replicate 253 CHR ''a''" 253 1 187] by simp

definition demo_user :: "string \<times> string" where "demo_user = (''me'', ''pw'')"

theorem socks5_handshake_witness:
  "talks (ServerHandshake (NewAuthenticator [demo_user]) (Some [1, 127, 0, 0, 1, 4, 56]))
     (client_says (NewAuthenticator [demo_user]) (Some demo_user) 1 [3, 1, 120, 0, 80])
     (server_says (NewAuthenticator [demo_user]) [1, 127, 0, 0, 1, 4, 56]) 3 ([3, 1, 120, 0, 80], 1) \<and>
   talks (ClientHandshake [3, 1, 120, 0, 80] 1 (Some demo_user))
     (server_says (NewAuthenticator [demo_user]) [1, 127, 0, 0, 1, 4, 56])
     (client_says (NewAuthenticator [demo_user]) (Some demo_user) 1 [3, 1, 120, 0, 80]) 3 [1, 127, 0, 0, 1, 4, 56]"
proof -
  have "socks_ok [3, 1, 120, 0, 80]" "socks_ok [1, 127, 0, 0, 1, 4, 56]" by (simp_all add: socks_ok_iff)
  moreover have "\<exists>u. Some demo_user = Some u \<and> good_user u \<and> Verify au (fst u) (snd u)"
    if "NewAuthenticator [demo_user] = Some au" for au
    using that by (auto simp: NewAuthenticator_def demo_user_def good_user_def Verify_def)
  ultimately show ?thesis
    using socks5_handshake [of "[3, 1, 120, 0, 80]" "[1, 127, 0, 0, 1, 4, 56]" 1 "NewAuthenticator [demo_user]" "Some demo_user"]
    by (auto simp: NewAuthenticator_def)
qed

theorem socks_metadata_roundtrip_witness:
  "socks_ok (serializesSocksAddr (zero_metadata\<lparr>m_Host := ''x.org'', m_DstPort := decimal 443\<rparr>)) \<and>
   parseSocksAddr (serializesSocksAddr (zero_metadata\<lparr>m_Host := ''x.org'', m_DstPort := decimal 443\<rparr>)) =
     Some (zero_metadata\<lparr>m_Host := TrimRightDot ''x.org'', m_DstPort := decimal 443\<rparr>)"
  using socks_metadata_roundtrip [of "zero_metadata\<lparr>m_Host := ''x.org'', m_DstPort := decimal 443\<rparr>" 443]
  by (simp add: zero_metadata_def)

end
