(* ===== verification/Socks4.thy ===== *)
theory Socks4 imports Socks5 Rules begin

text \<open>
  The SOCKS4 and SOCKS4A handshakes (\<^verbatim>\<open>transport/socks4/socks4.go\<close>).
\<close>

section \<open>Definitions\<close>

definition socks4_subnet :: Prefix where
  "socks4_subnet = \<lparr>pfx_Addr = V4 0, pfx_Bits = 24\<rparr>"

definition isReservedIP :: "Addr \<Rightarrow> bool" where
  "isReservedIP ip \<longleftrightarrow> \<not> IsUnspecified ip \<and> pfx_Contains socks4_subnet ip"

fun nullLoop :: "bytes \<Rightarrow> bytes \<Rightarrow> bytes \<times> (io_error + bytes)" where
  "nullLoop buf [] = ([], Inl EOF)"
| "nullLoop buf (b # bs) = (if b = 0 then (bs, Inr buf) else nullLoop (buf @ [b]) bs)"

definition readUntilNull :: "bytes io" where
  "readUntilNull c = (case nullLoop [] (c_in c) of (rest, r) \<Rightarrow> Some (c\<lparr>c_in := rest\<rparr>, r))"

definition errVersionMismatched :: io_error where "errVersionMismatched = ErrMsg ''version code mismatched''"
definition errCommand4 :: io_error where "errCommand4 = ErrMsg ''command not supported''"
definition errIPv6NotSupported :: io_error where "errIPv6NotSupported = ErrMsg ''IPv6 not supported''"
definition errRequestRejected :: io_error where "errRequestRejected = ErrMsg ''request rejected or failed''"
definition errIdentdFailed :: io_error where
  "errIdentdFailed = ErrMsg ''request rejected because SOCKS server cannot connect to identd on the client''"
definition errIdentdMismatched :: io_error where
  "errIdentdMismatched = ErrMsg ''request rejected because the client program and identd report different user-ids''"
definition errUnknownCode :: io_error where "errUnknownCode = ErrMsg ''request failed with unknown code''"

text \<open>What follows the first eight bytes of a request.\<close>

definition serverAnswer4 :: "net_text \<Rightarrow> authenticator option \<Rightarrow> 8 word \<Rightarrow> Addr \<Rightarrow> bytes \<Rightarrow> (string \<times> 8 word) io" where
  "serverAnswer4 N auth command dstIP dstPort =
     io_bind readUntilNull (\<lambda>userID.
       io_bind (if isReservedIP dstIP then readUntilNull else io_ret []) (\<lambda>target.
         let host = of_bytes target;
             port = decimal (unat (Uint16 dstPort));
             addr = (if host \<noteq> [] then JoinHostPort host port else JoinHostPort (addr_String N dstIP) port);
             granted = (case auth of None \<Rightarrow> True | Some au \<Rightarrow> Verify au (of_bytes userID) []);
             reply = [0, if granted then 90 else 93] @ dstPort @ AsSlice dstIP
         in if granted then io_then (io_Write reply) (io_ret (addr, command))
            else io_then (io_ignore (io_Write reply)) (io_fail errIdentdMismatched)))"

definition ServerHandshake4 :: "net_text \<Rightarrow> authenticator option \<Rightarrow> (string \<times> 8 word) io" where
  "ServerHandshake4 N auth =
     io_bind (ReadFull 8) (\<lambda>req.
       if req ! 0 \<noteq> 4 then io_fail errVersionMismatched
       else if req ! 1 \<noteq> CmdConnect then io_fail errCommand4
       else serverAnswer4 N auth (req ! 1) (V4 (word_of_bytes (take 4 (drop 4 req)))) (take 2 (drop 2 req)))"

definition request4 :: "8 word \<Rightarrow> 16 word \<Rightarrow> Addr \<Rightarrow> string \<Rightarrow> string \<Rightarrow> bytes" where
  "request4 command port dstIP userID host =
     [4, command] @ u16_bytes port @ AsSlice dstIP @ to_bytes userID @ [0] @
       (if isReservedIP dstIP then to_bytes host @ [0] else [])"

definition ClientHandshake4 :: "net_text \<Rightarrow> string \<Rightarrow> 8 word \<Rightarrow> string \<Rightarrow> unit io" where
  "ClientHandshake4 N addr command userID =
     (case SplitHostPort addr of
        None \<Rightarrow> io_fail (ErrMsg ''address'')
      | Some (host, portStr) \<Rightarrow>
          (case ParseUint 16 portStr of
             None \<Rightarrow> io_fail (ErrMsg ''port'')
           | Some port \<Rightarrow>
               let dstIP = (case ParseAddr N host of None \<Rightarrow> V4 1 | Some ip \<Rightarrow> ip)
               in if ParseAddr N host \<noteq> None \<and> Is6 dstIP then io_fail errIPv6NotSupported
                  else io_then (io_Write (request4 command (of_nat port) dstIP userID host))
                    (io_bind (ReadFull 8) (\<lambda>resp.
                       if resp ! 0 \<noteq> 0 then io_fail errVersionMismatched
                       else if resp ! 1 = 90 then io_ret ()
                       else if resp ! 1 = 91 then io_fail errRequestRejected
                       else if resp ! 1 = 92 then io_fail errIdentdFailed
                       else if resp ! 1 = 93 then io_fail errIdentdMismatched
                       else io_fail errUnknownCode))))"

section \<open>Client and server\<close>

lemma nullLoop_take: "0 \<notin> set name \<Longrightarrow> nullLoop buf (name @ 0 # rest) = (rest, Inr (buf @ name))"
  by (induction name arbitrary: buf) auto

lemma reads_until_null: "0 \<notin> set name \<Longrightarrow> reads readUntilNull (name @ [0]) name"
  by (simp add: reads_def readUntilNull_def nullLoop_take)

definition no_null :: "string \<Rightarrow> bool" where
  "no_null s \<longleftrightarrow> 0 \<notin> set (to_bytes s)"

lemma decimal_port: "p < 65536 \<Longrightarrow> ParseUint 16 (decimal p) = Some p"
  using decimal_digits [of p] by (simp add: ParseUint_def)

text \<open>C40: a client asks for a host and a port, by name or by an IPv4 address, and the server, when it takes the user, returns
  this host and this port and answers with what lets the client go on.\<close>

theorem socks4_handshake:
  assumes "SplitHostPort addr = Some (host, decimal p)" "p < 65536" "host \<noteq> []" "no_null host" "no_null userID"
    "dstIP = (case ParseAddr N host of None \<Rightarrow> V4 1 | Some ip \<Rightarrow> ip)" "dstIP = V4 w"
    "\<And>ip. ParseAddr N host = Some ip \<Longrightarrow> addr_String N ip = host"
    "\<And>au. auth = Some au \<Longrightarrow> Verify au userID []"
  shows "talks (ServerHandshake4 N auth) (request4 1 (of_nat p) dstIP userID host)
      ([0, 90] @ u16_bytes (of_nat p) @ bytes_of 4 w) 1 (JoinHostPort host (decimal p), 1) \<and>
    talks (ClientHandshake4 N addr 1 userID) ([0, 90] @ u16_bytes (of_nat p) @ bytes_of 4 w)
      (request4 1 (of_nat p) dstIP userID host) 1 ()"
proof
  let ?resp = "[0, 90] @ u16_bytes (of_nat p) @ bytes_of 4 w"
  let ?req = "[4, 1] @ u16_bytes (of_nat p) @ bytes_of 4 w"
  let ?host = "if isReservedIP (V4 w) then to_bytes host else []"
  have req: "length ?req = 8" "?req ! 0 = 4" "?req ! 1 = 1" "take 2 (drop 2 ?req) = u16_bytes (of_nat p)"
    "take 4 (drop 4 ?req) = bytes_of 4 w" by (simp_all add: nth_append)
  have named: "\<not> isReservedIP (V4 w) \<Longrightarrow> addr_String N (V4 w) = host"
  proof -
    assume r: "\<not> isReservedIP (V4 w)"
    have "isReservedIP (V4 1)" by code_simp
    with r assms(6,7) have "ParseAddr N host = Some (V4 w)" by (auto split: option.splits)
    then show ?thesis by (rule assms(8))
  qed
  have port: "unat (of_nat p :: 16 word) = p" using assms(2) by (simp add: unat_of_nat)
  have v: "(case auth of None \<Rightarrow> True | Some au \<Rightarrow> Verify au (of_bytes (to_bytes userID)) [])" using assms(9) by (auto split: option.splits)
  have host: "reads (if isReservedIP (V4 w) then readUntilNull else io_ret [])
      (if isReservedIP (V4 w) then to_bytes host @ [0] else []) ?host"
    using reads_until_null [of "to_bytes host"] assms(4) by (simp add: no_null_def reads_ret)
  have user: "reads readUntilNull (to_bytes userID @ [0]) (to_bytes userID)"
    using reads_until_null assms(5) by (simp add: no_null_def)
  let ?addr = "JoinHostPort host (decimal p)"
  have out: "talks (io_then (io_Write ?resp) (io_ret (?addr, 1))) [] (?resp @ []) (Suc 0) (?addr, 1 :: 8 word)"
    by (rule talks_write_then [OF talks_ret])
  have "talks (serverAnswer4 N auth 1 (V4 w) (u16_bytes (of_nat p)))
      ((to_bytes userID @ [0]) @ (if isReservedIP (V4 w) then to_bytes host @ [0] else []) @ []) (?resp @ []) (Suc 0) (?addr, 1)"
    unfolding serverAnswer4_def
    by (rule talks_read_bind [OF user], rule talks_read_bind [OF host])
      (use out v named assms(3) port in \<open>cases "isReservedIP (V4 w)"; simp add: Let_def of_bytes_def [of "[]"]\<close>)
  then have "talks (ServerHandshake4 N auth)
      (?req @ (to_bytes userID @ [0]) @ (if isReservedIP (V4 w) then to_bytes host @ [0] else []) @ []) (?resp @ []) (Suc 0) (?addr, 1)"
    unfolding ServerHandshake4_def
    by (intro talks_read_bind [OF reads_full [OF req(1)]]) (simp only: req word_of_bytes_of, simp)
  then show "talks (ServerHandshake4 N auth) (request4 1 (of_nat p) dstIP userID host) ?resp 1 (?addr, 1)"
    using assms(7) by (simp add: request4_def split: if_splits)
next
  let ?resp = "[0, 90] @ u16_bytes (of_nat p) @ bytes_of 4 w"
  let ?tail = "io_bind (ReadFull 8) (\<lambda>resp.
     if resp ! 0 \<noteq> 0 then io_fail errVersionMismatched
     else if resp ! 1 = 90 then io_ret ()
     else if resp ! 1 = 91 then io_fail errRequestRejected
     else if resp ! 1 = 92 then io_fail errIdentdFailed
     else if resp ! 1 = 93 then io_fail errIdentdMismatched
     else io_fail errUnknownCode)"
  have e: "ClientHandshake4 N addr 1 userID = io_then (io_Write (request4 1 (of_nat p) dstIP userID host)) ?tail"
  proof (cases "ParseAddr N host")
    case None
    then have "w = 1" using assms(6,7) by simp
    with None show ?thesis using assms(1,2,7) by (simp add: ClientHandshake4_def decimal_port Let_def)
  next
    case (Some a)
    then have "a = V4 w" using assms(6,7) by simp
    with Some show ?thesis using assms(1,2,7) by (simp add: ClientHandshake4_def decimal_port Let_def)
  qed
  have "talks ?tail (?resp @ []) [] 0 ()"
    by (rule talks_read_bind [OF reads_full]) (simp_all add: nth_append talks_ret)
  from talks_write_then [OF this, of "request4 1 (of_nat p) dstIP userID host"]
  have "talks (ClientHandshake4 N addr 1 userID) (?resp @ []) (request4 1 (of_nat p) dstIP userID host @ []) (Suc 0) ()"
    unfolding e .
  then show "talks (ClientHandshake4 N addr 1 userID) ?resp (request4 1 (of_nat p) dstIP userID host) 1 ()" by simp
qed

theorem socks4_handshake_witness:
  "talks (ServerHandshake4 demo_text (NewAuthenticator [(''me'', '''')])) (request4 1 80 (V4 1) ''me'' ''x.org'')
     ([0, 90] @ u16_bytes 80 @ bytes_of 4 (1 :: 32 word)) 1 (''x.org:80'', 1) \<and>
   talks (ClientHandshake4 demo_text ''x.org:80'' 1 ''me'') ([0, 90] @ u16_bytes 80 @ bytes_of 4 (1 :: 32 word))
     (request4 1 80 (V4 1) ''me'' ''x.org'') 1 ()"
proof -
  have s: "SplitHostPort ''x.org:80'' = Some (''x.org'', decimal 80)" "JoinHostPort ''x.org'' (decimal 80) = ''x.org:80''"
    "no_null ''x.org''" "no_null ''me''" "ParseAddr demo_text ''x.org'' = None"
    by code_simp+
  from socks4_handshake [OF s(1) _ _ s(3,4), of "V4 1" demo_text 1 "NewAuthenticator [(''me'', '''')]"] s(2,5)
  show ?thesis by (simp add: NewAuthenticator_def Verify_def)
qed

end
