(* ===== verification/Spec2Isabelle.thy ===== *)
theory Spec2Isabelle imports LruCache IpCidrTrie FakeIP DomainSet Metadata GeoIPMatcher ConfigRules LogicPayload RuleNeeds ProxyGroups DnsHandler UdpSession Socks4 begin

text \<open>
  Verification development of the proxy core under \<^verbatim>\<open>src/clash-meta\<close>: how a connection gets the name of
  its host, a rule, a proxy group and a proxy, and the data structures these decisions are taken on.

  \<^bold>\<open>How the parts interact.\<close> A listener hands a connection to \<^verbatim>\<open>tunnel/tunnel.go\<close>. \<^verbatim>\<open>preHandleMetadata\<close> turns
  a fake address back into a host by the pool of \<^verbatim>\<open>component/fakeip\<close>, which keeps its pairs in the LRU
  cache of \<^verbatim>\<open>common/cache\<close> (over the list of \<^verbatim>\<open>common/generics/list\<close>) or in the cache file. \<^verbatim>\<open>match\<close> walks over the
  rules the configuration was parsed to; a rule looks at the metadata by the matchers of \<^verbatim>\<open>rules/common\<close>, at
  the geo databases by the prefix tables and string matchers of \<^verbatim>\<open>component/geodata\<close>, at a rule set by the tries
  and sets of \<^verbatim>\<open>component/trie\<close>, and at other rules by the logic rules. The rule names a proxy, which may
  be a group of \<^verbatim>\<open>adapter/outboundgroup\<close> that chooses among its members by their delays.

  \<^bold>\<open>The theories\<close>, bottom up.
  \<^item> \<open>GoPrelude\<close>: the outcomes of Go code (\<open>run\<close>: a value, a panic, or no end within the bound), the standard library
    on strings and numbers, and the lemmas on lists, strings and outcomes all theories share. \<open>GoNet\<close>:
    addresses and prefixes of \<^verbatim>\<open>net/netip\<close> as 32- and 128-bit words, and \<^verbatim>\<open>common/nnip\<close>.
  \<^item> \<open>LinkedList\<close>, \<open>LruCache\<close>: the ring of elements as a heap with one map per field; every operation refines its
    effect on the sequence of values (\<^verbatim>\<open>common/generics/list/list.go\<close>, \<^verbatim>\<open>common/cache/lrucache.go\<close>). The cache
    rests on the list by the contract \<open>sequence_heap\<close>.
  \<^item> \<open>CacheFile\<close>, \<open>FakeIP\<close>: the two stores and the pool (\<^verbatim>\<open>component/profile/cachefile\<close>, \<^verbatim>\<open>component/fakeip\<close>). The pool is
    proved once over the contract \<open>fakeip_store\<close>, which the memory store provides, and the cache file over a database whose
    transactions do not fail; what an address was given out for is what
    it is looked back to.
  \<^item> \<open>DomainTrie\<close>, \<open>DomainSet\<close>, \<open>IpCidrTrie\<close>: the tries of \<^verbatim>\<open>component/trie\<close> against the patterns and networks put
    into them.
  \<^item> \<open>StrMatcher\<close>, \<open>AcAutomaton\<close>, \<open>MphMatcher\<close>, \<open>GeoIPMatcher\<close>, \<open>GeoSite\<close>: \<^verbatim>\<open>component/geodata\<close>; the two groups of string
    matchers implement the contract \<open>index_matcher\<close>, the two orders of prefixes \<open>prefix_order\<close>.
  \<^item> \<open>Metadata\<close>, \<open>Rules\<close>, \<open>RuleLogic\<close>, \<open>LogicPayload\<close>, \<open>RuleNeeds\<close>, \<open>RuleProvider\<close>, \<open>RuleMatch\<close>, \<open>ConfigRules\<close>: connections
    (\<^verbatim>\<open>constant\<close>), rules (\<^verbatim>\<open>rules\<close>) from their text to their evaluation, and the rules of a configuration
    (\<^verbatim>\<open>config\<close>). A rule refers to lists and providers by name, so rules are evaluated in an environment.
    The three strategies of a provider implement the contract \<open>rule_strategy\<close>.
  \<^item> \<open>ProxyGroups\<close>, \<open>Murmur3\<close>, \<open>ProxyState\<close>, \<open>OutboundGroup\<close>: the order in which groups are made
    (\<^verbatim>\<open>config/utils.go\<close>), hashing, the state of a proxy and its delay test (\<^verbatim>\<open>adapter/adapter.go\<close>), and the choice
    of the groups.
  \<^item> \<open>Resolver\<close>, \<open>Tunnel\<close>, \<open>UdpSession\<close>: the hosts table and the lookups (\<^verbatim>\<open>component/resolver\<close>), the way of a connection
    to its proxy (\<^verbatim>\<open>tunnel\<close>, \<^verbatim>\<open>dns/enhancer.go\<close>), and the packets of one UDP client as a step relation over the
    shared table (\<^verbatim>\<open>component/nat\<close>).
  \<^item> \<open>DnsResolver\<close>, \<open>DnsHandler\<close>: the cache, policies, fallback filters and lookups of the resolver (\<^verbatim>\<open>dns/resolver.go\<close>,
    \<^verbatim>\<open>dns/filters.go\<close>, \<^verbatim>\<open>dns/util.go\<close>, \<^verbatim>\<open>common/picker\<close>), and the handlers of the DNS server over the hosts table, the
    fake-IP pool and the mapping (\<^verbatim>\<open>dns/middleware.go\<close>, \<^verbatim>\<open>dns/server.go\<close>).
  \<^item> \<open>GoIO\<close>, \<open>Socks5\<close>, \<open>Socks4\<close>: connections as the bytes that come in and go out, with the contract \<open>wire\<close> between a writer and
    a reader of one format; \<^verbatim>\<open>transport/socks5\<close>, \<^verbatim>\<open>transport/socks4\<close>, \<^verbatim>\<open>component/auth\<close> and the conversions between SOCKS
    addresses and metadata (\<^verbatim>\<open>adapter/inbound/util.go\<close>, \<^verbatim>\<open>adapter/outbound/util.go\<close>).
  \<^bold>\<open>Conventions.\<close> A panic of Go (an index out of range, a nil pointer, an integer division by zero) is \<open>Panic\<close> or
  \<open>None\<close>; an error that is returned is the left part of a sum. Strings are lists of bytes. A map whose order
  matters is an association list in the order of the walk; otherwise it is a function to options. Mutexes are left
  out where every operation holds one from its start to its end; \<open>UdpSession\<close>, where it does not, interleaves.
  Callbacks, clocks, random draws, sorting that is not stable, the YAML, JSON and DNS libraries, databases on disk and the
  network are arguments of the definitions that use them.

  \<^bold>\<open>Bounds.\<close> Recursion through names of lists and of providers takes a depth; \<open>configured_rules_return\<close> shows that the
  number of lists plus the layers of the providers is enough for an accepted configuration. The walk through the hosts
  table takes a number of rounds, enough when a rank falls along its names, and \<open>hosts_self_alias_hangs\<close> shows
  that no bound is enough for a domain that is its own alias. Loops of the code with a fixed number of tries (ten of \<^verbatim>\<open>retry\<close>, five of consistent
  hashing, four of sticky sessions) have exactly that number. Every other loop is a total function.

  \<^bold>\<open>Not modelled.\<close> The transports and outbound protocols whose work is done by cryptographic, TLS, QUIC or HTTP
  libraries; listeners, the relaying of connections and all sockets; the DNS clients, which
  work on messages of a library; eBPF and the tables of the operating system; the
  control interface; downloads, timers and files of providers; the decoding of a configuration by reflection and the
  wiring of its parts; logging. These are input and output, generated code, or thin layers over libraries that are not
  in the repository.
\<close>

end
